(* ===== verification/Prelude.thy ===== *)
theory Prelude
  imports Main
begin

text \<open>
  Shared vocabulary of the development: revision numbers, the exceptions the
  modelled Python code raises, the result type that carries them, Python's
  descending \<open>range\<close>, and the generic list and set lemmas the components use.
\<close>

section \<open>Revision numbers\<close>

type_synonym rev = int

text \<open>\<open>node.nullrev\<close>: the revision number of the null revision.\<close>

abbreviation nullrev :: rev where
  "nullrev \<equiv> - 1"

text \<open>A parent function, as \<open>changelog.parentrevs\<close>: revision to parent revisions.\<close>

type_synonym pfunc = "rev \<Rightarrow> rev list"

lemma revs_nonneg: "S \<subseteq> {nullrev..} \<Longrightarrow> nullrev \<notin> S \<Longrightarrow> S \<subseteq> {0..}"
proof
  fix x assume "S \<subseteq> {nullrev..}" "nullrev \<notin> S" "x \<in> S"
  then have "nullrev \<le> x" "x \<noteq> nullrev" by auto
  then show "x \<in> {0..}" by simp
qed

section \<open>Exceptions and results\<close>

datatype pyerror =
    ValueError
  | KeyError
  | IndexError
  | TypeError
  | AssertionError
  | StructError
  | MpatchError
  | ParseError string
  | Abort string
  | ProgrammingError string
  | LookupError string
  | RevlogError string
  | WdirUnsupported
  | IOError
  | AttributeError
  | CBORDecodeError string

type_synonym 'a res = "pyerror + 'a"

definition bindE :: "'a res \<Rightarrow> ('a \<Rightarrow> 'b res) \<Rightarrow> 'b res" where
  "bindE r f = (case r of Inl e \<Rightarrow> Inl e | Inr x \<Rightarrow> f x)"

lemma bindE_simps [simp]:
  "bindE (Inl e) f = Inl e"
  "bindE (Inr x) f = f x"
  by (simp_all add: bindE_def)

lemma bindE_Inr_iff: "bindE r f = Inr y \<longleftrightarrow> (\<exists>x. r = Inr x \<and> f x = Inr y)"
  by (cases r) auto

lemma bindE_Inl_iff: "bindE r f = Inl e \<longleftrightarrow> r = Inl e \<or> (\<exists>x. r = Inr x \<and> f x = Inl e)"
  by (cases r) auto

text \<open>\<open>max(s)\<close> and \<open>min(s)\<close> raise ValueError on an empty collection.\<close>

definition py_max :: "int set \<Rightarrow> int res" where
  "py_max s = (if s = {} then Inl ValueError else Inr (Max s))"

definition py_min :: "int set \<Rightarrow> int res" where
  "py_min s = (if s = {} then Inl ValueError else Inr (Min s))"

section \<open>Python's descending range\<close>

text \<open>\<open>range(start, stop, -1)\<close>: from \<open>start\<close> down to \<open>stop + 1\<close>.\<close>

definition range_desc :: "int \<Rightarrow> int \<Rightarrow> int list" where
  "range_desc start stop = List.rev [stop + 1..start]"

lemma set_range_desc [simp]: "set (range_desc a b) = {b<..a}"
  by (auto simp: range_desc_def)

lemma range_desc_Nil: "a \<le> b \<Longrightarrow> range_desc a b = []"
  by (simp add: range_desc_def)

lemma range_desc_Cons: "b < a \<Longrightarrow> range_desc a b = a # range_desc (a - 1) b"
  using upto_rec2 [of "b + 1" a] by (simp add: range_desc_def)

lemma range_desc_code [code]:
  "range_desc a b = (if b < a then a # range_desc (a - 1) b else [])"
  by (simp add: range_desc_Nil range_desc_Cons)

lemma range_desc_induct [case_names Nil Cons]:
  fixes a b :: int
  assumes "\<And>a. a \<le> b \<Longrightarrow> P a" and "\<And>a. b < a \<Longrightarrow> P (a - 1) \<Longrightarrow> P a"
  shows "P a"
proof (induction "nat (a - b)" arbitrary: a)
  case 0
  then show ?case using assms(1) by simp
next
  case (Suc n)
  then have "n = nat ((a - 1) - b)" by simp
  then have "P (a - 1)" by (rule Suc.hyps(1))
  with Suc.hyps(2) show ?case using assms(2) [of a] by simp
qed

section \<open>Work-list loops\<close>

text \<open>
  The measure of a work-list loop over a finite universe \<open>U\<close>: seeing the new
  entries \<open>ns\<close> takes as many from what is unseen.
\<close>

lemma card_unseen:
  assumes "finite U" "set ns \<subseteq> U - seen" "distinct ns"
  shows "card (U - seen) = card (U - (seen \<union> set ns)) + length ns"
proof -
  have "card ((U - seen) - set ns) = card (U - seen) - length ns"
    using assms by (subst card_Diff_subset) (auto simp: distinct_card)
  moreover have "length ns \<le> card (U - seen)"
    using assms card_mono [of "U - seen" "set ns"] by (simp add: distinct_card)
  moreover have "(U - seen) - set ns = U - (seen \<union> set ns)" by auto
  ultimately show ?thesis by simp
qed

end
