(* ===== verification/Dag.thy ===== *)
theory Dag
  imports Prelude
begin

text \<open>
  The commit graph as the algorithms of \<open>ancestor.py\<close> and \<open>dagutil.py\<close> see it:
  a parent function on revision numbers. This theory holds the mathematical
  notions the properties are stated with (ancestors, heads, the numbering
  condition) and the interface \<open>dag\<close>: a store whose parent function numbers
  parents below their children. The clients' lemmas are proved in that locale;
  the providers interpret it.
\<close>

section \<open>Ancestors\<close>

text \<open>One step from a revision to one of its parents; the null revision is no vertex.\<close>

definition parrel :: "pfunc \<Rightarrow> (rev \<times> rev) set" where
  "parrel pf = {(v, p). p \<in> set (pf v) \<and> p \<noteq> nullrev}"

text \<open>\<open>::S\<close>: all ancestors of the revisions in \<open>S\<close>, themselves included.\<close>

definition ancs :: "pfunc \<Rightarrow> rev set \<Rightarrow> rev set" where
  "ancs pf S = (parrel pf)\<^sup>* `` (S - {nullrev})"

text \<open>\<open>heads(S)\<close>: the members of \<open>S\<close> that are no ancestor of another member.\<close>

definition heads_of :: "pfunc \<Rightarrow> rev set \<Rightarrow> rev set" where
  "heads_of pf S = {h \<in> S. \<forall>u \<in> S. h \<in> ancs pf {u} \<longrightarrow> u = h}"

text \<open>Revisions are numbered so that parents come before their children.\<close>

definition topo :: "pfunc \<Rightarrow> bool" where
  "topo pf \<longleftrightarrow> (\<forall>v p. 0 \<le> v \<longrightarrow> p \<in> set (pf v) \<longrightarrow> nullrev \<le> p \<and> p < v)"

text \<open>
  What a walk from the top of the graph down to \<open>c\<close> knows: the start revisions
  and the parents of the ancestors above \<open>c\<close>.
\<close>

definition front :: "pfunc \<Rightarrow> rev set \<Rightarrow> int \<Rightarrow> rev set" where
  "front pf S c = {v. v \<in> S \<or> (\<exists>u. u \<in> ancs pf S \<and> c < u \<and> v \<in> set (pf u))}"

named_theorems ancs_intros \<open>ways to be an ancestor\<close>

lemma ancs_start [ancs_intros]: "v \<in> S \<Longrightarrow> v \<noteq> nullrev \<Longrightarrow> v \<in> ancs pf S"
  by (auto simp: ancs_def)

lemma ancs_parent [ancs_intros]:
  "v \<in> ancs pf S \<Longrightarrow> p \<in> set (pf v) \<Longrightarrow> p \<noteq> nullrev \<Longrightarrow> p \<in> ancs pf S"
  by (auto simp: ancs_def parrel_def intro: rtrancl_into_rtrancl)

lemma ancs_induct [consumes 1, case_names start parent]:
  assumes "a \<in> ancs pf S"
    and "\<And>v. v \<in> S \<Longrightarrow> v \<noteq> nullrev \<Longrightarrow> P v"
    and "\<And>v p. v \<in> ancs pf S \<Longrightarrow> P v \<Longrightarrow> p \<in> set (pf v) \<Longrightarrow> p \<noteq> nullrev \<Longrightarrow> P p"
  shows "P a"
proof -
  from assms(1) obtain s where s: "s \<in> S" "s \<noteq> nullrev" and "(s, a) \<in> (parrel pf)\<^sup>*"
    by (auto simp: ancs_def)
  from this(3) have "P a \<and> a \<in> ancs pf S"
  proof (induction rule: rtrancl_induct)
    case base
    with s assms(2) show ?case by (auto intro: ancs_start)
  next
    case (step y z)
    then have "z \<in> set (pf y)" "z \<noteq> nullrev" by (auto simp: parrel_def)
    with step.IH assms(3) show ?case by (auto intro: ancs_parent)
  qed
  then show ?thesis ..
qed

lemma ancs_unfold:
  "a \<in> ancs pf S \<longleftrightarrow> a \<noteq> nullrev \<and> (a \<in> S \<or> (\<exists>v \<in> ancs pf S. a \<in> set (pf v)))"
  (is "_ \<longleftrightarrow> ?r")
proof
  assume "a \<in> ancs pf S"
  then show ?r by (induction rule: ancs_induct) auto
qed (auto intro: ancs_intros)

lemma ancs_of_parent:
  "p \<in> set (pf u) \<Longrightarrow> u \<noteq> nullrev \<Longrightarrow> p \<noteq> nullrev \<Longrightarrow> p \<in> ancs pf {u}"
  by (rule ancs_parent [OF ancs_start]) auto

lemma ancs_mono: "S \<subseteq> T \<Longrightarrow> ancs pf S \<subseteq> ancs pf T"
  by (auto simp: ancs_def)

lemma ancs_Un: "ancs pf (S \<union> T) = ancs pf S \<union> ancs pf T"
  by (auto simp: ancs_def)

lemma ancs_Union: "ancs pf S = (\<Union>v\<in>S. ancs pf {v})"
  by (auto simp: ancs_def)

lemma ancs_empty [simp]: "ancs pf {} = {}"
  by (simp add: ancs_def)

lemma ancs_null [simp]: "ancs pf {nullrev} = {}"
  by (simp add: ancs_def)

lemma null_notin_ancs [simp]: "nullrev \<notin> ancs pf S"
  using ancs_unfold [of nullrev] by simp

lemma ancs_trans: "a \<in> ancs pf S \<Longrightarrow> S \<subseteq> ancs pf T \<Longrightarrow> a \<in> ancs pf T"
  by (induction rule: ancs_induct) (auto intro: ancs_intros)

lemma ancs_single_trans: "a \<in> ancs pf {b} \<Longrightarrow> b \<in> ancs pf T \<Longrightarrow> a \<in> ancs pf T"
  by (erule ancs_trans) simp

lemma ancs_idem: "ancs pf (ancs pf S) = ancs pf S"
proof
  show "ancs pf (ancs pf S) \<subseteq> ancs pf S"
    by (auto elim: ancs_trans)
  show "ancs pf S \<subseteq> ancs pf (ancs pf S)"
  proof
    fix x assume "x \<in> ancs pf S"
    then show "x \<in> ancs pf (ancs pf S)"
      by (cases "x = nullrev") (auto intro: ancs_start)
  qed
qed

lemma ancs_between: "S \<subseteq> T \<Longrightarrow> T \<subseteq> insert nullrev (ancs pf S) \<Longrightarrow> ancs pf T = ancs pf S"
proof (rule antisym)
  assume "T \<subseteq> insert nullrev (ancs pf S)"
  then have "ancs pf T \<subseteq> ancs pf (insert nullrev (ancs pf S))" by (rule ancs_mono)
  also have "\<dots> = ancs pf S"
    using ancs_Un [of pf "{nullrev}" "ancs pf S"] by (simp add: ancs_idem)
  finally show "ancs pf T \<subseteq> ancs pf S" .
qed (rule ancs_mono)

lemma front_start: "\<forall>s \<in> S. s \<le> c \<Longrightarrow> \<forall>u \<in> ancs pf S. u \<le> c \<Longrightarrow> front pf S c = S"
  by (fastforce simp: front_def)

lemma front_step:
  "front pf S (c - 1) = front pf S c \<union> (if c \<in> ancs pf S then set (pf c) else {})"
proof -
  have "c - 1 < u \<longleftrightarrow> c < u \<or> u = c" for u :: int by auto
  then show ?thesis by (auto simp: front_def)
qed

lemma front_subset: "front pf S c \<subseteq> S \<union> insert nullrev (ancs pf S)"
  by (auto simp: front_def intro: ancs_parent)

section \<open>The interface of a revision store\<close>

locale dag =
  fixes wf :: "'s \<Rightarrow> bool"
    and parents :: "'s \<Rightarrow> pfunc"
  assumes parents_below:
    "wf s \<Longrightarrow> 0 \<le> v \<Longrightarrow> p \<in> set (parents s v) \<Longrightarrow> nullrev \<le> p \<and> p < v"
begin

lemma parent_bounds:
  assumes "wf s" "0 \<le> v" "p \<in> set (parents s v)" "p \<noteq> nullrev"
  shows "0 \<le> p \<and> p < v"
  using parents_below [OF assms(1-3)] assms(4) by auto

lemma parents_all_below: "wf s \<Longrightarrow> \<forall>p \<in> set (parents s (int v)). nullrev \<le> p \<and> p < int v"
  using parents_below [of s "int v"] by auto

lemma ancs_bounds:
  assumes "wf s" "S \<subseteq> {nullrev..}" "a \<in> ancs (parents s) S"
  shows "0 \<le> a \<and> (\<exists>v \<in> S. a \<le> v)"
  using assms(3)
proof (induction rule: ancs_induct)
  case (start v)
  with assms(2) have "nullrev \<le> v" by auto
  with start show ?case by (auto intro!: bexI [of _ v])
next
  case (parent v p)
  then obtain w where "w \<in> S" "v \<le> w" "0 \<le> v" by auto
  with parent.hyps parent_bounds [OF assms(1), of v p] show ?case
    by (auto intro!: bexI [of _ w])
qed

lemma ancs_le: "wf s \<Longrightarrow> nullrev \<le> v \<Longrightarrow> a \<in> ancs (parents s) {v} \<Longrightarrow> 0 \<le> a \<and> a \<le> v"
  using ancs_bounds [of s "{v}" a] by auto

lemma ancs_upper:
  "wf s \<Longrightarrow> S \<subseteq> {nullrev..} \<Longrightarrow> \<forall>v \<in> S. v \<le> c \<Longrightarrow> a \<in> ancs (parents s) S \<Longrightarrow> a \<le> c"
  using ancs_bounds [of s S a] by force

lemma finite_ancs: "wf s \<Longrightarrow> finite S \<Longrightarrow> S \<subseteq> {nullrev..} \<Longrightarrow> finite (ancs (parents s) S)"
proof (rule finite_subset)
  assume "wf s" "finite S" "S \<subseteq> {nullrev..}"
  then show "ancs (parents s) S \<subseteq> (\<Union>v\<in>S. {0..v})"
    using ancs_bounds by fastforce
qed simp

lemma ancs_antisym:
  assumes "wf s" "a \<in> ancs (parents s) {b}" "b \<in> ancs (parents s) {a}" "0 \<le> a" "0 \<le> b"
  shows "a = b"
  using ancs_le [OF assms(1) _ assms(2)] ancs_le [OF assms(1) _ assms(3)] assms(4,5) by auto

text \<open>A walk that has dealt with everything above \<open>c\<close> knows whether \<open>c\<close> is an ancestor.\<close>

lemma ancs_front:
  assumes "wf s" "S \<subseteq> {nullrev..}" "0 \<le> c"
  shows "c \<in> ancs (parents s) S \<longleftrightarrow> c \<in> front (parents s) S c"
proof
  assume "c \<in> ancs (parents s) S"
  then have "c \<in> S \<or> (\<exists>v \<in> ancs (parents s) S. c \<in> set (parents s v))"
    using ancs_unfold by blast
  then show "c \<in> front (parents s) S c"
  proof
    assume "\<exists>v \<in> ancs (parents s) S. c \<in> set (parents s v)"
    then obtain v where v: "v \<in> ancs (parents s) S" "c \<in> set (parents s v)" by blast
    from ancs_bounds [OF assms(1,2) v(1)] have "0 \<le> v" by simp
    with parents_below [OF assms(1) _ v(2)] have "c < v" by simp
    with v show ?thesis by (auto simp: front_def)
  qed (simp add: front_def)
next
  assume "c \<in> front (parents s) S c"
  with assms(3) show "c \<in> ancs (parents s) S" by (auto simp: front_def intro: ancs_intros)
qed

lemma front_initial:
  "wf s \<Longrightarrow> S \<subseteq> {nullrev..} \<Longrightarrow> \<forall>v \<in> S. v \<le> c \<Longrightarrow> front (parents s) S c = S"
  by (rule front_start) (auto dest: ancs_upper)

text \<open>An ancestor not above \<open>c\<close> is reached through what the walk knows at \<open>c\<close>.\<close>

lemma ancs_through_front:
  assumes "wf s" "S \<subseteq> {nullrev..}" "a \<in> ancs (parents s) S" "a \<le> c"
  shows "\<exists>v \<in> front (parents s) S c. v \<le> c \<and> v \<noteq> nullrev \<and> a \<in> ancs (parents s) {v}"
  using assms(3,4)
proof (induction rule: ancs_induct)
  case (start v)
  then show ?case by (auto simp: front_def intro: ancs_start)
next
  case (parent v p)
  show ?case
  proof (cases "v \<le> c")
    case True
    with parent.IH obtain w where
      "w \<in> front (parents s) S c" "w \<le> c" "w \<noteq> nullrev" "v \<in> ancs (parents s) {w}"
      by auto
    with parent.hyps show ?thesis by (auto intro: ancs_parent)
  next
    case False
    with parent have "p \<in> front (parents s) S c" by (auto simp: front_def)
    with parent show ?thesis by (auto intro: ancs_start)
  qed
qed

end

text \<open>Every parent function that respects the numbering is such a store.\<close>

interpretation pf: dag topo "\<lambda>pf. pf"
  by unfold_locales (simp add: topo_def)

text \<open>
  A criss-cross history for the examples: 1 and 2 are children of 0, and 3 and 4
  both merge 1 and 2.
\<close>

definition crisscross :: pfunc where
  "crisscross v = (if v = 3 \<or> v = 4 then [1, 2] else if v = 1 \<or> v = 2 then [0, nullrev]
     else [nullrev, nullrev])"

lemma topo_crisscross: "topo crisscross"
  by (auto simp: topo_def crisscross_def)

end
