(* ===== verification/Ancestor.thy ===== *)
theory Ancestor
  imports Dag
begin

text \<open>
  The graph algorithms of \<open>edenscm/mercurial/ancestor.py\<close>: the heads of the common
  ancestors (bit-mask propagation), the deepest common ancestors, the
  incremental computation of missing ancestors and the lazy ancestor set with
  its heap-driven membership test. A Python set is a HOL set; where the code
  iterates over a set in Python's order, the model takes the order of the
  argument list, so a theorem for every list covers every order. \<open>range\<close> loops
  are recursions over the list of the range.
\<close>

unbundle bit_operations_syntax

section \<open>commonancestorsheads\<close>

text \<open>
  The loop over the parents of a revision that carries no poison: the mask \<open>sv\<close>
  of the child is passed on (\<open>seen[p] |= sv\<close>).
\<close>

definition mark_step :: "nat \<Rightarrow> nat list \<times> int \<Rightarrow> rev \<Rightarrow> nat list \<times> int" where
  "mark_step sv = (\<lambda>(seen, interesting) p.
     if p = nullrev then (seen, interesting)
     else let sp = seen ! nat p in
       if sp = 0 then (seen[nat p := sv], interesting + 1)
       else if sp \<noteq> sv then (seen[nat p := sp OR sv], interesting)
       else (seen, interesting))"

text \<open>The loop over the parents of a poisoned revision.\<close>

definition poison_step :: "nat \<Rightarrow> nat \<Rightarrow> nat list \<times> int \<Rightarrow> rev \<Rightarrow> nat list \<times> int" where
  "poison_step poison sv = (\<lambda>(seen, interesting) p.
     if p = nullrev then (seen, interesting)
     else let sp = seen ! nat p in
       (seen[nat p := sv],
        if sp \<noteq> 0 \<and> sp < poison then interesting - 1 else interesting))"

text \<open>
  The main loop, for \<open>v = n - 1, \<dots>, 0\<close>; it also ends when nothing is
  interesting any more, or when a common ancestor is one of the nodes.
\<close>

fun cah_loop :: "pfunc \<Rightarrow> rev set \<Rightarrow> nat \<Rightarrow> nat \<Rightarrow> nat \<Rightarrow> nat list \<Rightarrow> int \<Rightarrow> rev set \<Rightarrow> rev set" where
  "cah_loop pf nodes allseen poison 0 seen interesting gca = gca"
| "cah_loop pf nodes allseen poison (Suc v) seen interesting gca =
    (if interesting = 0 then gca
     else let sv = seen ! v in
       if sv = 0 then cah_loop pf nodes allseen poison v seen interesting gca
       else let interesting = (if sv < poison then interesting - 1 else interesting);
                found = (sv < poison \<and> sv = allseen);
                gca = (if found then insert (int v) gca else gca);
                sv = (if found then sv OR poison else sv)
            in if found \<and> int v \<in> nodes then {int v}
               else let (seen, interesting) =
                          (if sv < poison then foldl (mark_step sv) (seen, interesting) (pf (int v))
                           else foldl (poison_step poison sv) (seen, interesting) (pf (int v)))
                    in cah_loop pf nodes allseen poison v seen interesting gca)"

text \<open>\<open>for i, n in enumerate(nodes): seen[n] = 1 << i\<close>\<close>

fun seen_init :: "nat \<Rightarrow> rev list \<Rightarrow> nat list \<Rightarrow> nat list" where
  "seen_init i [] seen = seen"
| "seen_init i (n # ns) seen = seen_init (Suc i) ns (seen[nat n := push_bit i 1])"

text \<open>
  \<open>nodes = set(nodes)\<close>: \<open>remdups\<close> lists the set, in an order that the order of
  the arguments determines.
\<close>

definition commonancestorsheads :: "pfunc \<Rightarrow> rev list \<Rightarrow> rev set" where
  "commonancestorsheads pf nodes =
    (let ns = remdups nodes in
     if nullrev \<in> set ns then {}
     else if length ns \<le> 1 then set ns
     else let allseen = push_bit (length ns) 1 - 1;
              seen = seen_init 0 ns (replicate (nat (Max (set ns) + 1)) 0);
              poison = push_bit (length ns) 1
          in cah_loop pf (set ns) allseen poison (length seen) seen (int (length ns)) {})"

section \<open>incrementalmissingancestors\<close>

record incrementalmissingancestors =
  bases :: "rev set"
  ima_pfunc :: pfunc

definition ima_init :: "pfunc \<Rightarrow> rev list \<Rightarrow> incrementalmissingancestors" where
  "ima_init pf bs =
    (let b = set bs in \<lparr>bases = (if b = {} then insert nullrev b else b), ima_pfunc = pf\<rparr>)"

definition hasbases :: "incrementalmissingancestors \<Rightarrow> bool" where
  "hasbases st \<longleftrightarrow> bases st \<noteq> {} \<and> bases st \<noteq> {nullrev}"

definition addbases :: "rev set \<Rightarrow> incrementalmissingancestors \<Rightarrow> incrementalmissingancestors" where
  "addbases newbases st = st\<lparr>bases := bases st \<union> newbases\<rparr>"

fun rm_loop :: "pfunc \<Rightarrow> nat \<Rightarrow> rev list \<Rightarrow> rev set \<Rightarrow> rev set \<Rightarrow> rev set \<times> rev set" where
  "rm_loop pf keepcount [] bs revs = (bs, revs)"
| "rm_loop pf keepcount (cur # rest) bs revs =
    (if cur \<notin> bs then rm_loop pf keepcount rest bs revs
     else let revs = revs - {cur};
              bs = bs \<union> set (pf cur)
          in if card revs = keepcount then (bs, revs)
             else rm_loop pf keepcount rest bs revs)"

text \<open>The in-place update of \<open>revs\<close> is returned beside the object's new state.\<close>

definition removeancestorsfrom ::
    "incrementalmissingancestors \<Rightarrow> rev set \<Rightarrow> (incrementalmissingancestors \<times> rev set) res" where
  "removeancestorsfrom st revs =
    (let revs = revs - bases st - {nullrev} in
     if revs = {} then Inr (st, revs)
     else bindE (py_max (bases st)) (\<lambda>start.
       let keepcount = card {r \<in> revs. start < r} in
       if card revs = keepcount then Inr (st, revs)
       else let (bs, revs') = rm_loop (ima_pfunc st) keepcount
                                (range_desc start (Min revs - 1)) (bases st) revs
            in Inr (st\<lparr>bases := bs\<rparr>, revs')))"

text \<open>The state of the walk of \<open>missingancestors\<close>.\<close>

record missing_walk =
  revsvisit :: "rev set"
  basesvisit :: "rev set"
  bothvisit :: "rev set"
  missing :: "rev list"

definition visit_both :: "missing_walk \<Rightarrow> rev \<Rightarrow> missing_walk" where
  "visit_both w p = w\<lparr>revsvisit := revsvisit w - {p},
     basesvisit := insert p (basesvisit w), bothvisit := insert p (bothvisit w)\<rparr>"

text \<open>
  \<open>thisvisit\<close> and \<open>othervisit\<close> are aliases of \<open>revsvisit\<close> and \<open>basesvisit\<close>; the
  flag says which one \<open>thisvisit\<close> is.
\<close>

definition visit_parent :: "bool \<Rightarrow> missing_walk \<Rightarrow> rev \<Rightarrow> missing_walk" where
  "visit_parent this_is_revs w p =
    (if p = nullrev then w
     else if p \<in> (if this_is_revs then basesvisit w else revsvisit w) \<or> p \<in> bothvisit w
     then visit_both w p
     else if this_is_revs then w\<lparr>revsvisit := insert p (revsvisit w)\<rparr>
     else w\<lparr>basesvisit := insert p (basesvisit w)\<rparr>)"

definition missing_step :: "pfunc \<Rightarrow> rev \<Rightarrow> missing_walk \<Rightarrow> missing_walk" where
  "missing_step pf cur w =
    (if cur \<in> bothvisit w
     then foldl visit_both (w\<lparr>bothvisit := bothvisit w - {cur}\<rparr>) (pf cur)
     else if cur \<in> revsvisit w
     then foldl (visit_parent True)
            (w\<lparr>missing := missing w @ [cur], revsvisit := revsvisit w - {cur}\<rparr>) (pf cur)
     else if cur \<in> basesvisit w then foldl (visit_parent False) w (pf cur)
     else w)"

fun missing_loop :: "pfunc \<Rightarrow> rev list \<Rightarrow> missing_walk \<Rightarrow> missing_walk" where
  "missing_loop pf [] w = w"
| "missing_loop pf (cur # rest) w =
    (if revsvisit w = {} then w else missing_loop pf rest (missing_step pf cur w))"

text \<open>\<open>basesvisit\<close> is \<open>self.bases\<close> itself, so the object's bases grow with the walk.\<close>

definition missingancestors ::
    "incrementalmissingancestors \<Rightarrow> rev set \<Rightarrow> (incrementalmissingancestors \<times> rev list) res" where
  "missingancestors st revs =
    (let both = revs \<inter> bases st;
         w = \<lparr>revsvisit = revs - both, basesvisit = bases st, bothvisit = both, missing = []\<rparr>
     in if revsvisit w = {} then Inr (st, [])
        else bindE (py_max (bases st)) (\<lambda>mb.
          let start = max (Max (revsvisit w)) mb;
              w' = missing_loop (ima_pfunc st) (range_desc start nullrev) w
          in Inr (st\<lparr>bases := basesvisit w'\<rparr>, List.rev (missing w'))))"

section \<open>Removing and finding ancestors\<close>

context dag
begin

lemma rm_loop_spec:
  assumes wf: "wf s" and B: "B \<subseteq> {nullrev..}" "\<forall>v \<in> B. v \<le> st"
    and R: "finite R" "\<forall>r \<in> R. m < r" "nullrev \<le> m"
    and keep: "keep = card {r \<in> R. st < r}"
  shows "c \<le> st \<Longrightarrow>
    \<exists>d. rm_loop (parents s) keep (range_desc c m) (front (parents s) B c)
          (R - {r \<in> ancs (parents s) B. c < r}) = (front (parents s) B d, R - ancs (parents s) B)"
proof (induction c rule: range_desc_induct [where b = m])
  case (Nil c)
  then have "R - {r \<in> ancs (parents s) B. c < r} = R - ancs (parents s) B"
    using R(2) by auto
  with Nil show ?case by (auto simp: range_desc_Nil)
next
  case (Cons c)
  let ?A = "ancs (parents s) B" and ?R = "\<lambda>c. R - {r \<in> ancs (parents s) B. c < r}"
  from Cons.hyps(1) R(3) have "0 \<le> c" by simp
  then have mem: "c \<in> front (parents s) B c \<longleftrightarrow> c \<in> ?A"
    using ancs_front [OF wf B(1)] by simp
  have "c - 1 < r \<longleftrightarrow> c < r \<or> r = c" for r :: int by auto
  then have R_step: "?R (c - 1) = (if c \<in> ?A then ?R c - {c} else ?R c)" by auto
  have IH: "\<exists>d. rm_loop (parents s) keep (range_desc (c - 1) m) (front (parents s) B (c - 1))
      (?R (c - 1)) = (front (parents s) B d, R - ?A)"
    using Cons by simp
  show ?case
  proof (cases "c \<in> ?A")
    case False
    with IH mem R_step Cons.hyps show ?thesis by (simp add: range_desc_Cons front_step)
  next
    case True
    have "?R (c - 1) = R - ?A" if "card (?R (c - 1)) = keep"
    proof -
      have sub: "{r \<in> R. st < r} \<subseteq> ?R (c - 1)"
        using ancs_upper [OF wf B] by force
      have "{r \<in> R. st < r} = ?R (c - 1)"
        by (rule card_subset_eq [OF _ sub]) (use R(1) that keep in auto)
      then show ?thesis using ancs_upper [OF wf B] by force
    qed
    moreover have "rm_loop (parents s) keep (range_desc c m) (front (parents s) B c) (?R c) =
        (if card (?R (c - 1)) = keep then (front (parents s) B (c - 1), ?R (c - 1))
         else rm_loop (parents s) keep (range_desc (c - 1) m) (front (parents s) B (c - 1)) (?R (c - 1)))"
      using True mem R_step Cons.hyps(1) by (simp add: range_desc_Cons front_step Let_def)
    ultimately show ?thesis using IH by metis
  qed
qed

lemma removeancestorsfrom_spec:
  assumes wf: "wf s" and pf: "ima_pfunc st = parents s"
    and B: "bases st \<noteq> {}" "finite (bases st)" "bases st \<subseteq> {nullrev..}"
    and R: "finite R" "R \<subseteq> {nullrev..}"
  shows "\<exists>st'. removeancestorsfrom st R = Inr (st', R - {nullrev} - ancs (parents s) (bases st)) \<and>
      ima_pfunc st' = ima_pfunc st \<and> ancs (parents s) (bases st') = ancs (parents s) (bases st) \<and>
      bases st \<subseteq> bases st' \<and> bases st' \<subseteq> insert nullrev (ancs (parents s) (bases st))"
proof -
  let ?B = "bases st" and ?A = "ancs (parents s) (bases st)"
  let ?R = "R - ?B - {nullrev}" and ?st = "Max (bases st)"
  let ?k = "card {r \<in> R - ?B - {nullrev}. ?st < r}"
  have ub: "\<forall>v \<in> ?B. v \<le> ?st" using B(2) by simp
  have Aub: "\<not> ?st < a" if "a \<in> ?A" for a
    using ancs_upper [OF wf B(3) ub that] by simp
  have Bsub: "?B \<subseteq> insert nullrev ?A" by (auto intro: ancs_start)
  have RA: "R - {nullrev} - ?A = ?R - ?A" using Bsub by auto
  show ?thesis
  proof (cases "?R = {} \<or> card ?R = ?k")
    case True
    have "?R - ?A = ?R"
    proof (cases "?R = {}")
      case True
      then show ?thesis by auto
    next
      case False
      with True have "card ?R = ?k" by simp
      with R(1) have "{r \<in> ?R. ?st < r} = ?R"
        by (intro card_subset_eq) auto
      then have "r \<notin> ?A" if "r \<in> ?R" for r using Aub [of r] that by blast
      then show ?thesis by blast
    qed
    with True RA Bsub B(1) show ?thesis
      by (auto simp: removeancestorsfrom_def py_max_def Let_def)
  next
    case False
    then have ne: "?R \<noteq> {}" by simp
    have "Min ?R \<in> ?R" using ne R(1) by (intro Min_in) auto
    then have m: "nullrev \<le> Min ?R - 1" using R(2) by force
    have lb: "\<forall>r \<in> ?R. Min ?R - 1 < r"
    proof
      fix r assume "r \<in> ?R"
      then have "Min ?R \<le> r" using R(1) by simp
      then show "Min ?R - 1 < r" by simp
    qed
    have init: "front (parents s) ?B ?st = ?B" by (rule front_initial [OF wf B(3) ub])
    have Rst: "?R - {r \<in> ?A. ?st < r} = ?R" using Aub by blast
    obtain d where d: "rm_loop (parents s) ?k (range_desc ?st (Min ?R - 1)) ?B ?R
        = (front (parents s) ?B d, ?R - ?A)"
      using rm_loop_spec [OF wf B(3) ub _ lb m refl order_refl] R(1) init Rst by auto
    have sub: "front (parents s) ?B d \<subseteq> insert nullrev ?A"
      using front_subset [of "parents s" ?B d] Bsub by auto
    have sup: "?B \<subseteq> front (parents s) ?B d" by (auto simp: front_def)
    have "removeancestorsfrom st R = Inr (st\<lparr>bases := front (parents s) ?B d\<rparr>, ?R - ?A)"
      using False B(1) d pf by (simp add: removeancestorsfrom_def py_max_def Let_def)
    then show ?thesis using RA sub sup ancs_between [OF sup sub] by auto
  qed
qed


text \<open>
  The walk of \<open>missingancestors\<close> at \<open>c\<close>: of what is known of the ancestors of
  \<open>R\<close> and of \<open>B\<close>, \<open>revsvisit\<close> holds what only \<open>R\<close> has, \<open>bothvisit\<close> what both
  have, \<open>basesvisit\<close> what \<open>B\<close> has; \<open>missing\<close> lists the ancestors above \<open>c\<close>
  that only \<open>R\<close> has, in descending order.
\<close>

definition missing_inv :: "'s \<Rightarrow> rev set \<Rightarrow> rev set \<Rightarrow> int \<Rightarrow> missing_walk \<Rightarrow> bool" where
  "missing_inv s R B c w \<longleftrightarrow>
    (\<forall>v. 0 \<le> v \<longrightarrow> v \<le> c \<longrightarrow>
      (v \<in> revsvisit w \<longleftrightarrow> v \<in> front (parents s) R c \<and> v \<notin> front (parents s) B c) \<and>
      (v \<in> basesvisit w \<longleftrightarrow> v \<in> front (parents s) B c) \<and>
      (v \<in> bothvisit w \<longleftrightarrow> v \<in> front (parents s) R c \<and> v \<in> front (parents s) B c)) \<and>
    B \<subseteq> basesvisit w \<and> basesvisit w \<subseteq> B \<union> insert nullrev (ancs (parents s) B) \<and>
    sorted_wrt (>) (missing w) \<and>
    set (missing w) = {v \<in> ancs (parents s) R - ancs (parents s) B. c < v}"

end

text \<open>
  The three sets stay as the comment in the code says: \<open>bothvisit\<close> within
  \<open>basesvisit\<close>, \<open>revsvisit\<close> apart from it. A run of parents then has a closed form.
\<close>

definition visits_ok :: "missing_walk \<Rightarrow> bool" where
  "visits_ok w \<longleftrightarrow> bothvisit w \<subseteq> basesvisit w \<and> revsvisit w \<inter> basesvisit w = {}"

lemma walk_eqI:
  fixes v w :: missing_walk
  shows "revsvisit v = revsvisit w \<Longrightarrow> basesvisit v = basesvisit w \<Longrightarrow> bothvisit v = bothvisit w \<Longrightarrow>
    missing v = missing w \<Longrightarrow> v = w"
  by simp

lemma foldl_visit_both:
  "foldl visit_both w ps = w\<lparr>revsvisit := revsvisit w - set ps,
     basesvisit := basesvisit w \<union> set ps, bothvisit := bothvisit w \<union> set ps\<rparr>"
proof (induction ps arbitrary: w)
  case (Cons p ps)
  show ?case by (rule walk_eqI) (auto simp: Cons visit_both_def [of w p])
qed simp

lemma visit_parent_True:
  assumes "visits_ok w"
  shows "visit_parent True w p = w\<lparr>revsvisit := revsvisit w \<union> ({p} - {nullrev} - basesvisit w),
    bothvisit := bothvisit w \<union> (({p} - {nullrev}) \<inter> basesvisit w)\<rparr>"
  using assms by (intro walk_eqI) (auto simp: visit_parent_def visit_both_def visits_ok_def)

lemma foldl_visit_parent_True:
  "visits_ok w \<Longrightarrow> foldl (visit_parent True) w ps =
    w\<lparr>revsvisit := revsvisit w \<union> (set ps - {nullrev} - basesvisit w),
      bothvisit := bothvisit w \<union> ((set ps - {nullrev}) \<inter> basesvisit w)\<rparr>"
proof (induction ps arbitrary: w)
  case (Cons p ps)
  let ?w = "visit_parent True w p"
  have "visits_ok ?w" using Cons.prems by (auto simp: visit_parent_True visits_ok_def)
  then show ?case
    by (intro walk_eqI) (auto simp: Cons.IH visit_parent_True [OF Cons.prems])
qed simp

lemma visit_parent_False:
  assumes "visits_ok w"
  shows "visit_parent False w p = w\<lparr>revsvisit := revsvisit w - ({p} - {nullrev}),
    basesvisit := basesvisit w \<union> ({p} - {nullrev}),
    bothvisit := bothvisit w \<union> (({p} - {nullrev}) \<inter> revsvisit w)\<rparr>"
  using assms by (intro walk_eqI) (auto simp: visit_parent_def visit_both_def visits_ok_def)

lemma foldl_visit_parent_False:
  "visits_ok w \<Longrightarrow> foldl (visit_parent False) w ps =
    w\<lparr>revsvisit := revsvisit w - (set ps - {nullrev}),
      basesvisit := basesvisit w \<union> (set ps - {nullrev}),
      bothvisit := bothvisit w \<union> ((set ps - {nullrev}) \<inter> revsvisit w)\<rparr>"
proof (induction ps arbitrary: w)
  case (Cons p ps)
  let ?w = "visit_parent False w p"
  have "visits_ok ?w" using Cons.prems by (auto simp: visit_parent_False visits_ok_def)
  then show ?case
    by (intro walk_eqI) (auto simp: Cons.IH visit_parent_False [OF Cons.prems])
qed simp

lemmas foldl_visits = foldl_visit_both foldl_visit_parent_True foldl_visit_parent_False

lemma missing_step_ok: "visits_ok w \<Longrightarrow> visits_ok (missing_step pf c w)"
proof -
  assume w: "visits_ok w"
  then have "visits_ok (w\<lparr>bothvisit := bothvisit w - {c}\<rparr>)"
    "visits_ok (w\<lparr>missing := missing w @ [c], revsvisit := revsvisit w - {c}\<rparr>)"
    by (auto simp: visits_ok_def)
  with w show ?thesis by (auto simp: missing_step_def foldl_visits) (auto simp: visits_ok_def)
qed

context dag
begin

lemma missing_inv_init:
  assumes "wf s" "R \<subseteq> {nullrev..}" "B \<subseteq> {nullrev..}" "\<forall>v \<in> R \<union> B. v \<le> c"
  shows "missing_inv s R B c
    \<lparr>revsvisit = R - R \<inter> B, basesvisit = B, bothvisit = R \<inter> B, missing = []\<rparr>"
proof -
  have upper: "v \<in> ancs (parents s) R \<Longrightarrow> \<not> c < v" for v
    using ancs_upper [OF assms(1,2), of c v] assms(4) by auto
  show ?thesis
    using assms(4) front_initial [OF assms(1,2), of c] front_initial [OF assms(1,3), of c]
    by (auto simp: missing_inv_def dest: upper)
qed

lemma missing_inv_step:
  assumes wf: "wf s" and R: "R \<subseteq> {nullrev..}" and B: "B \<subseteq> {nullrev..}" and c: "0 \<le> c"
    and inv: "missing_inv s R B c w" and ok: "visits_ok w"
  shows "missing_inv s R B (c - 1) (missing_step (parents s) c w)"
proof -
  let ?fR = "front (parents s) R" and ?fB = "front (parents s) B"
  let ?R = "ancs (parents s) R" and ?B = "ancs (parents s) B"
  let ?w = "missing_step (parents s) c w"
  note oks = foldl_visits
  have cR: "c \<in> ?R \<longleftrightarrow> c \<in> ?fR c" and cB: "c \<in> ?B \<longleftrightarrow> c \<in> ?fB c"
    using ancs_front [OF wf _ c] R B by auto
  have c_w: "c \<in> revsvisit w \<longleftrightarrow> c \<in> ?R \<and> c \<notin> ?B" "c \<in> basesvisit w \<longleftrightarrow> c \<in> ?B"
      "c \<in> bothvisit w \<longleftrightarrow> c \<in> ?R \<and> c \<in> ?B"
    using inv c by (auto simp: missing_inv_def cR cB)
  have below: "v \<noteq> c" if "v \<in> set (parents s c)" for v
    using parents_below [OF wf c that] by auto
  have ok1: "visits_ok (w\<lparr>missing := missing w @ [c], revsvisit := revsvisit w - {c}\<rparr>)"
    using ok by (auto simp: visits_ok_def)
  have gt: "c - 1 < v \<longleftrightarrow> c < v \<or> v = c" for v by auto
  have par: "set (parents s c) \<subseteq> insert nullrev ?B" if "c \<in> ?B"
    using that by (auto intro: ancs_parent)
  consider "c \<in> ?R" "c \<in> ?B" | "c \<in> ?R" "c \<notin> ?B" | "c \<notin> ?R" "c \<in> ?B" | "c \<notin> ?R" "c \<notin> ?B"
    by blast
  then show ?thesis
  proof cases
    case 1
    with c_w have "?w = foldl visit_both (w\<lparr>bothvisit := bothvisit w - {c}\<rparr>) (parents s c)"
      by (simp add: missing_step_def)
    with 1 inv par below show ?thesis
      by (auto simp: missing_inv_def oks front_step gt)
  next
    case 2
    with c_w have "?w = foldl (visit_parent True)
        (w\<lparr>missing := missing w @ [c], revsvisit := revsvisit w - {c}\<rparr>) (parents s c)"
      by (simp add: missing_step_def)
    with 2 inv below ok1 show ?thesis
      by (auto simp: missing_inv_def oks front_step gt sorted_wrt_append)
  next
    case 3
    with c_w have "?w = foldl (visit_parent False) w (parents s c)"
      by (simp add: missing_step_def)
    with 3 inv par below ok show ?thesis
      by (auto simp: missing_inv_def oks front_step gt)
  next
    case 4
    with c_w have "?w = w" by (simp add: missing_step_def)
    with 4 inv show ?thesis by (auto simp: missing_inv_def front_step gt)
  qed
qed

lemma missing_loop_spec:
  assumes wf: "wf s" and R: "R \<subseteq> {nullrev..}" and B: "B \<subseteq> {nullrev..}"
  shows "missing_inv s R B c w \<Longrightarrow> visits_ok w \<Longrightarrow>
    let w' = missing_loop (parents s) (range_desc c nullrev) w in
      sorted_wrt (>) (missing w') \<and>
      set (missing w') = ancs (parents s) R - ancs (parents s) B \<and>
      B \<subseteq> basesvisit w' \<and> basesvisit w' \<subseteq> B \<union> insert nullrev (ancs (parents s) B)"
proof (induction c arbitrary: w rule: range_desc_induct [where b = nullrev])
  case (Nil c)
  have "c < v" if "v \<in> ancs (parents s) R" for v
    using ancs_bounds [OF wf R that] Nil.hyps by simp
  with Nil show ?case by (auto simp: range_desc_Nil missing_inv_def Let_def)
next
  case (Cons c)
  let ?R = "ancs (parents s) R" and ?B = "ancs (parents s) B"
  show ?case
  proof (cases "revsvisit w = {}")
    case False
    have "missing_inv s R B (c - 1) (missing_step (parents s) c w)"
      using missing_inv_step [OF wf R B _ Cons.prems] Cons.hyps by simp
    with Cons.IH missing_step_ok [OF Cons.prems(2)] Cons.hyps False show ?thesis
      by (simp add: range_desc_Cons)
  next
    case True
    have "c < a" if a: "a \<in> ?R" "a \<notin> ?B" for a
    proof (rule ccontr)
      assume "\<not> c < a"
      then obtain v where v: "v \<in> front (parents s) R c" "v \<le> c" "v \<noteq> nullrev"
          "a \<in> ancs (parents s) {v}"
        using ancs_through_front [OF wf R a(1), of c] by auto
      from v(1,3) have "v \<in> ?R" using front_subset [of "parents s" R c] by (auto intro: ancs_start)
      then have "0 \<le> v" using ancs_bounds [OF wf R] by blast
      with True v Cons.prems(1) have "v \<in> front (parents s) B c" by (auto simp: missing_inv_def)
      with v(3) have "v \<in> ?B"
        using front_subset [of "parents s" B c] by (auto intro: ancs_start)
      with v(4) a(2) show False using ancs_single_trans by blast
    qed
    then have "set (missing w) = ?R - ?B" using Cons.prems(1) by (auto simp: missing_inv_def)
    with Cons True show ?thesis by (simp add: range_desc_Cons missing_inv_def)
  qed
qed

lemma missingancestors_spec:
  assumes wf: "wf s" and pf: "ima_pfunc st = parents s"
    and B: "bases st \<noteq> {}" "finite (bases st)" "bases st \<subseteq> {nullrev..}"
    and R: "finite R" "R \<subseteq> {nullrev..}"
  shows "\<exists>st'. missingancestors st R =
      Inr (st', sorted_list_of_set (ancs (parents s) R - ancs (parents s) (bases st))) \<and>
      ima_pfunc st' = ima_pfunc st \<and> ancs (parents s) (bases st') = ancs (parents s) (bases st) \<and>
      bases st \<subseteq> bases st' \<and> bases st' \<subseteq> insert nullrev (ancs (parents s) (bases st))"
proof (cases "R \<subseteq> bases st")
  case True
  then have none: "ancs (parents s) R - ancs (parents s) (bases st) = {}"
    using ancs_mono by blast
  have "sorted_list_of_set (ancs (parents s) R - ancs (parents s) (bases st)) = []"
    unfolding none by simp
  moreover have "missingancestors st R = Inr (st, [])"
    using True by (simp add: missingancestors_def Let_def Int_absorb2)
  moreover have "bases st \<subseteq> insert nullrev (ancs (parents s) (bases st))"
    by (auto intro: ancs_start)
  ultimately show ?thesis by auto
next
  case False
  let ?B = "bases st" and ?st = "max (Max (R - R \<inter> bases st)) (Max (bases st))"
  let ?w0 = "\<lparr>revsvisit = R - R \<inter> bases st, basesvisit = bases st, bothvisit = R \<inter> bases st, missing = []\<rparr>"
  define w' where "w' = missing_loop (parents s) (range_desc ?st nullrev) ?w0"
  have "v \<le> ?st" if "v \<in> R \<union> ?B" for v
    using that R(1) B(2) by (cases "v \<in> ?B") (auto intro: max.coboundedI1 max.coboundedI2)
  then have inv: "missing_inv s R ?B ?st ?w0" by (intro missing_inv_init [OF wf R(2) B(3)]) blast
  have "visits_ok ?w0" by (auto simp: visits_ok_def)
  from missing_loop_spec [OF wf R(2) B(3) inv this]
  have w': "sorted_wrt (>) (missing w')"
      "set (missing w') = ancs (parents s) R - ancs (parents s) ?B"
      "?B \<subseteq> basesvisit w'" "basesvisit w' \<subseteq> ?B \<union> insert nullrev (ancs (parents s) ?B)"
    by (simp_all add: w'_def Let_def)
  have sup: "basesvisit w' \<subseteq> insert nullrev (ancs (parents s) ?B)"
    using w'(4) by (auto intro: ancs_start)
  have "sorted_wrt (<) (List.rev (missing w'))" using w'(1) by (simp add: sorted_wrt_rev)
  then have "List.rev (missing w') = sorted_list_of_set (set (List.rev (missing w')))"
    by (simp add: strict_sorted_iff sorted_list_of_set.idem_if_sorted_distinct del: set_rev)
  with w'(2) have "List.rev (missing w') =
      sorted_list_of_set (ancs (parents s) R - ancs (parents s) ?B)" by simp
  moreover have "missingancestors st R = Inr (st\<lparr>bases := basesvisit w'\<rparr>, List.rev (missing w'))"
    using False B(1) pf by (auto simp: missingancestors_def py_max_def Let_def w'_def)
  ultimately show ?thesis using w'(3) sup ancs_between [OF w'(3) sup] by auto
qed

end

section \<open>Correctness of commonancestorsheads\<close>

text \<open>
  The counter \<open>interesting\<close> is the number of revisions still to be visited that
  carry marks and no poison.
\<close>

definition interesting_count :: "nat \<Rightarrow> nat \<Rightarrow> nat list \<Rightarrow> int" where
  "interesting_count poison n seen = int (card {p. p < n \<and> seen ! p \<noteq> 0 \<and> seen ! p < poison})"

lemma interesting_count_upd:
  assumes "q < n" "n \<le> length seen"
  shows "interesting_count poison n (seen[q := x]) = interesting_count poison n seen
    - (if seen ! q \<noteq> 0 \<and> seen ! q < poison then 1 else 0)
    + (if x \<noteq> 0 \<and> x < poison then 1 else 0)"
proof -
  let ?P = "\<lambda>xs p. p < n \<and> xs ! p \<noteq> 0 \<and> xs ! p < poison"
  define S where "S = {p. ?P seen p} - {q}"
  have e1: "{p. ?P seen p} = (if ?P seen q then insert q S else S)" by (auto simp: S_def)
  have e2: "{p. ?P (seen[q := x]) p} = (if x \<noteq> 0 \<and> x < poison then insert q S else S)"
    using assms by (auto simp: nth_list_update S_def)
  have f: "finite S" "q \<notin> S" by (auto simp: S_def)
  have c1: "int (card {p. ?P seen p}) = int (card S) + (if ?P seen q then 1 else 0)"
    unfolding e1 using f by simp
  have c2: "int (card {p. ?P (seen[q := x]) p}) = int (card S) + (if x \<noteq> 0 \<and> x < poison then 1 else 0)"
    unfolding e2 using f by simp
  show ?thesis using c1 c2 assms(1) by (simp add: interesting_count_def)
qed

lemma or_less_poison:
  fixes a b :: nat
  assumes "a < 2 ^ k" "b < 2 ^ k"
  shows "a OR b < 2 ^ k"
proof -
  have "take_bit k (a OR b) = a OR b"
    using assms by (simp add: take_bit_or take_bit_nat_eq_self)
  then show ?thesis by (metis take_bit_nat_less_exp)
qed

lemma or_ge: "(a :: nat) \<le> a OR b"
  by (metis or_greater_eq of_nat_0_le_iff of_nat_le_iff of_nat_or_eq)

lemma mark_foldl:
  assumes "foldl (mark_step sv) (seen, i) ps = (seen', i')"
    and "\<forall>p \<in> set ps. nullrev \<le> p \<and> p < int n" "n \<le> length seen" "0 < sv" "sv < 2 ^ k"
    and "i = interesting_count (2 ^ k) n seen"
  shows "length seen' = length seen \<and> i' = interesting_count (2 ^ k) n seen' \<and>
    (\<forall>q < length seen. seen' ! q = (if int q \<in> set ps then seen ! q OR sv else seen ! q))"
  using assms
proof (induction ps arbitrary: seen i)
  case (Cons p ps)
  obtain seen1 i1 where st: "mark_step sv (seen, i) p = (seen1, i1)" by force
  have p: "p = nullrev \<or> nat p < n \<and> int (nat p) = p" using Cons.prems(2) by auto
  have s1: "length seen1 = length seen \<and> i1 = interesting_count (2 ^ k) n seen1 \<and>
      (\<forall>q < length seen. seen1 ! q = (if int q = p then seen ! q OR sv else seen ! q))"
  proof (cases "p = nullrev")
    case True
    with st Cons.prems show ?thesis by (auto simp: mark_step_def)
  next
    case False
    let ?sp = "seen ! nat p"
    have seen1: "seen1 = seen[nat p := ?sp OR sv]"
      using st False by (auto simp: mark_step_def Let_def split: if_splits)
    have i1: "i1 = (if ?sp = 0 then i + 1 else i)"
      using st False by (auto simp: mark_step_def Let_def split: if_splits)
    have "?sp < 2 ^ k \<longleftrightarrow> ?sp OR sv < 2 ^ k"
      using or_less_poison [of ?sp k sv] or_ge [of ?sp sv] Cons.prems(5) by linarith
    moreover have "?sp OR sv \<noteq> 0" using or_ge [of sv ?sp] Cons.prems(4)
      by (simp add: or.commute)
    ultimately show ?thesis
      using seen1 i1 p False Cons.prems interesting_count_upd [of "nat p" n seen "2 ^ k" "?sp OR sv"]
      by (auto simp: nth_list_update)
  qed
  from Cons.prems(1) st have "foldl (mark_step sv) (seen1, i1) ps = (seen', i')" by simp
  from Cons.IH [OF this] s1 Cons.prems
  have "length seen' = length seen \<and> i' = interesting_count (2 ^ k) n seen' \<and>
    (\<forall>q < length seen. seen' ! q = (if int q \<in> set ps then seen1 ! q OR sv else seen1 ! q))"
    by simp
  then show ?case using s1 by (auto simp: or.assoc)
qed simp

lemma poison_foldl:
  assumes "foldl (poison_step (2 ^ k) sv) (seen, i) ps = (seen', i')"
    and "\<forall>p \<in> set ps. nullrev \<le> p \<and> p < int n" "n \<le> length seen" "2 ^ k \<le> sv"
    and "i = interesting_count (2 ^ k) n seen"
  shows "length seen' = length seen \<and> i' = interesting_count (2 ^ k) n seen' \<and>
    (\<forall>q < length seen. seen' ! q = (if int q \<in> set ps then sv else seen ! q))"
  using assms
proof (induction ps arbitrary: seen i)
  case (Cons p ps)
  obtain seen1 i1 where st: "poison_step (2 ^ k) sv (seen, i) p = (seen1, i1)" by force
  have s1: "length seen1 = length seen \<and> i1 = interesting_count (2 ^ k) n seen1 \<and>
      (\<forall>q < length seen. seen1 ! q = (if int q = p then sv else seen ! q))"
    using st Cons.prems interesting_count_upd [of "nat p" n seen "2 ^ k" sv]
    by (cases "p = nullrev") (auto simp: poison_step_def Let_def nth_list_update)
  from Cons.prems(1) st have "foldl (poison_step (2 ^ k) sv) (seen1, i1) ps = (seen', i')" by simp
  from Cons.IH [OF this] s1 Cons.prems
  have "length seen' = length seen \<and> i' = interesting_count (2 ^ k) n seen' \<and>
    (\<forall>q < length seen. seen' ! q = (if int q \<in> set ps then sv else seen1 ! q))"
    by simp
  then show ?case using s1 by auto
qed simp

lemma interesting_count_Suc:
  "interesting_count poison (Suc v) seen =
    interesting_count poison v seen + (if seen ! v \<noteq> 0 \<and> seen ! v < poison then 1 else 0)"
proof -
  let ?P = "\<lambda>p. seen ! p \<noteq> 0 \<and> seen ! p < poison"
  have "{p. p < Suc v \<and> ?P p} = (if ?P v then insert v {p. p < v \<and> ?P p} else {p. p < v \<and> ?P p})"
    by (auto simp: less_Suc_eq)
  then show ?thesis by (simp add: interesting_count_def)
qed

lemma bits_below:
  fixes x :: nat
  assumes "x < 2 ^ k"
  shows "bit x j \<longleftrightarrow> j < k \<and> bit x j"
  using assms by (metis bit_take_bit_iff take_bit_nat_eq_self)

lemma allseen_iff:
  fixes x :: nat
  assumes "x < 2 ^ k"
  shows "x = 2 ^ k - 1 \<longleftrightarrow> (\<forall>j < k. bit x j)"
proof -
  have "x = mask k \<longleftrightarrow> (\<forall>j < k. bit x j)"
    using bits_below [OF assms] by (auto simp: bit_eq_iff bit_mask_iff)
  then show ?thesis by (simp add: mask_eq_exp_minus_1)
qed

definition common_ancs :: "pfunc \<Rightarrow> rev list \<Rightarrow> rev set" where
  "common_ancs pf ns = {u. \<forall>n \<in> set ns. u \<in> ancs pf {n}}"

definition poisoned :: "pfunc \<Rightarrow> rev list \<Rightarrow> nat \<Rightarrow> rev \<Rightarrow> bool" where
  "poisoned pf ns n p \<longleftrightarrow> (\<exists>u \<in> common_ancs pf ns. int n \<le> u \<and> p \<in> set (pf u))"

lemma poisoned_Suc:
  "poisoned pf ns v p \<longleftrightarrow>
    poisoned pf ns (Suc v) p \<or> int v \<in> common_ancs pf ns \<and> p \<in> set (pf (int v))"
proof -
  have "int v \<le> u \<longleftrightarrow> int (Suc v) \<le> u \<or> u = int v" for u by auto
  then show ?thesis by (auto simp: poisoned_def)
qed

lemma common_ancs_down: "u \<in> common_ancs pf ns \<Longrightarrow> a \<in> ancs pf {u} \<Longrightarrow> a \<in> common_ancs pf ns"
  by (auto simp: common_ancs_def intro: ancs_single_trans)

lemma poisoned_common: "poisoned pf ns n p \<Longrightarrow> p \<noteq> nullrev \<Longrightarrow> p \<in> common_ancs pf ns"
  by (auto simp: poisoned_def common_ancs_def intro: ancs_parent)

context dag
begin

definition cah_inv :: "'s \<Rightarrow> rev list \<Rightarrow> nat \<Rightarrow> nat list \<Rightarrow> int \<Rightarrow> rev set \<Rightarrow> bool" where
  "cah_inv s ns n seen i gca \<longleftrightarrow>
    n \<le> length seen \<and> i = interesting_count (2 ^ length ns) n seen \<and>
    gca = {u \<in> heads_of (parents s) (common_ancs (parents s) ns). int n \<le> u} \<and>
    (\<forall>p < n. if poisoned (parents s) ns n (int p) then 2 ^ length ns \<le> seen ! p
      else seen ! p < 2 ^ length ns \<and>
        (\<forall>j < length ns. bit (seen ! p) j \<longleftrightarrow> int p \<in> front (parents s) {ns ! j} (int n - 1)))"

lemma common_bounds:
  assumes "wf s" "ns \<noteq> []" "set ns \<subseteq> {0..}" "u \<in> common_ancs (parents s) ns"
  shows "0 \<le> u \<and> u \<le> Max (set ns)"
proof -
  obtain n where n: "n \<in> set ns" using assms(2) by (cases ns) auto
  with assms(3,4) have "0 \<le> u \<and> u \<le> n"
    using ancs_le [OF assms(1), of n u] by (auto simp: common_ancs_def)
  moreover have "n \<le> Max (set ns)" using n by simp
  ultimately show ?thesis by simp
qed

text \<open>A common ancestor is a head exactly when no common ancestor is its child.\<close>

lemma head_not_poisoned:
  assumes "wf s" "ns \<noteq> []" "set ns \<subseteq> {0..}" "int v \<in> common_ancs (parents s) ns"
  shows "int v \<in> heads_of (parents s) (common_ancs (parents s) ns) \<longleftrightarrow>
    \<not> poisoned (parents s) ns (Suc v) (int v)"
proof
  let ?C = "common_ancs (parents s) ns"
  assume h: "int v \<in> heads_of (parents s) ?C"
  show "\<not> poisoned (parents s) ns (Suc v) (int v)"
  proof
    assume "poisoned (parents s) ns (Suc v) (int v)"
    then obtain u where u: "u \<in> ?C" "int (Suc v) \<le> u" "int v \<in> set (parents s u)"
      by (auto simp: poisoned_def)
    from u(2,3) have "int v \<in> ancs (parents s) {u}" by (auto intro: ancs_of_parent)
    with h u show False by (auto simp: heads_of_def)
  qed
next
  let ?C = "common_ancs (parents s) ns"
  assume np: "\<not> poisoned (parents s) ns (Suc v) (int v)"
  have "u = int v" if u: "u \<in> ?C" "int v \<in> ancs (parents s) {u}" for u
  proof (rule ccontr)
    assume "u \<noteq> int v"
    with u(2) obtain w where w: "w \<in> ancs (parents s) {u}" "int v \<in> set (parents s w)"
      using ancs_unfold [of "int v" "parents s" "{u}"] by auto
    have wC: "w \<in> ?C" by (rule common_ancs_down [OF u(1) w(1)])
    with common_bounds [OF assms(1-3)] have "0 \<le> w" by blast
    with parents_below [OF assms(1) _ w(2)] have "int (Suc v) \<le> w" by simp
    with wC w(2) np show False by (auto simp: poisoned_def)
  qed
  with assms(4) show "int v \<in> heads_of (parents s) ?C" by (auto simp: heads_of_def)
qed

text \<open>When nothing is interesting any more, all heads have been found.\<close>

lemma cah_inv_done:
  assumes wf: "wf s" and ns: "ns \<noteq> []" "set ns \<subseteq> {0..}"
    and inv: "cah_inv s ns (Suc v) seen 0 gca"
  shows "gca = heads_of (parents s) (common_ancs (parents s) ns)"
proof -
  let ?C = "common_ancs (parents s) ns"
  have "int (Suc v) \<le> h" if h: "h \<in> heads_of (parents s) ?C" for h
  proof (rule ccontr)
    assume lt: "\<not> int (Suc v) \<le> h"
    from h have hC: "h \<in> ?C" and hh: "\<And>u. u \<in> ?C \<Longrightarrow> h \<in> ancs (parents s) {u} \<Longrightarrow> u = h"
      by (auto simp: heads_of_def)
    have n0: "ns ! 0 \<in> set ns" using ns(1) by simp
    with ns(2) have n0_ge: "{ns ! 0} \<subseteq> {nullrev..}" by force
    have "h \<in> ancs (parents s) {ns ! 0}" using hC n0 by (auto simp: common_ancs_def)
    then obtain w where w: "w \<in> front (parents s) {ns ! 0} (int v)" "w \<le> int v" "w \<noteq> nullrev"
        "h \<in> ancs (parents s) {w}"
      using ancs_through_front [OF wf n0_ge, of h "int v"] lt by auto
    have "w \<in> ancs (parents s) {ns ! 0}"
      using w(1,3) front_subset [of "parents s" "{ns ! 0}" "int v"] by (auto intro: ancs_start)
    then have "0 \<le> w" using ancs_bounds [OF wf n0_ge] by blast
    then have nw: "nat w < Suc v" "int (nat w) = w" using w(2) by auto
    have "\<not> poisoned (parents s) ns (Suc v) w"
    proof
      assume "poisoned (parents s) ns (Suc v) w"
      then obtain u where u: "u \<in> ?C" "int (Suc v) \<le> u" "w \<in> set (parents s u)"
        by (auto simp: poisoned_def)
      then have "w \<in> ancs (parents s) {u}" using w(3) by (auto intro: ancs_of_parent)
      then have "u = h" using hh [OF u(1)] ancs_single_trans [OF w(4)] by blast
      with u(2) lt show False by simp
    qed
    with inv nw w(1) ns(1) have "seen ! nat w < 2 ^ length ns" "bit (seen ! nat w) 0"
      by (auto simp: cah_inv_def split: if_splits)
    then have "nat w \<in> {p. p < Suc v \<and> seen ! p \<noteq> 0 \<and> seen ! p < 2 ^ length ns}"
      using nw(1) by (auto intro!: gr0I)
    then show False using inv by (auto simp: cah_inv_def interesting_count_def)
  qed
  then show ?thesis using inv by (auto simp: cah_inv_def)
qed

text \<open>One turn of the main loop keeps the invariant.\<close>

lemma cah_inv_skip:
  assumes ns: "ns \<noteq> []" and inv: "cah_inv s ns (Suc v) seen i gca"
    and v: "int v \<notin> common_ancs (parents s) ns"
      "\<And>j. j < length ns \<Longrightarrow> int v \<notin> ancs (parents s) {ns ! j}" "seen ! v = 0"
  shows "cah_inv s ns v seen i gca"
proof -
  have "int v \<le> u \<longleftrightarrow> int (Suc v) \<le> u \<or> u = int v" for u by auto
  then have "{u \<in> heads_of (parents s) (common_ancs (parents s) ns). int v \<le> u} =
      {u \<in> heads_of (parents s) (common_ancs (parents s) ns). int (Suc v) \<le> u}"
    using v(1) by (auto simp: heads_of_def)
  moreover have "front (parents s) {ns ! j} (int v - 1) = front (parents s) {ns ! j} (int v)"
    if "j < length ns" for j
    using v(2) [OF that] by (simp add: front_step)
  ultimately show ?thesis
    using inv v(1,3) by (simp add: cah_inv_def poisoned_Suc [of _ _ v] interesting_count_Suc)
qed

lemma cah_inv_mark:
  assumes wf: "wf s" and ns: "ns \<noteq> []" and inv: "cah_inv s ns (Suc v) seen i gca"
    and sv: "seen ! v \<noteq> 0" "seen ! v < 2 ^ length ns"
    and v: "int v \<notin> common_ancs (parents s) ns"
      "\<And>j. j < length ns \<Longrightarrow> bit (seen ! v) j \<longleftrightarrow> int v \<in> ancs (parents s) {ns ! j}"
    and run: "foldl (mark_step (seen ! v)) (seen, i - 1) (parents s (int v)) = (seen', i')"
  shows "cah_inv s ns v seen' i' gca"
proof -
  have len: "v \<le> length seen" and i: "i - 1 = interesting_count (2 ^ length ns) v seen"
    using inv sv by (auto simp: cah_inv_def interesting_count_Suc)
  have ps: "\<forall>p \<in> set (parents s (int v)). nullrev \<le> p \<and> p < int v"
    by (rule parents_all_below [OF wf])
  have sv0: "0 < seen ! v" using sv(1) by simp
  have res: "length seen' = length seen" "i' = interesting_count (2 ^ length ns) v seen'"
      "\<And>q. q < length seen \<Longrightarrow> seen' ! q =
        (if int q \<in> set (parents s (int v)) then seen ! q OR seen ! v else seen ! q)"
    using mark_foldl [OF run ps len sv0 sv(2) i] by blast+
  have "int v \<le> u \<longleftrightarrow> int (Suc v) \<le> u \<or> u = int v" for u by auto
  then have heads: "{u \<in> heads_of (parents s) (common_ancs (parents s) ns). int v \<le> u} =
      {u \<in> heads_of (parents s) (common_ancs (parents s) ns). int (Suc v) \<le> u}"
    using v(1) by (auto simp: heads_of_def)
  have "if poisoned (parents s) ns v (int p) then 2 ^ length ns \<le> seen' ! p
      else seen' ! p < 2 ^ length ns \<and>
        (\<forall>j < length ns. bit (seen' ! p) j \<longleftrightarrow> int p \<in> front (parents s) {ns ! j} (int v - 1))"
    if p: "p < v" for p
  proof -
    have old: "if poisoned (parents s) ns v (int p) then 2 ^ length ns \<le> seen ! p
      else seen ! p < 2 ^ length ns \<and>
        (\<forall>j < length ns. bit (seen ! p) j \<longleftrightarrow> int p \<in> front (parents s) {ns ! j} (int v))"
      using inv p v(1) by (simp add: cah_inv_def poisoned_Suc [of _ _ v])
    have new: "seen' ! p = (if int p \<in> set (parents s (int v)) then seen ! p OR seen ! v else seen ! p)"
      using res(3) p len by simp
    show ?thesis
      using old new v(2) or_ge [of "seen ! p" "seen ! v"] or_less_poison [OF _ sv(2)]
      by (auto simp: front_step bit_or_iff)
  qed
  moreover have "gca = {u \<in> heads_of (parents s) (common_ancs (parents s) ns). int v \<le> u}"
    using inv heads by (simp add: cah_inv_def)
  ultimately show ?thesis using len res(1,2) by (simp add: cah_inv_def)
qed

lemma cah_inv_poison:
  assumes wf: "wf s" and ns: "ns \<noteq> []" and inv: "cah_inv s ns (Suc v) seen i gca"
    and sv: "2 ^ length ns \<le> sv" and v: "int v \<in> common_ancs (parents s) ns"
    and i: "j = interesting_count (2 ^ length ns) v seen"
    and gca: "gca' = {u \<in> heads_of (parents s) (common_ancs (parents s) ns). int v \<le> u}"
    and run: "foldl (poison_step (2 ^ length ns) sv) (seen, j) (parents s (int v)) = (seen', i')"
  shows "cah_inv s ns v seen' i' gca'"
proof -
  have len: "v \<le> length seen" using inv by (auto simp: cah_inv_def)
  have ps: "\<forall>p \<in> set (parents s (int v)). nullrev \<le> p \<and> p < int v"
    by (rule parents_all_below [OF wf])
  have res: "length seen' = length seen" "i' = interesting_count (2 ^ length ns) v seen'"
      "\<And>q. q < length seen \<Longrightarrow> seen' ! q = (if int q \<in> set (parents s (int v)) then sv else seen ! q)"
    using poison_foldl [OF run ps len sv i] by blast+
  have "if poisoned (parents s) ns v (int p) then 2 ^ length ns \<le> seen' ! p
      else seen' ! p < 2 ^ length ns \<and>
        (\<forall>j < length ns. bit (seen' ! p) j \<longleftrightarrow> int p \<in> front (parents s) {ns ! j} (int v - 1))"
    if p: "p < v" for p
  proof -
    have new: "seen' ! p = (if int p \<in> set (parents s (int v)) then sv else seen ! p)"
      using res(3) p len by simp
    show ?thesis
      using inv p new v sv by (auto simp: cah_inv_def poisoned_Suc [of _ _ v] front_step)
  qed
  then show ?thesis using len gca res(1,2) by (simp add: cah_inv_def)
qed

lemma cah_loop_spec:
  assumes wf: "wf s" and ns: "ns \<noteq> []" "set ns \<subseteq> {0..}"
  shows "cah_inv s ns n seen i gca \<Longrightarrow>
    cah_loop (parents s) (set ns) (2 ^ length ns - 1) (2 ^ length ns) n seen i gca =
      heads_of (parents s) (common_ancs (parents s) ns)"
proof (induction n arbitrary: seen i gca)
  case 0
  have "0 \<le> u" if "u \<in> common_ancs (parents s) ns" for u
    using common_bounds [OF wf ns that] by simp
  with 0 show ?case by (auto simp: cah_inv_def heads_of_def)
next
  case (Suc v)
  let ?C = "common_ancs (parents s) ns" and ?k = "length ns" and ?sv = "seen ! v"
  note inv = Suc.prems
  have nz: "{ns ! j} \<subseteq> {nullrev..}" if "j < ?k" for j
    using ns(2) nth_mem [OF that] by force
  have mem: "?sv < 2 ^ ?k \<Longrightarrow> j < ?k \<Longrightarrow> bit ?sv j \<longleftrightarrow> int v \<in> ancs (parents s) {ns ! j}" for j
    using inv ancs_front [OF wf nz, of j "int v"] by (auto simp: cah_inv_def split: if_splits)
  have C_iff: "int v \<in> ?C \<longleftrightarrow> (\<forall>j < ?k. int v \<in> ancs (parents s) {ns ! j})"
    unfolding common_ancs_def by (simp add: all_set_conv_all_nth)
  have pois: "2 ^ ?k \<le> ?sv \<longleftrightarrow> poisoned (parents s) ns (Suc v) (int v)"
    using inv by (auto simp: cah_inv_def split: if_splits)
  have all: "?sv < 2 ^ ?k \<Longrightarrow> ?sv = 2 ^ ?k - 1 \<longleftrightarrow> int v \<in> ?C"
    using allseen_iff [of ?sv ?k] mem C_iff by auto
  have i: "i = interesting_count (2 ^ ?k) v seen + (if ?sv \<noteq> 0 \<and> ?sv < 2 ^ ?k then 1 else 0)"
    using inv by (auto simp: cah_inv_def interesting_count_Suc)
  have heads: "{u \<in> heads_of (parents s) ?C. int v \<le> u} =
      (if int v \<in> heads_of (parents s) ?C then insert (int v) gca else gca)"
  proof -
    have "int v \<le> u \<longleftrightarrow> int (Suc v) \<le> u \<or> u = int v" for u by auto
    then show ?thesis using inv by (auto simp: cah_inv_def)
  qed
  consider (stop) "i = 0" | (skip) "i \<noteq> 0" "?sv = 0"
    | (mark) "i \<noteq> 0" "?sv \<noteq> 0" "?sv < 2 ^ ?k" "?sv \<noteq> 2 ^ ?k - 1"
    | (found) "i \<noteq> 0" "?sv \<noteq> 0" "?sv < 2 ^ ?k" "?sv = 2 ^ ?k - 1"
    | (pass) "i \<noteq> 0" "?sv \<noteq> 0" "2 ^ ?k \<le> ?sv"
    by (metis not_le)
  then show ?case
  proof cases
    case stop
    with inv cah_inv_done [OF wf ns] show ?thesis by simp
  next
    case skip
    then have "j < ?k \<Longrightarrow> int v \<notin> ancs (parents s) {ns ! j}" for j using mem by simp
    then have "cah_inv s ns v seen i gca"
      using skip ns(1) C_iff by (intro cah_inv_skip [OF ns(1) inv]) auto
    with skip Suc.IH show ?thesis by simp
  next
    case mark
    obtain seen' i' where run:
      "foldl (mark_step ?sv) (seen, i - 1) (parents s (int v)) = (seen', i')" by force
    have "cah_inv s ns v seen' i' gca"
      using mark all mem by (intro cah_inv_mark [OF wf ns(1) inv _ _ _ _ run]) auto
    with mark run Suc.IH show ?thesis by simp
  next
    case found
    then have C: "int v \<in> ?C" using all by simp
    have head: "int v \<in> heads_of (parents s) ?C"
      using head_not_poisoned [OF wf ns C] pois found(3) by (metis not_le)
    show ?thesis
    proof (cases "int v \<in> set ns")
      case True
      have "heads_of (parents s) ?C = {int v}"
      proof -
        have "u = int v" if "u \<in> heads_of (parents s) ?C" for u
          using that True C by (auto simp: heads_of_def common_ancs_def)
        with head show ?thesis by blast
      qed
      with True found show ?thesis by (simp add: Let_def)
    next
      case False
      let ?sv' = "?sv OR 2 ^ ?k"
      obtain seen' i' where run:
        "foldl (poison_step (2 ^ ?k) ?sv') (seen, i - 1) (parents s (int v)) = (seen', i')" by force
      have ge: "2 ^ ?k \<le> ?sv'" using or_ge [of "2 ^ ?k" ?sv] by (simp add: or.commute)
      have "cah_inv s ns v seen' i' (insert (int v) gca)"
        using found head heads i by (intro cah_inv_poison [OF wf ns(1) inv ge C _ _ run]) auto
      with False found run ge Suc.IH show ?thesis by (simp add: Let_def)
    qed
  next
    case pass
    then have p: "poisoned (parents s) ns (Suc v) (int v)" using pois by simp
    then have C: "int v \<in> ?C" by (auto dest: poisoned_common)
    have nh: "int v \<notin> heads_of (parents s) ?C" using head_not_poisoned [OF wf ns C] p by simp
    obtain seen' i' where run:
      "foldl (poison_step (2 ^ ?k) ?sv) (seen, i) (parents s (int v)) = (seen', i')" by force
    have "cah_inv s ns v seen' i' gca"
      using pass nh heads i by (intro cah_inv_poison [OF wf ns(1) inv _ C _ _ run]) auto
    with pass run Suc.IH show ?thesis by (simp add: Let_def)
  qed
qed

end

lemma seen_init_spec:
  "distinct ns \<Longrightarrow> \<forall>n \<in> set ns. 0 \<le> n \<and> n < int (length seen) \<Longrightarrow>
   length (seen_init i ns seen) = length seen \<and>
   (\<forall>j < length ns. seen_init i ns seen ! nat (ns ! j) = 2 ^ (i + j)) \<and>
   (\<forall>q < length seen. int q \<notin> set ns \<longrightarrow> seen_init i ns seen ! q = seen ! q)"
proof (induction ns arbitrary: i seen)
  case (Cons n ns)
  let ?s = "seen[nat n := push_bit i 1]"
  have IH: "length (seen_init (Suc i) ns ?s) = length seen"
      "\<forall>j < length ns. seen_init (Suc i) ns ?s ! nat (ns ! j) = 2 ^ (Suc i + j)"
      "\<forall>q < length seen. int q \<notin> set ns \<longrightarrow> seen_init (Suc i) ns ?s ! q = ?s ! q"
    using Cons.IH [of ?s "Suc i"] Cons.prems by auto
  have "seen_init i (n # ns) seen ! nat ((n # ns) ! j) = 2 ^ (i + j)" if "j < length (n # ns)" for j
  proof (cases j)
    case 0
    have "seen_init (Suc i) ns ?s ! nat n = ?s ! nat n" using IH(3) Cons.prems by auto
    with 0 Cons.prems show ?thesis by (simp add: push_bit_eq_mult nat_less_iff)
  next
    case (Suc m)
    with IH(2) that show ?thesis by simp
  qed
  moreover have "?s ! q = seen ! q" if "int q \<noteq> n" for q
    using that Cons.prems(2) by (cases "nat n = q") auto
  ultimately show ?case using IH by auto
qed simp

context dag
begin

lemma cah_inv_init:
  assumes wf: "wf s" and ns: "ns \<noteq> []" "distinct ns" "set ns \<subseteq> {0..}"
    and seen: "seen = seen_init 0 ns (replicate (nat (Max (set ns) + 1)) 0)"
  shows "cah_inv s ns (length seen) seen (int (length ns)) {}"
proof -
  let ?M = "Max (set ns)" and ?k = "length ns"
  have M: "\<forall>n \<in> set ns. n \<le> ?M" by simp
  have "?M \<in> set ns" using ns(1) by (intro Max_in) auto
  then have M0: "0 \<le> ?M" using ns(3) by auto
  have len: "length seen = nat (?M + 1)"
      and at: "\<And>j. j < ?k \<Longrightarrow> seen ! nat (ns ! j) = 2 ^ j"
      and off: "\<And>q. q < length seen \<Longrightarrow> int q \<notin> set ns \<Longrightarrow> seen ! q = 0"
    using seen_init_spec [of ns "replicate (nat (?M + 1)) 0" 0] ns M M0 unfolding seen by force+
  have ilen: "int (length seen) = ?M + 1" using len M0 by simp
  have "\<not> int (length seen) \<le> u" if "u \<in> common_ancs (parents s) ns" for u
    using common_bounds [OF wf ns(1,3) that] ilen by simp
  then have none: "\<not> poisoned (parents s) ns (length seen) p"
      "{u \<in> heads_of (parents s) (common_ancs (parents s) ns). int (length seen) \<le> u} = {}" for p
    by (auto simp: poisoned_def heads_of_def)
  have fr: "front (parents s) {ns ! j} (int (length seen) - 1) = {ns ! j}" if "j < ?k" for j
    using ns(3) nth_mem [OF that] M ilen by (intro front_initial [OF wf]) force+
  have cell: "seen ! q < 2 ^ ?k \<and> (\<forall>j < ?k. bit (seen ! q) j \<longleftrightarrow> int q = ns ! j)"
    if q: "q < length seen" for q
  proof (cases "int q \<in> set ns")
    case False
    with off [OF q] show ?thesis by (auto simp: in_set_conv_nth)
  next
    case True
    then obtain m where m: "m < ?k" "ns ! m = int q" by (auto simp: in_set_conv_nth)
    then have "seen ! q = 2 ^ m" using at [of m] by simp
    with m ns(2) show ?thesis by (auto simp: bit_exp_iff nth_eq_iff_index_eq)
  qed
  have "{p. p < length seen \<and> seen ! p \<noteq> 0 \<and> seen ! p < 2 ^ ?k} = nat ` set ns"
  proof (intro equalityI subsetI)
    fix p assume "p \<in> {p. p < length seen \<and> seen ! p \<noteq> 0 \<and> seen ! p < 2 ^ ?k}"
    then have "int p \<in> set ns" using off [of p] by (cases "int p \<in> set ns") auto
    then show "p \<in> nat ` set ns" by force
  next
    fix p assume "p \<in> nat ` set ns"
    then obtain j where j: "j < ?k" "p = nat (ns ! j)" by (auto simp: in_set_conv_nth)
    have "ns ! j < int (length seen)" "0 \<le> ns ! j"
      using ilen M ns(3) nth_mem [OF j(1)] by force+
    with j show "p \<in> {p. p < length seen \<and> seen ! p \<noteq> 0 \<and> seen ! p < 2 ^ ?k}"
      using at by auto
  qed
  moreover have "card (nat ` set ns) = ?k"
  proof -
    have "inj_on nat (set ns)" using ns(3) by (auto intro!: inj_on_inverseI [where g = int])
    then show ?thesis using ns(2) by (simp add: card_image distinct_card)
  qed
  ultimately have "interesting_count (2 ^ ?k) (length seen) seen = int ?k"
    by (simp add: interesting_count_def)
  with none fr cell show ?thesis by (auto simp: cah_inv_def)
qed

lemma commonancestorsheads_spec:
  assumes wf: "wf s" and nodes: "nodes \<noteq> []" "set nodes \<subseteq> {nullrev..}"
  shows "commonancestorsheads (parents s) nodes =
    heads_of (parents s) (common_ancs (parents s) nodes)"
proof -
  let ?ns = "remdups nodes"
  have ns: "?ns \<noteq> []" "distinct ?ns" "set ?ns = set nodes" using nodes by auto
  have C: "common_ancs (parents s) ?ns = common_ancs (parents s) nodes"
    by (simp add: common_ancs_def)
  consider (null) "nullrev \<in> set nodes" | (one) n where "nullrev \<notin> set nodes" "?ns = [n]"
    | (many) "nullrev \<notin> set nodes" "\<not> length ?ns \<le> 1"
    using ns(1) by (cases ?ns rule: remdups_adj.cases) auto
  then show ?thesis
  proof cases
    case null
    then have "common_ancs (parents s) nodes = {}"
      by (auto simp: common_ancs_def intro!: bexI [of _ nullrev])
    with null show ?thesis by (simp add: commonancestorsheads_def heads_of_def)
  next
    case one
    then have n: "set nodes = {n}" using ns(3) by simp
    with one(1) nodes(2) have "0 \<le> n" "n \<noteq> nullrev" by auto
    have "heads_of (parents s) (ancs (parents s) {n}) = {n}"
    proof -
      have self: "n \<in> ancs (parents s) {n}" using \<open>n \<noteq> nullrev\<close> by (auto intro: ancs_start)
      have "h = n" if "h \<in> heads_of (parents s) (ancs (parents s) {n})" for h
        using that self by (auto simp: heads_of_def)
      moreover have "u = n" if "u \<in> ancs (parents s) {n}" "n \<in> ancs (parents s) {u}" for u
        using ancs_antisym [OF wf that] ancs_le [OF wf _ that(1)] \<open>0 \<le> n\<close> by auto
      ultimately show ?thesis using self by (auto simp: heads_of_def)
    qed
    moreover have "common_ancs (parents s) nodes = ancs (parents s) {n}"
      using n by (auto simp: common_ancs_def)
    ultimately show ?thesis using one n by (simp add: commonancestorsheads_def)
  next
    case many
    have sub: "set ?ns \<subseteq> {0..}" using revs_nonneg [OF nodes(2) many(1)] by simp
    let ?seen = "seen_init 0 ?ns (replicate (nat (Max (set ?ns) + 1)) 0)"
    have "commonancestorsheads (parents s) nodes = cah_loop (parents s) (set ?ns) (2 ^ length ?ns - 1)
        (2 ^ length ?ns) (length ?seen) ?seen (int (length ?ns)) {}"
      using many by (simp add: commonancestorsheads_def Let_def push_bit_eq_mult)
    then show ?thesis
      using cah_loop_spec [OF wf ns(1) sub cah_inv_init [OF wf ns(1,2) sub refl]] C by simp
  qed
qed

end

section \<open>Properties\<close>

text \<open>
  (C12) \<open>commonancestorsheads(pfunc, *nodes)\<close> returns exactly
  \<open>heads(::nodes[0] and ::nodes[1] and ...)\<close>, as its docstring says: for every graph
  numbered in topological order and every list of revisions (the null revision
  allowed), whatever the order in which the set of nodes is enumerated.
\<close>

theorem commonancestorsheads_correct:
  assumes "topo pf" "nodes \<noteq> []" "set nodes \<subseteq> {nullrev..}"
  shows "commonancestorsheads pf nodes = heads_of pf (common_ancs pf nodes)"
  by (rule pf.commonancestorsheads_spec [OF assms])

theorem commonancestorsheads_correct_witness:
  "topo crisscross \<and> heads_of crisscross (common_ancs crisscross [4, 3]) = {1, 2}"
proof -
  have "commonancestorsheads crisscross [4, 3] = {1, 2}"
    by code_simp
  then show ?thesis using commonancestorsheads_correct [OF topo_crisscross, of "[4, 3]"]
    by (simp add: topo_crisscross)
qed

text \<open>A well-formed object: what the constructor makes and every method keeps.\<close>

definition ima_ok :: "incrementalmissingancestors \<Rightarrow> bool" where
  "ima_ok st \<longleftrightarrow> topo (ima_pfunc st) \<and> bases st \<noteq> {} \<and> finite (bases st) \<and> bases st \<subseteq> {nullrev..}"

text \<open>The revisions the object treats as common: all ancestors of its bases.\<close>

definition ima_common :: "incrementalmissingancestors \<Rightarrow> rev set" where
  "ima_common st = ancs (ima_pfunc st) (bases st)"

lemma ima_okI:
  assumes "ima_ok st" "ima_pfunc st' = ima_pfunc st" "bases st \<subseteq> bases st'"
    "bases st' \<subseteq> insert nullrev (ima_common st)"
  shows "ima_ok st'"
proof -
  have "finite (ima_common st)" "ima_common st \<subseteq> {0..}"
    using assms(1) pf.finite_ancs [of "ima_pfunc st" "bases st"]
      pf.ancs_bounds [of "ima_pfunc st" "bases st"] by (auto simp: ima_ok_def ima_common_def)
  then have "finite (insert nullrev (ima_common st))" "insert nullrev (ima_common st) \<subseteq> {nullrev..}"
    by auto
  then have "finite (bases st')" "bases st' \<subseteq> {nullrev..}"
    using assms(4) by (auto intro: finite_subset)
  with assms(1-3) show ?thesis by (auto simp: ima_ok_def)
qed

text \<open>
  (C14) \<open>missingancestors(revs)\<close> returns \<open>::revs - ::bases\<close> in ascending order. The
  object's bases grow as a side effect, but what they stand for is unchanged.
\<close>

theorem missingancestors_correct:
  assumes "ima_ok st" "finite revs" "revs \<subseteq> {nullrev..}"
  shows "\<exists>st'. missingancestors st revs =
      Inr (st', sorted_list_of_set (ancs (ima_pfunc st) revs - ima_common st)) \<and>
      ima_ok st' \<and> ima_common st' = ima_common st"
proof -
  obtain st' where "missingancestors st revs =
      Inr (st', sorted_list_of_set (ancs (ima_pfunc st) revs - ima_common st))"
      "ima_pfunc st' = ima_pfunc st" "ima_common st' = ima_common st" "bases st \<subseteq> bases st'"
      "bases st' \<subseteq> insert nullrev (ima_common st)"
    using pf.missingancestors_spec [OF _ refl _ _ _ assms(2,3), of st] assms(1)
    by (auto simp: ima_ok_def ima_common_def)
  with ima_okI [OF assms(1), of st'] show ?thesis by auto
qed

theorem missingancestors_correct_witness:
  "let st = ima_init crisscross [1] in
    ima_ok st \<and> (\<exists>st'. missingancestors st {4} = Inr (st', [2, 4]) \<and> ima_common st' = ima_common st)"
proof -
  define st where "st = ima_init crisscross [1]"
  have ok: "ima_ok st" by (simp add: st_def ima_init_def ima_ok_def topo_crisscross)
  have "map_sum id snd (missingancestors (ima_init crisscross [1]) {4}) = Inr [2, 4]" by code_simp
  then have ev: "\<exists>st'. missingancestors st {4} = Inr (st', [2, 4])"
    by (cases "missingancestors st {4}") (auto simp: st_def)
  with missingancestors_correct [OF ok, of "{4}"] ok show ?thesis
    by (auto simp: st_def [symmetric])
qed

text \<open>
  (C22) \<open>removeancestorsfrom(revs)\<close> takes from \<open>revs\<close> exactly the null revision and the
  ancestors of the bases, and again keeps what the bases stand for.
\<close>

theorem removeancestorsfrom_correct:
  assumes "ima_ok st" "finite revs" "revs \<subseteq> {nullrev..}"
  shows "\<exists>st'. removeancestorsfrom st revs = Inr (st', revs - {nullrev} - ima_common st) \<and>
      ima_ok st' \<and> ima_common st' = ima_common st"
proof -
  obtain st' where "removeancestorsfrom st revs = Inr (st', revs - {nullrev} - ima_common st)"
      "ima_pfunc st' = ima_pfunc st" "ima_common st' = ima_common st" "bases st \<subseteq> bases st'"
      "bases st' \<subseteq> insert nullrev (ima_common st)"
    using pf.removeancestorsfrom_spec [OF _ refl _ _ _ assms(2,3), of st] assms(1)
    by (auto simp: ima_ok_def ima_common_def)
  with ima_okI [OF assms(1), of st'] show ?thesis by auto
qed

theorem removeancestorsfrom_correct_witness:
  "let st = ima_init crisscross [3] in
    ima_ok st \<and> (\<exists>st'. removeancestorsfrom st {0, 2, 4} = Inr (st', {4}) \<and> ima_ok st')"
proof -
  define st where "st = ima_init crisscross [3]"
  have ok: "ima_ok st" by (simp add: st_def ima_init_def ima_ok_def topo_crisscross)
  have "map_sum id snd (removeancestorsfrom (ima_init crisscross [3]) {0, 2, 4}) = Inr {4}"
    by code_simp
  then have ev: "\<exists>st'. removeancestorsfrom st {0, 2, 4} = Inr (st', {4})"
    by (cases "removeancestorsfrom st {0, 2, 4}") (auto simp: st_def)
  with removeancestorsfrom_correct [OF ok, of "{0, 2, 4}"] ok show ?thesis
    by (auto simp: st_def [symmetric])
qed

end
