(* ===== verification/Lazyancestors.thy ===== *)
theory Lazyancestors
  imports Ancestor "HOL-Library.Multiset"
begin

text \<open>
  The class \<open>lazyancestors\<close> of \<open>edenscm/mercurial/ancestor.py\<close>: breadth-first
  iteration over the ancestors of some revisions, and a membership test that
  keeps a heap of the revisions still to be expanded between calls. Both loops
  run until their queue is empty; they are \<open>option\<close>-valued partial functions, and
  the theorems prove that they return.
\<close>

section \<open>The object and its operations\<close>

record lazyancestors =
  parentrevs :: pfunc
  initrevs :: "rev list"
  stoprev :: rev
  inclusive :: bool
  containsvisit :: "int list"
  containsseen :: "rev set"

text \<open>
  The \<open>heapq\<close> functions, on the ascending list of the heap's entries: the code
  reads a heap only at its least entry. Entries are negated revisions.
\<close>

definition heapify :: "int list \<Rightarrow> int list" where
  "heapify xs = sort xs"

definition heappush :: "int \<Rightarrow> int list \<Rightarrow> int list" where
  "heappush x h = insort x h"

definition la_init :: "pfunc \<Rightarrow> rev list \<Rightarrow> rev \<Rightarrow> bool \<Rightarrow> lazyancestors" where
  "la_init pf revs stop incl =
    \<lparr>parentrevs = pf, initrevs = revs, stoprev = stop, inclusive = incl,
     containsvisit = heapify (map uminus revs),
     containsseen = (if incl then set revs else {})\<rparr>"

lemma la_init_fields [simp]:
  "parentrevs (la_init pf revs stop incl) = pf" "initrevs (la_init pf revs stop incl) = revs"
  "stoprev (la_init pf revs stop incl) = stop" "inclusive (la_init pf revs stop incl) = incl"
  by (simp_all add: la_init_def)

text \<open>One parent of the revision taken from the queue: schedule, see, yield.\<close>

definition schedule_step :: "rev \<Rightarrow> rev list \<times> rev set \<times> rev list \<Rightarrow> rev \<Rightarrow>
    rev list \<times> rev set \<times> rev list" where
  "schedule_step stop = (\<lambda>(visit, seen, out) parent.
     if stop \<le> parent \<and> parent \<notin> seen
     then (visit @ [parent], insert parent seen, out @ [parent])
     else (visit, seen, out))"

partial_function (option) la_walk ::
    "pfunc \<Rightarrow> rev \<Rightarrow> rev list \<Rightarrow> rev set \<Rightarrow> rev list \<Rightarrow> rev list option" where
  [code]: "la_walk pf stop visit seen out =
    (case visit of
       [] \<Rightarrow> Some out
     | v # vs \<Rightarrow> (case foldl (schedule_step stop) (vs, seen, out) (pf v) of
         (visit', seen', out') \<Rightarrow> la_walk pf stop visit' seen' out'))"

text \<open>The sequence the iterator yields.\<close>

definition la_iter :: "lazyancestors \<Rightarrow> rev list option" where
  "la_iter st =
    (let revs = initrevs st;
         out = (if inclusive st then revs else []);
         seen = (if inclusive st then set revs else {})
     in la_walk (parentrevs st) (stoprev st) revs seen out)"

text \<open>\<open>bool(self)\<close>: whether the iterator yields anything.\<close>

definition la_nonzero :: "lazyancestors \<Rightarrow> bool option" where
  "la_nonzero st = map_option (\<lambda>out. out \<noteq> []) (la_iter st)"

definition contains_step :: "rev \<Rightarrow> rev \<Rightarrow> int list \<times> rev set \<times> bool \<Rightarrow> rev \<Rightarrow>
    int list \<times> rev set \<times> bool" where
  "contains_step stop target = (\<lambda>(visit, seen, targetseen) parent.
     if parent < stop \<or> parent \<in> seen then (visit, seen, targetseen)
     else (heappush (- parent) visit, insert parent seen,
           if parent = target then True else targetseen))"

partial_function (option) contains_loop ::
    "pfunc \<Rightarrow> rev \<Rightarrow> rev \<Rightarrow> int list \<Rightarrow> rev set \<Rightarrow> bool \<Rightarrow> (int list \<times> rev set \<times> bool) option" where
  [code]: "contains_loop pf stop target visit seen targetseen =
    (case visit of
       [] \<Rightarrow> Some (visit, seen, targetseen)
     | h # rest \<Rightarrow>
         if - h > target \<and> \<not> targetseen
         then (case foldl (contains_step stop target) (rest, seen, targetseen) (pf (- h)) of
                 (visit', seen', found') \<Rightarrow> contains_loop pf stop target visit' seen' found')
         else Some (visit, seen, targetseen))"

text \<open>\<open>target in self\<close>: the answer and the object's new state.\<close>

definition la_contains :: "lazyancestors \<Rightarrow> rev \<Rightarrow> (bool \<times> lazyancestors) option" where
  "la_contains st target =
    (if target \<in> containsseen st then Some (True, st)
     else map_option (\<lambda>(visit, seen, found).
            (found, st\<lparr>containsvisit := visit, containsseen := seen\<rparr>))
          (contains_loop (parentrevs st) (stoprev st) target
             (containsvisit st) (containsseen st) False))"

section \<open>What the loops do\<close>

text \<open>The ancestors of \<open>revs\<close> that are no start revisions by themselves, down to \<open>stop\<close>.\<close>

definition strict_ancs :: "pfunc \<Rightarrow> rev set \<Rightarrow> rev \<Rightarrow> rev set" where
  "strict_ancs pf R stop = {a \<in> ancs pf (\<Union>r\<in>R. set (pf r)). stop \<le> a}"

lemma foldl_schedule:
  "\<exists>ns. foldl (schedule_step stop) (visit, seen, out) ps = (visit @ ns, seen \<union> set ns, out @ ns) \<and>
     distinct ns \<and> set ns = {p \<in> set ps. stop \<le> p \<and> p \<notin> seen}"
proof (induction ps arbitrary: visit seen out)
  case (Cons p ps)
  show ?case
  proof (cases "stop \<le> p \<and> p \<notin> seen")
    case True
    obtain ns where "foldl (schedule_step stop) (visit @ [p], insert p seen, out @ [p]) ps =
        ((visit @ [p]) @ ns, insert p seen \<union> set ns, (out @ [p]) @ ns)"
        "distinct ns" "set ns = {q \<in> set ps. stop \<le> q \<and> q \<notin> insert p seen}"
      using Cons.IH by blast
    with True show ?thesis
      by (intro exI [of _ "p # ns"]) (auto simp: schedule_step_def)
  next
    case False
    obtain ns where "foldl (schedule_step stop) (visit, seen, out) ps =
        (visit @ ns, seen \<union> set ns, out @ ns)"
        "distinct ns" "set ns = {q \<in> set ps. stop \<le> q \<and> q \<notin> seen}"
      using Cons.IH by blast
    with False show ?thesis
      by (intro exI [of _ ns]) (auto simp: schedule_step_def)
  qed
qed simp

lemma foldl_contains:
  "sorted visit \<Longrightarrow>
   \<exists>visit' ns. foldl (contains_step stop target) (visit, seen, found) ps =
       (visit', seen \<union> set ns, found \<or> target \<in> set ns) \<and>
     sorted visit' \<and> mset visit' = mset visit + mset (map uminus ns) \<and>
     distinct ns \<and> set ns = {p \<in> set ps. stop \<le> p \<and> p \<notin> seen}"
proof (induction ps arbitrary: visit seen found)
  case Nil
  then show ?case by (auto intro!: exI [of _ visit] exI [of _ "[]"])
next
  case (Cons p ps)
  show ?case
  proof (cases "p < stop \<or> p \<in> seen")
    case True
    then have "contains_step stop target (visit, seen, found) p = (visit, seen, found)"
      by (simp add: contains_step_def)
    moreover have "{q \<in> set (p # ps). stop \<le> q \<and> q \<notin> seen} = {q \<in> set ps. stop \<le> q \<and> q \<notin> seen}"
      using True by auto
    ultimately show ?thesis using Cons.IH [OF Cons.prems, of seen found] by simp
  next
    case False
    let ?f = "found \<or> p = target"
    have step: "contains_step stop target (visit, seen, found) p =
        (insort (- p) visit, insert p seen, ?f)"
      using False by (auto simp: contains_step_def heappush_def)
    obtain visit' ns where run: "foldl (contains_step stop target) (insort (- p) visit, insert p seen, ?f) ps =
        (visit', insert p seen \<union> set ns, ?f \<or> target \<in> set ns)"
        and ns: "sorted visit'" "mset visit' = mset (insort (- p) visit) + mset (map uminus ns)"
        "distinct ns" "set ns = {q \<in> set ps. stop \<le> q \<and> q \<notin> insert p seen}"
      using Cons.IH [of "insort (- p) visit" "insert p seen" ?f] Cons.prems
      unfolding sorted_insort by blast
    have "set (p # ns) = {q \<in> set (p # ps). stop \<le> q \<and> q \<notin> seen}"
      unfolding list.set(2) ns(4) using False by auto
    moreover have "distinct (p # ns)" using ns(3,4) by simp
    moreover have "mset visit' = mset visit + mset (map uminus (p # ns))" using ns(2) by simp
    moreover have "foldl (contains_step stop target) (visit, seen, found) (p # ps) =
        (visit', seen \<union> set (p # ns), found \<or> target \<in> set (p # ns))"
      using run step by auto
    ultimately show ?thesis using ns(1) by blast
  qed
qed

lemma strict_ancs_parent:
  assumes "x \<in> R \<union> strict_ancs pf R stop" "p \<in> set (pf x)" "stop \<le> p" "0 \<le> stop"
  shows "p \<in> strict_ancs pf R stop"
proof -
  have "p \<noteq> nullrev" using assms(3,4) by auto
  with assms(1,2) have "p \<in> ancs pf (\<Union>r\<in>R. set (pf r))"
    by (auto simp: strict_ancs_def intro: ancs_parent ancs_start)
  with assms(3) show ?thesis by (simp add: strict_ancs_def)
qed

context dag
begin

lemma parents_of_nonneg: "wf s \<Longrightarrow> R \<subseteq> {0..} \<Longrightarrow> (\<Union>r\<in>R. set (parents s r)) \<subseteq> {nullrev..}"
  using parents_below by fastforce

lemma finite_strict_ancs:
  "wf s \<Longrightarrow> R \<subseteq> {0..} \<Longrightarrow> finite R \<Longrightarrow> finite (strict_ancs (parents s) R stop)"
  using finite_ancs [of s "\<Union>r\<in>R. set (parents s r)"] parents_of_nonneg [of s R]
  by (simp add: strict_ancs_def)

text \<open>A set of revisions expanded down to \<open>lo\<close> holds every ancestor not below \<open>lo\<close>.\<close>

lemma strict_ancs_closed:
  assumes wf: "wf s" and R: "R \<subseteq> {0..}" and stop: "0 \<le> stop"
    and closed: "\<And>x p. x \<in> R \<union> X \<Longrightarrow> lo < x \<Longrightarrow> p \<in> set (parents s x) \<Longrightarrow> stop \<le> p \<Longrightarrow> p \<in> X"
    and a: "a \<in> strict_ancs (parents s) R stop" "lo \<le> a"
  shows "a \<in> X"
proof -
  let ?P = "\<Union>r\<in>R. set (parents s r)"
  from a have "a \<in> ancs (parents s) ?P" "stop \<le> a" by (auto simp: strict_ancs_def)
  then show ?thesis using a(2)
  proof (induction rule: ancs_induct)
    case (start v)
    then obtain r where r: "r \<in> R" "v \<in> set (parents s r)" by auto
    with parents_below [OF wf, of r v] R have "v < r" by auto
    with r start show ?case using closed [of r v] by auto
  next
    case (parent v p)
    have "0 \<le> v" using ancs_bounds [OF wf parents_of_nonneg [OF wf R] parent.hyps(1)] by simp
    with parents_below [OF wf, of v p] parent.hyps have "p < v" by auto
    with parent.IH parent.prems have "v \<in> X" by auto
    with \<open>p < v\<close> parent.hyps parent.prems show ?case using closed [of v p] by auto
  qed
qed

lemma la_walk_spec:
  assumes wf: "wf s" and R: "R \<subseteq> {0..}" "finite R" and stop: "0 \<le> stop"
    and U: "U = strict_ancs (parents s) R stop"
  shows "set rest \<subseteq> U \<Longrightarrow> distinct rest \<Longrightarrow> set base \<inter> set rest = {} \<Longrightarrow> set base \<subseteq> R \<Longrightarrow>
    seen = set base \<union> set rest \<Longrightarrow>
    set visit \<subseteq> R \<union> U \<Longrightarrow>
    (\<And>x p. x \<in> R \<union> seen \<Longrightarrow> x \<notin> set visit \<Longrightarrow> p \<in> set (parents s x) \<Longrightarrow> stop \<le> p \<Longrightarrow> p \<in> seen) \<Longrightarrow>
    \<exists>rest'. la_walk (parents s) stop visit seen (base @ rest) = Some (base @ rest') \<and>
      distinct rest' \<and> set rest' = U - set base"
proof (induction "2 * card (U - seen) + length visit" arbitrary: visit seen rest rule: less_induct)
  case less
  have finU: "finite U" using finite_strict_ancs [OF wf R] U by simp
  show ?case
  proof (cases visit)
    case Nil
    have "a \<in> seen" if "a \<in> U" for a
      using strict_ancs_closed [OF wf R(1) stop, of seen stop a] less.prems(7) that Nil
      by (auto simp: U strict_ancs_def)
    then have "set rest = U - set base" using less.prems by auto
    with Nil less.prems show ?thesis by (subst la_walk.simps) auto
  next
    case (Cons v vs)
    obtain ns where ns: "foldl (schedule_step stop) (vs, seen, base @ rest) (parents s v) =
        (vs @ ns, seen \<union> set ns, (base @ rest) @ ns)" "distinct ns"
        "set ns = {p \<in> set (parents s v). stop \<le> p \<and> p \<notin> seen}"
      using foldl_schedule by blast
    have v: "v \<in> R \<union> U" using less.prems(6) Cons by auto
    have nsU: "set ns \<subseteq> U"
      using ns(3) strict_ancs_parent [OF v [unfolded U]] stop by (auto simp: U)
    have fold: "la_walk (parents s) stop visit seen (base @ rest) =
        la_walk (parents s) stop (vs @ ns) (seen \<union> set ns) (base @ rest @ ns)"
      using Cons ns(1) by (subst la_walk.simps) simp
    have "card (U - seen) = card (U - (seen \<union> set ns)) + length ns"
      using finU nsU ns(2,3) by (intro card_unseen) auto
    then have dec: "2 * card (U - (seen \<union> set ns)) + length (vs @ ns) < 2 * card (U - seen) + length visit"
      using Cons by simp
    have closed': "p \<in> seen \<union> set ns" if "x \<in> R \<union> (seen \<union> set ns)" "x \<notin> set (vs @ ns)"
        "p \<in> set (parents s x)" "stop \<le> p" for x p
      using that less.prems(7) [of x p] Cons ns(3) by (cases "x = v") auto
    have sub: "set (rest @ ns) \<subseteq> U" "distinct (rest @ ns)" "set base \<inter> set (rest @ ns) = {}"
        "seen \<union> set ns = set base \<union> set (rest @ ns)" "set (vs @ ns) \<subseteq> R \<union> U"
      using less.prems Cons nsU ns(2,3) by auto
    have "\<exists>rest'. la_walk (parents s) stop (vs @ ns) (seen \<union> set ns) (base @ rest @ ns) =
        Some (base @ rest') \<and> distinct rest' \<and> set rest' = U - set base"
      by (rule less.hyps [OF dec sub(1-3) less.prems(4) sub(4,5) closed'])
    with fold show ?thesis by simp
  qed
qed

lemma la_iter_spec:
  assumes wf: "wf s" and st: "parentrevs st = parents s" "set (initrevs st) \<subseteq> {0..}" "0 \<le> stoprev st"
  shows "\<exists>rest. la_iter st = Some ((if inclusive st then initrevs st else []) @ rest) \<and> distinct rest \<and>
    set rest = strict_ancs (parents s) (set (initrevs st)) (stoprev st) -
      (if inclusive st then set (initrevs st) else {})"
proof -
  let ?base = "if inclusive st then initrevs st else []"
  have "\<exists>rest'. la_walk (parents s) (stoprev st) (initrevs st) (set ?base \<union> set []) (?base @ []) =
      Some (?base @ rest') \<and> distinct rest' \<and>
      set rest' = strict_ancs (parents s) (set (initrevs st)) (stoprev st) - set ?base"
    by (rule la_walk_spec [OF wf st(2) _ st(3) refl]) auto
  then show ?thesis using st(1) by (auto simp: la_iter_def Let_def)
qed

text \<open>
  What holds of a \<open>lazyancestors\<close> object between calls of the membership test: the
  heap holds every revision that is known but not expanded.
\<close>

definition la_inv :: "'s \<Rightarrow> lazyancestors \<Rightarrow> bool" where
  "la_inv s st \<longleftrightarrow>
    parentrevs st = parents s \<and> set (initrevs st) \<subseteq> {0..} \<and> 0 \<le> stoprev st \<and>
    sorted (containsvisit st) \<and>
    (let R = set (initrevs st); U = strict_ancs (parents s) R (stoprev st);
         base = (if inclusive st then R else {}) in
      base \<subseteq> containsseen st \<and> containsseen st \<subseteq> base \<union> U \<and>
      uminus ` set (containsvisit st) \<subseteq> R \<union> U \<and>
      (\<forall>x \<in> R \<union> containsseen st. - x \<notin> set (containsvisit st) \<longrightarrow>
        (\<forall>p \<in> set (parents s x). stoprev st \<le> p \<longrightarrow> p \<in> containsseen st)))"

lemma la_inv_init:
  "wf s \<Longrightarrow> set revs \<subseteq> {0..} \<Longrightarrow> 0 \<le> stop \<Longrightarrow> la_inv s (la_init (parents s) revs stop incl)"
  by (auto simp: la_inv_def la_init_def heapify_def Let_def)

lemma contains_loop_spec:
  assumes wf: "wf s" and R: "R \<subseteq> {0..}" "finite R" and stop: "0 \<le> stop"
    and U: "U = strict_ancs (parents s) R stop" and base: "base \<subseteq> R"
  shows "sorted visit \<Longrightarrow> base \<subseteq> seen \<Longrightarrow> seen \<subseteq> base \<union> U \<Longrightarrow> uminus ` set visit \<subseteq> R \<union> U \<Longrightarrow>
    (\<And>x p. x \<in> R \<union> seen \<Longrightarrow> - x \<notin> set visit \<Longrightarrow> p \<in> set (parents s x) \<Longrightarrow> stop \<le> p \<Longrightarrow> p \<in> seen) \<Longrightarrow>
    found = (target \<in> seen) \<Longrightarrow>
    \<exists>visit' seen'. contains_loop (parents s) stop target visit seen found =
        Some (visit', seen', target \<in> base \<union> U) \<and>
      sorted visit' \<and> base \<subseteq> seen' \<and> seen' \<subseteq> base \<union> U \<and> uminus ` set visit' \<subseteq> R \<union> U \<and>
      (\<forall>x \<in> R \<union> seen'. - x \<notin> set visit' \<longrightarrow>
        (\<forall>p \<in> set (parents s x). stop \<le> p \<longrightarrow> p \<in> seen'))"
proof (induction "2 * card (U - seen) + length visit" arbitrary: visit seen found rule: less_induct)
  case less
  have finU: "finite U" using finite_strict_ancs [OF wf R] U by simp
  show ?case
  proof (cases "visit \<noteq> [] \<and> - hd visit > target \<and> \<not> found")
    case False
    have "found \<longleftrightarrow> target \<in> base \<union> U"
    proof (cases found)
      case True
      with less.prems show ?thesis by auto
    next
      case nf: False
      have "target \<in> seen" if "target \<in> U"
      proof (rule strict_ancs_closed [OF wf R(1) stop _ that [unfolded U] order_refl])
        fix x p assume x: "x \<in> R \<union> seen" "target < x" and p: "p \<in> set (parents s x)" "stop \<le> p"
        have "- x \<notin> set visit"
        proof
          assume "- x \<in> set visit"
          with less.prems(1) have "visit \<noteq> []" "hd visit \<le> - x" by (cases visit; auto)+
          with False nf x(2) show False by auto
        qed
        with x p show "p \<in> seen" using less.prems(5) by blast
      qed
      with less.prems nf show ?thesis by auto
    qed
    moreover have "contains_loop (parents s) stop target visit seen found = Some (visit, seen, found)"
      using False by (subst contains_loop.simps) (auto split: list.splits)
    ultimately show ?thesis using less.prems by auto
  next
    case True
    then obtain h rest where visit: "visit = h # rest" "- h > target" "\<not> found" by (cases visit) auto
    then have srt: "sorted rest" using less.prems(1) by simp
    obtain visit' ns where run: "foldl (contains_step stop target) (rest, seen, found) (parents s (- h)) =
        (visit', seen \<union> set ns, found \<or> target \<in> set ns)" and ns: "sorted visit'"
        "mset visit' = mset rest + mset (map uminus ns)" "distinct ns"
        "set ns = {p \<in> set (parents s (- h)). stop \<le> p \<and> p \<notin> seen}"
      using foldl_contains [OF srt] by blast
    have h: "- h \<in> R \<union> U" using less.prems(4) visit by auto
    have nsU: "set ns \<subseteq> U"
      using ns(4) strict_ancs_parent [OF h [unfolded U]] stop by (auto simp: U)
    have set': "set visit' = set rest \<union> uminus ` set ns"
      using arg_cong [OF ns(2), of set_mset] by simp
    have fold: "contains_loop (parents s) stop target visit seen found =
        contains_loop (parents s) stop target visit' (seen \<union> set ns) (found \<or> target \<in> set ns)"
      using visit run by (subst contains_loop.simps) simp
    have "card (U - seen) = card (U - (seen \<union> set ns)) + length ns"
      using finU nsU ns(3,4) by (intro card_unseen) auto
    moreover have "length visit' = length rest + length ns"
      using arg_cong [OF ns(2), of size] by simp
    ultimately have dec: "2 * card (U - (seen \<union> set ns)) + length visit' < 2 * card (U - seen) + length visit"
      using visit by simp
    have closed': "p \<in> seen \<union> set ns" if "x \<in> R \<union> (seen \<union> set ns)" "- x \<notin> set visit'"
        "p \<in> set (parents s x)" "stop \<le> p" for x p
      using that less.prems(5) [of x p] visit(1) ns(4) set' by (cases "x = - h") auto
    have sub: "base \<subseteq> seen \<union> set ns" "seen \<union> set ns \<subseteq> base \<union> U" "uminus ` set visit' \<subseteq> R \<union> U"
      using less.prems(2-4) visit(1) nsU set' by auto
    have found': "(found \<or> target \<in> set ns) = (target \<in> seen \<union> set ns)"
      using less.prems(6) by simp
    show ?thesis unfolding fold by (rule less.hyps [OF dec ns(1) sub closed' found'])
  qed
qed

lemma la_contains_spec:
  assumes wf: "wf s" and inv: "la_inv s st"
  shows "\<exists>st'. la_contains st target =
      Some (target \<in> (if inclusive st then set (initrevs st) else {}) \<union>
        strict_ancs (parents s) (set (initrevs st)) (stoprev st), st') \<and>
      la_inv s st' \<and> initrevs st' = initrevs st \<and> stoprev st' = stoprev st \<and>
      inclusive st' = inclusive st"
proof -
  let ?R = "set (initrevs st)" and ?base = "if inclusive st then set (initrevs st) else {}"
  let ?U = "strict_ancs (parents s) ?R (stoprev st)"
  note i = inv [unfolded la_inv_def Let_def]
  show ?thesis
  proof (cases "target \<in> containsseen st")
    case True
    then have "target \<in> ?base \<union> ?U" using i by blast
    with True inv show ?thesis by (auto simp: la_contains_def)
  next
    case False
    have "\<exists>visit' seen'. contains_loop (parents s) (stoprev st) target (containsvisit st)
          (containsseen st) False = Some (visit', seen', target \<in> ?base \<union> ?U) \<and>
        sorted visit' \<and> ?base \<subseteq> seen' \<and> seen' \<subseteq> ?base \<union> ?U \<and> uminus ` set visit' \<subseteq> ?R \<union> ?U \<and>
        (\<forall>x \<in> ?R \<union> seen'. - x \<notin> set visit' \<longrightarrow>
          (\<forall>p \<in> set (parents s x). stoprev st \<le> p \<longrightarrow> p \<in> seen'))"
      by (rule contains_loop_spec [OF wf _ _ _ refl]) (use i False in auto)
    then obtain visit' seen' where run: "contains_loop (parents s) (stoprev st) target
          (containsvisit st) (containsseen st) False = Some (visit', seen', target \<in> ?base \<union> ?U)"
      and inv': "la_inv s (st\<lparr>containsvisit := visit', containsseen := seen'\<rparr>)"
      using i by (auto simp: la_inv_def Let_def)
    have "la_contains st target =
        Some (target \<in> ?base \<union> ?U, st\<lparr>containsvisit := visit', containsseen := seen'\<rparr>)"
      using False run i by (simp add: la_contains_def)
    with inv' show ?thesis by auto
  qed
qed

end

section \<open>Properties\<close>

text \<open>
  (C25) Iterating over a \<open>lazyancestors\<close> object terminates and yields what its
  docstring says: with \<open>inclusive\<close>, first the given revisions; then every
  ancestor of them not below \<open>stoprev\<close>, once each and none of those already
  yielded.
\<close>

theorem la_iter_correct:
  assumes "topo pf" "set revs \<subseteq> {0..}" "0 \<le> stop"
  shows "\<exists>rest. la_iter (la_init pf revs stop incl) = Some ((if incl then revs else []) @ rest) \<and>
    distinct rest \<and> set rest = strict_ancs pf (set revs) stop - (if incl then set revs else {})"
  using pf.la_iter_spec [of pf "la_init pf revs stop incl", unfolded la_init_fields] assms by blast

theorem la_iter_correct_witness:
  "topo crisscross \<and> la_iter (la_init crisscross [3, 4] 0 True) = Some [3, 4, 1, 2, 0] \<and>
   strict_ancs crisscross {3, 4} 0 = {0, 1, 2}"
proof -
  have it: "la_iter (la_init crisscross [3, 4] 0 True) = Some [3, 4, 1, 2, 0]"
    by (simp add: la_iter_def la_init_def la_walk.simps schedule_step_def crisscross_def)
  have it': "la_iter (la_init crisscross [3, 4] 0 False) = Some [1, 2, 0]"
    by (simp add: la_iter_def la_init_def la_walk.simps schedule_step_def crisscross_def)
  have "strict_ancs crisscross {3, 4} 0 = {0, 1, 2}"
    using la_iter_correct [OF topo_crisscross, of "[3, 4]" 0 False] it' by auto
  with it show ?thesis by (simp add: topo_crisscross)
qed

text \<open>A sequence of membership tests on one object, each leaving its state to the next.\<close>

fun la_queries :: "lazyancestors \<Rightarrow> rev list \<Rightarrow> (bool list \<times> lazyancestors) option" where
  "la_queries st [] = Some ([], st)"
| "la_queries st (t # ts) =
    (case la_contains st t of None \<Rightarrow> None
     | Some (b, st') \<Rightarrow> map_option (\<lambda>(bs, st''). (b # bs, st'')) (la_queries st' ts))"

lemma la_queries_spec:
  assumes "topo pf"
  shows "pf.la_inv pf st \<Longrightarrow> \<exists>st'. la_queries st ts =
    Some (map (\<lambda>t. t \<in> (if inclusive st then set (initrevs st) else {}) \<union>
      strict_ancs pf (set (initrevs st)) (stoprev st)) ts, st')"
proof (induction ts arbitrary: st)
  case (Cons t ts)
  from pf.la_contains_spec [OF assms Cons.prems, of t] obtain st1 where st1:
    "la_contains st t = Some (t \<in> (if inclusive st then set (initrevs st) else {}) \<union>
      strict_ancs pf (set (initrevs st)) (stoprev st), st1)" "pf.la_inv pf st1"
    "initrevs st1 = initrevs st" "stoprev st1 = stoprev st" "inclusive st1 = inclusive st"
    by blast
  from Cons.IH [OF st1(2)] st1 show ?case by auto
qed simp

text \<open>
  (C24) Membership agrees with iteration, for any sequence of membership tests on the
  same object: every test terminates and answers whether the iterator yields the
  revision, although each test changes the heap and the seen set the next one
  starts from.
\<close>

theorem la_contains_correct:
  assumes "topo pf" "set revs \<subseteq> {0..}" "0 \<le> stop"
  shows "\<exists>out st'. la_iter (la_init pf revs stop incl) = Some out \<and>
    la_queries (la_init pf revs stop incl) ts = Some (map (\<lambda>t. t \<in> set out) ts, st')"
proof -
  let ?st = "la_init pf revs stop incl"
  from pf.la_iter_spec [of pf ?st, unfolded la_init_fields] assms obtain rest where
    "la_iter ?st = Some ((if incl then revs else []) @ rest)"
    "set rest = strict_ancs pf (set revs) stop - (if incl then set revs else {})"
    by auto
  moreover from this(2) have "(\<lambda>t. t \<in> (if incl then set revs else {}) \<union> strict_ancs pf (set revs) stop) =
      (\<lambda>t. t \<in> set ((if incl then revs else []) @ rest))"
    by (intro ext) auto
  moreover have "pf.la_inv pf ?st" using pf.la_inv_init [OF assms] .
  from la_queries_spec [OF assms(1) this, of ts, unfolded la_init_fields] have "\<exists>st'. la_queries ?st ts =
      Some (map (\<lambda>t. t \<in> (if incl then set revs else {}) \<union> strict_ancs pf (set revs) stop) ts, st')" .
  ultimately show ?thesis by auto
qed

theorem la_contains_correct_witness:
  "topo crisscross \<and> map_option fst (la_queries (la_init crisscross [3] 1 False) [0, 2, 1, 3, 1]) =
    Some [False, True, True, False, True]"
proof -
  have "la_iter (la_init crisscross [3] 1 False) = Some [1, 2]"
    by (simp add: la_iter_def la_init_def la_walk.simps schedule_step_def crisscross_def)
  then show ?thesis
    using la_contains_correct [OF topo_crisscross, of "[3]" 1 False "[0, 2, 1, 3, 1]"]
    by (auto simp: topo_crisscross)
qed

end
