(* ===== verification/Pydict.thy ===== *)
theory Pydict
  imports Prelude "HOL-Library.AList"
begin

text \<open>
  Python dictionaries as association lists with distinct keys, in the order the
  keys were first inserted: executable, with \<open>KeyError\<close> where the code reads or
  deletes a missing key.
\<close>

type_synonym ('k, 'v) dict = "('k \<times> 'v) list"

definition dict_get :: "('k, 'v) dict \<Rightarrow> 'k \<Rightarrow> 'v res" where
  "dict_get d k = (case map_of d k of None \<Rightarrow> Inl KeyError | Some v \<Rightarrow> Inr v)"

definition dict_has :: "('k, 'v) dict \<Rightarrow> 'k \<Rightarrow> bool" where
  "dict_has d k \<longleftrightarrow> map_of d k \<noteq> None"

text \<open>\<open>d.get(k, default)\<close>\<close>

definition dict_getd :: "('k, 'v) dict \<Rightarrow> 'k \<Rightarrow> 'v \<Rightarrow> 'v" where
  "dict_getd d k v = (case map_of d k of None \<Rightarrow> v | Some x \<Rightarrow> x)"

definition dict_set :: "'k \<Rightarrow> 'v \<Rightarrow> ('k, 'v) dict \<Rightarrow> ('k, 'v) dict" where
  "dict_set k v d = AList.update k v d"

definition dict_del :: "'k \<Rightarrow> ('k, 'v) dict \<Rightarrow> ('k, 'v) dict" where
  "dict_del k d = AList.delete k d"

text \<open>\<open>d.setdefault(k, v)\<close>\<close>

definition dict_setdefault :: "'k \<Rightarrow> 'v \<Rightarrow> ('k, 'v) dict \<Rightarrow> ('k, 'v) dict" where
  "dict_setdefault k v d = (if dict_has d k then d else dict_set k v d)"

definition dict_ok :: "('k, 'v) dict \<Rightarrow> bool" where
  "dict_ok d \<longleftrightarrow> distinct (map fst d)"

named_theorems dict_simps \<open>what dictionary operations do to lookups\<close>

lemma map_of_dict_set [dict_simps]: "map_of (dict_set k v d) = (map_of d)(k \<mapsto> v)"
  by (simp add: dict_set_def update_conv')

lemma map_of_dict_del [dict_simps]: "map_of (dict_del k d) = (map_of d)(k := None)"
  by (simp add: dict_del_def delete_conv')

lemma map_of_dict_setdefault [dict_simps]:
  "map_of (dict_setdefault k v d) = (if map_of d k = None then (map_of d)(k \<mapsto> v) else map_of d)"
  by (simp add: dict_setdefault_def dict_has_def map_of_dict_set)

lemma dict_ok_Nil [simp]: "dict_ok []"
  by (simp add: dict_ok_def)

lemma dict_ok_set [simp]: "dict_ok d \<Longrightarrow> dict_ok (dict_set k v d)"
  by (simp add: dict_ok_def dict_set_def distinct_update)

lemma dict_ok_del [simp]: "dict_ok d \<Longrightarrow> dict_ok (dict_del k d)"
  by (simp add: dict_ok_def dict_del_def distinct_delete)

lemma dict_ok_setdefault [simp]: "dict_ok d \<Longrightarrow> dict_ok (dict_setdefault k v d)"
  by (simp add: dict_setdefault_def)

lemma dict_get_Inr [dict_simps]: "dict_get d k = Inr v \<longleftrightarrow> map_of d k = Some v"
  by (simp add: dict_get_def split: option.splits)

lemma dict_get_Some [simp]: "map_of d k = Some v \<Longrightarrow> dict_get d k = Inr v"
  by (simp add: dict_get_def)

text \<open>\<open>d[k] += x\<close>\<close>

definition dict_add :: "'k \<Rightarrow> int \<Rightarrow> ('k, int) dict \<Rightarrow> ('k, int) dict res" where
  "dict_add k x d = bindE (dict_get d k) (\<lambda>v. Inr (dict_set k (v + x) d))"

text \<open>\<open>d[k] -= 1\<close>, and \<open>del d[k]\<close> when that leaves 0.\<close>

definition dict_drop :: "'k \<Rightarrow> ('k, int) dict \<Rightarrow> ('k, int) dict res" where
  "dict_drop k d = bindE (dict_get d k) (\<lambda>v.
     let d' = dict_set k (v - 1) d in Inr (if v - 1 = 0 then dict_del k d' else d'))"

text \<open>
  A dictionary of counters represents a counting function: exactly the keys with
  a positive count are present.
\<close>

definition counts :: "('k, int) dict \<Rightarrow> ('k \<Rightarrow> nat) \<Rightarrow> bool" where
  "counts d f \<longleftrightarrow> dict_ok d \<and> (\<forall>k. map_of d k = (if f k = 0 then None else Some (int (f k))))"

lemma counts_add:
  assumes "counts d f" "f k \<noteq> 0"
  shows "\<exists>d'. dict_add k 1 d = Inr d' \<and> counts d' (f(k := Suc (f k)))"
  using assms by (auto simp: counts_def dict_add_def dict_simps)

lemma counts_setdefault_add:
  assumes "counts d f"
  shows "\<exists>d'. dict_add k 1 (dict_setdefault k 0 d) = Inr d' \<and> counts d' (f(k := Suc (f k)))"
proof -
  have "map_of (dict_setdefault k 0 d) k = Some (int (f k))"
    using assms by (simp add: counts_def dict_simps)
  with assms show ?thesis by (auto simp: counts_def dict_add_def dict_simps)
qed

lemma counts_drop:
  assumes "counts d f" "f k \<noteq> 0"
  shows "\<exists>d'. dict_drop k d = Inr d' \<and> counts d' (f(k := f k - 1))"
  using assms by (auto simp: counts_def dict_drop_def dict_simps Let_def)

end
