(* ===== verification/Deepest.thy ===== *)
theory Deepest
  imports Ancestor Pydict
begin

text \<open>
  \<open>ancestors\<close> of \<open>edenscm/mercurial/ancestor.py\<close>: of the heads of the common
  ancestors, those furthest from a root. The nested function \<open>deepest\<close> walks down
  from the heads with a depth and a mask per revision, and counts in the
  dictionary \<open>interesting\<close> how many revisions still carry each mask.
\<close>

record deepwalk =
  depth :: "nat list"
  dseen :: "nat list"
  interesting :: "(nat, int) dict"

text \<open>The loop body for one parent \<open>p\<close> of a revision of depth \<open>dv\<close> and mask \<open>sv\<close>.\<close>

definition deep_parent :: "nat \<Rightarrow> nat \<Rightarrow> rev \<Rightarrow> deepwalk \<Rightarrow> deepwalk res" where
  "deep_parent dv sv p w =
    (if p = nullrev then Inr w
     else let dp = depth w ! nat p; sp = dseen w ! nat p in
       if dp \<le> dv then
         (let w = w\<lparr>depth := (depth w)[nat p := dv + 1]\<rparr> in
          if sp \<noteq> sv then
            bindE (dict_add sv 1 (interesting w)) (\<lambda>d.
              let w = w\<lparr>dseen := (dseen w)[nat p := sv], interesting := d\<rparr> in
              if sp \<noteq> 0 then bindE (dict_drop sp d) (\<lambda>d. Inr (w\<lparr>interesting := d\<rparr>))
              else Inr w)
          else Inr w)
       else if dv = dp - 1 then
         (let nsp = sp OR sv in
          if nsp = sp then Inr w
          else bindE (dict_add nsp 1 (dict_setdefault nsp 0 (interesting w))) (\<lambda>d.
            bindE (dict_drop sp d) (\<lambda>d.
              Inr (w\<lparr>dseen := (dseen w)[nat p := nsp], interesting := d\<rparr>))))
       else Inr w)"

fun deep_parents :: "nat \<Rightarrow> nat \<Rightarrow> rev list \<Rightarrow> deepwalk \<Rightarrow> deepwalk res" where
  "deep_parents dv sv [] w = Inr w"
| "deep_parents dv sv (p # ps) w = bindE (deep_parent dv sv p w) (deep_parents dv sv ps)"

fun deep_loop :: "pfunc \<Rightarrow> nat \<Rightarrow> deepwalk \<Rightarrow> deepwalk res" where
  "deep_loop pf 0 w = Inr w"
| "deep_loop pf (Suc v) w =
    (if length (interesting w) \<le> 1 then Inr w
     else let dv = depth w ! v; sv = dseen w ! v in
       if dv = 0 then deep_loop pf v w
       else bindE (deep_parents dv sv (pf (int v)) w) (\<lambda>w.
         bindE (dict_drop sv (interesting w)) (\<lambda>d.
           deep_loop pf v (w\<lparr>interesting := d\<rparr>))))"

text \<open>The initialisation loop over \<open>enumerate(sorted(nodes))\<close>; \<open>mapping\<close> comes beside the walk.\<close>

fun deep_init :: "nat \<Rightarrow> rev list \<Rightarrow> deepwalk \<times> (nat \<times> rev) list \<Rightarrow> deepwalk \<times> (nat \<times> rev) list" where
  "deep_init i [] st = st"
| "deep_init i (n # ns) (w, mapping) =
    (let b = push_bit i 1 in
     deep_init (Suc i) ns
       (w\<lparr>depth := (depth w)[nat n := 1], dseen := (dseen w)[nat n := b],
          interesting := dict_set b 1 (interesting w)\<rparr>, mapping @ [(b, n)]))"

definition deepest :: "pfunc \<Rightarrow> rev set \<Rightarrow> rev set res" where
  "deepest pf nodes =
    bindE (py_max nodes) (\<lambda>m.
      let count = nat (m + 1);
          (w, mapping) = deep_init 0 (sorted_list_of_set nodes)
             (\<lparr>depth = replicate count 0, dseen = replicate count 0, interesting = []\<rparr>, [])
      in bindE (deep_loop pf count w) (\<lambda>w.
           if length (interesting w) \<noteq> 1 then Inr {}
           else let k = foldl (\<lambda>k i. k OR i) 0 (map fst (interesting w))
                in Inr (set (map snd (filter (\<lambda>(i, n). k AND i \<noteq> 0) mapping)))))"

text \<open>The function \<open>ancestors(pfunc, *orignodes)\<close>.\<close>

definition ancestors :: "pfunc \<Rightarrow> rev list \<Rightarrow> rev set res" where
  "ancestors pf orignodes =
    (let gca = commonancestorsheads pf orignodes
     in if card gca \<le> 1 then Inr gca else deepest pf gca)"

section \<open>The dictionary of counters never misses a key\<close>

text \<open>How many of the revisions below \<open>n\<close> carry the mask \<open>k\<close>.\<close>

definition carrying :: "nat \<Rightarrow> nat list \<Rightarrow> nat \<Rightarrow> nat" where
  "carrying n seen k = (if k = 0 then 0 else card {q. q < n \<and> seen ! q = k})"

lemma carrying_0 [simp]: "carrying n seen 0 = 0"
  by (simp add: carrying_def)

lemma carrying_upd:
  assumes "q < n" "n \<le> length seen" "x \<noteq> seen ! q" "x \<noteq> 0"
  shows "carrying n (seen[q := x]) = (let f = (carrying n seen)(x := Suc (carrying n seen x)) in
    if seen ! q = 0 then f else f(seen ! q := carrying n seen (seen ! q) - 1))"
proof (rule ext)
  fix k
  define S where "S = {p. p < n \<and> p \<noteq> q \<and> seen ! p = k}"
  have f: "finite S" "q \<notin> S" by (auto simp: S_def)
  have "{p. p < n \<and> seen[q := x] ! p = k} = (if k = x then insert q S else S)"
    using assms by (auto simp: S_def nth_list_update)
  moreover have "{p. p < n \<and> seen ! p = k} = (if k = seen ! q then insert q S else S)"
    using assms by (auto simp: S_def)
  ultimately have new: "carrying n (seen[q := x]) k = (if k = 0 then 0 else card S + (if k = x then 1 else 0))"
      and old: "carrying n seen k = (if k = 0 then 0 else card S + (if k = seen ! q then 1 else 0))"
    using f by (simp_all add: carrying_def)
  show "carrying n (seen[q := x]) k = (let f = (carrying n seen)(x := Suc (carrying n seen x)) in
    if seen ! q = 0 then f else f(seen ! q := carrying n seen (seen ! q) - 1)) k"
  proof (cases "k = x")
    case True
    with old new assms(3,4) show ?thesis by (simp add: Let_def)
  next
    case False
    with old new assms(3,4) show ?thesis by (cases "k = seen ! q") (simp_all add: Let_def)
  qed
qed

lemma carrying_pos: "q < n \<Longrightarrow> seen ! q = k \<Longrightarrow> k \<noteq> 0 \<Longrightarrow> carrying n seen k \<noteq> 0"
  by (auto simp: carrying_def card_eq_0_iff)

definition deep_inv :: "nat \<Rightarrow> deepwalk \<Rightarrow> bool" where
  "deep_inv n w \<longleftrightarrow> n \<le> length (dseen w) \<and> length (depth w) = length (dseen w) \<and>
    counts (interesting w) (carrying n (dseen w)) \<and>
    (\<forall>q < length (dseen w). depth w ! q = 0 \<longleftrightarrow> dseen w ! q = 0)"

lemma counts_move:
  assumes "x \<noteq> y" "y = 0 \<or> f y \<noteq> 0"
    and "\<exists>d'. r = Inr d' \<and> counts d' (f(x := Suc (f x)))"
  shows "\<exists>d'. bindE r (\<lambda>d'. if y \<noteq> 0 then dict_drop y d' else Inr d') = Inr d' \<and>
    counts d' (let g = f(x := Suc (f x)) in if y = 0 then g else g(y := f y - 1))"
proof -
  obtain d' where d': "r = Inr d'" "counts d' (f(x := Suc (f x)))" using assms(3) by blast
  show ?thesis
  proof (cases "y = 0")
    case True
    with d' show ?thesis by simp
  next
    case False
    have fy: "(f(x := Suc (f x))) y = f y" using assms(1) by simp
    with False have "(f(x := Suc (f x))) y \<noteq> 0" using assms(2) by simp
    from counts_drop [OF d'(2) this] obtain d'' where
      "dict_drop y d' = Inr d''" "counts d'' ((f(x := Suc (f x)))(y := f y - 1))"
      unfolding fy by blast
    with False d' show ?thesis by (simp add: Let_def)
  qed
qed

lemma deep_parent_total:
  assumes inv: "deep_inv (Suc v) w" and v: "dseen w ! v = sv" "sv \<noteq> 0"
    and p: "p = nullrev \<or> 0 \<le> p \<and> p < int v"
  shows "\<exists>w'. deep_parent dv sv p w = Inr w' \<and> deep_inv (Suc v) w' \<and> dseen w' ! v = sv \<and>
    depth w' ! v = depth w ! v"
proof (cases "p = nullrev")
  case True
  with inv v show ?thesis by (simp add: deep_parent_def)
next
  case False
  let ?q = "nat p" and ?dp = "depth w ! nat p" and ?sp = "dseen w ! nat p"
  let ?c = "carrying (Suc v) (dseen w)"
  have q: "?q < v" "?q < Suc v" "Suc v \<le> length (dseen w)" using p False inv by (auto simp: deep_inv_def)
  have len: "length (depth w) = length (dseen w)" and cnt: "counts (interesting w) ?c"
      and dz: "\<forall>q < length (dseen w). depth w ! q = 0 \<longleftrightarrow> dseen w ! q = 0"
    using inv by (auto simp: deep_inv_def)
  have sv_pos: "?c sv \<noteq> 0" using v by (intro carrying_pos [of v]) auto
  have sp_pos: "?sp = 0 \<or> ?c ?sp \<noteq> 0" 
    using carrying_pos [OF q(2) refl] by blast
  consider (same) "?dp \<le> dv" "?sp = sv" | (deeper) "?dp \<le> dv" "?sp \<noteq> sv"
    | (stay) "\<not> ?dp \<le> dv" "dv \<noteq> ?dp - 1 \<or> ?sp OR sv = ?sp"
    | (join) "\<not> ?dp \<le> dv" "dv = ?dp - 1" "?sp OR sv \<noteq> ?sp"
    by blast
  then show ?thesis
  proof cases
    case same
    with False q v len cnt dz show ?thesis
      by (auto simp: deep_parent_def Let_def deep_inv_def nth_list_update)
  next
    case deeper
    obtain d' where d': "bindE (dict_add sv 1 (interesting w))
          (\<lambda>d. if ?sp \<noteq> 0 then dict_drop ?sp d else Inr d) = Inr d'"
        "counts d' (carrying (Suc v) ((dseen w)[?q := sv]))"
      using counts_move [where f = ?c and x = sv, OF _ sp_pos counts_add [OF cnt sv_pos]] deeper(2) v(2)
        carrying_upd [OF q(2,3), of sv] by (auto simp: Let_def)
    let ?w = "w\<lparr>depth := (depth w)[?q := dv + 1], dseen := (dseen w)[?q := sv], interesting := d'\<rparr>"
    have "deep_parent dv sv p w = Inr ?w"
      using d'(1) deeper False
      by (cases "dict_add sv 1 (interesting w)") (auto simp: deep_parent_def Let_def)
    moreover have "deep_inv (Suc v) ?w"
      using q len dz v(2) d'(2) by (auto simp: deep_inv_def nth_list_update)
    ultimately show ?thesis using q v by simp
  next
    case stay
    with False inv v show ?thesis by (auto simp: deep_parent_def Let_def)
  next
    case join
    let ?nsp = "?sp OR sv"
    have "?dp \<noteq> 0" "?q < length (dseen w)" using join(1) q by auto
    with dz [rule_format, of ?q] have sp: "?sp \<noteq> 0" by simp
    have nsp: "?nsp \<noteq> 0" using or_ge [of ?sp sv] sp by linarith
    obtain d' where d': "bindE (dict_add ?nsp 1 (dict_setdefault ?nsp 0 (interesting w)))
          (\<lambda>d. if ?sp \<noteq> 0 then dict_drop ?sp d else Inr d) = Inr d'"
        "counts d' (carrying (Suc v) ((dseen w)[?q := ?nsp]))"
      using counts_move [where f = ?c and x = ?nsp, OF _ sp_pos counts_setdefault_add [OF cnt]] join(3) nsp
        carrying_upd [OF q(2,3), of ?nsp] by (auto simp: Let_def)
    let ?w = "w\<lparr>dseen := (dseen w)[?q := ?nsp], interesting := d'\<rparr>"
    have "deep_parent dv sv p w = Inr ?w"
      using d'(1) join False sp
      by (cases "dict_add ?nsp 1 (dict_setdefault ?nsp 0 (interesting w))")
        (auto simp: deep_parent_def Let_def)
    moreover have "deep_inv (Suc v) ?w"
      using q len dz nsp d'(2) sp by (auto simp: deep_inv_def nth_list_update)
    ultimately show ?thesis using q v by simp
  qed
qed

lemma deep_parents_total:
  "deep_inv (Suc v) w \<Longrightarrow> dseen w ! v = sv \<Longrightarrow> sv \<noteq> 0 \<Longrightarrow>
   \<forall>p \<in> set ps. p = nullrev \<or> 0 \<le> p \<and> p < int v \<Longrightarrow>
   \<exists>w'. deep_parents dv sv ps w = Inr w' \<and> deep_inv (Suc v) w' \<and> dseen w' ! v = sv"
proof (induction ps arbitrary: w)
  case (Cons p ps)
  then obtain w1 where w1: "deep_parent dv sv p w = Inr w1" "deep_inv (Suc v) w1" "dseen w1 ! v = sv"
    using deep_parent_total [of v w sv p dv] by auto
  with Cons.IH [OF w1(2,3)] Cons.prems show ?case by simp
qed simp

lemma carrying_Suc:
  "carrying (Suc v) seen k = carrying v seen k + (if seen ! v = k \<and> k \<noteq> 0 then 1 else 0)"
proof -
  have "{q. q < Suc v \<and> seen ! q = k} =
      (if seen ! v = k then insert v {q. q < v \<and> seen ! q = k} else {q. q < v \<and> seen ! q = k})"
    by (auto simp: less_Suc_eq)
  then show ?thesis by (simp add: carrying_def)
qed

lemma deep_loop_total:
  "topo pf \<Longrightarrow> deep_inv n w \<Longrightarrow> \<exists>w'. deep_loop pf n w = Inr w'"
proof (induction n arbitrary: w)
  case (Suc v)
  let ?sv = "dseen w ! v"
  have len: "v < length (dseen w)" using Suc.prems(2) by (simp add: deep_inv_def)
  show ?case
  proof (cases "depth w ! v = 0")
    case True
    with len Suc.prems(2) have "carrying (Suc v) (dseen w) = carrying v (dseen w)"
      by (intro ext) (auto simp: carrying_Suc deep_inv_def)
    with Suc.prems(2) have "deep_inv v w" by (simp add: deep_inv_def)
    with True Suc.IH [OF Suc.prems(1)] show ?thesis by simp
  next
    case False
    have "\<forall>q < length (dseen w). depth w ! q = 0 \<longleftrightarrow> dseen w ! q = 0"
      using Suc.prems(2) by (simp add: deep_inv_def)
    from this [rule_format, OF len] False have sv: "?sv \<noteq> 0" by simp
    have ps: "\<forall>p \<in> set (pf (int v)). p = nullrev \<or> 0 \<le> p \<and> p < int v"
      using pf.parents_all_below [OF Suc.prems(1), of v] by force
    from deep_parents_total [OF Suc.prems(2) refl sv ps, of "depth w ! v"] obtain w1 where
      w1: "deep_parents (depth w ! v) ?sv (pf (int v)) w = Inr w1" "deep_inv (Suc v) w1"
        "dseen w1 ! v = ?sv" by blast
    have pos: "carrying (Suc v) (dseen w1) ?sv \<noteq> 0" using w1(3) sv by (intro carrying_pos [of v]) auto
    have "counts (interesting w1) (carrying (Suc v) (dseen w1))" using w1(2) by (simp add: deep_inv_def)
    from counts_drop [OF this pos] obtain d where d: "dict_drop ?sv (interesting w1) = Inr d"
        "counts d ((carrying (Suc v) (dseen w1))(?sv := carrying (Suc v) (dseen w1) ?sv - 1))"
      by blast
    have "(carrying (Suc v) (dseen w1))(?sv := carrying (Suc v) (dseen w1) ?sv - 1) =
        carrying v (dseen w1)"
      using w1(3) sv by (auto simp: carrying_Suc)
    with w1(2) d(2) have "deep_inv v (w1\<lparr>interesting := d\<rparr>)" by (simp add: deep_inv_def)
    with False w1(1) d(1) Suc.IH [OF Suc.prems(1)] show ?thesis by simp
  qed
qed simp

lemma deep_init_spec:
  "deep_init i ns (w, m) = (w', m') \<Longrightarrow> distinct ns \<Longrightarrow>
   \<forall>n \<in> set ns. 0 \<le> n \<and> n < int (length (dseen w)) \<and> dseen w ! nat n = 0 \<Longrightarrow>
   deep_inv (length (dseen w)) w \<Longrightarrow> \<forall>q < length (dseen w). dseen w ! q < 2 ^ i \<Longrightarrow>
   deep_inv (length (dseen w)) w' \<and> map snd m' = map snd m @ ns"
proof (induction i ns "(w, m)" arbitrary: w m rule: deep_init.induct)
  case (2 i n ns w m)
  let ?q = "nat n" and ?b = "push_bit i 1 :: nat"
  let ?w = "w\<lparr>depth := (depth w)[?q := 1], dseen := (dseen w)[?q := ?b],
    interesting := dict_set ?b 1 (interesting w)\<rparr>"
  have b: "?b = 2 ^ i" by (simp add: push_bit_eq_mult)
  have q: "?q < length (dseen w)" "dseen w ! ?q = 0" "int ?q = n" using "2.prems"(3) by auto
  have none: "carrying (length (dseen w)) (dseen w) ?b = 0"
    using "2.prems"(5) unfolding b by (auto simp: carrying_def)
  have "carrying (length (dseen w)) ((dseen w)[?q := ?b]) =
      (carrying (length (dseen w)) (dseen w))(?b := 1)"
    using carrying_upd [of ?q "length (dseen w)" "dseen w" ?b] q none by (simp add: b Let_def)
  moreover have "counts (dict_set ?b 1 (interesting w)) ((carrying (length (dseen w)) (dseen w))(?b := 1))"
    using "2.prems"(4) by (auto simp: deep_inv_def counts_def dict_simps)
  ultimately have inv: "deep_inv (length (dseen ?w)) ?w"
    using "2.prems"(4) q b by (auto simp: deep_inv_def nth_list_update)
  have lt: "\<forall>q < length (dseen ?w). dseen ?w ! q < 2 ^ Suc i"
  proof (intro allI impI)
    fix q' assume "q' < length (dseen ?w)"
    then have "dseen w ! q' < 2 ^ i" using "2.prems"(5) by simp
    then show "dseen ?w ! q' < 2 ^ Suc i" using q b by (simp add: nth_list_update)
  qed
  have zero: "\<forall>m \<in> set ns. 0 \<le> m \<and> m < int (length (dseen ?w)) \<and> dseen ?w ! nat m = 0"
    using "2.prems"(2,3) by (auto simp: nth_list_update eq_nat_nat_iff)
  have run: "deep_init (Suc i) ns (?w, m @ [(?b, n)]) = (w', m')"
    using "2.prems"(1) by (simp add: Let_def)
  show ?case using "2.hyps" [OF refl run _ zero inv lt] "2.prems"(2) by simp
qed auto

lemma ancestors_total:
  assumes "topo pf" "orignodes \<noteq> []" "set orignodes \<subseteq> {nullrev..}"
  shows "\<exists>r. ancestors pf orignodes = Inr r \<and>
    r \<subseteq> heads_of pf (common_ancs pf orignodes)"
proof -
  let ?g = "commonancestorsheads pf orignodes"
  have g: "?g = heads_of pf (common_ancs pf orignodes)"
    by (rule pf.commonancestorsheads_spec [OF assms])
  show ?thesis
  proof (cases "card ?g \<le> 1")
    case True
    with g show ?thesis by (auto simp: ancestors_def)
  next
    case False
    then have fin: "finite ?g" "?g \<noteq> {}" by (auto intro: card_ge_0_finite)
    obtain n where n: "n \<in> set orignodes" using assms(2) by (cases orignodes) auto
    have "0 \<le> h" if "h \<in> ?g" for h
    proof -
      have "h \<in> ancs pf {n}" using that n unfolding g by (auto simp: heads_of_def common_ancs_def)
      then show ?thesis using pf.ancs_bounds [OF assms(1), of "{n}" h] assms(3) n by auto
    qed
    then have ge: "0 \<le> h \<and> h < Max ?g + 1" if "h \<in> ?g" for h using that fin by (auto simp: le_less_trans)
    let ?w0 = "\<lparr>depth = replicate (nat (Max ?g + 1)) 0, dseen = replicate (nat (Max ?g + 1)) 0,
      interesting = []\<rparr>"
    obtain w m where init: "deep_init 0 (sorted_list_of_set ?g) (?w0, []) = (w, m)" by force
    have inv0: "deep_inv (length (dseen ?w0)) ?w0"
      by (auto simp: deep_inv_def counts_def carrying_def)
    have "deep_inv (length (dseen ?w0)) w \<and> map snd m = map snd ([] :: (nat \<times> rev) list) @ sorted_list_of_set ?g"
      by (rule deep_init_spec [OF init _ _ inv0]) (use ge fin in auto)
    then have w: "deep_inv (nat (Max ?g + 1)) w" "snd ` set m = ?g"
      using fin by (simp_all flip: set_map)
    from deep_loop_total [OF assms(1) w(1)] obtain w' where
      "deep_loop pf (nat (Max ?g + 1)) w = Inr w'" by blast
    then show ?thesis using False fin init w(2) unfolding g
      by (auto simp: ancestors_def deepest_def py_max_def Let_def g)
  qed
qed

section \<open>Properties\<close>

text \<open>
  (C28) \<open>ancestors(pfunc, *nodes)\<close> always returns: the dictionary \<open>interesting\<close> is never
  read or decremented at a missing key. Its result is a set of heads of the
  common ancestors.
\<close>

theorem ancestors_returns_heads:
  assumes "topo pf" "orignodes \<noteq> []" "set orignodes \<subseteq> {nullrev..}"
  shows "\<exists>r. ancestors pf orignodes = Inr r \<and> r \<subseteq> heads_of pf (common_ancs pf orignodes)"
  by (rule ancestors_total [OF assms])

theorem ancestors_returns_heads_witness:
  "topo crisscross \<and> ancestors crisscross [3, 4] = Inr {1, 2} \<and>
   {1, 2} \<subseteq> heads_of crisscross (common_ancs crisscross [3, 4])"
proof -
  have "ancestors crisscross [3, 4] = Inr {1, 2}" by code_simp
  then show ?thesis using ancestors_returns_heads [OF topo_crisscross, of "[3, 4]"]
    by (simp add: topo_crisscross)
qed

end
