(* ===== verification/Pybytes.thy ===== *)
theory Pybytes
  imports Prelude
begin

text \<open>
  Python byte strings, as far as the diff and patch code uses them: slicing,
  \<open>str.split\<close>, \<open>str.splitlines(True)\<close>, and \<open>struct.pack\<close>/\<open>struct.unpack\<close> with
  the format \<open>>lll\<close> (three big-endian signed 32-bit integers).
\<close>

type_synonym bytes = string

abbreviation NL :: char where
  "NL \<equiv> CHR 0x0A"

abbreviation CR :: char where
  "CR \<equiv> CHR 0x0D"

section \<open>Slices and indexing\<close>

text \<open>\<open>xs[i:j]\<close> for bounds that are not negative.\<close>

definition slice :: "'a list \<Rightarrow> nat \<Rightarrow> nat \<Rightarrow> 'a list" where
  "slice xs i j = take (j - i) (drop i xs)"

text \<open>\<open>xs[i:j]\<close> for all integers.\<close>

definition py_slice :: "'a list \<Rightarrow> int \<Rightarrow> int \<Rightarrow> 'a list" where
  "py_slice xs i j =
     (let n = int (length xs);
          clip = (\<lambda>x. nat (if x < 0 then max 0 (x + n) else min x n))
      in slice xs (clip i) (clip j))"

text \<open>\<open>xs[i]\<close> for an index that is not negative; out of range it raises.\<close>

definition py_index :: "'a list \<Rightarrow> nat \<Rightarrow> 'a res" where
  "py_index xs i = (if i < length xs then Inr (xs ! i) else Inl IndexError)"

lemma py_index_ok [simp]: "i < length xs \<Longrightarrow> py_index xs i = Inr (xs ! i)"
  by (simp add: py_index_def)

lemma length_slice [simp]: "length (slice xs i j) = min (j - i) (length xs - i)"
  by (simp add: slice_def min.commute)

lemma nth_slice [simp]: "t < j - i \<Longrightarrow> j \<le> length xs \<Longrightarrow> slice xs i j ! t = xs ! (i + t)"
  by (simp add: slice_def)

lemma slice_same [simp]: "slice xs i i = []"
  by (simp add: slice_def)

lemma py_slice_nonneg: "0 \<le> i \<Longrightarrow> 0 \<le> j \<Longrightarrow> py_slice xs i j = slice xs (nat i) (nat j)"
  by (auto simp: py_slice_def slice_def Let_def min_def)

lemma slice_append: "i \<le> j \<Longrightarrow> j \<le> k \<Longrightarrow> slice xs i j @ slice xs j k = slice xs i k"
proof -
  assume "i \<le> j" "j \<le> k"
  then obtain p q where p: "j = i + p" and q: "k = j + q" by (metis le_Suc_ex)
  have "take (p + q) (drop i xs) = take p (drop i xs) @ take q (drop p (drop i xs))"
    by (rule take_add)
  then show ?thesis using p q by (simp add: slice_def add.commute)
qed

lemma slice_all: "length xs \<le> j \<Longrightarrow> slice xs 0 j = xs"
  by (simp add: slice_def)

lemma slice_to_drop: "length xs \<le> j \<Longrightarrow> slice xs i j = drop i xs"
  by (simp add: slice_def)

lemma take_slice: "i \<le> j \<Longrightarrow> take i xs @ slice xs i j = take j xs"
  using slice_append [of 0 i j xs] by (simp add: slice_def)

lemma slice_eqI:
  assumes "j \<le> length xs" "j' \<le> length ys" "j - i = j' - i'"
    and "\<And>t. t < j - i \<Longrightarrow> xs ! (i + t) = ys ! (i' + t)"
  shows "slice xs i j = slice ys i' j'"
  using assms by (intro nth_equalityI) auto

lemma slice_eq_nth:
  assumes "slice xs i j = slice ys i' j'" "t < j - i" "j \<le> length xs" "j' \<le> length ys" "j - i = j' - i'"
  shows "xs ! (i + t) = ys ! (i' + t)"
  using assms by (metis nth_slice)

lemma slice_Suc: "i \<le> j \<Longrightarrow> j < length xs \<Longrightarrow> slice xs i (Suc j) = slice xs i j @ [xs ! j]"
  using slice_append [of i j "Suc j" xs] by (simp add: slice_def take_Suc_conv_app_nth)

lemma map_nth_slice: "j \<le> length xs \<Longrightarrow> map (\<lambda>i. xs ! i) [i..<j] = slice xs i j"
  by (rule nth_equalityI) auto

section \<open>Splitting into lines\<close>

text \<open>\<open>text.split(sep)\<close> for a one-character separator.\<close>

fun py_split :: "char \<Rightarrow> bytes \<Rightarrow> bytes list" where
  "py_split c [] = [[]]"
| "py_split c (x # xs) =
     (if x = c then [] # py_split c xs
      else (case py_split c xs of [] \<Rightarrow> [[x]] | w # ws \<Rightarrow> (x # w) # ws))"

lemma py_split_neq_Nil [simp]: "py_split c s \<noteq> []"
  by (induction s) (auto split: list.splits)

lemma py_split_none: "c \<notin> set s \<Longrightarrow> py_split c s = [s]"
  by (induction s) auto

lemma py_split_sep: "c \<notin> set s \<Longrightarrow> py_split c (s @ c # rest) = s # py_split c rest"
  by (induction s) auto

text \<open>\<open>text.splitlines(True)\<close> of a byte string: lines end at LF, CR or CRLF.\<close>

fun splitlines_aux :: "bytes \<Rightarrow> bytes \<Rightarrow> bytes list" where
  "splitlines_aux acc [] = (if acc = [] then [] else [acc])"
| "splitlines_aux acc (x # xs) =
     (if x = NL then (acc @ [x]) # splitlines_aux [] xs
      else if x = CR then
        (case xs of
           y # ys \<Rightarrow> if y = NL then (acc @ [x, y]) # splitlines_aux [] ys
                     else (acc @ [x]) # splitlines_aux [] xs
         | [] \<Rightarrow> [acc @ [x]])
      else splitlines_aux (acc @ [x]) xs)"

definition splitlines_keep :: "bytes \<Rightarrow> bytes list" where
  "splitlines_keep text = splitlines_aux [] text"

lemma concat_splitlines_aux: "concat (splitlines_aux acc s) = acc @ s"
  by (induction acc s rule: splitlines_aux.induct) (auto split: list.splits)

lemma concat_splitlines_keep [simp]: "concat (splitlines_keep s) = s"
  by (simp add: splitlines_keep_def concat_splitlines_aux)

section \<open>Packed integers\<close>

definition be4 :: "int \<Rightarrow> bytes" where
  "be4 x = [char_of (x div 16777216), char_of (x div 65536), char_of (x div 256), char_of x]"

definition unbe4 :: "bytes \<Rightarrow> int" where
  "unbe4 s = (let u = foldl (\<lambda>v c. v * 256 + of_char c) 0 s
              in if u < 2147483648 then u else u - 4294967296)"

definition int32 :: "int \<Rightarrow> bool" where
  "int32 x \<longleftrightarrow> - 2147483648 \<le> x \<and> x < 2147483648"

text \<open>\<open>struct.pack(">lll", x, y, z)\<close> and \<open>struct.unpack(">lll", s)\<close>.\<close>

definition pack_lll :: "int \<Rightarrow> int \<Rightarrow> int \<Rightarrow> bytes res" where
  "pack_lll x y z =
     (if int32 x \<and> int32 y \<and> int32 z then Inr (be4 x @ be4 y @ be4 z) else Inl StructError)"

definition unpack_lll :: "bytes \<Rightarrow> (int \<times> int \<times> int) res" where
  "unpack_lll s =
     (if length s = 12
      then Inr (unbe4 (take 4 s), unbe4 (take 4 (drop 4 s)), unbe4 (drop 8 s))
      else Inl StructError)"

lemma length_be4 [simp]: "length (be4 x) = 4"
  by (simp add: be4_def)

lemma horner256: "((p * 256 + q) * 256 + r) * 256 + s = 256 * (256 * (256 * p + q) + r) + (s :: int)"
  by simp

lemma base256_split:
  "((x div 16777216 mod 256 * 256 + x div 65536 mod 256) * 256 + x div 256 mod 256) * 256 + x mod 256
   = (x :: int) mod 4294967296"
proof -
  have d2: "x div 256 div 256 = x div 65536" using zdiv_zmult2_eq [of 256 x 256] by simp
  have d3: "x div 65536 div 256 = x div 16777216" using zdiv_zmult2_eq [of 256 x 65536] by simp
  have m1: "x mod 4294967296 = 256 * (x div 256 mod 16777216) + x mod 256"
    using zmod_zmult2_eq [of 16777216 x 256] by simp
  have m2: "x div 256 mod 16777216 = 256 * (x div 65536 mod 65536) + x div 256 mod 256"
    using zmod_zmult2_eq [of 65536 "x div 256" 256] unfolding d2 by simp
  have m3: "x div 65536 mod 65536 = 256 * (x div 16777216 mod 256) + x div 65536 mod 256"
    using zmod_zmult2_eq [of 256 "x div 65536" 256] unfolding d3 by simp
  show ?thesis unfolding m1 m2 m3 by (rule horner256)
qed

lemma wrap32:
  "- 2147483648 \<le> (x :: int) \<Longrightarrow> x < 2147483648 \<Longrightarrow>
    x mod 4294967296 = (if 0 \<le> x then x else x + 4294967296)"
  using mod_pos_pos_trivial [of x 4294967296] mod_pos_pos_trivial [of "x + 4294967296" 4294967296]
  by (auto simp del: mod_pos_pos_trivial)

lemma unbe4_be4: "int32 x \<Longrightarrow> unbe4 (be4 x) = x"
proof -
  assume x: "int32 x"
  define u where "u = foldl (\<lambda>v c. v * 256 + of_char c) (0 :: int) (be4 x)"
  have "u = ((x div 16777216 mod 256 * 256 + x div 65536 mod 256) * 256 + x div 256 mod 256) * 256 + x mod 256"
    by (simp only: u_def be4_def foldl.simps of_char_of mult_zero_left add_0)
  then have "u = x mod 4294967296" by (simp only: base256_split)
  then have u: "u = (if 0 \<le> x then x else x + 4294967296)"
    using x wrap32 [of x] by (simp only: int32_def)
  then show ?thesis
    using x by (auto simp: unbe4_def int32_def Let_def u_def [symmetric])
qed

lemma unpack_pack: "pack_lll x y z = Inr s \<Longrightarrow> unpack_lll s = Inr (x, y, z)"
  by (auto simp: pack_lll_def unpack_lll_def unbe4_be4 split: if_splits)

lemma length_pack: "pack_lll x y z = Inr s \<Longrightarrow> length s = 12"
  by (auto simp: pack_lll_def split: if_splits)

end
