(* ===== verification/Difflib.thy ===== *)
theory Difflib
  imports Pybytes
begin

text \<open>
  \<open>difflib.SequenceMatcher(None, a, b).get_matching_blocks()\<close> of the Python
  standard library, which \<open>pure/bdiff.py\<close> builds on: the longest matching block
  found row by row over the positions of \<open>b\<close>, popular elements left out of the
  search, the block then extended on both sides, and the two remaining
  rectangles searched in the same way.  The blocks it returns match, increase
  on both sides and end with the empty block at the two ends; equal sequences
  give one block.
\<close>

type_synonym match = "nat \<times> nat \<times> nat"

section \<open>The longest match\<close>

text \<open>\<open>b2j\<close> without the popular elements.\<close>

definition b2j :: "'a list \<Rightarrow> 'a \<Rightarrow> nat list" where
  "b2j b x =
     (let idxs = filter (\<lambda>j. b ! j = x) [0..<length b]
      in if 200 \<le> length b \<and> length b div 100 + 1 < length idxs then [] else idxs)"

fun flm_cols :: "nat \<Rightarrow> nat \<Rightarrow> nat \<Rightarrow> (nat \<Rightarrow> nat) \<Rightarrow> nat list \<Rightarrow> (nat \<Rightarrow> nat) \<Rightarrow> match
    \<Rightarrow> (nat \<Rightarrow> nat) \<times> match" where
  "flm_cols i blo bhi j2len [] new best = (new, best)"
| "flm_cols i blo bhi j2len (j # js) new best =
     (if j < blo then flm_cols i blo bhi j2len js new best
      else if bhi \<le> j then (new, best)
      else
        let k = (if j = 0 then 0 else j2len (j - 1)) + 1;
            best' = (if snd (snd best) < k then (Suc i - k, Suc j - k, k) else best)
        in flm_cols i blo bhi j2len js (new(j := k)) best')"

fun flm_rows :: "'a list \<Rightarrow> ('a \<Rightarrow> nat list) \<Rightarrow> nat \<Rightarrow> nat \<Rightarrow> nat list \<Rightarrow> (nat \<Rightarrow> nat) \<Rightarrow> match \<Rightarrow> match" where
  "flm_rows a bj blo bhi [] j2len best = best"
| "flm_rows a bj blo bhi (i # is) j2len best =
     (let (new, best') = flm_cols i blo bhi j2len (bj (a ! i)) (\<lambda>_. 0) best
      in flm_rows a bj blo bhi is new best')"

fun extend_left :: "'a list \<Rightarrow> 'a list \<Rightarrow> nat \<Rightarrow> nat \<Rightarrow> nat \<Rightarrow> nat \<Rightarrow> nat \<Rightarrow> match" where
  "extend_left a b alo blo 0 j k = (0, j, k)"
| "extend_left a b alo blo (Suc i) j k =
     (if alo < Suc i \<and> blo < j \<and> a ! i = b ! (j - 1)
      then extend_left a b alo blo i (j - 1) (Suc k)
      else (Suc i, j, k))"

function extend_right :: "'a list \<Rightarrow> 'a list \<Rightarrow> nat \<Rightarrow> nat \<Rightarrow> match \<Rightarrow> match" where
  "extend_right a b ahi bhi (i, j, k) =
     (if i + k < ahi \<and> j + k < bhi \<and> a ! (i + k) = b ! (j + k)
      then extend_right a b ahi bhi (i, j, Suc k)
      else (i, j, k))"
  by pat_completeness auto
termination
  by (relation "measure (\<lambda>(a, b, ahi, bhi, i, j, k). ahi - (i + k))") auto

declare extend_right.simps [simp del]

definition find_longest_match :: "'a list \<Rightarrow> 'a list \<Rightarrow> nat \<Rightarrow> nat \<Rightarrow> nat \<Rightarrow> nat \<Rightarrow> match" where
  "find_longest_match a b alo ahi blo bhi =
     (let (i, j, k) = flm_rows a (b2j b) blo bhi [alo..<ahi] (\<lambda>_. 0) (alo, blo, 0)
      in extend_right a b ahi bhi (extend_left a b alo blo i j k))"

text \<open>A block of equal elements inside the rectangle \<open>[alo, ahi) \<times> [blo, bhi)\<close>.\<close>

definition match_in :: "'a list \<Rightarrow> 'a list \<Rightarrow> nat \<Rightarrow> nat \<Rightarrow> nat \<Rightarrow> nat \<Rightarrow> match \<Rightarrow> bool" where
  "match_in a b alo ahi blo bhi m \<longleftrightarrow>
     (case m of (i, j, k) \<Rightarrow>
        alo \<le> i \<and> i + k \<le> ahi \<and> blo \<le> j \<and> j + k \<le> bhi \<and> (\<forall>t<k. a ! (i + t) = b ! (j + t)))"

text \<open>What a row of \<open>j2len\<close> holds: the length of a run of equal elements that ends there.\<close>

definition run_row :: "'a list \<Rightarrow> 'a list \<Rightarrow> nat \<Rightarrow> nat \<Rightarrow> nat \<Rightarrow> nat \<Rightarrow> (nat \<Rightarrow> nat) \<Rightarrow> bool" where
  "run_row a b alo blo bhi e f \<longleftrightarrow>
     (\<forall>j. 0 < f j \<longrightarrow> f j \<le> e - alo \<and> alo \<le> e \<and> blo + f j \<le> Suc j \<and> j < bhi
          \<and> (\<forall>t<f j. a ! (e - f j + t) = b ! (Suc j - f j + t)))"

lemma run_row_zero [simp]: "run_row a b alo blo bhi e (\<lambda>_. 0)"
  by (simp add: run_row_def)

lemma run_extend:
  assumes "run_row a b alo blo bhi i f" "alo \<le> i" "blo \<le> j" "j < bhi" "a ! i = b ! j"
    and k: "k = (if j = 0 then 0 else f (j - 1)) + 1"
  shows "k \<le> Suc i - alo \<and> blo + k \<le> Suc j \<and> (\<forall>t<k. a ! (Suc i - k + t) = b ! (Suc j - k + t))"
proof (cases "j = 0 \<or> f (j - 1) = 0")
  case True
  then have "k = 1" using k by auto
  then show ?thesis using assms by auto
next
  case False
  then obtain j' where j': "j = Suc j'" by (cases j) auto
  define l where "l = f j'"
  have l: "0 < l" "k = Suc l" using False k j' by (auto simp: l_def)
  then have *: "l \<le> i - alo" "blo + l \<le> Suc j'" "\<forall>t<l. a ! (i - l + t) = b ! (Suc j' - l + t)"
    using assms(1) unfolding run_row_def l_def by blast+
  have "a ! (Suc i - k + t) = b ! (Suc j - k + t)" if "t < k" for t
  proof (cases "t = l")
    case True
    then show ?thesis using l * assms(2,5) j' by simp
  next
    case False
    then show ?thesis using that l * j' by simp
  qed
  then show ?thesis using * l j' assms(2) by auto
qed

lemma flm_cols_in:
  "blo \<le> j \<and> j < bhi \<Longrightarrow>
    flm_cols i blo bhi f (j # js) new best =
    flm_cols i blo bhi f js (new(j := (if j = 0 then 0 else f (j - 1)) + 1))
      (if snd (snd best) < (if j = 0 then 0 else f (j - 1)) + 1
       then (Suc i - ((if j = 0 then 0 else f (j - 1)) + 1), Suc j - ((if j = 0 then 0 else f (j - 1)) + 1),
             (if j = 0 then 0 else f (j - 1)) + 1)
       else best)"
  by (auto simp: Let_def)

lemma flm_cols_ok:
  assumes "run_row a b alo blo bhi i f" "alo \<le> i" "i < ahi" "\<forall>j\<in>set js. b ! j = a ! i"
    and "run_row a b alo blo bhi (Suc i) new" "match_in a b alo ahi blo bhi best"
    and "flm_cols i blo bhi f js new best = (new', best')"
  shows "run_row a b alo blo bhi (Suc i) new' \<and> match_in a b alo ahi blo bhi best'"
  using assms(4-)
proof (induction js arbitrary: new best)
  case Nil
  then show ?case by simp
next
  case (Cons j js)
  show ?case
  proof (cases "blo \<le> j \<and> j < bhi")
    case False
    then show ?thesis using Cons by (auto split: if_splits)
  next
    case True
    define k where "k = (if j = 0 then 0 else f (j - 1)) + 1"
    have e: "k \<le> Suc i - alo" "blo + k \<le> Suc j" "\<forall>t<k. a ! (Suc i - k + t) = b ! (Suc j - k + t)"
      using run_extend [OF assms(1,2), of j k] True Cons.prems(1) k_def by auto
    define best1 where "best1 = (if snd (snd best) < k then (Suc i - k, Suc j - k, k) else best)"
    have run: "run_row a b alo blo bhi (Suc i) (new(j := k))"
      using Cons.prems(2) e assms(2) True by (auto simp: run_row_def)
    have m: "match_in a b alo ahi blo bhi best1"
      using Cons.prems(3) e True assms(2,3) by (auto simp: best1_def match_in_def)
    have "flm_cols i blo bhi f js (new(j := k)) best1 = (new', best')"
      using Cons.prems(4) True by (simp only: flm_cols_in k_def best1_def)
    then show ?thesis using Cons.IH run m Cons.prems(1) by simp
  qed
qed

lemma b2j_elem: "j \<in> set (b2j b x) \<Longrightarrow> j < length b \<and> b ! j = x"
  by (auto simp: b2j_def Let_def split: if_splits)

lemma flm_rows_ok:
  assumes "run_row a b alo blo bhi e f" "match_in a b alo ahi blo bhi best" "alo \<le> e" "e \<le> ahi"
  shows "match_in a b alo ahi blo bhi (flm_rows a (b2j b) blo bhi [e..<ahi] f best)"
  using assms
proof (induction "ahi - e" arbitrary: e f best)
  case 0
  then show ?case by simp
next
  case (Suc n)
  then have lt: "e < ahi" by simp
  obtain new best' where c: "flm_cols e blo bhi f (b2j b (a ! e)) (\<lambda>_. 0) best = (new, best')"
    by (rule prod.exhaust)
  have "run_row a b alo blo bhi (Suc e) new \<and> match_in a b alo ahi blo bhi best'"
    by (rule flm_cols_ok [OF Suc.prems(1) _ lt _ _ Suc.prems(2) c]) (use Suc.prems in \<open>auto dest: b2j_elem\<close>)
  then have "match_in a b alo ahi blo bhi (flm_rows a (b2j b) blo bhi [Suc e..<ahi] new best')"
    using Suc lt by (intro Suc.hyps(1)) auto
  then show ?case using lt c by (simp add: upt_conv_Cons)
qed

lemma extend_left_ok:
  "match_in a b alo ahi blo bhi (i, j, k) \<Longrightarrow> match_in a b alo ahi blo bhi (extend_left a b alo blo i j k)"
proof (induction a b alo blo i j k rule: extend_left.induct)
  case (1 a b alo blo j k)
  then show ?case by simp
next
  case (2 a b alo blo i j k)
  show ?case
  proof (cases "alo < Suc i \<and> blo < j \<and> a ! i = b ! (j - 1)")
    case True
    have "a ! (i + t) = b ! (j - 1 + t)" if "t < Suc k" for t
    proof (cases t)
      case 0
      then show ?thesis using True by simp
    next
      case (Suc t')
      then have "a ! (Suc i + t') = b ! (j + t')" using 2(2) that by (auto simp: match_in_def)
      then show ?thesis using Suc True by simp
    qed
    then have "match_in a b alo ahi blo bhi (i, j - 1, Suc k)"
      using 2(2) True by (auto simp: match_in_def)
    then show ?thesis using 2(1) True by simp
  next
    case False
    then have "extend_left a b alo blo (Suc i) j k = (Suc i, j, k)" by auto
    then show ?thesis using 2(2) by simp
  qed
qed

lemma extend_right_ok:
  "match_in a b alo ahi blo bhi m \<Longrightarrow> match_in a b alo ahi blo bhi (extend_right a b ahi bhi m)"
proof (induction a b ahi bhi m rule: extend_right.induct)
  case (1 a b ahi bhi i j k)
  show ?case
  proof (cases "i + k < ahi \<and> j + k < bhi \<and> a ! (i + k) = b ! (j + k)")
    case True
    then have "match_in a b alo ahi blo bhi (i, j, Suc k)"
      using 1(2) by (auto simp: match_in_def less_Suc_eq)
    then show ?thesis using 1(1) [OF True] True by (subst extend_right.simps) simp
  next
    case False
    then show ?thesis using 1(2) by (subst extend_right.simps) auto
  qed
qed

lemma find_longest_match_ok:
  assumes "alo \<le> ahi" "blo \<le> bhi"
  shows "match_in a b alo ahi blo bhi (find_longest_match a b alo ahi blo bhi)"
proof -
  obtain i j k where r: "flm_rows a (b2j b) blo bhi [alo..<ahi] (\<lambda>_. 0) (alo, blo, 0) = (i, j, k)"
    using prod_cases3 by blast
  have "match_in a b alo ahi blo bhi (alo, blo, 0)" using assms by (simp add: match_in_def)
  then have "match_in a b alo ahi blo bhi (i, j, k)"
    using flm_rows_ok [of a b alo blo bhi alo "\<lambda>_. 0" ahi] assms r by fastforce
  then show ?thesis
    by (simp add: find_longest_match_def r extend_left_ok extend_right_ok)
qed

section \<open>All matching blocks\<close>

lemma flm_rows_outside: "bhi < blo \<Longrightarrow> flm_rows a bj blo bhi is f best = best"
proof (induction "is" arbitrary: f best)
  case (Cons i "is")
  have "flm_cols i blo bhi f js new best = (new, best)" for js new best
    using Cons.prems by (induction js) auto
  then show ?case using Cons by simp
qed simp

lemma find_longest_match_pos:
  assumes "find_longest_match a b alo ahi blo bhi = (i, j, k)" "0 < k"
  shows "alo \<le> ahi \<and> blo \<le> bhi \<and> match_in a b alo ahi blo bhi (i, j, k)"
proof -
  have "extend_left a b alo blo alo blo 0 = (alo, blo, 0)" by (cases alo) auto
  then have "find_longest_match a b alo ahi blo bhi = (alo, blo, 0)" if "ahi < alo \<or> bhi < blo"
    using that by (auto simp: find_longest_match_def flm_rows_outside extend_right.simps)
  with assms have "alo \<le> ahi" "blo \<le> bhi" by (auto simp: not_less [symmetric])
  then show ?thesis using find_longest_match_ok [of alo ahi blo bhi a b] assms by simp
qed

function matching_rec :: "'a list \<Rightarrow> 'a list \<Rightarrow> nat \<Rightarrow> nat \<Rightarrow> nat \<Rightarrow> nat \<Rightarrow> match list" where
  "matching_rec a b alo ahi blo bhi =
     (case find_longest_match a b alo ahi blo bhi of (i, j, k) \<Rightarrow>
        if k = 0 then []
        else (if alo < i \<and> blo < j then matching_rec a b alo i blo j else [])
          @ [(i, j, k)]
          @ (if i + k < ahi \<and> j + k < bhi then matching_rec a b (i + k) ahi (j + k) bhi else []))"
  by pat_completeness auto
termination
proof (relation "measure (\<lambda>(a, b, alo, ahi, blo, bhi). ahi - alo)", goal_cases)
  case 1
  then show ?case by simp
next
  case (2 a b alo ahi blo bhi i x j k)
  then show ?case using find_longest_match_pos [of a b alo ahi blo bhi i j k]
    by (auto simp: match_in_def)
next
  case (3 a b alo ahi blo bhi i x j k)
  then show ?case using find_longest_match_pos [of a b alo ahi blo bhi i j k]
    by (auto simp: match_in_def)
qed

declare matching_rec.simps [simp del]

fun non_adjacent :: "match \<Rightarrow> match list \<Rightarrow> match list" where
  "non_adjacent (i1, j1, k1) [] = (if k1 \<noteq> 0 then [(i1, j1, k1)] else [])"
| "non_adjacent (i1, j1, k1) ((i2, j2, k2) # ms) =
     (if i1 + k1 = i2 \<and> j1 + k1 = j2 then non_adjacent (i1, j1, k1 + k2) ms
      else (if k1 \<noteq> 0 then [(i1, j1, k1)] else []) @ non_adjacent (i2, j2, k2) ms)"

definition get_matching_blocks :: "'a list \<Rightarrow> 'a list \<Rightarrow> match list" where
  "get_matching_blocks a b =
     non_adjacent (0, 0, 0) (matching_rec a b 0 (length a) 0 (length b)) @ [(length a, length b, 0)]"

text \<open>
  The contract of a list of matching blocks: from \<open>(i, j)\<close> on they match and
  do not overlap on either side.
\<close>

fun blocks_from :: "'a list \<Rightarrow> 'a list \<Rightarrow> nat \<Rightarrow> nat \<Rightarrow> match list \<Rightarrow> bool" where
  "blocks_from a b i j [] \<longleftrightarrow> True"
| "blocks_from a b i j ((x, y, k) # ms) \<longleftrightarrow>
     i \<le> x \<and> j \<le> y \<and> x + k \<le> length a \<and> y + k \<le> length b
     \<and> slice a x (x + k) = slice b y (y + k) \<and> blocks_from a b (x + k) (y + k) ms"

fun blocks_end :: "nat \<Rightarrow> nat \<Rightarrow> match list \<Rightarrow> nat \<times> nat" where
  "blocks_end i j [] = (i, j)"
| "blocks_end i j ((x, y, k) # ms) = blocks_end (x + k) (y + k) ms"

definition match_list :: "'a list \<Rightarrow> 'a list \<Rightarrow> match list \<Rightarrow> bool" where
  "match_list a b ms \<longleftrightarrow> blocks_from a b 0 0 ms \<and> ms \<noteq> [] \<and> last ms = (length a, length b, 0)"

lemma blocks_from_append:
  "blocks_from a b i j (ms @ ns) \<longleftrightarrow>
    blocks_from a b i j ms \<and> blocks_from a b (fst (blocks_end i j ms)) (snd (blocks_end i j ms)) ns"
  by (induction i j ms rule: blocks_end.induct) auto

lemma blocks_end_append:
  "blocks_end i j (ms @ ns) = blocks_end (fst (blocks_end i j ms)) (snd (blocks_end i j ms)) ns"
  by (induction i j ms rule: blocks_end.induct) auto

lemma blocks_from_mono: "blocks_from a b i j ms \<Longrightarrow> i' \<le> i \<Longrightarrow> j' \<le> j \<Longrightarrow> blocks_from a b i' j' ms"
  by (cases ms) auto

lemma blocks_end_mono:
  "blocks_from a b i j ms \<Longrightarrow> i \<le> fst (blocks_end i j ms) \<and> j \<le> snd (blocks_end i j ms)"
proof (induction i j ms rule: blocks_end.induct)
  case (2 i j x y k ms)
  then have "x + k \<le> fst (blocks_end (x + k) (y + k) ms) \<and> y + k \<le> snd (blocks_end (x + k) (y + k) ms)"
    by simp
  then show ?case using 2(2) by simp
qed simp

lemma blocks_end_bound:
  "blocks_from a b i j ms \<Longrightarrow> i \<le> length a \<Longrightarrow> j \<le> length b \<Longrightarrow>
    fst (blocks_end i j ms) \<le> length a \<and> snd (blocks_end i j ms) \<le> length b"
  by (induction i j ms rule: blocks_end.induct) auto

lemma match_in_slice:
  "match_in a b alo ahi blo bhi (i, j, k) \<Longrightarrow> ahi \<le> length a \<Longrightarrow> bhi \<le> length b \<Longrightarrow>
    slice a i (i + k) = slice b j (j + k)"
  by (rule slice_eqI) (auto simp: match_in_def)

lemma matching_rec_ok:
  assumes "alo \<le> ahi" "blo \<le> bhi" "ahi \<le> length a" "bhi \<le> length b"
  shows "blocks_from a b alo blo (matching_rec a b alo ahi blo bhi)
    \<and> fst (blocks_end alo blo (matching_rec a b alo ahi blo bhi)) \<le> ahi
    \<and> snd (blocks_end alo blo (matching_rec a b alo ahi blo bhi)) \<le> bhi"
  using assms
proof (induction a b alo ahi blo bhi rule: matching_rec.induct)
  case (1 a b alo ahi blo bhi)
  obtain i j k where f: "find_longest_match a b alo ahi blo bhi = (i, j, k)"
    using prod_cases3 by blast
  show ?case
  proof (cases "k = 0")
    case True
    then show ?thesis using 1(3,4) f by (simp add: matching_rec.simps)
  next
    case False
    have m: "match_in a b alo ahi blo bhi (i, j, k)"
      using find_longest_match_pos [OF f] False by simp
    then have b: "alo \<le> i" "i + k \<le> ahi" "blo \<le> j" "j + k \<le> bhi" by (auto simp: match_in_def)
    define L where "L = (if alo < i \<and> blo < j then matching_rec a b alo i blo j else [])"
    define R where "R = (if i + k < ahi \<and> j + k < bhi then matching_rec a b (i + k) ahi (j + k) bhi else [])"
    have L: "blocks_from a b alo blo L" "fst (blocks_end alo blo L) \<le> i" "snd (blocks_end alo blo L) \<le> j"
      using 1(1) [OF f [symmetric] refl False] b 1(5,6) by (auto simp: L_def)
    have R: "blocks_from a b (i + k) (j + k) R" "fst (blocks_end (i + k) (j + k) R) \<le> ahi"
      "snd (blocks_end (i + k) (j + k) R) \<le> bhi"
      using 1(2) [OF f [symmetric] refl False] b 1(5,6) by (auto simp: R_def)
    have e: "matching_rec a b alo ahi blo bhi = L @ (i, j, k) # R"
      using f False by (subst matching_rec.simps) (simp add: L_def R_def)
    show ?thesis
      using L R b 1(5,6) match_in_slice [OF m 1(5,6)]
      by (simp add: e blocks_from_append blocks_end_append)
  qed
qed

lemma non_adjacent_ok:
  "blocks_from a b i j (m # ms) \<Longrightarrow> blocks_from a b i j (non_adjacent m ms)"
proof (induction m ms arbitrary: i j rule: non_adjacent.induct)
  case (1 i1 j1 k1)
  then show ?case by simp
next
  case (2 i1 j1 k1 i2 j2 k2 ms)
  show ?case
  proof (cases "i1 + k1 = i2 \<and> j1 + k1 = j2")
    case True
    have "slice a i1 (i1 + (k1 + k2)) = slice a i1 (i1 + k1) @ slice a (i1 + k1) (i1 + (k1 + k2))"
      "slice b j1 (j1 + (k1 + k2)) = slice b j1 (j1 + k1) @ slice b (j1 + k1) (j1 + (k1 + k2))"
      by (rule slice_append [symmetric]; simp)+
    then have "blocks_from a b i j ((i1, j1, k1 + k2) # ms)"
      using 2(3) True by (auto simp: add.assoc)
    then show ?thesis using 2(1) True by simp
  next
    case False
    have "blocks_from a b (i1 + k1) (j1 + k1) (non_adjacent (i2, j2, k2) ms)"
      using 2(2) [OF False, of "i1 + k1" "j1 + k1"] 2(3) by simp
    then have "blocks_from a b i j ((i1, j1, k1) # non_adjacent (i2, j2, k2) ms)"
      using 2(3) by simp
    then show ?thesis using False blocks_from_mono [of a b i1 j1 _ i j] by auto
  qed
qed

theorem get_matching_blocks_ok: "match_list a b (get_matching_blocks a b)"
proof -
  define ms where "ms = matching_rec a b 0 (length a) 0 (length b)"
  have "blocks_from a b 0 0 ms" using matching_rec_ok [of 0 "length a" 0 "length b" a b] by (simp add: ms_def)
  then have n: "blocks_from a b 0 0 (non_adjacent (0, 0, 0) ms)" by (intro non_adjacent_ok) simp
  then have "blocks_from a b 0 0 (non_adjacent (0, 0, 0) ms @ [(length a, length b, 0)])"
    using blocks_end_bound [OF n] by (simp add: blocks_from_append)
  then show ?thesis by (simp add: match_list_def get_matching_blocks_def ms_def)
qed

section \<open>Equal sequences\<close>

text \<open>
  On equal sequences the search stays on the diagonal.  \<open>diag_run a e\<close> is the
  length of the run of elements that are not popular and ends before \<open>e\<close>.
\<close>

fun diag_run :: "'a list \<Rightarrow> nat \<Rightarrow> nat" where
  "diag_run a 0 = 0"
| "diag_run a (Suc i) = (if b2j a (a ! i) = [] then 0 else Suc (diag_run a i))"

definition row_diag :: "'a list \<Rightarrow> nat \<Rightarrow> (nat \<Rightarrow> nat) \<Rightarrow> bool" where
  "row_diag a e f \<longleftrightarrow> (\<forall>j. f j \<le> diag_run a (Suc j) \<and> f j \<le> diag_run a e)"

definition best_diag :: "'a list \<Rightarrow> nat \<Rightarrow> match \<Rightarrow> bool" where
  "best_diag a e m \<longleftrightarrow> fst m = fst (snd m) \<and> (\<forall>e'\<le>e. diag_run a e' \<le> snd (snd m))"

lemma flm_cols_diag:
  assumes f: "row_diag a e f" "0 < e \<Longrightarrow> f (e - 1) = diag_run a e" and e: "e < length a"
    and js: "\<forall>j\<in>set js. b2j a (a ! j) \<noteq> [] \<and> j < length a" "sorted_wrt (<) js" "b2j a (a ! e) \<noteq> []"
    and new: "row_diag a (Suc e) new" "new e = diag_run a (Suc e) \<or> e \<in> set js"
    and best: "best_diag a e best" "diag_run a (Suc e) \<le> snd (snd best) \<or> e \<in> set js"
    and res: "flm_cols e 0 (length a) f js new best = (new', best')"
  shows "row_diag a (Suc e) new' \<and> new' e = diag_run a (Suc e) \<and> best_diag a (Suc e) best'"
  using js(1,2) new best res
proof (induction js arbitrary: new best)
  case Nil
  then show ?case by (auto simp: best_diag_def le_Suc_eq)
next
  case (Cons j js)
  define k where "k = (if j = 0 then 0 else f (j - 1)) + 1"
  define best1 where "best1 = (if snd (snd best) < k then (Suc e - k, Suc j - k, k) else best)"
  have rest: "flm_cols e 0 (length a) f js (new(j := k)) best1 = (new', best')"
    using Cons.prems(1,7) flm_cols_in [of 0 j "length a" e f js new best]
    by (simp only: k_def best1_def list.set_intros) simp
  have kj: "k \<le> diag_run a (Suc j)"
    using f(1) Cons.prems(1) unfolding k_def row_diag_def by (cases j) auto
  have ke: "k \<le> diag_run a (Suc e)" "j = e \<Longrightarrow> k = diag_run a (Suc e)"
    using f js(3) unfolding k_def row_diag_def by auto
  have new1: "row_diag a (Suc e) (new(j := k))" using Cons.prems(3) kj ke(1) unfolding row_diag_def by (simp del: diag_run.simps)
  have new1e: "(new(j := k)) e = diag_run a (Suc e) \<or> e \<in> set js" using Cons.prems(4) ke(2) by auto
  have small: "k \<le> snd (snd best)" if "j \<noteq> e"
  proof (cases "j < e")
    case True
    then show ?thesis using kj Cons.prems(5) by (meson Suc_leI best_diag_def le_trans)
  next
    case False
    then have "e \<notin> set (j # js)" using that Cons.prems(2) by fastforce
    then show ?thesis using ke(1) Cons.prems(6) by (meson le_trans)
  qed
  have b1: "best_diag a e best1"
    using Cons.prems(5) small ke(2) by (cases "j = e") (auto simp: best1_def best_diag_def)
  have b2: "diag_run a (Suc e) \<le> snd (snd best1) \<or> e \<in> set js"
    using Cons.prems(6) small ke(2) by (cases "j = e") (auto simp: best1_def)
  show ?case by (rule Cons.IH [OF _ _ new1 new1e b1 b2 rest]) (use Cons.prems in auto)
qed

lemma b2j_sorted: "sorted_wrt (<) (b2j b x)"
  unfolding b2j_def Let_def by (simp add: sorted_wrt_filter)

lemma b2j_self: "i < length a \<Longrightarrow> b2j a (a ! i) \<noteq> [] \<Longrightarrow> i \<in> set (b2j a (a ! i))"
  by (auto simp: b2j_def Let_def split: if_splits)

lemma flm_rows_diag:
  assumes "row_diag a e f" "0 < e \<Longrightarrow> f (e - 1) = diag_run a e" "best_diag a e best" "e \<le> length a"
  shows "best_diag a (length a) (flm_rows a (b2j a) 0 (length a) [e..<length a] f best)"
  using assms
proof (induction "length a - e" arbitrary: e f best)
  case 0
  then show ?case by simp
next
  case (Suc n)
  then have lt: "e < length a" by simp
  obtain new best' where c: "flm_cols e 0 (length a) f (b2j a (a ! e)) (\<lambda>_. 0) best = (new, best')"
    by (rule prod.exhaust)
  have "row_diag a (Suc e) new \<and> new e = diag_run a (Suc e) \<and> best_diag a (Suc e) best'"
  proof (cases "b2j a (a ! e) = []")
    case True
    then show ?thesis using c Suc.prems(3) by (auto simp: row_diag_def best_diag_def le_Suc_eq)
  next
    case False
    have same: "b2j a (a ! j) \<noteq> [] \<and> j < length a" if "j \<in> set (b2j a (a ! e))" for j
      using b2j_elem [OF that] that by auto
    show ?thesis
      by (rule flm_cols_diag [OF Suc.prems(1,2) lt _ b2j_sorted False _ _ Suc.prems(3) _ c])
        (use same b2j_self [OF lt False] in \<open>auto simp: row_diag_def\<close>)
  qed
  then have "best_diag a (length a) (flm_rows a (b2j a) 0 (length a) [Suc e..<length a] new best')"
    using Suc lt by (intro Suc.hyps(1)) auto
  then show ?case using lt c by (simp add: upt_conv_Cons)
qed

lemma extend_left_diag: "extend_left a a 0 0 i i k = (0, 0, k + i)"
  by (induction i arbitrary: k) auto

lemma extend_right_diag: "k \<le> length a \<Longrightarrow> extend_right a a (length a) (length a) (0, 0, k) = (0, 0, length a)"
proof (induction "length a - k" arbitrary: k)
  case 0
  then show ?case by (simp add: extend_right.simps)
next
  case (Suc n)
  then have "extend_right a a (length a) (length a) (0, 0, Suc k) = (0, 0, length a)"
    by (intro Suc.hyps(1)) auto
  then show ?case using Suc by (simp add: extend_right.simps [of _ _ _ _ 0 0 k])
qed

lemma find_longest_match_refl: "find_longest_match a a 0 (length a) 0 (length a) = (0, 0, length a)"
proof -
  obtain i j k where r: "flm_rows a (b2j a) 0 (length a) [0..<length a] (\<lambda>_. 0) (0, 0, 0) = (i, j, k)"
    using prod_cases3 by blast
  have "best_diag a (length a) (i, j, k)"
    using flm_rows_diag [of a 0 "\<lambda>_. 0" "(0, 0, 0)"] r by (simp add: row_diag_def best_diag_def)
  then have "i = j" by (simp add: best_diag_def)
  moreover have "i + k \<le> length a"
    using flm_rows_ok [of a a 0 0 "length a" 0 "\<lambda>_. 0" "length a" "(0, 0, 0)"] r
    by (simp add: match_in_def)
  ultimately show ?thesis
    by (simp add: find_longest_match_def r extend_left_diag extend_right_diag)
qed

theorem get_matching_blocks_refl:
  "get_matching_blocks a a =
    (if a = [] then [(0, 0, 0)] else [(0, 0, length a), (length a, length a, 0)])"
  by (simp add: get_matching_blocks_def matching_rec.simps find_longest_match_refl)

end
