(* ===== verification/Mpatch.thy ===== *)
theory Mpatch
  imports Pybytes
begin

text \<open>
  \<open>mercurial/pure/mpatch.py\<close>: applying a series of binary deltas to a text by
  shuffling fragments of a buffer.  The buffer is a \<open>BytesIO\<close>; a fragment is a
  pair of a length and a position.  Python pops fragments from the end of the
  list \<open>frags\<close>; the model keeps that list reversed, so its head is the next
  fragment.  The main theorem is that the fragment machinery, its intermediate
  collections included, computes the result of applying the hunks one delta
  after the other.
\<close>

section \<open>The buffer\<close>

text \<open>
  \<open>m.seek(p)\<close> (a negative position raises), \<open>m.read(n)\<close> at a position (a negative
  count reads to the end) and \<open>m.write(s)\<close> at a position (a gap is filled with
  zero bytes).
\<close>

definition mseek :: "int \<Rightarrow> nat res" where
  "mseek p = (if p < 0 then Inl ValueError else Inr (nat p))"

definition mread :: "bytes \<Rightarrow> nat \<Rightarrow> int \<Rightarrow> bytes" where
  "mread m p n = (if n < 0 then drop p m else take (nat n) (drop p m))"

definition mwrite :: "bytes \<Rightarrow> nat \<Rightarrow> bytes \<Rightarrow> bytes" where
  "mwrite m p s =
     (if s = [] then m
      else take p (m @ replicate (p - length m) (CHR 0x00)) @ s @ drop (p + length s) m)"

section \<open>Fragments\<close>

type_synonym frag = "int \<times> int"

text \<open>\<open>_pull(dst, src, l)\<close>: the new \<open>dst\<close> and \<open>src\<close>.\<close>

fun pull :: "frag list \<Rightarrow> frag list \<Rightarrow> int \<Rightarrow> (frag list \<times> frag list) res" where
  "pull dst [] l = (if l = 0 then Inr (dst, []) else Inl IndexError)"
| "pull dst ((f0, f1) # src) l =
     (if l = 0 then Inr (dst, (f0, f1) # src)
      else if l < f0 then Inr (dst @ [(l, f1)], (f0 - l, f1 + l) # src)
      else pull (dst @ [(f0, f1)]) src (l - f0))"

definition move :: "bytes \<Rightarrow> int \<Rightarrow> int \<Rightarrow> int \<Rightarrow> bytes res" where
  "move m dest src count =
     bindE (mseek src) (\<lambda>sp. bindE (mseek dest) (\<lambda>dp. Inr (mwrite m dp (mread m sp count))))"

fun collect_loop :: "bytes \<Rightarrow> int \<Rightarrow> frag list \<Rightarrow> (bytes \<times> int) res" where
  "collect_loop m buf [] = Inr (m, buf)"
| "collect_loop m buf ((l, p) # fs) = bindE (move m buf p l) (\<lambda>m'. collect_loop m' (buf + l) fs)"

text \<open>\<open>_collect(m, buf, list)\<close>: the buffer afterwards and the fragment returned.\<close>

definition collect :: "bytes \<Rightarrow> int \<Rightarrow> frag list \<Rightarrow> (bytes \<times> frag) res" where
  "collect m buf fs = bindE (collect_loop m buf fs) (\<lambda>(m', e). Inr (m', (e - buf, buf)))"

section \<open>Applying the patches\<close>

text \<open>
  The \<open>while pos < end\<close> loop over the hunks of one delta.  A length of -12 in
  the delta leaves \<open>pos\<close> where it is, so the loop may not end: \<open>None\<close>.
\<close>

partial_function (option) hunk_loop ::
    "bytes \<Rightarrow> int \<Rightarrow> int \<Rightarrow> int \<Rightarrow> frag list \<Rightarrow> frag list \<Rightarrow> (int \<times> frag list \<times> frag list) res option" where
  "hunk_loop m stop pos lst frags new =
     (if pos < stop then
        (case mseek pos of
           Inl e \<Rightarrow> Some (Inl e)
         | Inr p \<Rightarrow>
             (case unpack_lll (mread m p 12) of
                Inl e \<Rightarrow> Some (Inl MpatchError)
              | Inr (p1, p2, l) \<Rightarrow>
                  (case pull new frags (p1 - lst) of
                     Inl e \<Rightarrow> Some (Inl e)
                   | Inr (new', frags') \<Rightarrow>
                       (case pull [] frags' (p2 - p1) of
                          Inl e \<Rightarrow> Some (Inl e)
                        | Inr (deleted, frags'') \<Rightarrow>
                            hunk_loop m stop (pos + (l + 12)) p2 frags'' (new' @ [(l, pos + 12)])))))
      else Some (Inr (pos, frags, new)))"

record patcher =
  pt_m :: bytes
  pt_b1 :: int
  pt_b2 :: int
  pt_pos :: int
  pt_frags :: "frag list"

text \<open>"if our list gets too long, execute it"\<close>

definition collapse :: "patcher \<Rightarrow> patcher res" where
  "collapse s =
     (if length (pt_frags s) > 128 then
        bindE (collect (pt_m s) (pt_b2 s) (pt_frags s)) (\<lambda>(m', f).
          Inr (s\<lparr>pt_m := m', pt_b1 := pt_b2 s, pt_b2 := pt_b1 s, pt_frags := [f]\<rparr>))
      else Inr s)"

fun patch_plens :: "patcher \<Rightarrow> nat list \<Rightarrow> patcher res option" where
  "patch_plens s [] = Some (Inr s)"
| "patch_plens s (plen # plens) =
     (case collapse s of
        Inl e \<Rightarrow> Some (Inl e)
      | Inr s' \<Rightarrow>
          (case hunk_loop (pt_m s') (pt_pos s' + int plen) (pt_pos s') 0 (pt_frags s') [] of
             None \<Rightarrow> None
           | Some (Inl e) \<Rightarrow> Some (Inl e)
           | Some (Inr (pos, frags, new)) \<Rightarrow>
               patch_plens (s'\<lparr>pt_pos := pos, pt_frags := new @ frags\<rparr>) plens))"

fun write_bins :: "bytes \<Rightarrow> nat \<Rightarrow> bytes list \<Rightarrow> bytes" where
  "write_bins m p [] = m"
| "write_bins m p (b # bs) = write_bins (mwrite m p b) (p + length b) bs"

definition patch_start :: "bytes \<Rightarrow> bytes list \<Rightarrow> patcher" where
  "patch_start a bins =
     (let pl = sum_list (map length bins);
          bl = length a + pl
      in \<lparr>pt_m = write_bins (mwrite [] 0 a) (bl + bl) bins,
          pt_b1 = 0, pt_b2 = int bl, pt_pos = int (bl + bl), pt_frags = [(int (length a), 0)]\<rparr>)"

definition patches :: "bytes \<Rightarrow> bytes list \<Rightarrow> bytes res option" where
  "patches a bins =
     (let plens = map length bins;
          pl = sum_list plens;
          bl = length a + pl;
          tl = bl + bl + pl
      in if bins = [] \<or> tl = 0 then Some (Inr a)
         else
           (case patch_plens (patch_start a bins) plens of
              None \<Rightarrow> None
            | Some (Inl e) \<Rightarrow> Some (Inl e)
            | Some (Inr s) \<Rightarrow>
                Some (bindE (collect (pt_m s) (pt_b2 s) (pt_frags s)) (\<lambda>(m', l, p).
                  bindE (mseek p) (\<lambda>q. Inr (mread m' q l))))))"

text \<open>
  \<open>patchedsize(orig, delta)\<close>.  The loop reads a header at \<open>bin\<close> while the byte
  after it is inside the delta; it too stands still on a length of -12.
\<close>

partial_function (option) patchedsize_loop ::
    "bytes \<Rightarrow> int \<Rightarrow> int \<Rightarrow> int \<Rightarrow> int \<Rightarrow> (int \<times> int \<times> int) res option" where
  "patchedsize_loop delta outlen lst bin data =
     (if data \<le> int (length delta) then
        (case unpack_lll (py_slice delta bin (bin + 12)) of
           Inl e \<Rightarrow> Some (Inl e)
         | Inr (start, stop, l) \<Rightarrow>
             if stop < start then Some (Inr (outlen, lst, bin))
             else patchedsize_loop delta (outlen + (start - lst) + l) stop (data + l) (data + l + 12))
      else Some (Inr (outlen, lst, bin)))"

definition patchedsize :: "int \<Rightarrow> bytes \<Rightarrow> int res option" where
  "patchedsize orig delta =
     (case patchedsize_loop delta 0 0 0 12 of
        None \<Rightarrow> None
      | Some (Inl e) \<Rightarrow> Some (Inl e)
      | Some (Inr (outlen, lst, bin)) \<Rightarrow>
          Some (if bin \<noteq> int (length delta) then Inl MpatchError else Inr (outlen + (orig - lst))))"

section \<open>What a delta means\<close>

text \<open>
  A delta is a list of hunks: replace the bytes from \<open>p1\<close> to \<open>p2\<close> by \<open>s\<close>.
  Its encoding is the format that \<open>bdiff\<close> writes.
\<close>

type_synonym hunk = "nat \<times> nat \<times> bytes"

fun encode :: "hunk list \<Rightarrow> bytes res" where
  "encode [] = Inr []"
| "encode ((p1, p2, s) # hs) =
     bindE (pack_lll (int p1) (int p2) (int (length s))) (\<lambda>h. bindE (encode hs) (\<lambda>r. Inr (h @ s @ r)))"

fun apply_from :: "bytes \<Rightarrow> nat \<Rightarrow> hunk list \<Rightarrow> bytes" where
  "apply_from t lst [] = drop lst t"
| "apply_from t lst ((p1, p2, s) # hs) = slice t lst p1 @ s @ apply_from t p2 hs"

fun hunks_ok :: "nat \<Rightarrow> nat \<Rightarrow> hunk list \<Rightarrow> bool" where
  "hunks_ok n lst [] \<longleftrightarrow> lst \<le> n"
| "hunks_ok n lst ((p1, p2, s) # hs) \<longleftrightarrow> lst \<le> p1 \<and> p1 \<le> p2 \<and> hunks_ok n p2 hs"

abbreviation apply_delta :: "bytes \<Rightarrow> hunk list \<Rightarrow> bytes" where
  "apply_delta t hs \<equiv> apply_from t 0 hs"

fun deltas_ok :: "bytes \<Rightarrow> hunk list list \<Rightarrow> bool" where
  "deltas_ok t [] \<longleftrightarrow> True"
| "deltas_ok t (hs # hss) \<longleftrightarrow> hunks_ok (length t) 0 hs \<and> deltas_ok (apply_delta t hs) hss"

lemma hunks_ok_le: "hunks_ok n lst hs \<Longrightarrow> lst \<le> n"
  by (induction n lst hs rule: hunks_ok.induct) auto

lemma encode_Cons:
  assumes "encode ((p1, p2, s) # hs) = Inr e"
  obtains h r where "pack_lll (int p1) (int p2) (int (length s)) = Inr h" "encode hs = Inr r"
    "e = h @ s @ r" "length h = 12"
  using assms length_pack by (auto simp: bindE_Inr_iff)

lemma length_apply_from:
  "hunks_ok (length t) lst hs \<Longrightarrow> encode hs = Inr e \<Longrightarrow>
    length (apply_from t lst hs) + lst \<le> length t + length e"
proof (induction t lst hs arbitrary: e rule: apply_from.induct)
  case (1 t lst)
  then show ?case by simp
next
  case (2 t lst p1 p2 s hs)
  from 2(3) obtain h r where r: "encode hs = Inr r" "e = h @ s @ r" "length h = 12"
    by (rule encode_Cons)
  then show ?case using 2 hunks_ok_le [of "length t" p2 hs] by fastforce
qed

section \<open>Reading and writing the buffer\<close>

abbreviation rd :: "bytes \<Rightarrow> nat \<Rightarrow> nat \<Rightarrow> bytes" where
  "rd m p n \<equiv> take n (drop p m)"

lemma mread_nonneg: "0 \<le> n \<Longrightarrow> mread m p n = rd m p (nat n)"
  by (simp add: mread_def)

lemma rd_add: "rd m p (k + n) = rd m p k @ rd m (p + k) n"
  by (simp add: take_add add.commute)

lemma length_mwrite: "length m \<le> length (mwrite m p s)" "s \<noteq> [] \<Longrightarrow> p + length s \<le> length (mwrite m p s)"
  by (auto simp: mwrite_def)

lemma rd_mwrite_same: "rd (mwrite m p s) p (length s) = s"
  by (auto simp: mwrite_def)

lemma rd_mwrite_other:
  assumes "q + n \<le> length m" "q + n \<le> p \<or> p + length s \<le> q"
  shows "rd (mwrite m p s) q n = rd m q n"
proof (cases "s = []")
  case True
  then show ?thesis by (simp add: mwrite_def)
next
  case False
  show ?thesis
  proof (rule nth_equalityI)
    show "length (rd (mwrite m p s) q n) = length (rd m q n)"
      using assms length_mwrite(1) [of m p s] by simp
  next
    fix i assume "i < length (rd (mwrite m p s) q n)"
    then have "i < n" by simp
    moreover have "mwrite m p s ! j = m ! j" if "j < length m" "j < p \<or> p + length s \<le> j" for j
      using that False by (auto simp: mwrite_def nth_append min_def)
    ultimately show "rd (mwrite m p s) q n ! i = rd m q n ! i"
      using assms length_mwrite(1) [of m p s] by auto
  qed
qed

section \<open>Fragments represent a text\<close>

definition frag_text :: "bytes \<Rightarrow> frag list \<Rightarrow> bytes" where
  "frag_text m fs = concat (map (\<lambda>(l, p). rd m (nat p) (nat l)) fs)"

text \<open>The fragment lies in one of the areas \<open>A\<close> of the buffer (or is empty).\<close>

definition frag_in :: "bytes \<Rightarrow> (int \<times> int) set \<Rightarrow> frag \<Rightarrow> bool" where
  "frag_in m A f \<longleftrightarrow>
     (case f of (l, p) \<Rightarrow> 0 \<le> l \<and> 0 \<le> p
        \<and> (l = 0 \<or> p + l \<le> int (length m) \<and> (\<exists>x y. (x, y) \<in> A \<and> x \<le> p \<and> p + l \<le> y)))"

lemma frag_text_simps [simp]:
  "frag_text m [] = []"
  "frag_text m ((l, p) # fs) = rd m (nat p) (nat l) @ frag_text m fs"
  "frag_text m (fs @ gs) = frag_text m fs @ frag_text m gs"
  by (simp_all add: frag_text_def)

lemma frag_in_length: "frag_in m A (l, p) \<Longrightarrow> length (rd m (nat p) (nat l)) = nat l"
  by (auto simp: frag_in_def)

lemma frag_in_mono: "frag_in m A f \<Longrightarrow> length m \<le> length m' \<Longrightarrow> A \<subseteq> B \<Longrightarrow> frag_in m' B f"
  unfolding frag_in_def by (auto split: prod.splits)

lemma frag_in_split:
  assumes "frag_in m A (f, p)" "0 \<le> l" "l \<le> f"
  shows "frag_in m A (l, p)" "frag_in m A (f - l, p + l)"
proof -
  have "l = 0 \<or> (\<exists>x y. (x, y) \<in> A \<and> x \<le> p \<and> p + l \<le> y)
    \<and> (\<exists>x y. (x, y) \<in> A \<and> x \<le> p + l \<and> p + f \<le> y)"
  proof (cases "f = 0")
    case False
    then obtain x y where "(x, y) \<in> A" "x \<le> p" "p + f \<le> y"
      using assms(1) by (auto simp: frag_in_def)
    then show ?thesis using assms by (intro disjI2 conjI exI [of _ x] exI [of _ y]) auto
  qed (use assms in simp)
  then show "frag_in m A (l, p)" "frag_in m A (f - l, p + l)"
    using assms unfolding frag_in_def by fastforce+
qed

lemma rd_split:
  assumes "frag_in m A (f, p)" "0 \<le> l" "l \<le> f"
  shows "rd m (nat p) (nat f) = rd m (nat p) (nat l) @ rd m (nat (p + l)) (nat (f - l))"
proof -
  have "nat f = nat l + nat (f - l)" "nat (p + l) = nat p + nat l"
    using assms by (auto simp: frag_in_def)
  then show ?thesis using rd_add [of "nat l" "nat (f - l)" "nat p" m] by simp
qed

lemma pull_ok:
  assumes "\<forall>f\<in>set src. frag_in m A f" "0 \<le> l" "l \<le> int (length (frag_text m src))"
  shows "\<exists>new src'. pull dst src l = Inr (dst @ new, src')
    \<and> frag_text m new = take (nat l) (frag_text m src)
    \<and> frag_text m src' = drop (nat l) (frag_text m src)
    \<and> (\<forall>f\<in>set new \<union> set src'. frag_in m A f)"
  using assms
proof (induction src arbitrary: dst l)
  case Nil
  then show ?case by simp
next
  case (Cons f src)
  obtain f0 f1 where f: "f = (f0, f1)" by (cases f)
  have fin: "frag_in m A (f0, f1)" using Cons.prems(1) f by simp
  have len: "length (rd m (nat f1) (nat f0)) = nat f0" "0 \<le> f0"
    using frag_in_length [OF fin] fin by (auto simp: frag_in_def)
  consider "l = 0" | "0 < l" "l < f0" | "0 < l" "f0 \<le> l" using Cons.prems(2) by linarith
  then show ?case
  proof cases
    case 1
    then show ?thesis using Cons.prems f by - (rule exI [of _ "[]"], rule exI [of _ "f # src"], simp)
  next
    case 2
    note sp = frag_in_split [OF fin, of l] rd_split [OF fin, of l]
    have "length (rd m (nat f1) (nat l)) = nat l" by (rule frag_in_length [of _ A]) (use 2 sp in simp)
    then show ?thesis using 2 Cons.prems f sp
      by - (rule exI [of _ "[(l, f1)]"], rule exI [of _ "(f0 - l, f1 + l) # src"], simp)
  next
    case 3
    have "l - f0 \<le> int (length (frag_text m src))" using Cons.prems(3) f len by simp
    then obtain new src' where IH: "pull (dst @ [f]) src (l - f0) = Inr ((dst @ [f]) @ new, src')"
      "frag_text m new = take (nat (l - f0)) (frag_text m src)"
      "frag_text m src' = drop (nat (l - f0)) (frag_text m src)"
      "\<forall>g\<in>set new \<union> set src'. frag_in m A g"
      using Cons.IH [of "l - f0" "dst @ [f]"] Cons.prems(1) 3 by auto
    have "nat (l - f0) = nat l - nat f0" "nat f0 \<le> nat l" using len 3 by auto
    then show ?thesis using IH 3 f fin len
      by - (rule exI [of _ "f # new"], rule exI [of _ src'], auto)
  qed
qed

section \<open>Collecting fragments\<close>

definition apart :: "(int \<times> int) set \<Rightarrow> int \<Rightarrow> int \<Rightarrow> bool" where
  "apart A lo hi \<longleftrightarrow> (\<forall>x y. (x, y) \<in> A \<longrightarrow> y \<le> lo \<or> hi \<le> x)"

lemma apartD: "apart A lo hi \<Longrightarrow> (x, y) \<in> A \<Longrightarrow> y \<le> lo \<or> hi \<le> x"
  by (simp add: apart_def)

lemma apart_mono:
  assumes "apart A lo hi" "lo \<le> lo'" "hi' \<le> hi"
  shows "apart A lo' hi'"
  unfolding apart_def
proof (intro allI impI)
  fix x y assume "(x, y) \<in> A"
  then show "y \<le> lo' \<or> hi' \<le> x" using apartD [OF assms(1)] assms(2,3) by force
qed

lemma frag_text_cong:
  assumes "\<forall>f\<in>set fs. frag_in m A f" "apart A lo hi"
    and "\<And>p n. p + n \<le> length m \<Longrightarrow> int (p + n) \<le> lo \<or> hi \<le> int p \<Longrightarrow> rd m' p n = rd m p n"
  shows "frag_text m' fs = frag_text m fs"
  using assms(1)
proof (induction fs)
  case (Cons f fs)
  obtain l p where f: "f = (l, p)" by (cases f)
  have "rd m' (nat p) (nat l) = rd m (nat p) (nat l)"
  proof (cases "l = 0")
    case False
    then obtain x y where "(x, y) \<in> A" "x \<le> p" "p + l \<le> y" "0 \<le> l" "0 \<le> p" "p + l \<le> int (length m)"
      using Cons.prems f by (auto simp: frag_in_def)
    then show ?thesis using apartD [OF assms(2), of x y] by (intro assms(3)) auto
  qed simp
  then show ?case using Cons f by simp
qed simp

lemma collect_loop_ok:
  assumes "\<forall>f\<in>set fs. frag_in m A f" "apart A (int b) (int b + int (length (frag_text m fs)))"
  shows "\<exists>m'. collect_loop m (int b) fs = Inr (m', int b + int (length (frag_text m fs)))
    \<and> rd m' b (length (frag_text m fs)) = frag_text m fs
    \<and> length m \<le> length m' \<and> (frag_text m fs \<noteq> [] \<longrightarrow> b + length (frag_text m fs) \<le> length m')
    \<and> (\<forall>p n. p + n \<le> length m \<longrightarrow> p + n \<le> b \<or> b + length (frag_text m fs) \<le> p \<longrightarrow> rd m' p n = rd m p n)"
  using assms
proof (induction fs arbitrary: m b)
  case Nil
  then show ?case by simp
next
  case (Cons f fs)
  obtain l p where f: "f = (l, p)" by (cases f)
  have fin: "frag_in m A (l, p)" and lp: "0 \<le> l" "0 \<le> p" using Cons.prems(1) f by (auto simp: frag_in_def)
  define s where "s = rd m (nat p) (nat l)"
  define m1 where "m1 = mwrite m b s"
  have ls: "int (length s) = l" using frag_in_length [OF fin] lp by (simp add: s_def)
  define T where "T = frag_text m fs"
  have tot: "frag_text m (f # fs) = s @ T" by (simp add: f s_def T_def)
  have mv: "move m (int b) p l = Inr m1"
    using lp by (simp add: move_def mseek_def mread_nonneg m1_def s_def)
  have len1: "length m \<le> length m1" "s \<noteq> [] \<Longrightarrow> b + length s \<le> length m1"
    using length_mwrite by (auto simp: m1_def)
  have other: "rd m1 q n = rd m q n" if "q + n \<le> length m" "q + n \<le> b \<or> b + length s \<le> q" for q n
    unfolding m1_def using that by (rule rd_mwrite_other)
  have T1: "frag_text m1 fs = T" unfolding T_def
    by (rule frag_text_cong [of fs m A "int b" "int b + int (length s)"])
      (use Cons.prems tot other in \<open>auto elim!: apart_mono\<close>)
  have "\<forall>f\<in>set fs. frag_in m1 A f" using Cons.prems(1) frag_in_mono [OF _ len1(1)] by auto
  moreover have "apart A (int (b + length s)) (int (b + length s) + int (length (frag_text m1 fs)))"
    by (rule apart_mono [OF Cons.prems(2)]) (simp_all add: tot T1)
  ultimately obtain m' where m': "collect_loop m1 (int (b + length s)) fs = Inr (m', int (b + length s) + int (length T))"
    "rd m' (b + length s) (length T) = T" "length m1 \<le> length m'"
    "T \<noteq> [] \<longrightarrow> b + length s + length T \<le> length m'"
    "\<forall>p n. p + n \<le> length m1 \<longrightarrow> p + n \<le> b + length s \<or> b + length s + length T \<le> p \<longrightarrow> rd m' p n = rd m1 p n"
    using Cons.IH [of m1 "b + length s"] T1 by auto
  have "rd m' b (length s) = s"
    using m'(5) [rule_format, of b "length s"] len1(2) rd_mwrite_same [where s = s and m = m and p = b]
    by (cases "s = []") (simp_all add: m1_def)
  then have "rd m' b (length (s @ T)) = s @ T" using m'(2) by (simp add: rd_add)
  moreover have "collect_loop m (int b) (f # fs) = Inr (m', int b + int (length (s @ T)))"
    using m'(1) mv ls by (simp add: f)
  moreover have "rd m' q n = rd m q n" if "q + n \<le> length m" "q + n \<le> b \<or> b + length (s @ T) \<le> q" for q n
    using m'(5) [rule_format, of q n] other [of q n] that len1(1) by auto
  moreover have "s @ T \<noteq> [] \<longrightarrow> b + length (s @ T) \<le> length m'"
    using m'(3,4) len1(2) by (cases "T = []") auto
  ultimately show ?case unfolding tot using m'(3) len1(1) by (intro exI [of _ m']) auto
qed

section \<open>One delta\<close>

lemma hunk_loop_ok:
  assumes "encode hs = Inr e" "hunks_ok (length t) lst hs"
    and "rd m pos (length e) = e" "pos + length e \<le> length m" "(x, y) \<in> A" "x \<le> int pos" "int (pos + length e) \<le> y"
    and "\<forall>f\<in>set frags \<union> set new. frag_in m A f" "frag_text m frags = drop lst t"
  shows "\<exists>frags' new'. hunk_loop m (int (pos + length e)) (int pos) (int lst) frags new
      = Some (Inr (int (pos + length e), frags', new'))
    \<and> frag_text m (new' @ frags') = frag_text m new @ apply_from t lst hs
    \<and> (\<forall>f\<in>set (new' @ frags'). frag_in m A f)"
  using assms
proof (induction hs arbitrary: e lst pos frags new)
  case Nil
  then show ?case by (auto simp: hunk_loop.simps)
next
  case (Cons h hs)
  obtain p1 p2 s where h: "h = (p1, p2, s)" by (metis prod_cases3)
  from Cons.prems(1) h obtain hd r where pk: "pack_lll (int p1) (int p2) (int (length s)) = Inr hd"
    and r: "encode hs = Inr r" and e: "e = hd @ s @ r" and hd12: "length hd = 12"
    by (metis encode_Cons)
  have ord: "lst \<le> p1" "p1 \<le> p2" "hunks_ok (length t) p2 hs" "p2 \<le> length t"
    using Cons.prems(2) h hunks_ok_le by auto
  have hd_rd: "rd m pos 12 = hd" and s_rd: "rd m (pos + 12) (length s) = s"
    and r_rd: "rd m (pos + 12 + length s) (length r) = r"
    using Cons.prems(3) hd12 e rd_add [of 12 "length s + length r" pos m]
      rd_add [of "length s" "length r" "pos + 12" m] Cons.prems(4)
    by (auto simp: append_eq_append_conv)
  have "\<exists>new1 frags1. pull new frags (int p1 - int lst) = Inr (new @ new1, frags1)
      \<and> frag_text m new1 = take (nat (int p1 - int lst)) (frag_text m frags)
      \<and> frag_text m frags1 = drop (nat (int p1 - int lst)) (frag_text m frags)
      \<and> (\<forall>f\<in>set new1 \<union> set frags1. frag_in m A f)"
    by (rule pull_ok) (use Cons.prems(8,9) ord in auto)
  then obtain new1 frags1 where p1: "pull new frags (int p1 - int lst) = Inr (new @ new1, frags1)"
      "frag_text m new1 = slice t lst p1" "frag_text m frags1 = drop p1 t"
      "\<forall>f\<in>set new1 \<union> set frags1. frag_in m A f"
    using Cons.prems(9) ord(1) by (auto simp: slice_def nat_diff_distrib)
  have "\<exists>del frags2. pull [] frags1 (int p2 - int p1) = Inr ([] @ del, frags2)
      \<and> frag_text m del = take (nat (int p2 - int p1)) (frag_text m frags1)
      \<and> frag_text m frags2 = drop (nat (int p2 - int p1)) (frag_text m frags1)
      \<and> (\<forall>f\<in>set del \<union> set frags2. frag_in m A f)"
    by (rule pull_ok) (use p1(3,4) ord in auto)
  then obtain del frags2 where p2: "pull [] frags1 (int p2 - int p1) = Inr (del, frags2)"
      "frag_text m frags2 = drop p2 t" "\<forall>f\<in>set frags2. frag_in m A f"
    using p1(3) ord(2) by (auto simp: nat_diff_distrib)
  define ins where "ins = (int (length s), int pos + 12)"
  have "frag_in m A ins" unfolding ins_def frag_in_def
    by (simp, intro conjI disjI2 exI [of _ x] exI [of _ y]) (use Cons.prems(4-7) e hd12 in auto)
  moreover have "frag_text m [ins] = s" using s_rd by (simp add: ins_def nat_add_distrib)
  ultimately have ins: "frag_in m A ins" "frag_text m [ins] = s" by blast+
  have step: "hunk_loop m (int (pos + length e)) (int pos) (int lst) frags new =
      hunk_loop m (int (pos + length e)) (int pos + (int (length s) + 12)) (int p2) frags2 ((new @ new1) @ [ins])"
    using e hd12 p1(1) p2(1) hd_rd unpack_pack [OF pk]
    by (subst hunk_loop.simps) (simp add: mseek_def mread_def ins_def)
  have pos': "int (pos + length e) = int (pos + 12 + length s + length r)"
    "int pos + (int (length s) + 12) = int (pos + 12 + length s)"
    using e hd12 by auto
  have "\<exists>frags' new'. hunk_loop m (int (pos + 12 + length s + length r)) (int (pos + 12 + length s)) (int p2) frags2 ((new @ new1) @ [ins])
      = Some (Inr (int (pos + 12 + length s + length r), frags', new'))
    \<and> frag_text m (new' @ frags') = frag_text m ((new @ new1) @ [ins]) @ apply_from t p2 hs
    \<and> (\<forall>f\<in>set (new' @ frags'). frag_in m A f)"
    by (rule Cons.IH [OF r ord(3) r_rd]) (use Cons.prems(4-8) e hd12 p1(4) p2(2,3) ins(1) in auto)
  then show ?case unfolding pos'(1) step [unfolded pos'] using p1(2) ins(2) h by auto
qed

section \<open>All deltas\<close>

text \<open>
  The layout: two working areas of \<open>bl\<close> bytes at 0 and \<open>bl\<close>, then the deltas.
  The fragments hold the text \<open>t\<close> and the deltas still to be applied are \<open>es\<close>.
\<close>

definition patch_inv :: "nat \<Rightarrow> nat \<Rightarrow> bytes \<Rightarrow> bytes list \<Rightarrow> patcher \<Rightarrow> bool" where
  "patch_inv bl pl t es s \<longleftrightarrow>
     (pt_b1 s = 0 \<and> pt_b2 s = int bl \<or> pt_b1 s = int bl \<and> pt_b2 s = 0)
     \<and> (\<forall>f\<in>set (pt_frags s). frag_in (pt_m s) {(pt_b1 s, pt_b1 s + int bl), (int (bl + bl), int (bl + bl + pl))} f)
     \<and> frag_text (pt_m s) (pt_frags s) = t
     \<and> length t + length (concat es) \<le> bl
     \<and> (\<exists>pos. pt_pos s = int pos \<and> bl + bl \<le> pos \<and> pos + length (concat es) = bl + bl + pl
          \<and> rd (pt_m s) pos (length (concat es)) = concat es)"

lemma rd_full: "rd m p (length w) = w \<Longrightarrow> w \<noteq> [] \<Longrightarrow> p + length w \<le> length m"
proof (rule ccontr)
  assume r: "rd m p (length w) = w" and w: "w \<noteq> []" and n: "\<not> p + length w \<le> length m"
  have "length (rd m p (length w)) < length w" using n w by (cases w) auto
  then show False using r by simp
qed

lemma collect_inv:
  assumes inv: "patch_inv bl pl t es s"
  shows "\<exists>m'. collect (pt_m s) (pt_b2 s) (pt_frags s) = Inr (m', int (length t), pt_b2 s)
    \<and> rd m' (nat (pt_b2 s)) (length t) = t
    \<and> patch_inv bl pl t es (s\<lparr>pt_m := m', pt_b1 := pt_b2 s, pt_b2 := pt_b1 s, pt_frags := [(int (length t), pt_b2 s)]\<rparr>)"
proof -
  define A where "A = {(pt_b1 s, pt_b1 s + int bl), (int (bl + bl), int (bl + bl + pl))}"
  obtain b where b: "pt_b2 s = int b" "b = 0 \<or> b = bl" using inv by (auto simp: patch_inv_def)
  have t: "frag_text (pt_m s) (pt_frags s) = t" "length t \<le> bl" using inv by (auto simp: patch_inv_def)
  have "apart A (int b) (int b + int (length (frag_text (pt_m s) (pt_frags s))))"
    using inv b t by (auto simp: patch_inv_def A_def apart_def)
  moreover have "\<forall>f\<in>set (pt_frags s). frag_in (pt_m s) A f" using inv by (simp add: patch_inv_def A_def)
  ultimately obtain m' where m': "collect_loop (pt_m s) (int b) (pt_frags s) = Inr (m', int b + int (length t))"
    "rd m' b (length t) = t" "length (pt_m s) \<le> length m'" "t \<noteq> [] \<longrightarrow> b + length t \<le> length m'"
    "\<forall>p n. p + n \<le> length (pt_m s) \<longrightarrow> p + n \<le> b \<or> b + length t \<le> p \<longrightarrow> rd m' p n = rd (pt_m s) p n"
    using collect_loop_ok [of "pt_frags s" "pt_m s" A b] t(1) by auto
  obtain pos where pos: "pt_pos s = int pos" "bl + bl \<le> pos" "pos + length (concat es) = bl + bl + pl"
    "rd (pt_m s) pos (length (concat es)) = concat es"
    using inv by (auto simp: patch_inv_def)
  have "rd m' pos (length (concat es)) = concat es"
  proof (cases "concat es = []")
    case False
    then show ?thesis
      using rd_full [OF pos(4)] m'(5) [rule_format, of pos "length (concat es)"] pos b t by auto
  next
    case True
    show ?thesis unfolding True by simp
  qed
  moreover have "frag_in m' {(int b, int b + int bl), (int (bl + bl), int (bl + bl + pl))} (int (length t), int b)"
    using m'(4) t(2) unfolding frag_in_def by fastforce
  ultimately have "patch_inv bl pl t es
      (s\<lparr>pt_m := m', pt_b1 := pt_b2 s, pt_b2 := pt_b1 s, pt_frags := [(int (length t), pt_b2 s)]\<rparr>)"
    using inv b m'(2) pos unfolding patch_inv_def by auto
  then show ?thesis using m'(1,2) b by (simp add: collect_def)
qed

lemma collapse_inv:
  assumes "patch_inv bl pl t es s"
  shows "\<exists>s'. collapse s = Inr s' \<and> patch_inv bl pl t es s'"
  using collect_inv [OF assms] assms by (auto simp: collapse_def)

lemma patch_plens_ok:
  assumes "patch_inv bl pl t es s" "deltas_ok t hss" "list_all2 (\<lambda>hs e. encode hs = Inr e) hss es"
  shows "\<exists>s'. patch_plens s (map length es) = Some (Inr s') \<and> patch_inv bl pl (foldl apply_delta t hss) [] s'"
  using assms
proof (induction hss arbitrary: t es s)
  case Nil
  then show ?case by simp
next
  case (Cons hs hss)
  then obtain e es' where es: "es = e # es'" and e: "encode hs = Inr e"
    and es': "list_all2 (\<lambda>hs e. encode hs = Inr e) hss es'" by (auto simp: list_all2_Cons1)
  obtain s1 where s1: "collapse s = Inr s1" "patch_inv bl pl t es s1"
    using collapse_inv [OF Cons.prems(1)] by blast
  define A where "A = {(pt_b1 s1, pt_b1 s1 + int bl), (int (bl + bl), int (bl + bl + pl))}"
  obtain pos where pos: "pt_pos s1 = int pos" "bl + bl \<le> pos" "pos + length (concat es) = bl + bl + pl"
    "rd (pt_m s1) pos (length e + length (concat es')) = e @ concat es'"
    using s1(2) es by (auto simp: patch_inv_def)
  have rds: "rd (pt_m s1) pos (length e) = e" "rd (pt_m s1) (pos + length e) (length (concat es')) = concat es'"
  proof -
    have "rd (pt_m s1) pos (length e) @ rd (pt_m s1) (pos + length e) (length (concat es')) = e @ concat es'"
      using pos(4) rd_add by metis
    moreover have "length (rd (pt_m s1) pos (length e)) = length e"
      using pos(4) by (metis length_append length_take le_add1 min.absorb2 min.absorb_iff2 length_drop min.boundedE)
    ultimately show "rd (pt_m s1) pos (length e) = e" "rd (pt_m s1) (pos + length e) (length (concat es')) = concat es'"
      by (auto simp: append_eq_append_conv)
  qed
  have "\<exists>frags new. hunk_loop (pt_m s1) (int (pos + length e)) (int pos) (int 0) (pt_frags s1) []
      = Some (Inr (int (pos + length e), frags, new))
    \<and> frag_text (pt_m s1) (new @ frags) = apply_delta t hs \<and> (\<forall>f\<in>set (new @ frags). frag_in (pt_m s1) A f)"
  proof (cases "e = []")
    case True
    then have "hs = []" using e by (cases hs) (auto elim: encode_Cons)
    then show ?thesis using True s1(2) by (auto simp: hunk_loop.simps patch_inv_def A_def)
  next
    case False
    show ?thesis
      using hunk_loop_ok [OF e, where t = t and lst = 0 and m = "pt_m s1" and pos = pos
        and x = "int (bl + bl)" and y = "int (bl + bl + pl)" and A = A and frags = "pt_frags s1" and new = "[]"]
        Cons.prems(2) rds(1) rd_full [OF rds(1) False] pos(2,3) es s1(2)
      by (simp add: patch_inv_def A_def)
  qed
  then obtain frags new where h: "hunk_loop (pt_m s1) (pt_pos s1 + int (length e)) (pt_pos s1) 0 (pt_frags s1) []
      = Some (Inr (int (pos + length e), frags, new))"
    "frag_text (pt_m s1) (new @ frags) = apply_delta t hs" "\<forall>f\<in>set (new @ frags). frag_in (pt_m s1) A f"
    using pos(1) by auto
  define s2 where "s2 = s1\<lparr>pt_pos := int (pos + length e), pt_frags := new @ frags\<rparr>"
  have "length (apply_delta t hs) \<le> length t + length e"
    using length_apply_from [OF _ e, of t 0] Cons.prems(2) by simp
  then have "patch_inv bl pl (apply_delta t hs) es' s2"
    using s1(2) h(2,3) pos rds(2) es unfolding patch_inv_def s2_def A_def
    by (auto intro!: exI [of _ "pos + length e"])
  then obtain s' where "patch_plens s2 (map length es') = Some (Inr s')"
    "patch_inv bl pl (foldl apply_delta (apply_delta t hs) hss) [] s'"
    using Cons.IH [OF _ _ es'] Cons.prems(2) by auto
  then show ?case using s1(1) h(1) es by (simp add: s2_def)
qed

lemma write_bins_ok:
  "rd (write_bins m p bs) p (length (concat bs)) = concat bs \<and> length m \<le> length (write_bins m p bs)
   \<and> (\<forall>q n. q + n \<le> length m \<longrightarrow> q + n \<le> p \<longrightarrow> rd (write_bins m p bs) q n = rd m q n)"
proof (induction m p bs rule: write_bins.induct)
  case (1 m p)
  then show ?case by simp
next
  case (2 m p b bs)
  define m1 where "m1 = mwrite m p b"
  define m2 where "m2 = write_bins m1 (p + length b) bs"
  have IH: "rd m2 (p + length b) (length (concat bs)) = concat bs" "length m1 \<le> length m2"
    "\<And>q n. q + n \<le> length m1 \<Longrightarrow> q + n \<le> p + length b \<Longrightarrow> rd m2 q n = rd m1 q n"
    using 2 by (simp_all add: m1_def m2_def)
  have l: "length m \<le> length m1" "b \<noteq> [] \<Longrightarrow> p + length b \<le> length m1"
    using length_mwrite by (auto simp: m1_def)
  have "rd m2 p (length b) = b"
    using IH(3) [of p "length b"] l(2) rd_mwrite_same [where m = m and p = p and s = b]
    by (cases "b = []") (simp_all add: m1_def)
  moreover have "rd m2 q n = rd m q n" if "q + n \<le> length m" "q + n \<le> p" for q n
  proof -
    have "rd m2 q n = rd m1 q n" by (rule IH(3)) (use that l(1) in auto)
    also have "\<dots> = rd m q n" unfolding m1_def by (rule rd_mwrite_other) (use that in auto)
    finally show ?thesis .
  qed
  ultimately show ?case
    using IH(1,2) l(1) by (simp add: rd_add m1_def [symmetric] m2_def [symmetric])
qed

lemma patch_start_inv:
  "patch_inv (length a + length (concat bins)) (length (concat bins)) a bins (patch_start a bins)"
proof -
  define bl where "bl = length a + length (concat bins)"
  define m where "m = write_bins a (bl + bl) bins"
  note wb = write_bins_ok [where m = a and p = "bl + bl" and bs = bins, folded m_def]
  have "rd m 0 (length a) = rd a 0 (length a)"
    by (rule wb [THEN conjunct2, THEN conjunct2, rule_format]) (simp_all add: bl_def)
  moreover have "length a \<le> length m" "rd m (bl + bl) (length (concat bins)) = concat bins"
    using wb by auto
  moreover have "patch_start a bins = \<lparr>pt_m = m, pt_b1 = 0, pt_b2 = int bl, pt_pos = int (bl + bl),
      pt_frags = [(int (length a), 0)]\<rparr>"
    by (simp add: patch_start_def bl_def m_def Let_def length_concat mwrite_def)
  moreover from calculation have
    "frag_in m {(0, 0 + int bl), (int (bl + bl), int (bl + bl + length (concat bins)))} (int (length a), 0)"
    unfolding frag_in_def by (simp, intro disjI2 exI [of _ 0] exI [of _ "int bl"]) (simp add: bl_def)
  ultimately show ?thesis
    unfolding patch_inv_def bl_def [symmetric] by (auto simp: bl_def)
qed

lemma patches_run:
  assumes "deltas_ok a hss" "list_all2 (\<lambda>hs e. encode hs = Inr e) hss bins"
  shows "patches a bins = Some (Inr (foldl apply_delta a hss))"
proof (cases "bins = [] \<or> length a + length (concat bins) + (length a + length (concat bins)) + length (concat bins) = 0")
  case True
  have "foldl apply_delta [] hss = []" if "list_all2 (\<lambda>hs e. encode hs = Inr e) hss bins" "concat bins = []" for hss bins
    using that
  proof (induction hss arbitrary: bins)
    case (Cons hs hss)
    then obtain es where "encode hs = Inr []" "bins = [] # es" "list_all2 (\<lambda>hs e. encode hs = Inr e) hss es"
      by (auto simp: list_all2_Cons1)
    moreover from this have "hs = []" by (cases hs) (auto elim: encode_Cons)
    ultimately show ?case using Cons by auto
  qed simp
  then show ?thesis using True assms(2) by (auto simp: patches_def length_concat [symmetric] Let_def)
next
  case False
  obtain s where s: "patch_plens (patch_start a bins) (map length bins) = Some (Inr s)"
    "patch_inv (length a + length (concat bins)) (length (concat bins)) (foldl apply_delta a hss) [] s"
    using patch_plens_ok [OF patch_start_inv assms] by blast
  have "0 \<le> pt_b2 s" using s(2) by (auto simp: patch_inv_def)
  then show ?thesis using False s(1) collect_inv [OF s(2)]
    by (auto simp: patches_def length_concat Let_def mseek_def mread_nonneg)
qed

text \<open>
  (C7) \<open>patches\<close> terminates without an error on well-formed deltas and returns the
  text that results from applying them one after the other: the fragment
  lists, the swapping of the two work areas and the collection of lists of
  more than 128 fragments do not show in the result.
\<close>

theorem patches_correct:
  assumes "deltas_ok a hss" "list_all2 (\<lambda>hs e. encode hs = Inr e) hss bins"
  shows "patches a bins = Some (Inr (foldl apply_delta a hss))"
  using assms by (rule patches_run)

definition witness_hunks :: "hunk list" where
  "witness_hunks = [(0, 2, ''xy''), (3, 3, ''new'')]"

definition witness_delta :: bytes where
  "witness_delta = be4 0 @ be4 2 @ be4 2 @ ''xy'' @ be4 3 @ be4 3 @ be4 3 @ ''new''"

lemma witness_encode: "encode witness_hunks = Inr witness_delta"
  by (simp add: witness_hunks_def witness_delta_def pack_lll_def int32_def)

lemma patches_correct_witness: "patches ''abcd'' [witness_delta] = Some (Inr ''xycnewd'')"
proof -
  have "patches ''abcd'' [witness_delta] = Some (Inr (foldl apply_delta ''abcd'' [witness_hunks]))"
    by (rule patches_correct) (use witness_encode in \<open>auto simp: witness_hunks_def\<close>)
  then show ?thesis by (simp add: witness_hunks_def slice_def)
qed

section \<open>The size of the result\<close>

lemma patchedsize_loop_ok:
  assumes "encode hs = Inr e" "hunks_ok (length t) lst hs" "delta = pre @ e"
  shows "\<exists>outlen' lst'. patchedsize_loop delta outlen (int lst) (int (length pre)) (int (length pre) + 12)
      = Some (Inr (outlen', lst', int (length delta)))
    \<and> outlen' + (int (length t) - lst') = outlen + int (length (apply_from t lst hs))"
  using assms
proof (induction hs arbitrary: e lst pre outlen)
  case Nil
  then show ?case by (auto simp: patchedsize_loop.simps)
next
  case (Cons h hs)
  obtain p1 p2 s where h: "h = (p1, p2, s)" by (metis prod_cases3)
  from Cons.prems(1) h obtain hd r where pk: "pack_lll (int p1) (int p2) (int (length s)) = Inr hd"
    and r: "encode hs = Inr r" and e: "e = hd @ s @ r" and hd12: "length hd = 12"
    by (metis encode_Cons)
  have ord: "lst \<le> p1" "p1 \<le> p2" "hunks_ok (length t) p2 hs" "p2 \<le> length t"
    using Cons.prems(2) h hunks_ok_le by auto
  have "py_slice delta (int (length pre)) (int (length pre) + 12) = hd"
    using Cons.prems(3) e hd12 by (simp add: py_slice_nonneg slice_def nat_add_distrib)
  then have step: "patchedsize_loop delta outlen (int lst) (int (length pre)) (int (length pre) + 12) =
      patchedsize_loop delta (outlen + (int p1 - int lst) + int (length s)) (int p2)
        (int (length (pre @ hd @ s))) (int (length (pre @ hd @ s)) + 12)"
    using unpack_pack [OF pk] ord(2) Cons.prems(3) e hd12
    by (subst patchedsize_loop.simps) (simp add: add_ac)
  obtain outlen' lst' where "patchedsize_loop delta (outlen + (int p1 - int lst) + int (length s)) (int p2)
        (int (length (pre @ hd @ s))) (int (length (pre @ hd @ s)) + 12) = Some (Inr (outlen', lst', int (length delta)))"
    "outlen' + (int (length t) - lst') = outlen + (int p1 - int lst) + int (length s) + int (length (apply_from t p2 hs))"
    using Cons.IH [OF r ord(3), of "pre @ hd @ s" "outlen + (int p1 - int lst) + int (length s)"]
      Cons.prems(3) e by auto
  then show ?case unfolding step using ord h by auto
qed

lemma patchedsize_run:
  assumes "hunks_ok (length a) 0 hs" "encode hs = Inr delta"
  shows "patchedsize (int (length a)) delta = Some (Inr (int (length (apply_delta a hs))))"
proof -
  obtain outlen lst where "patchedsize_loop delta 0 0 0 12 = Some (Inr (outlen, lst, int (length delta)))"
    "outlen + (int (length a) - lst) = int (length (apply_delta a hs))"
    using patchedsize_loop_ok [OF assms(2,1), of delta "[]" 0] by auto
  then show ?thesis by (simp add: patchedsize_def)
qed

text \<open>
  \<open>patchedsize\<close> terminates on a well-formed delta and returns the length of
  the text that \<open>patches\<close> produces for it.
\<close>

lemma patchedsize_correct:
  assumes "hunks_ok (length a) 0 hs" "encode hs = Inr delta"
  shows "\<exists>t. patches a [delta] = Some (Inr t) \<and> patchedsize (int (length a)) delta = Some (Inr (int (length t)))"
proof -
  have "patches a [delta] = Some (Inr (foldl apply_delta a [hs]))"
    by (rule patches_run) (use assms in auto)
  then show ?thesis using patchedsize_run [OF assms] by simp
qed

section \<open>Malformed deltas\<close>

lemma pull_zero [simp]: "pull dst src 0 = Inr (dst, src)"
  by (cases src) auto

lemma hunk_loop_stuck:
  assumes "pos < stop" "0 \<le> pos" "unpack_lll (mread m (nat pos) 12) = Inr (0, 0, - 12)"
  shows "hunk_loop m stop pos 0 frags new = None"
proof -
  let ?P = "\<lambda>m stop (pos :: int) (lst :: int) (frags :: frag list) (new :: frag list) (y :: (int \<times> frag list \<times> frag list) res).
    \<not> (pos < stop \<and> 0 \<le> pos \<and> lst = 0 \<and> unpack_lll (mread m (nat pos) 12) = Inr (0, 0, - 12))"
  have "?P m stop pos 0 frags new y" if "hunk_loop m stop pos 0 frags new = Some y" for y
  proof (rule hunk_loop.raw_induct [where P = ?P, OF _ that], goal_cases)
    case (1 loop m stop pos lst frags new y)
    show ?case
    proof (rule notI)
      assume *: "pos < stop \<and> 0 \<le> pos \<and> lst = 0 \<and> unpack_lll (mread m (nat pos) 12) = Inr (0, 0, - 12)"
      then have "loop m stop pos 0 frags (new @ [(- 12, pos + 12)]) = Some y"
        using 1(2) by (simp add: mseek_def)
      from 1(1) [OF this] * show False by simp
    qed
  qed
  then show ?thesis using assms by (cases "hunk_loop m stop pos 0 frags new") auto
qed

text \<open>
  (C39) A delta whose header carries the length -12 makes \<open>patches\<close> run forever,
  for every text: the loop over the hunks never advances.
\<close>

theorem patches_negative_length_diverges:
  "patches a [be4 0 @ be4 0 @ be4 (- 12)] = None"
proof -
  define d where "d = be4 0 @ be4 0 @ be4 (- 12)"
  have d: "length d = 12" "unpack_lll d = Inr (0, 0, - 12)"
    by (simp_all add: d_def unpack_pack [of 0 0 "- 12"] pack_lll_def int32_def)
  define s where "s = patch_start a [d]"
  have inv: "patch_inv (length a + 12) 12 a [d] s"
    using patch_start_inv [of a "[d]"] d(1) by (simp add: s_def)
  obtain pos where pos: "pt_pos s = int pos" "rd (pt_m s) pos 12 = d"
    using inv d(1) unfolding patch_inv_def by fastforce
  have "collapse s = Inr s" by (simp add: collapse_def s_def patch_start_def Let_def)
  moreover have "hunk_loop (pt_m s) (pt_pos s + 12) (pt_pos s) 0 (pt_frags s) [] = None"
    by (rule hunk_loop_stuck) (use pos d in \<open>simp_all add: mread_def\<close>)
  ultimately have "patch_plens s [12] = None" by simp
  then show ?thesis using d(1) by (simp add: patches_def Let_def s_def d_def)
qed

end
