(* ===== verification/Bdiff.thy ===== *)
theory Bdiff
  imports Difflib Mpatch
begin

text \<open>
  \<open>mercurial/pure/bdiff.py\<close>: splitting into lines, normalising matching blocks,
  the binary delta of two texts and the blocks of two texts.  The interface
  \<open>block_matcher\<close> is what the clients of \<open>blocks\<close> rely on; the round trip
  \<open>patches(a, [bdiff(a, b)]) = b\<close> ties the theory to \<open>Mpatch\<close>.
\<close>

section \<open>Lines\<close>

definition splitnewlines :: "bytes \<Rightarrow> bytes list" where
  "splitnewlines text =
     (let lines = map (\<lambda>l. l @ [NL]) (py_split NL text)
      in if lines = [] then lines
         else if last lines = [NL] then butlast lines
         else butlast lines @ [butlast (last lines)])"

lemma concat_py_split: "concat (map (\<lambda>l. l @ [c]) (py_split c text)) = text @ [c]"
  by (induction "text") (auto split: list.splits)

lemma concat_splitnewlines [simp]: "concat (splitnewlines text) = text"
proof -
  define lines where "lines = map (\<lambda>l. l @ [NL]) (py_split NL text)"
  have ne: "lines \<noteq> []" by (simp add: lines_def)
  have "concat (butlast lines) @ last lines = text @ [NL]"
    using concat_py_split [of NL "text"] ne append_butlast_last_id [OF ne]
    by (metis concat.simps concat_append append_Nil2 lines_def)
  moreover obtain w where "last lines = w @ [NL]" using ne by (simp add: lines_def last_map)
  ultimately show ?thesis
    unfolding splitnewlines_def lines_def [symmetric] using ne by (auto simp: Let_def)
qed

lemma splitnewlines_nonempty: "l \<in> set (splitnewlines text) \<Longrightarrow> l \<noteq> []"
proof -
  define lines where "lines = map (\<lambda>l. l @ [NL]) (py_split NL text)"
  have ne: "lines \<noteq> []" by (simp add: lines_def)
  obtain w where w: "last lines = w @ [NL]" using ne by (simp add: lines_def last_map)
  assume "l \<in> set (splitnewlines text)"
  then consider "l \<in> set (butlast lines)" | "l = w" "w \<noteq> []"
    unfolding splitnewlines_def lines_def [symmetric] Let_def using w
    by (auto split: if_splits)
  then show ?thesis by cases (auto simp: lines_def dest: in_set_butlastD)
qed

lemma splitnewlines_inj: "splitnewlines s = splitnewlines t \<Longrightarrow> s = t"
  by (metis concat_splitnewlines)

section \<open>Normalising matching blocks\<close>

text \<open>
  The \<open>while\<close> loops of \<open>_normalizeblocks\<close>: how far the block can be shifted,
  comparing from \<open>x\<close> in \<open>a\<close> and \<open>y\<close> in \<open>b\<close>, at most \<open>n\<close> elements.
\<close>

fun shift_count :: "'a list \<Rightarrow> 'a list \<Rightarrow> nat \<Rightarrow> nat \<Rightarrow> nat \<Rightarrow> nat res" where
  "shift_count a b x y 0 = Inr 0"
| "shift_count a b x y (Suc n) =
     bindE (py_index a x) (\<lambda>u. bindE (py_index b y) (\<lambda>v.
       if u = v then bindE (shift_count a b (Suc x) (Suc y) n) (\<lambda>k. Inr (Suc k)) else Inr 0))"

definition block_shift :: "'a list \<Rightarrow> 'a list \<Rightarrow> match \<Rightarrow> match \<Rightarrow> nat res" where
  "block_shift a b prev cur =
     (case prev of (a1, b1, l1) \<Rightarrow> case cur of (a2, b2, l2) \<Rightarrow>
        let a1end = a1 + l1; b1end = b1 + l1; a2end = a2 + l2; b2end = b2 + l2
        in if a1end = a2 then shift_count a b a1end b1end (a2end - a1end)
           else if b1end = b2 then shift_count a b a1end b1end (b2end - b1end)
           else Inr 0)"

fun normalize_from :: "'a list \<Rightarrow> 'a list \<Rightarrow> match \<Rightarrow> match list \<Rightarrow> match list res" where
  "normalize_from a b prev [] = Inr [prev]"
| "normalize_from a b (a1, b1, l1) ((a2, b2, l2) # blocks) =
     bindE (block_shift a b (a1, b1, l1) (a2, b2, l2)) (\<lambda>shift.
       bindE (normalize_from a b (a2 + shift, b2 + shift, l2 - shift) blocks) (\<lambda>r.
         Inr ((a1, b1, l1 + shift) # r)))"

text \<open>
  For no block at all Python returns \<open>[None]\<close>, which both callers fail to
  unpack; the model raises here.
\<close>

fun normalizeblocks :: "'a list \<Rightarrow> 'a list \<Rightarrow> match list \<Rightarrow> match list res" where
  "normalizeblocks a b [] = Inl TypeError"
| "normalizeblocks a b (prev # blocks) = normalize_from a b prev blocks"

section \<open>Deltas and blocks\<close>

text \<open>\<open>p\<close>: the offsets of the lines.\<close>

definition line_offsets :: "bytes list \<Rightarrow> int list" where
  "line_offsets a = foldl (\<lambda>p i. p @ [last p + int (length i)]) [0] a"

fun bdiff_loop :: "int list \<Rightarrow> bytes list \<Rightarrow> nat \<Rightarrow> nat \<Rightarrow> match list \<Rightarrow> bytes res" where
  "bdiff_loop p b la lb [] = Inr []"
| "bdiff_loop p b la lb ((am, bm, sz) # d) =
     (let s = concat (slice b lb bm)
      in bindE
           (if am > la \<or> s \<noteq> []
            then bindE (py_index p la) (\<lambda>p1. bindE (py_index p am) (\<lambda>p2.
                   bindE (pack_lll p1 p2 (int (length s))) (\<lambda>h. Inr (h @ s))))
            else Inr [])
           (\<lambda>chunk. bindE (bdiff_loop p b (am + sz) (bm + sz) d) (\<lambda>rest. Inr (chunk @ rest))))"

definition bdiff :: "bytes \<Rightarrow> bytes \<Rightarrow> bytes res" where
  "bdiff atext btext =
     (let a = splitlines_keep atext; b = splitlines_keep btext
      in if a = [] then
           (let s = concat b
            in if s = [] then Inr s else bindE (pack_lll 0 0 (int (length s))) (\<lambda>h. Inr (h @ s)))
         else
           bindE (normalizeblocks a b (get_matching_blocks a b)) (\<lambda>d.
             bdiff_loop (line_offsets a) b 0 0 d))"

type_synonym block = "nat \<times> nat \<times> nat \<times> nat"

definition blocks :: "bytes \<Rightarrow> bytes \<Rightarrow> block list res" where
  "blocks a b =
     (let an = splitnewlines a; bn = splitnewlines b
      in bindE (normalizeblocks an bn (get_matching_blocks an bn)) (\<lambda>d.
           Inr (map (\<lambda>(i, j, n). (i, i + n, j, j + n)) d)))"

text \<open>\<open>re.sub\<close> of the runs of blanks by a replacement, and \<open>str.replace(" \n", "\n")\<close>.\<close>

definition is_blank :: "char \<Rightarrow> bool" where
  "is_blank c \<longleftrightarrow> c = CHR 0x20 \<or> c = CHR 0x09 \<or> c = CR"

fun sub_blanks :: "bytes \<Rightarrow> bool \<Rightarrow> bytes \<Rightarrow> bytes" where
  "sub_blanks rep inrun [] = []"
| "sub_blanks rep inrun (c # cs) =
     (if is_blank c then (if inrun then [] else rep) @ sub_blanks rep True cs
      else c # sub_blanks rep False cs)"

fun strip_space_nl :: "bytes \<Rightarrow> bytes" where
  "strip_space_nl (c # d # cs) =
     (if c = CHR 0x20 \<and> d = NL then NL # strip_space_nl cs else c # strip_space_nl (d # cs))"
| "strip_space_nl cs = cs"

definition fixws :: "bytes \<Rightarrow> bool \<Rightarrow> bytes" where
  "fixws text allws =
     (if allws then sub_blanks [] False text
      else strip_space_nl (sub_blanks '' '' False text))"

section \<open>Normalised blocks still match\<close>

lemma shift_count_ok:
  assumes "x + n \<le> length a" "y + n \<le> length b"
  shows "\<exists>k\<le>n. shift_count a b x y n = Inr k \<and> slice a x (x + k) = slice b y (y + k)"
  using assms
proof (induction a b x y n rule: shift_count.induct)
  case (1 a b x y)
  then show ?case by simp
next
  case (2 a b x y n)
  show ?case
  proof (cases "a ! x = b ! y")
    case True
    obtain k where k: "k \<le> n" "shift_count a b (Suc x) (Suc y) n = Inr k"
      "slice a (Suc x) (Suc x + k) = slice b (Suc y) (Suc y + k)"
      using 2(1) [OF True] 2(2,3) by auto
    have "slice a x (Suc x) = slice b y (Suc y)"
      using True 2(2,3) by (simp add: slice_Suc)
    then have "slice a x (x + Suc k) = slice b y (y + Suc k)"
      using k(3) slice_append [of x "Suc x" "x + Suc k" a] slice_append [of y "Suc y" "y + Suc k" b] by auto
    then show ?thesis using k True 2(2,3) by (intro exI [of _ "Suc k"]) simp
  next
    case False
    then show ?thesis using 2(2,3) by (intro exI [of _ 0]) simp
  qed
qed

lemma slice_suffix_eq:
  assumes "slice a x (x + l) = slice b y (y + l)" "k \<le> l" "x + l \<le> length a" "y + l \<le> length b"
  shows "slice a (x + k) (x + l) = slice b (y + k) (y + l)"
proof -
  have "slice a x (x + l) = slice a x (x + k) @ slice a (x + k) (x + l)"
    "slice b y (y + l) = slice b y (y + k) @ slice b (y + k) (y + l)"
    using assms(2) by (simp_all add: slice_append)
  then show ?thesis using assms by (simp add: append_eq_append_conv)
qed

lemma block_shift_ok:
  assumes "blocks_from a b i j ((a1, b1, l1) # (a2, b2, l2) # bs)"
  shows "\<exists>k\<le>l2. block_shift a b (a1, b1, l1) (a2, b2, l2) = Inr k
    \<and> blocks_from a b i j ((a1, b1, l1 + k) # (a2 + k, b2 + k, l2 - k) # bs)"
proof -
  have "\<exists>k\<le>l2. block_shift a b (a1, b1, l1) (a2, b2, l2) = Inr k
      \<and> slice a (a1 + l1) (a1 + l1 + k) = slice b (b1 + l1) (b1 + l1 + k)"
  proof -
    have "block_shift a b (a1, b1, l1) (a2, b2, l2) \<in> {shift_count a b (a1 + l1) (b1 + l1) l2, Inr 0}"
      by (auto simp: block_shift_def Let_def)
    moreover obtain k where "k \<le> l2" "shift_count a b (a1 + l1) (b1 + l1) l2 = Inr k"
      "slice a (a1 + l1) (a1 + l1 + k) = slice b (b1 + l1) (b1 + l1 + k)"
      using shift_count_ok [of "a1 + l1" l2 a "b1 + l1" b] assms by auto
    ultimately show ?thesis by (auto intro: exI [of _ 0])
  qed
  then obtain k where k: "k \<le> l2" "block_shift a b (a1, b1, l1) (a2, b2, l2) = Inr k"
    "slice a (a1 + l1) (a1 + l1 + k) = slice b (b1 + l1) (b1 + l1 + k)" by blast
  have "slice a a1 (a1 + (l1 + k)) = slice b b1 (b1 + (l1 + k))"
    using assms k(3) slice_append [of a1 "a1 + l1" "a1 + (l1 + k)" a]
      slice_append [of b1 "b1 + l1" "b1 + (l1 + k)" b] by (simp add: add.assoc)
  moreover have "slice a (a2 + k) (a2 + l2) = slice b (b2 + k) (b2 + l2)"
    by (rule slice_suffix_eq) (use assms k(1) in auto)
  ultimately show ?thesis using assms k(1,2) by (intro exI [of _ k]) auto
qed

lemma normalize_from_ok:
  assumes "blocks_from a b i j (m # ms)"
  shows "\<exists>r. normalize_from a b m ms = Inr r \<and> blocks_from a b i j r \<and> r \<noteq> []
    \<and> (snd (snd (last (m # ms))) = 0 \<longrightarrow> last r = last (m # ms))"
  using assms
proof (induction a b m ms arbitrary: i j rule: normalize_from.induct)
  case (1 a b prev)
  then show ?case by simp
next
  case (2 a b a1 b1 l1 a2 b2 l2 bs)
  obtain k where k: "k \<le> l2" "block_shift a b (a1, b1, l1) (a2, b2, l2) = Inr k"
    "blocks_from a b i j ((a1, b1, l1 + k) # (a2 + k, b2 + k, l2 - k) # bs)"
    using block_shift_ok [OF 2(2)] by blast
  then have "blocks_from a b (a1 + (l1 + k)) (b1 + (l1 + k)) ((a2 + k, b2 + k, l2 - k) # bs)" by simp
  from 2(1) [OF this] obtain r where r: "normalize_from a b (a2 + k, b2 + k, l2 - k) bs = Inr r"
    "blocks_from a b (a1 + (l1 + k)) (b1 + (l1 + k)) r" "r \<noteq> []"
    "snd (snd (last ((a2 + k, b2 + k, l2 - k) # bs))) = 0 \<longrightarrow> last r = last ((a2 + k, b2 + k, l2 - k) # bs)"
    by (elim exE conjE)
  have "last ((a2 + k, b2 + k, l2 - k) # bs) = last ((a2, b2, l2) # bs)"
    if "snd (snd (last ((a2, b2, l2) # bs))) = 0"
    using that k(1) by (cases bs) auto
  then show ?case using k r by auto
qed

lemma normalizeblocks_ok:
  assumes "match_list a b ms"
  shows "\<exists>r. normalizeblocks a b ms = Inr r \<and> match_list a b r"
proof -
  obtain m ms' where "ms = m # ms'" using assms by (cases ms) (auto simp: match_list_def)
  then show ?thesis using normalize_from_ok [of a b 0 0 m ms'] assms by (auto simp: match_list_def)
qed

section \<open>The delta of two texts\<close>

text \<open>The offset of line \<open>i\<close> in the joined text, and the hunks that the loop writes.\<close>

definition offset :: "bytes list \<Rightarrow> nat \<Rightarrow> nat" where
  "offset a i = length (concat (take i a))"

fun block_hunks :: "bytes list \<Rightarrow> bytes list \<Rightarrow> nat \<Rightarrow> nat \<Rightarrow> match list \<Rightarrow> hunk list" where
  "block_hunks a b la lb [] = []"
| "block_hunks a b la lb ((am, bm, sz) # d) =
     (let s = concat (slice b lb bm)
      in (if am > la \<or> s \<noteq> [] then [(offset a la, offset a am, s)] else [])
         @ block_hunks a b (am + sz) (bm + sz) d)"

lemma line_offsets_gen:
  "p \<noteq> [] \<Longrightarrow> foldl (\<lambda>p i. p @ [last p + int (length i)]) p a
    = p @ map (\<lambda>i. last p + int (offset a i)) [1..<Suc (length a)]"
proof (induction a arbitrary: p)
  case Nil
  then show ?case by simp
next
  case (Cons x a)
  have "map (\<lambda>i. last p + int (offset (x # a) i)) [1..<Suc (length (x # a))]
      = (last p + int (length x)) # map (\<lambda>i. last p + int (offset (x # a) i)) [Suc 1..<Suc (Suc (length a))]"
    by (simp add: offset_def upt_conv_Cons del: upt_Suc)
  also have "map (\<lambda>i. last p + int (offset (x # a) i)) [Suc 1..<Suc (Suc (length a))]
      = map (\<lambda>i. last p + int (length x) + int (offset a i)) [1..<Suc (length a)]"
    unfolding map_Suc_upt [symmetric] by (simp add: offset_def del: upt_Suc)
  finally show ?case using Cons.IH [of "p @ [last p + int (length x)]"] by simp
qed

lemma line_offsets_nth: "i \<le> length a \<Longrightarrow> py_index (line_offsets a) i = Inr (int (offset a i))"
  using line_offsets_gen [of "[0]" a]
  by (cases i) (auto simp: line_offsets_def py_index_def offset_def nth_append simp del: upt_Suc)

lemma encode_append: "encode (hs @ hs') = bindE (encode hs) (\<lambda>r. bindE (encode hs') (\<lambda>r'. Inr (r @ r')))"
proof (induction hs rule: encode.induct)
  case 1
  show ?case by (cases "encode hs'") auto
next
  case (2 p1 p2 s hs)
  then show ?case by (cases "pack_lll (int p1) (int p2) (int (length s))"; cases "encode hs"; cases "encode hs'") auto
qed

lemma bdiff_loop_encode:
  "blocks_from a b la lb d \<Longrightarrow> la \<le> length a \<Longrightarrow>
    bdiff_loop (line_offsets a) b la lb d = encode (block_hunks a b la lb d)"
proof (induction a b la lb d rule: block_hunks.induct)
  case (1 a b la lb)
  then show ?case by simp
next
  case (2 a b la lb am bm sz d)
  have IH: "bdiff_loop (line_offsets a) b (am + sz) (bm + sz) d = encode (block_hunks a b (am + sz) (bm + sz) d)"
    using 2(1) 2(2) by simp
  have offs: "py_index (line_offsets a) la = Inr (int (offset a la))"
    "py_index (line_offsets a) am = Inr (int (offset a am))"
    using 2(2,3) by (auto intro: line_offsets_nth)
  show ?case
    by (cases "am > la \<or> concat (slice b lb bm) \<noteq> []")
      (auto simp: Let_def IH offs encode_append bindE_def split: sum.splits)
qed

lemma offset_mono: "i \<le> j \<Longrightarrow> offset a i \<le> offset a j"
  unfolding offset_def using take_slice [of i j a] by (metis concat_append length_append le_add1)

lemma offset_le: "offset a i \<le> length (concat a)"
  unfolding offset_def by (metis append_take_drop_id concat_append length_append le_add1)

lemma slice_concat: "i \<le> j \<Longrightarrow> slice (concat a) (offset a i) (offset a j) = concat (slice a i j)"
proof -
  assume ij: "i \<le> j"
  have "concat a = concat (take i a) @ concat (slice a i j) @ concat (drop j a)"
    using take_slice [OF ij, of a] by (metis append_assoc append_take_drop_id concat_append)
  moreover have "offset a j = offset a i + length (concat (slice a i j))"
    unfolding offset_def using take_slice [OF ij, of a] by (metis concat_append length_append)
  ultimately show ?thesis by (simp add: slice_def offset_def)
qed

lemma block_hunks_ok:
  "blocks_from a b la lb d \<Longrightarrow> lst \<le> offset a la \<Longrightarrow> hunks_ok (length (concat a)) lst (block_hunks a b la lb d)"
proof (induction a b la lb d arbitrary: lst rule: block_hunks.induct)
  case (1 a b la lb)
  then show ?case using offset_le [of a la] by (simp add: le_trans)
next
  case (2 a b la lb am bm sz d)
  have m: "offset a la \<le> offset a am" "offset a am \<le> offset a (am + sz)"
    using 2(2) by (auto intro: offset_mono)
  then show ?case using 2 by (simp add: Let_def)
qed

lemma apply_from_split:
  "hunks_ok (length t) mid hs \<Longrightarrow> lst \<le> mid \<Longrightarrow> apply_from t lst hs = slice t lst mid @ apply_from t mid hs"
proof (cases hs)
  case Nil
  assume "hunks_ok (length t) mid hs" "lst \<le> mid"
  then show ?thesis using Nil slice_append [of lst mid "length t" t] by (simp add: slice_to_drop)
next
  case (Cons h hs')
  obtain p1 p2 s where "h = (p1, p2, s)" by (metis prod_cases3)
  moreover assume "hunks_ok (length t) mid hs" "lst \<le> mid"
  ultimately show ?thesis using Cons slice_append [of lst mid p1 t] by simp
qed

lemma apply_block_hunks:
  assumes "blocks_from a b la lb d" "d \<noteq> []" "last d = (length a, length b, 0)" "lb \<le> length b"
  shows "apply_from (concat a) (offset a la) (block_hunks a b la lb d) = concat (drop lb b)"
  using assms
proof (induction a b la lb d rule: block_hunks.induct)
  case (1 a b la lb)
  then show ?case by simp
next
  case (2 a b la lb am bm sz d)
  let ?t = "concat a" and ?rest = "block_hunks a b (am + sz) (bm + sz) d"
  have blk: "la \<le> am" "lb \<le> bm" "bm + sz \<le> length b" "slice a am (am + sz) = slice b bm (bm + sz)"
    "blocks_from a b (am + sz) (bm + sz) d" using 2(2) by auto
  have rest: "apply_from ?t (offset a am) ?rest = concat (drop bm b)"
  proof -
    have "apply_from ?t (offset a (am + sz)) ?rest = concat (drop (bm + sz) b)"
    proof (cases "d = []")
      case True
      then have "am + sz = length a" "bm + sz = length b" using 2(4) by auto
      then show ?thesis using True by (simp add: offset_def)
    next
      case False
      then show ?thesis using 2(1) 2(4) blk by simp
    qed
    moreover have "apply_from ?t (offset a am) ?rest
        = slice ?t (offset a am) (offset a (am + sz)) @ apply_from ?t (offset a (am + sz)) ?rest"
      by (rule apply_from_split) (use blk(5) in \<open>auto intro: block_hunks_ok offset_mono\<close>)
    moreover have "concat (drop bm b) = concat (slice b bm (bm + sz)) @ concat (drop (bm + sz) b)"
      unfolding concat_append [symmetric] slice_def
      by (metis add_diff_cancel_left' append_take_drop_id drop_drop add.commute)
    ultimately show ?thesis using blk(4) by (simp add: slice_concat)
  qed
  have "concat (slice b lb bm) @ concat (drop bm b) = concat (drop lb b)"
    unfolding concat_append [symmetric]
    using slice_append [of lb bm "length b" b] blk by (simp add: slice_to_drop)
  then show ?case using rest blk(1) by (auto simp: Let_def simp del: concat_eq_Nil_conv)
qed

lemma encode_total:
  assumes "hunks_ok n lst hs" "n < 2147483648" "\<forall>(p1, p2, s)\<in>set hs. length s < 2147483648"
  shows "\<exists>e. encode hs = Inr e"
  using assms
proof (induction n lst hs rule: hunks_ok.induct)
  case (2 n lst p1 p2 s hs)
  moreover have "p2 \<le> n" using 2(2) hunks_ok_le by auto
  ultimately show ?case by (auto simp: pack_lll_def int32_def)
qed simp

lemma block_hunks_size:
  "(p1, p2, s) \<in> set (block_hunks a b la lb d) \<Longrightarrow> length s \<le> length (concat b)"
proof (induction a b la lb d rule: block_hunks.induct)
  case (2 a b la lb am bm sz d)
  have "length (concat (slice b lb bm)) \<le> length (concat b)"
  proof -
    have "concat b = concat (take lb b) @ concat (slice b lb bm) @ concat (drop (bm - lb) (drop lb b))"
      unfolding slice_def by (metis append_take_drop_id concat_append)
    then show ?thesis by (metis le_add1 le_add2 length_append trans_le_add2)
  qed
  then show ?case using 2 by (auto simp: Let_def split: if_splits)
qed simp

text \<open>The delta that \<open>bdiff\<close> writes, as hunks.\<close>

lemma bdiff_hunks:
  "\<exists>hs. bdiff a b = encode hs \<and> hunks_ok (length a) 0 hs \<and> apply_delta a hs = b
    \<and> (\<forall>(p1, p2, s)\<in>set hs. length s \<le> length b)"
proof (cases "splitlines_keep a = []")
  case True
  then have "a = []" using concat_splitlines_keep [of a] by simp
  then show ?thesis
  proof (cases "b = []")
    case True
    then show ?thesis using \<open>a = []\<close> \<open>splitlines_keep a = []\<close>
      by (intro exI [of _ "[]"]) (simp add: bdiff_def splitlines_keep_def)
  next
    case False
    then show ?thesis using \<open>a = []\<close> \<open>splitlines_keep a = []\<close>
      by (intro exI [of _ "[(0, 0, b)]"]) (simp add: bdiff_def Let_def)
  qed
next
  case False
  define al where "al = splitlines_keep a"
  define bl where "bl = splitlines_keep b"
  obtain d where d: "normalizeblocks al bl (get_matching_blocks al bl) = Inr d" "match_list al bl d"
    using normalizeblocks_ok [OF get_matching_blocks_ok] by blast
  define hs where "hs = block_hunks al bl 0 0 d"
  have "bdiff a b = encode hs"
    using False d bdiff_loop_encode [of al bl 0 0 d]
    by (simp add: bdiff_def al_def bl_def hs_def match_list_def Let_def)
  moreover have "hunks_ok (length a) 0 hs"
    using block_hunks_ok [of al bl 0 0 d 0] d(2) by (simp add: hs_def al_def match_list_def)
  moreover have "apply_delta a hs = b"
    using apply_block_hunks [of al bl 0 0 d] d(2)
    by (simp add: hs_def al_def bl_def match_list_def offset_def)
  moreover have "\<forall>(p1, p2, s)\<in>set hs. length s \<le> length b"
    using block_hunks_size [of _ _ _ al bl 0 0 d] by (auto simp: hs_def bl_def)
  ultimately show ?thesis by blast
qed

text \<open>
  (C6) Round trip of the delta code: for texts whose lengths fit the signed
  32-bit fields of the format, \<open>bdiff\<close> succeeds, \<open>patches\<close> applied to the old
  text and the delta terminates with the new text, and \<open>patchedsize\<close> predicts
  its length.
\<close>

theorem bdiff_roundtrip:
  assumes "length a < 2147483648" "length b < 2147483648"
  shows "\<exists>d. bdiff a b = Inr d \<and> patches a [d] = Some (Inr b)
    \<and> patchedsize (int (length a)) d = Some (Inr (int (length b)))"
proof -
  obtain hs where hs: "bdiff a b = encode hs" "hunks_ok (length a) 0 hs" "apply_delta a hs = b"
    "\<forall>(p1, p2, s)\<in>set hs. length s \<le> length b"
    using bdiff_hunks by blast
  obtain d where d: "encode hs = Inr d"
    using encode_total [OF hs(2) assms(1)] hs(4) assms(2) by fastforce
  have "patches a [d] = Some (Inr (foldl apply_delta a [hs]))"
    by (rule patches_run) (use hs(2) d in auto)
  then show ?thesis using patchedsize_run [OF hs(2) d] hs(1,3) d by simp
qed

lemma bdiff_roundtrip_witness:
  "length ''abc'' < 2147483648 \<and> length ''abd'' < 2147483648
   \<and> (\<exists>d. bdiff ''abc'' ''abd'' = Inr d \<and> patches ''abc'' [d] = Some (Inr ''abd''))"
  using bdiff_roundtrip [of "''abc''" "''abd''"] by auto

section \<open>The block interface\<close>

definition to_blocks :: "match list \<Rightarrow> block list" where
  "to_blocks d = map (\<lambda>(i, j, n). (i, i + n, j, j + n)) d"

definition refl_matches :: "nat \<Rightarrow> match list" where
  "refl_matches n = (if n = 0 then [(0, 0, 0)] else [(0, 0, n), (n, n, 0)])"

text \<open>
  What the clients of \<open>mdiff.blocks\<close> rely on, whichever implementation is
  configured: the blocks are matching blocks of the lines of the two texts,
  they end with the empty block at both ends, and a text matches itself in
  one block.
\<close>

locale block_matcher =
  fixes blk :: "bytes \<Rightarrow> bytes \<Rightarrow> block list res"
  assumes blk_ok: "\<exists>d. blk a b = Inr (to_blocks d) \<and> match_list (splitnewlines a) (splitnewlines b) d"
    and blk_refl: "blk a a = Inr (to_blocks (refl_matches (length (splitnewlines a))))"

interpretation pure: block_matcher blocks
proof
  fix a b
  show "\<exists>d. blocks a b = Inr (to_blocks d) \<and> match_list (splitnewlines a) (splitnewlines b) d"
    using normalizeblocks_ok [OF get_matching_blocks_ok, of "splitnewlines a" "splitnewlines b"]
    by (auto simp: blocks_def to_blocks_def Let_def)
next
  fix a
  show "blocks a a = Inr (to_blocks (refl_matches (length (splitnewlines a))))"
    by (simp add: blocks_def to_blocks_def Let_def get_matching_blocks_refl refl_matches_def block_shift_def)
qed

end
