(* ===== verification/Simplemerge.thy ===== *)
theory Simplemerge
  imports Bdiff
begin

text \<open>
  \<open>mercurial/simplemerge.py\<close>: the three-way merge of texts.  The operations take
  the block matcher that \<open>mdiff.blocks\<close> is bound to as an argument; their
  correctness is proved for every matcher that meets the contract
  \<open>block_matcher\<close> and so holds for the one of \<open>pure/bdiff.py\<close>.
\<close>

section \<open>Ranges\<close>

definition py_assert :: "bool \<Rightarrow> unit res" where
  "py_assert b = (if b then Inr () else Inl AssertionError)"

lemma py_assert_simps [simp]: "py_assert True = Inr ()" "py_assert False = Inl AssertionError"
  by (simp_all add: py_assert_def)

definition intersect :: "nat \<times> nat \<Rightarrow> nat \<times> nat \<Rightarrow> (nat \<times> nat) option res" where
  "intersect ra rb =
     bindE (py_assert (fst ra \<le> snd ra)) (\<lambda>_. bindE (py_assert (fst rb \<le> snd rb)) (\<lambda>_.
       let sa = max (fst ra) (fst rb); sb = min (snd ra) (snd rb)
       in Inr (if sa < sb then Some (sa, sb) else None)))"

fun compare_loop :: "'a list \<Rightarrow> 'a list \<Rightarrow> (nat \<times> nat) list \<Rightarrow> bool res" where
  "compare_loop a b [] = Inr True"
| "compare_loop a b ((ia, ib) # is) =
     bindE (py_index a ia) (\<lambda>x. bindE (py_index b ib) (\<lambda>y.
       if x \<noteq> y then Inr False else compare_loop a b is))"

definition compare_range :: "'a list \<Rightarrow> nat \<Rightarrow> nat \<Rightarrow> 'a list \<Rightarrow> nat \<Rightarrow> nat \<Rightarrow> bool res" where
  "compare_range a astart aend b bstart bend =
     (if int aend - int astart \<noteq> int bend - int bstart then Inr False
      else compare_loop a b (zip [astart..<aend] [bstart..<bend]))"

section \<open>The texts\<close>

record merge3text =
  m3_basetext :: bytes
  m3_atext :: bytes
  m3_btext :: bytes
  m3_base :: "bytes list"
  m3_a :: "bytes list"
  m3_b :: "bytes list"

definition merge3text_init :: "bytes \<Rightarrow> bytes \<Rightarrow> bytes
    \<Rightarrow> bytes list option \<Rightarrow> bytes list option \<Rightarrow> bytes list option \<Rightarrow> merge3text" where
  "merge3text_init basetext atext btext base a b =
     \<lparr>m3_basetext = basetext, m3_atext = atext, m3_btext = btext,
      m3_base = (case base of None \<Rightarrow> splitnewlines basetext | Some l \<Rightarrow> l),
      m3_a = (case a of None \<Rightarrow> splitnewlines atext | Some l \<Rightarrow> l),
      m3_b = (case b of None \<Rightarrow> splitnewlines btext | Some l \<Rightarrow> l)\<rparr>"

type_synonym matcher = "bytes \<Rightarrow> bytes \<Rightarrow> block list res"

text \<open>\<open>mdiff.get_matching_blocks\<close>\<close>

definition mdiff_get_matching_blocks :: "matcher \<Rightarrow> bytes \<Rightarrow> bytes \<Rightarrow> match list res" where
  "mdiff_get_matching_blocks blk a b =
     bindE (blk a b) (\<lambda>ds. Inr (map (\<lambda>(d0, d1, d2, d3). (d0, d2, d1 - d0)) ds))"

section \<open>Sync regions\<close>

type_synonym sync = "nat \<times> nat \<times> nat \<times> nat \<times> nat \<times> nat"

definition sync_region :: "merge3text \<Rightarrow> match \<Rightarrow> match \<Rightarrow> sync option res" where
  "sync_region m am bm =
     (case am of (abase, amatch, alen) \<Rightarrow> case bm of (bbase, bmatch, blen) \<Rightarrow>
        bindE (intersect (abase, abase + alen) (bbase, bbase + blen)) (\<lambda>i.
          case i of
            None \<Rightarrow> Inr None
          | Some (intbase, intend) \<Rightarrow>
              let intlen = intend - intbase;
                  asub = amatch + (intbase - abase);
                  bsub = bmatch + (intbase - bbase);
                  aend = asub + intlen;
                  bend = bsub + intlen
              in bindE (py_assert (intlen \<le> alen \<and> intlen \<le> blen \<and> abase \<le> intbase \<and> bbase \<le> intbase)) (\<lambda>_.
                 bindE (py_assert (slice (m3_base m) intbase intend = slice (m3_a m) asub aend)) (\<lambda>_.
                 bindE (py_assert (slice (m3_base m) intbase intend = slice (m3_b m) bsub bend)) (\<lambda>_.
                   Inr (Some (intbase, intend, asub, aend, bsub, bend)))))))"

fun sync_loop :: "merge3text \<Rightarrow> match list \<Rightarrow> match list \<Rightarrow> sync list res" where
  "sync_loop m ((abase, amatch, alen) # as) ((bbase, bmatch, blen) # bs) =
     bindE (sync_region m (abase, amatch, alen) (bbase, bmatch, blen)) (\<lambda>r.
       bindE (if abase + alen < bbase + blen
              then sync_loop m as ((bbase, bmatch, blen) # bs)
              else sync_loop m ((abase, amatch, alen) # as) bs) (\<lambda>sl.
         Inr (case r of None \<Rightarrow> sl | Some s \<Rightarrow> s # sl)))"
| "sync_loop m _ _ = Inr []"

definition find_sync_regions :: "matcher \<Rightarrow> merge3text \<Rightarrow> sync list res" where
  "find_sync_regions blk m =
     bindE (mdiff_get_matching_blocks blk (m3_basetext m) (m3_atext m)) (\<lambda>amatches.
     bindE (mdiff_get_matching_blocks blk (m3_basetext m) (m3_btext m)) (\<lambda>bmatches.
     bindE (sync_loop m amatches bmatches) (\<lambda>sl.
       let intbase = length (m3_base m); abase = length (m3_a m); bbase = length (m3_b m)
       in Inr (sl @ [(intbase, intbase, abase, abase, bbase, bbase)]))))"

fun unconflicted_loop :: "match list \<Rightarrow> match list \<Rightarrow> (nat \<times> nat) list res" where
  "unconflicted_loop ((a1, am, alen) # as) ((b1, bm, blen) # bs) =
     bindE (intersect (a1, a1 + alen) (b1, b1 + blen)) (\<lambda>i.
       bindE (if a1 + alen < b1 + blen
              then unconflicted_loop as ((b1, bm, blen) # bs)
              else unconflicted_loop ((a1, am, alen) # as) bs) (\<lambda>unc.
         Inr (case i of None \<Rightarrow> unc | Some r \<Rightarrow> r # unc)))"
| "unconflicted_loop _ _ = Inr []"

definition find_unconflicted :: "matcher \<Rightarrow> merge3text \<Rightarrow> (nat \<times> nat) list res" where
  "find_unconflicted blk m =
     bindE (mdiff_get_matching_blocks blk (m3_basetext m) (m3_atext m)) (\<lambda>am.
     bindE (mdiff_get_matching_blocks blk (m3_basetext m) (m3_btext m)) (\<lambda>bm.
       unconflicted_loop am bm))"

section \<open>Merge regions\<close>

datatype region =
    Unchanged nat nat
  | Same nat nat
  | RegA nat nat
  | RegB nat nat
  | Conflict nat nat nat nat nat nat

definition changed_region :: "merge3text \<Rightarrow> nat \<Rightarrow> nat \<Rightarrow> nat \<Rightarrow> nat \<Rightarrow> nat \<Rightarrow> nat \<Rightarrow> region res" where
  "changed_region m iz zmatch ia amatch ib bmatch =
     bindE (compare_range (m3_a m) ia amatch (m3_base m) iz zmatch) (\<lambda>equal_a.
     bindE (compare_range (m3_b m) ib bmatch (m3_base m) iz zmatch) (\<lambda>equal_b.
     bindE (compare_range (m3_a m) ia amatch (m3_b m) ib bmatch) (\<lambda>same.
       if same then Inr (Same ia amatch)
       else if equal_a \<and> \<not> equal_b then Inr (RegB ib bmatch)
       else if equal_b \<and> \<not> equal_a then Inr (RegA ia amatch)
       else if \<not> equal_a \<and> \<not> equal_b then Inr (Conflict iz zmatch ia amatch ib bmatch)
       else Inl AssertionError)))"

fun merge_loop :: "merge3text \<Rightarrow> nat \<Rightarrow> nat \<Rightarrow> nat \<Rightarrow> sync list \<Rightarrow> region list res" where
  "merge_loop m iz ia ib [] = Inr []"
| "merge_loop m iz ia ib ((zmatch, zend, amatch, aend, bmatch, bend) # rs) =
     bindE (py_assert (zmatch \<le> zend)) (\<lambda>_.
     bindE (py_assert (int zend - int zmatch = int aend - int amatch)) (\<lambda>_.
     bindE (py_assert (int zend - int zmatch = int bend - int bmatch)) (\<lambda>_.
     bindE (py_assert (ia \<le> amatch \<and> ib \<le> bmatch \<and> iz \<le> zmatch)) (\<lambda>_.
     bindE (if amatch - ia \<noteq> 0 \<or> bmatch - ib \<noteq> 0
            then bindE (changed_region m iz zmatch ia amatch ib bmatch) (\<lambda>r. Inr ([r], amatch, bmatch))
            else Inr ([], ia, ib)) (\<lambda>(out, ia', ib').
     if zend - zmatch > 0 then
       bindE (py_assert (ia' = amatch \<and> ib' = bmatch)) (\<lambda>_.
       bindE (merge_loop m zend aend bend rs) (\<lambda>rest. Inr (out @ [Unchanged zmatch zend] @ rest)))
     else
       bindE (merge_loop m zmatch ia' ib' rs) (\<lambda>rest. Inr (out @ rest)))))))"

definition merge_regions :: "matcher \<Rightarrow> merge3text \<Rightarrow> region list res" where
  "merge_regions blk m = bindE (find_sync_regions blk m) (\<lambda>sl. merge_loop m 0 0 0 sl)"

section \<open>Trimming conflicts\<close>

text \<open>The two \<open>while\<close> loops: matches from the front and from the end.\<close>

fun front_matches :: "'a list \<Rightarrow> 'a list \<Rightarrow> nat \<Rightarrow> nat \<Rightarrow> nat \<Rightarrow> nat" where
  "front_matches a b a1 b1 0 = 0"
| "front_matches a b a1 b1 (Suc n) =
     (if a ! a1 = b ! b1 then Suc (front_matches a b (Suc a1) (Suc b1) n) else 0)"

fun end_matches :: "'a list \<Rightarrow> 'a list \<Rightarrow> nat \<Rightarrow> nat \<Rightarrow> nat \<Rightarrow> nat" where
  "end_matches a b a2 b2 0 = 0"
| "end_matches a b a2 b2 (Suc n) =
     (if a ! (a2 - 1) = b ! (b2 - 1) then Suc (end_matches a b (a2 - 1) (b2 - 1) n) else 0)"

fun minimize_region :: "merge3text \<Rightarrow> region \<Rightarrow> region list" where
  "minimize_region m (Conflict z1 z2 a1 a2 b1 b2) =
     (let alen = a2 - a1; blen = b2 - b1;
          startmatches = front_matches (m3_a m) (m3_b m) a1 b1 (min alen blen);
          endmatches = end_matches (m3_a m) (m3_b m) a2 b2 (min alen blen)
      in (if startmatches > 0 then [Same a1 (a1 + startmatches)] else [])
         @ [Conflict z1 z2 (a1 + startmatches) (a2 - endmatches) (b1 + startmatches) (b2 - endmatches)]
         @ (if endmatches > 0 then [Same (a2 - endmatches) a2] else []))"
| "minimize_region m r = [r]"

definition minimize :: "merge3text \<Rightarrow> region list \<Rightarrow> region list" where
  "minimize m rs = concat (map (minimize_region m) rs)"

section \<open>Producing lines\<close>

text \<open>\<open>for i in range(start, end): yield xs[i]\<close>\<close>

definition yield_range :: "'a list \<Rightarrow> nat \<Rightarrow> nat \<Rightarrow> 'a list res" where
  "yield_range xs start stop =
     (if start < stop \<and> length xs < stop then Inl IndexError else Inr (slice xs start stop))"

record marker_opts =
  name_a :: "string option"
  name_b :: "string option"
  name_base :: "string option"
  start_marker :: "string option"
  mid_marker :: "string option"
  end_marker :: "string option"
  base_marker :: "string option"
  localorother :: "string option"
  do_minimize :: bool

definition default_markers :: marker_opts where
  "default_markers =
     \<lparr>name_a = None, name_b = None, name_base = None,
      start_marker = Some ''<<<<<<<'', mid_marker = Some ''======='', end_marker = Some ''>>>>>>>'',
      base_marker = None, localorother = None, do_minimize = False\<rparr>"

text \<open>\<open>if name and marker: marker = marker + " " + name\<close>\<close>

definition label_marker :: "string option \<Rightarrow> string option \<Rightarrow> string option" where
  "label_marker name marker =
     (case (name, marker) of
        (Some n, Some k) \<Rightarrow> Some (if n \<noteq> [] \<and> k \<noteq> [] then k @ '' '' @ n else k)
      | _ \<Rightarrow> marker)"

definition ends_with :: "bytes \<Rightarrow> bytes \<Rightarrow> bool" where
  "ends_with s suffix \<longleftrightarrow> length suffix \<le> length s \<and> drop (length s - length suffix) s = suffix"

definition merge_newline :: "merge3text \<Rightarrow> bytes" where
  "merge_newline m =
     (case m3_a m of
        [] \<Rightarrow> [NL]
      | l # _ \<Rightarrow> if ends_with l [CR, NL] then [CR, NL] else if ends_with l [CR] then [CR] else [NL])"

definition marker_line :: "string option \<Rightarrow> bytes \<Rightarrow> bytes list" where
  "marker_line marker newline = (case marker of None \<Rightarrow> [] | Some k \<Rightarrow> [k @ newline])"

text \<open>The lines of one region, and whether it counts as a conflict.\<close>

fun region_lines :: "merge3text \<Rightarrow> marker_opts \<Rightarrow> region \<Rightarrow> (bytes list \<times> bool) res" where
  "region_lines m k (Unchanged i j) = bindE (yield_range (m3_base m) i j) (\<lambda>l. Inr (l, False))"
| "region_lines m k (RegA i j) = bindE (yield_range (m3_a m) i j) (\<lambda>l. Inr (l, False))"
| "region_lines m k (Same i j) = bindE (yield_range (m3_a m) i j) (\<lambda>l. Inr (l, False))"
| "region_lines m k (RegB i j) = bindE (yield_range (m3_b m) i j) (\<lambda>l. Inr (l, False))"
| "region_lines m k (Conflict z1 z2 a1 a2 b1 b2) =
     (if localorother k = Some ''local'' then bindE (yield_range (m3_a m) a1 a2) (\<lambda>l. Inr (l, False))
      else if localorother k = Some ''other'' then bindE (yield_range (m3_b m) b1 b2) (\<lambda>l. Inr (l, False))
      else
        let newline = merge_newline m;
            start = label_marker (name_a k) (start_marker k);
            stop = label_marker (name_b k) (end_marker k);
            base = label_marker (name_base k) (base_marker k)
        in bindE (yield_range (m3_a m) a1 a2) (\<lambda>la.
           bindE (if base \<noteq> None then yield_range (m3_base m) z1 z2 else Inr []) (\<lambda>lz.
           bindE (yield_range (m3_b m) b1 b2) (\<lambda>lb.
             Inr (marker_line start newline @ la @ marker_line base newline @ lz
                  @ marker_line (mid_marker k) newline @ lb @ marker_line stop newline, True)))))"

record merged =
  mg_lines :: "bytes list"
  mg_conflicts :: bool
  mg_count :: nat

fun regions_lines :: "merge3text \<Rightarrow> marker_opts \<Rightarrow> region list \<Rightarrow> merged res" where
  "regions_lines m k [] = Inr \<lparr>mg_lines = [], mg_conflicts = False, mg_count = 0\<rparr>"
| "regions_lines m k (r # rs) =
     bindE (region_lines m k r) (\<lambda>(ls, c).
     bindE (regions_lines m k rs) (\<lambda>g.
       Inr \<lparr>mg_lines = ls @ mg_lines g, mg_conflicts = (c \<or> mg_conflicts g),
            mg_count = (if c then 1 else 0) + mg_count g\<rparr>))"

definition merge_lines :: "matcher \<Rightarrow> merge3text \<Rightarrow> marker_opts \<Rightarrow> merged res" where
  "merge_lines blk m k =
     bindE (merge_regions blk m) (\<lambda>rs.
       regions_lines m k (if do_minimize k then minimize m rs else rs))"

datatype group =
    GUnchanged "bytes list"
  | GA "bytes list"
  | GSame "bytes list"
  | GB "bytes list"
  | GConflict "bytes list" "bytes list" "bytes list"

fun region_group :: "merge3text \<Rightarrow> region \<Rightarrow> group" where
  "region_group m (Unchanged i j) = GUnchanged (slice (m3_base m) i j)"
| "region_group m (RegA i j) = GA (slice (m3_a m) i j)"
| "region_group m (Same i j) = GSame (slice (m3_a m) i j)"
| "region_group m (RegB i j) = GB (slice (m3_b m) i j)"
| "region_group m (Conflict z1 z2 a1 a2 b1 b2) =
     GConflict (slice (m3_base m) z1 z2) (slice (m3_a m) a1 a2) (slice (m3_b m) b1 b2)"

definition merge_groups :: "matcher \<Rightarrow> merge3text \<Rightarrow> group list res" where
  "merge_groups blk m = bindE (merge_regions blk m) (\<lambda>rs. Inr (map (region_group m) rs))"

section \<open>The command\<close>

record filectx =
  fc_path :: string
  fc_data :: bytes

record merge_opts =
  mo_mode :: string
  mo_label :: "string list"
  mo_localorother :: "string option"
  mo_print :: bool
  mo_quiet :: bool
  mo_text :: bool

text \<open>\<open>util.binary\<close>\<close>

definition binary :: "bytes \<Rightarrow> bool" where
  "binary s \<longleftrightarrow> s \<noteq> [] \<and> CHR 0x00 \<in> set s"

text \<open>The warnings printed, and the text or the abort.\<close>

definition verifytext :: "bytes \<Rightarrow> string \<Rightarrow> merge_opts \<Rightarrow> string list \<times> bytes res" where
  "verifytext text path opts =
     (if binary text then
        (let msg = path @ '' looks like a binary file.''
         in (if mo_quiet opts then [] else [''warning: '' @ msg @ [NL]],
             if mo_text opts then Inr text else Inl (Abort msg)))
      else ([], Inr text))"

definition picklabels :: "string option list \<Rightarrow> string list \<Rightarrow> string option list res" where
  "picklabels defaults overrides =
     (if length overrides > 3 then Inl (Abort ''can only specify three labels.'')
      else if length defaults < length overrides then Inl IndexError
      else Inr (map Some overrides @ drop (length overrides) defaults))"

text \<open>
  What a run does: the warnings, the text written to the local file (unless it
  is printed), and the return value: \<open>None\<close>, or the number of conflicts.
\<close>

record merge_run =
  mr_warnings :: "string list"
  mr_written :: "bytes option"
  mr_printed :: "bytes list"
  mr_result :: "nat option"

definition merge_markers :: "merge_opts \<Rightarrow> string option \<Rightarrow> string option \<Rightarrow> string option \<Rightarrow> marker_opts" where
  "merge_markers opts na nb nbase =
     (let k = default_markers\<lparr>name_a := na, name_b := nb, localorother := mo_localorother opts, do_minimize := True\<rparr>
      in if mo_mode opts = ''union''
         then k\<lparr>start_marker := None, mid_marker := None, end_marker := None\<rparr>
         else if nbase \<noteq> None
         then k\<lparr>base_marker := Some ''|||||||'', name_base := nbase, do_minimize := False\<rparr>
         else k)"

definition simplemerge :: "matcher \<Rightarrow> filectx \<Rightarrow> filectx \<Rightarrow> filectx \<Rightarrow> merge_opts \<Rightarrow> merge_run res" where
  "simplemerge blk localctx basectx otherctx opts =
     bindE (if mo_mode opts \<noteq> ''union''
            then picklabels [Some (fc_path localctx), Some (fc_path otherctx), None] (mo_label opts)
            else Inr [None, None, None]) (\<lambda>labels.
       let (w1, r1) = verifytext (fc_data localctx) (fc_path localctx) opts;
           (w2, r2) = verifytext (fc_data basectx) (fc_path basectx) opts;
           (w3, r3) = verifytext (fc_data otherctx) (fc_path otherctx) opts
       in case r1 of
            Inl _ \<Rightarrow> Inr \<lparr>mr_warnings = w1, mr_written = None, mr_printed = [], mr_result = Some 1\<rparr>
          | Inr localtext \<Rightarrow>
          (case r2 of
            Inl _ \<Rightarrow> Inr \<lparr>mr_warnings = w1 @ w2, mr_written = None, mr_printed = [], mr_result = Some 1\<rparr>
          | Inr basetext \<Rightarrow>
          (case r3 of
            Inl _ \<Rightarrow> Inr \<lparr>mr_warnings = w1 @ w2 @ w3, mr_written = None, mr_printed = [], mr_result = Some 1\<rparr>
          | Inr othertext \<Rightarrow>
              bindE (merge_lines blk (merge3text_init basetext localtext othertext None None None)
                      (merge_markers opts (labels ! 0) (labels ! 1) (labels ! 2))) (\<lambda>g.
                Inr \<lparr>mr_warnings = w1 @ w2 @ w3,
                     mr_written = (if mo_print opts then None else Some (concat (mg_lines g))),
                     mr_printed = (if mo_print opts then mg_lines g else []),
                     mr_result = (if mg_conflicts g \<and> mo_mode opts \<noteq> ''union'' then Some (mg_count g) else None)\<rparr>))))"

section \<open>Sync regions are ordered matches\<close>

fun sync_from :: "merge3text \<Rightarrow> nat \<Rightarrow> nat \<Rightarrow> nat \<Rightarrow> sync list \<Rightarrow> bool" where
  "sync_from m z x y [] \<longleftrightarrow> True"
| "sync_from m z x y ((zm, ze, am, ae, bm, be) # rs) \<longleftrightarrow>
     z \<le> zm \<and> x \<le> am \<and> y \<le> bm \<and> zm \<le> ze \<and> ae - am = ze - zm \<and> be - bm = ze - zm \<and> am \<le> ae \<and> bm \<le> be
     \<and> ze \<le> length (m3_base m) \<and> ae \<le> length (m3_a m) \<and> be \<le> length (m3_b m)
     \<and> slice (m3_base m) zm ze = slice (m3_a m) am ae \<and> slice (m3_base m) zm ze = slice (m3_b m) bm be
     \<and> sync_from m ze ae be rs"

fun sync_end :: "nat \<times> nat \<times> nat \<Rightarrow> sync list \<Rightarrow> nat \<times> nat \<times> nat" where
  "sync_end e [] = e"
| "sync_end e ((zm, ze, am, ae, bm, be) # rs) = sync_end (ze, ae, be) rs"

lemma sync_from_append:
  "sync_from m z x y (rs @ rs') \<longleftrightarrow>
    sync_from m z x y rs
    \<and> (case sync_end (z, x, y) rs of (z', x', y') \<Rightarrow> sync_from m z' x' y' rs')"
  by (induction m z x y rs rule: sync_from.induct) auto

lemma sync_end_bound:
  "sync_from m z x y rs \<Longrightarrow> z \<le> length (m3_base m) \<Longrightarrow> x \<le> length (m3_a m) \<Longrightarrow> y \<le> length (m3_b m) \<Longrightarrow>
    (case sync_end (z, x, y) rs of (z', x', y') \<Rightarrow>
       z' \<le> length (m3_base m) \<and> x' \<le> length (m3_a m) \<and> y' \<le> length (m3_b m))"
  by (induction m z x y rs rule: sync_from.induct) auto

text \<open>
  Where the search stands in a block \<open>(base, pos, len)\<close>: before it, or inside it
  at the base position \<open>z\<close>.
\<close>

definition at_block :: "nat \<Rightarrow> nat \<Rightarrow> match \<Rightarrow> bool" where
  "at_block z x blk = (case blk of (base, pos, len) \<Rightarrow>
     x \<le> pos \<or> (base \<le> z \<and> z \<le> base + len \<and> x = pos + (z - base)))"

lemma slice_sub_eq:
  assumes "slice u p (p + l) = slice v q (q + l)" "p + l \<le> length u" "q + l \<le> length v" "i + n \<le> l"
  shows "slice u (p + i) (p + i + n) = slice v (q + i) (q + i + n)"
proof (rule slice_eqI)
  fix t assume "t < p + i + n - (p + i)"
  then show "u ! (p + i + t) = v ! (q + i + t)"
    using slice_eq_nth [OF assms(1), of "i + t"] assms by (simp add: add.assoc)
qed (use assms in auto)

lemma sync_region_ok:
  assumes a: "abase + alen \<le> length (m3_base m)" "amatch + alen \<le> length (m3_a m)"
      "slice (m3_base m) abase (abase + alen) = slice (m3_a m) amatch (amatch + alen)"
    and b: "bbase + blen \<le> length (m3_base m)" "bmatch + blen \<le> length (m3_b m)"
      "slice (m3_base m) bbase (bbase + blen) = slice (m3_b m) bmatch (bmatch + blen)"
  defines "M \<equiv> max abase bbase" and "E \<equiv> min (abase + alen) (bbase + blen)"
  defines "r \<equiv> (M, E, amatch + (M - abase), amatch + (E - abase), bmatch + (M - bbase), bmatch + (E - bbase))"
  shows "sync_region m (abase, amatch, alen) (bbase, bmatch, blen) = Inr (if M < E then Some r else None)"
    and "M < E \<Longrightarrow> slice (m3_base m) M E = slice (m3_a m) (amatch + (M - abase)) (amatch + (E - abase))
      \<and> slice (m3_base m) M E = slice (m3_b m) (bmatch + (M - bbase)) (bmatch + (E - bbase))"
proof -
  show *: "slice (m3_base m) M E = slice (m3_a m) (amatch + (M - abase)) (amatch + (E - abase))
      \<and> slice (m3_base m) M E = slice (m3_b m) (bmatch + (M - bbase)) (bmatch + (E - bbase))" if "M < E"
  proof -
    have "abase \<le> M" "bbase \<le> M" "E \<le> abase + alen" "E \<le> bbase + blen" by (auto simp: M_def E_def)
    then show ?thesis
      using slice_sub_eq [OF a(3,1,2), of "M - abase" "E - M"] slice_sub_eq [OF b(3,1,2), of "M - bbase" "E - M"] that
      by (simp add: add.assoc)
  qed
  have int: "intersect (abase, abase + alen) (bbase, bbase + blen) = Inr (if M < E then Some (M, E) else None)"
    unfolding M_def E_def intersect_def by simp
  show "sync_region m (abase, amatch, alen) (bbase, bmatch, blen) = Inr (if M < E then Some r else None)"
  proof (cases "M < E")
    case True
    have le: "abase \<le> M" "bbase \<le> M" "E - M \<le> alen" "E - M \<le> blen" by (auto simp: M_def E_def)
    have e: "amatch + (M - abase) + (E - M) = amatch + (E - abase)"
      "bmatch + (M - bbase) + (E - M) = bmatch + (E - bbase)" using True le(1,2) by auto
    have c: "(E - M \<le> alen \<and> E - M \<le> blen \<and> abase \<le> M \<and> bbase \<le> M) = True"
      "(slice (m3_base m) M E = slice (m3_a m) (amatch + (M - abase)) (amatch + (E - abase))) = True"
      "(slice (m3_base m) M E = slice (m3_b m) (bmatch + (M - bbase)) (bmatch + (E - bbase))) = True"
      using le * [OF True] by blast+
    show ?thesis
      unfolding sync_region_def prod.case int if_P [OF True] bindE_simps option.case Let_def e c py_assert_simps r_def
      by (rule refl)
  next
    case False
    then show ?thesis by (simp add: sync_region_def int)
  qed
qed

lemma at_block_advance:
  assumes "abase + alen \<le> p" "amatch + alen \<le> q" "z \<le> max abase bbase" "abase + alen \<le> bbase + blen"
    and "at_block z x (abase, amatch, alen)" "at_block z y (bbase, bmatch, blen)"
  shows "max abase bbase < abase + alen \<Longrightarrow>
      abase + alen \<le> max p bbase \<and> at_block (abase + alen) (amatch + alen) (p, q, n)
      \<and> at_block (abase + alen) (bmatch + (abase + alen - bbase)) (bbase, bmatch, blen)"
    and "z \<le> max p bbase \<and> at_block z x (p, q, n) \<and> at_block z y (bbase, bmatch, blen)"
proof -
  show "abase + alen \<le> max p bbase \<and> at_block (abase + alen) (amatch + alen) (p, q, n)
      \<and> at_block (abase + alen) (bmatch + (abase + alen - bbase)) (bbase, bmatch, blen)"
    if "max abase bbase < abase + alen"
    using that assms(1-4) by (simp add: at_block_def)
  have "x \<le> q" using assms(2,5) by (auto simp: at_block_def)
  moreover have "z \<le> max p bbase" using assms(1,3) by (simp add: max_def split: if_splits)
  ultimately show "z \<le> max p bbase \<and> at_block z x (p, q, n) \<and> at_block z y (bbase, bmatch, blen)"
    using assms(6) by (simp add: at_block_def)
qed

lemma sync_emit:
  assumes "z \<le> M" "at_block z x (abase, amatch, alen)" "at_block z y (bbase, bmatch, blen)"
    "abase \<le> M" "bbase \<le> M"
  shows "x \<le> amatch + (M - abase)" "y \<le> bmatch + (M - bbase)"
  using assms by (auto simp: at_block_def)

lemma sync_loop_ok:
  assumes "blocks_from (m3_base m) (m3_a m) i j am" "blocks_from (m3_base m) (m3_b m) i' j' bm"
    and "am \<noteq> [] \<Longrightarrow> bm \<noteq> [] \<Longrightarrow> z \<le> max (fst (hd am)) (fst (hd bm)) \<and> at_block z x (hd am) \<and> at_block z y (hd bm)"
  shows "\<exists>sl. sync_loop m am bm = Inr sl \<and> sync_from m z x y sl"
  using assms
proof (induction m am bm arbitrary: i j i' j' z x y rule: sync_loop.induct)
  case (1 m abase amatch alen as bbase bmatch blen bs)
  define M where "M = max abase bbase"
  define E where "E = min (abase + alen) (bbase + blen)"
  note a = 1(3) and b = 1(4)
  have blk: "abase + alen \<le> length (m3_base m)" "amatch + alen \<le> length (m3_a m)"
      "slice (m3_base m) abase (abase + alen) = slice (m3_a m) amatch (amatch + alen)"
      "bbase + blen \<le> length (m3_base m)" "bmatch + blen \<le> length (m3_b m)"
      "slice (m3_base m) bbase (bbase + blen) = slice (m3_b m) bmatch (bmatch + blen)"
    using a b by simp_all
  note sr1 = sync_region_ok(1) [OF blk, folded M_def E_def]
  note sr2 = sync_region_ok(2) [OF blk, folded M_def E_def]
  have st: "z \<le> M" "at_block z x (abase, amatch, alen)" "at_block z y (bbase, bmatch, blen)"
    using 1(5) by (auto simp: M_def)
  define r where "r = (M, E, amatch + (M - abase), amatch + (E - abase), bmatch + (M - bbase), bmatch + (E - bbase))"
  have region: "sync_region m (abase, amatch, alen) (bbase, bmatch, blen) = Inr (if M < E then Some r else None)"
    unfolding r_def by (rule sr1)
  define z' where "z' = (if M < E then E else z)"
  define x' where "x' = (if M < E then amatch + (E - abase) else x)"
  define y' where "y' = (if M < E then bmatch + (E - bbase) else y)"
  have le: "abase \<le> M" "bbase \<le> M" "E \<le> abase + alen" "E \<le> bbase + blen" by (auto simp: M_def E_def)
  have emit: "sync_from m z x y (r # sl)" if sl: "sync_from m z' x' y' sl" and lt: "M < E" for sl
  proof -
    have "amatch + (E - abase) \<le> length (m3_a m)" "bmatch + (E - bbase) \<le> length (m3_b m)" "E \<le> length (m3_base m)"
      using le(3,4) a b by auto
    moreover have "amatch + (E - abase) - (amatch + (M - abase)) = E - M"
      "bmatch + (E - bbase) - (bmatch + (M - bbase)) = E - M" using le(1,2) lt by auto
    moreover note eqs = sr2 [OF lt, THEN conjunct1] sr2 [OF lt, THEN conjunct2]
    moreover have "amatch + (M - abase) \<le> amatch + (E - abase)" "bmatch + (M - bbase) \<le> bmatch + (E - bbase)"
      using lt by auto
    ultimately show ?thesis
      using sl lt sync_emit [OF st le(1,2)] st(1)
      unfolding r_def sync_from.simps z'_def x'_def y'_def if_P [OF lt]
      by (intro conjI) (assumption | rule less_imp_le)+
  qed
  have "\<exists>sl. (if abase + alen < bbase + blen then sync_loop m as ((bbase, bmatch, blen) # bs)
      else sync_loop m ((abase, amatch, alen) # as) bs) = Inr sl \<and> sync_from m z' x' y' sl"
  proof (cases "abase + alen < bbase + blen")
    case True
    then have E: "E = abase + alen" by (simp add: E_def)
    have "\<exists>sl. sync_loop m as ((bbase, bmatch, blen) # bs) = Inr sl \<and> sync_from m z' x' y' sl"
    proof (rule 1(1) [OF True])
      show "blocks_from (m3_base m) (m3_a m) (abase + alen) (amatch + alen) as" using a by simp
      show "blocks_from (m3_base m) (m3_b m) i' j' ((bbase, bmatch, blen) # bs)" by (rule b)
      assume "as \<noteq> []"
      then obtain p q n as' where as: "as = (p, q, n) # as'" by (metis list.exhaust prod_cases3)
      have pq: "abase + alen \<le> p" "amatch + alen \<le> q" using a as by auto
      show "z' \<le> max (fst (hd as)) (fst (hd ((bbase, bmatch, blen) # bs)))
          \<and> at_block z' x' (hd as) \<and> at_block z' y' (hd ((bbase, bmatch, blen) # bs))"
        using at_block_advance [OF pq st(1) [unfolded M_def] less_imp_le [OF True] st(2,3), of n]
        unfolding z'_def x'_def y'_def as list.sel fst_conv E M_def by (cases "max abase bbase < abase + alen") auto
    qed
    then show ?thesis using True by simp
  next
    case False
    then have E: "E = bbase + blen" by (simp add: E_def)
    have "\<exists>sl. sync_loop m ((abase, amatch, alen) # as) bs = Inr sl \<and> sync_from m z' x' y' sl"
    proof (rule 1(2) [OF False])
      show "blocks_from (m3_base m) (m3_a m) i j ((abase, amatch, alen) # as)" by (rule a)
      show "blocks_from (m3_base m) (m3_b m) (bbase + blen) (bmatch + blen) bs" using b by simp
      assume "bs \<noteq> []"
      then obtain p q n bs' where bs: "bs = (p, q, n) # bs'" by (metis list.exhaust prod_cases3)
      have pq: "bbase + blen \<le> p" "bmatch + blen \<le> q" using b bs by auto
      show "z' \<le> max (fst (hd ((abase, amatch, alen) # as))) (fst (hd bs))
          \<and> at_block z' x' (hd ((abase, amatch, alen) # as)) \<and> at_block z' y' (hd bs)"
        using at_block_advance [OF pq st(1) [unfolded M_def max.commute [of abase]] leI [OF False] st(3,2), of n]
        unfolding z'_def x'_def y'_def bs list.sel fst_conv E M_def max.commute [of abase]
        by (cases "max bbase abase < bbase + blen") auto
    qed
    then show ?thesis using False by simp
  qed
  then obtain sl where sl: "(if abase + alen < bbase + blen then sync_loop m as ((bbase, bmatch, blen) # bs)
      else sync_loop m ((abase, amatch, alen) # as) bs) = Inr sl" "sync_from m z' x' y' sl" by blast
  show ?case
  proof (cases "M < E")
    case True
    then show ?thesis using sl(1) region emit [OF sl(2)] by simp
  next
    case False
    then show ?thesis using sl region by (simp add: z'_def x'_def y'_def)
  qed
qed auto

section \<open>The three-way merge, abstractly\<close>

text \<open>
  The specification of a three-way merge by chunks: the three texts are cut
  into the same number of pieces; a stable piece is the same in all three, and
  every other piece is decided on its own.
\<close>

datatype piece = Stable "bytes list" | Changed "bytes list" "bytes list" "bytes list"

fun piece_base :: "piece \<Rightarrow> bytes list" where
  "piece_base (Stable l) = l"
| "piece_base (Changed z a b) = z"

fun piece_a :: "piece \<Rightarrow> bytes list" where
  "piece_a (Stable l) = l"
| "piece_a (Changed z a b) = a"

fun piece_b :: "piece \<Rightarrow> bytes list" where
  "piece_b (Stable l) = l"
| "piece_b (Changed z a b) = b"

fun piece_groups :: "piece \<Rightarrow> group list" where
  "piece_groups (Stable l) = (if l = [] then [] else [GUnchanged l])"
| "piece_groups (Changed z a b) =
     (if a = [] \<and> b = [] then []
      else if a = b then [GSame a]
      else if a = z then [GB b]
      else if b = z then [GA a]
      else [GConflict z a b])"

fun pieces :: "merge3text \<Rightarrow> nat \<Rightarrow> nat \<Rightarrow> nat \<Rightarrow> sync list \<Rightarrow> piece list" where
  "pieces m iz ia ib [] = []"
| "pieces m iz ia ib ((zm, ze, am, ae, bm, be) # rs) =
     Changed (slice (m3_base m) iz zm) (slice (m3_a m) ia am) (slice (m3_b m) ib bm)
     # Stable (slice (m3_base m) zm ze) # pieces m ze ae be rs"

lemma compare_loop_ok:
  "\<forall>(i, j)\<in>set is. i < length a \<and> j < length b \<Longrightarrow>
    compare_loop a b is = Inr (\<forall>(i, j)\<in>set is. a ! i = b ! j)"
  by (induction a b "is" rule: compare_loop.induct) auto

lemma compare_range_ok:
  assumes "astart \<le> aend" "bstart \<le> bend" "aend \<le> length a" "bend \<le> length b"
  shows "compare_range a astart aend b bstart bend = Inr (slice a astart aend = slice b bstart bend)"
proof (cases "aend - astart = bend - bstart")
  case True
  define n where "n = aend - astart"
  have z: "zip [astart..<aend] [bstart..<bend] = map (\<lambda>t. (astart + t, bstart + t)) [0..<n]"
    using True by (intro nth_equalityI) (auto simp: n_def)
  have "compare_range a astart aend b bstart bend = Inr (\<forall>t<n. a ! (astart + t) = b ! (bstart + t))"
  proof -
    have "compare_loop a b (map (\<lambda>t. (astart + t, bstart + t)) [0..<n])
        = Inr (\<forall>(i, j)\<in>set (map (\<lambda>t. (astart + t, bstart + t)) [0..<n]). a ! i = b ! j)"
      by (rule compare_loop_ok) (use assms True in \<open>auto simp: n_def\<close>)
    moreover have "int aend - int astart = int bend - int bstart" using assms(1,2) True by linarith
    ultimately show ?thesis by (auto simp: compare_range_def z)
  qed
  moreover have "(\<forall>t<n. a ! (astart + t) = b ! (bstart + t)) \<longleftrightarrow> slice a astart aend = slice b bstart bend"
    using assms True by (auto simp: n_def intro!: slice_eqI dest: slice_eq_nth)
  ultimately show ?thesis by simp
next
  case False
  then have "length (slice a astart aend) \<noteq> length (slice b bstart bend)" using assms by simp
  then have "slice a astart aend \<noteq> slice b bstart bend" by metis
  moreover have "int aend - int astart \<noteq> int bend - int bstart" using False assms(1,2) by linarith
  ultimately show ?thesis by (simp add: compare_range_def)
qed

lemma slice_empty_iff: "i \<le> j \<Longrightarrow> j \<le> length xs \<Longrightarrow> slice xs i j = [] \<longleftrightarrow> i = j"
  using length_slice [of xs i j] by (metis diff_is_0_eq le_antisym length_0_conv min.absorb1 diff_le_mono slice_same)

text \<open>The ranges of a region lie inside the texts they refer to.\<close>

fun region_ok :: "merge3text \<Rightarrow> region \<Rightarrow> bool" where
  "region_ok m (Unchanged i j) \<longleftrightarrow> i \<le> j \<and> j \<le> length (m3_base m)"
| "region_ok m (Same i j) \<longleftrightarrow> i \<le> j \<and> j \<le> length (m3_a m)"
| "region_ok m (RegA i j) \<longleftrightarrow> i \<le> j \<and> j \<le> length (m3_a m)"
| "region_ok m (RegB i j) \<longleftrightarrow> i \<le> j \<and> j \<le> length (m3_b m)"
| "region_ok m (Conflict z1 z2 a1 a2 b1 b2) \<longleftrightarrow>
     z1 \<le> z2 \<and> z2 \<le> length (m3_base m) \<and> a1 \<le> a2 \<and> a2 \<le> length (m3_a m) \<and> b1 \<le> b2 \<and> b2 \<le> length (m3_b m)"

lemma changed_region_ok:
  assumes "iz \<le> zm" "ia \<le> am" "ib \<le> bm" "zm \<le> length (m3_base m)" "am \<le> length (m3_a m)" "bm \<le> length (m3_b m)"
    and "ia \<noteq> am \<or> ib \<noteq> bm"
  shows "\<exists>r. changed_region m iz zm ia am ib bm = Inr r \<and> region_ok m r
    \<and> [region_group m r] = piece_groups (Changed (slice (m3_base m) iz zm) (slice (m3_a m) ia am) (slice (m3_b m) ib bm))"
proof -
  have "\<not> (slice (m3_a m) ia am = [] \<and> slice (m3_b m) ib bm = [])"
    using assms by (simp add: slice_empty_iff)
  then show ?thesis
    unfolding changed_region_def using assms by (auto simp: compare_range_ok)
qed

lemma merge_loop_ok:
  assumes "sync_from m iz ia ib rs"
  shows "\<exists>rs'. merge_loop m iz ia ib rs = Inr rs' \<and> (\<forall>r\<in>set rs'. region_ok m r)
    \<and> map (region_group m) rs' = concat (map piece_groups (pieces m iz ia ib rs))"
  using assms
proof (induction m iz ia ib rs rule: merge_loop.induct)
  case (1 m iz ia ib)
  then show ?case by simp
next
  case (2 m iz ia ib zm ze am ae bm be rs)
  have ord: "iz \<le> zm" "ia \<le> am" "ib \<le> bm" "zm \<le> ze" "am \<le> ae" "bm \<le> be" "ae - am = ze - zm" "be - bm = ze - zm"
    "ze \<le> length (m3_base m)" "ae \<le> length (m3_a m)" "be \<le> length (m3_b m)"
    and rest: "sync_from m ze ae be rs"
    using 2(3) by auto
  have asserts: "py_assert (zm \<le> ze) = Inr ()" "py_assert (int ze - int zm = int ae - int am) = Inr ()"
    "py_assert (int ze - int zm = int be - int bm) = Inr ()" "py_assert (ia \<le> am \<and> ib \<le> bm \<and> iz \<le> zm) = Inr ()"
    using ord by (auto simp: py_assert_def)
  obtain out where out: "(if am - ia \<noteq> 0 \<or> bm - ib \<noteq> 0
        then bindE (changed_region m iz zm ia am ib bm) (\<lambda>r. Inr ([r], am, bm)) else Inr ([], ia, ib)) = Inr (out, am, bm)"
    "\<forall>r\<in>set out. region_ok m r" "map (region_group m) out = piece_groups (Changed (slice (m3_base m) iz zm) (slice (m3_a m) ia am) (slice (m3_b m) ib bm))"
  proof (cases "ia = am \<and> ib = bm")
    case True
    then show thesis by (intro that [of "[]"]) auto
  next
    case False
    then obtain r where "changed_region m iz zm ia am ib bm = Inr r" "region_ok m r"
      "[region_group m r] = piece_groups (Changed (slice (m3_base m) iz zm) (slice (m3_a m) ia am) (slice (m3_b m) ib bm))"
      using changed_region_ok [of iz zm ia am ib bm m] ord by auto
    then show thesis using False ord by (intro that [of "[r]"]) auto
  qed
  show ?case
  proof (cases "zm < ze")
    case True
    then obtain rs' where "merge_loop m ze ae be rs = Inr rs'" "\<forall>r\<in>set rs'. region_ok m r"
      "map (region_group m) rs' = concat (map piece_groups (pieces m ze ae be rs))"
      using 2(1) rest by auto
    then show ?thesis using True asserts out ord by (simp add: slice_empty_iff ball_Un)
  next
    case False
    then have "ze = zm" "ae = am" "be = bm" using ord by auto
    then obtain rs' where "merge_loop m zm am bm rs = Inr rs'" "\<forall>r\<in>set rs'. region_ok m r"
      "map (region_group m) rs' = concat (map piece_groups (pieces m zm am bm rs))"
      using 2(2) [of am bm] rest by auto
    then show ?thesis using \<open>ze = zm\<close> \<open>ae = am\<close> \<open>be = bm\<close> asserts out ord by (simp add: ball_Un)
  qed
qed

lemma pieces_sides:
  assumes "sync_from m iz ia ib rs" "rs \<noteq> []"
    and "sync_end (iz, ia, ib) rs = (length (m3_base m), length (m3_a m), length (m3_b m))"
  shows "concat (map piece_base (pieces m iz ia ib rs)) = drop iz (m3_base m)
    \<and> concat (map piece_a (pieces m iz ia ib rs)) = drop ia (m3_a m)
    \<and> concat (map piece_b (pieces m iz ia ib rs)) = drop ib (m3_b m)"
  using assms
proof (induction m iz ia ib rs rule: pieces.induct)
  case (1 m iz ia ib)
  then show ?case by simp
next
  case (2 m iz ia ib zm ze am ae bm be rs)
  have sl: "slice (m3_base m) zm ze = slice (m3_a m) am ae" "slice (m3_base m) zm ze = slice (m3_b m) bm be"
    using 2(2) by auto
  have join: "slice xs i j @ slice xs j k @ drop k xs = drop i xs" if "i \<le> j" "j \<le> k" for xs :: "bytes list" and i j k
  proof -
    have "slice xs i j @ slice xs j k = slice xs i k" by (rule slice_append) fact+
    moreover have "slice xs i k @ drop k xs = drop i xs"
      using that append_take_drop_id [of "k - i" "drop i xs"] by (simp add: slice_def)
    ultimately show ?thesis by (metis append_assoc)
  qed
  have rest: "concat (map piece_base (pieces m ze ae be rs)) = drop ze (m3_base m)
    \<and> concat (map piece_a (pieces m ze ae be rs)) = drop ae (m3_a m)
    \<and> concat (map piece_b (pieces m ze ae be rs)) = drop be (m3_b m)"
  proof (cases "rs = []")
    case True
    then show ?thesis using 2(4) by simp
  next
    case False
    then show ?thesis using 2(1) 2(2) 2(4) by simp
  qed
  then show ?case
    using 2(2) join [of iz zm ze "m3_base m"] join [of ia am ae "m3_a m"] join [of ib bm be "m3_b m"] sl
    by simp
qed

section \<open>Lines from groups\<close>

definition conflict_lines :: "marker_opts \<Rightarrow> bytes \<Rightarrow> bytes list \<Rightarrow> bytes list \<Rightarrow> bytes list \<Rightarrow> bytes list" where
  "conflict_lines k newline z a b =
     (let base = label_marker (name_base k) (base_marker k)
      in marker_line (label_marker (name_a k) (start_marker k)) newline @ a
         @ marker_line base newline @ (if base \<noteq> None then z else [])
         @ marker_line (mid_marker k) newline @ b
         @ marker_line (label_marker (name_b k) (end_marker k)) newline)"

fun group_lines :: "marker_opts \<Rightarrow> bytes \<Rightarrow> group \<Rightarrow> bytes list \<times> bool" where
  "group_lines k nl (GUnchanged l) = (l, False)"
| "group_lines k nl (GSame l) = (l, False)"
| "group_lines k nl (GA l) = (l, False)"
| "group_lines k nl (GB l) = (l, False)"
| "group_lines k nl (GConflict z a b) =
     (if localorother k = Some ''local'' then (a, False)
      else if localorother k = Some ''other'' then (b, False)
      else (conflict_lines k nl z a b, True))"

lemma yield_range_ok: "j \<le> length xs \<Longrightarrow> yield_range xs i j = Inr (slice xs i j)"
  by (simp add: yield_range_def)

lemma region_lines_group:
  "region_ok m r \<Longrightarrow> region_lines m k r = Inr (group_lines k (merge_newline m) (region_group m r))"
  by (cases r) (auto simp: yield_range_ok conflict_lines_def Let_def)

lemma regions_lines_groups:
  "\<forall>r\<in>set rs. region_ok m r \<Longrightarrow>
    regions_lines m k rs = Inr
      \<lparr>mg_lines = concat (map (fst \<circ> group_lines k (merge_newline m)) (map (region_group m) rs)),
       mg_conflicts = list_ex (snd \<circ> group_lines k (merge_newline m)) (map (region_group m) rs),
       mg_count = length (filter (snd \<circ> group_lines k (merge_newline m)) (map (region_group m) rs))\<rparr>"
  by (induction rs) (auto simp: region_lines_group split: prod.splits)

fun is_conflict :: "group \<Rightarrow> bool" where
  "is_conflict (GConflict z a b) = True"
| "is_conflict _ = False"

lemma minimize_no_conflict:
  "\<not> list_ex is_conflict (map (region_group m) rs) \<Longrightarrow> minimize m rs = rs"
proof (induction rs)
  case (Cons r rs)
  then show ?case by (cases r) (auto simp: minimize_def)
qed (simp add: minimize_def)

section \<open>Sync regions of special cases\<close>

text \<open>A condition on sync regions that every pair of the given blocks meets.\<close>

lemma sync_loop_all:
  assumes "sync_loop m as bs = Inr sl"
    and "\<And>A B s. A \<in> set as \<Longrightarrow> B \<in> set bs \<Longrightarrow> sync_region m A B = Inr (Some s) \<Longrightarrow> P s"
  shows "\<forall>s\<in>set sl. P s"
  using assms
proof (induction m as bs arbitrary: sl rule: sync_loop.induct)
  case (1 m abase amatch alen as bbase bmatch blen bs)
  obtain r sl' where r: "sync_region m (abase, amatch, alen) (bbase, bmatch, blen) = Inr r"
    and sl': "(if abase + alen < bbase + blen then sync_loop m as ((bbase, bmatch, blen) # bs)
        else sync_loop m ((abase, amatch, alen) # as) bs) = Inr sl'"
    and sl: "sl = (case r of None \<Rightarrow> sl' | Some s \<Rightarrow> s # sl')"
    using 1(3) by (auto simp: bindE_Inr_iff)
  have "\<forall>s\<in>set sl'. P s"
  proof (cases "abase + alen < bbase + blen")
    case True
    then have "sync_loop m as ((bbase, bmatch, blen) # bs) = Inr sl'" using sl' by simp
    then show ?thesis by (rule 1(1) [OF True]) (erule (1) 1(4) [OF list.set_intros(2)])
  next
    case False
    then have "sync_loop m ((abase, amatch, alen) # as) bs = Inr sl'" using sl' by simp
    then show ?thesis by (rule 1(2) [OF False]) (erule 1(4) [OF _ list.set_intros(2)], assumption+)
  qed
  moreover have "P s" if "r = Some s" for s
    by (rule 1(4) [OF list.set_intros(1) list.set_intros(1)]) (simp only: r that)
  ultimately show ?case using sl by (cases r) simp_all
qed auto

lemma intersect_block:
  "intersect (abase, abase + alen) (bbase, bbase + blen) =
    Inr (if max abase bbase < min (abase + alen) (bbase + blen)
         then Some (max abase bbase, min (abase + alen) (bbase + blen)) else None)"
  unfolding intersect_def by simp

lemma sync_region_some:
  assumes "sync_region m (abase, amatch, alen) (bbase, bmatch, blen) = Inr (Some (zm, ze, am, ae, bm, be))"
  shows "max abase bbase < min (abase + alen) (bbase + blen) \<and> zm = max abase bbase \<and> ze = min (abase + alen) (bbase + blen)
    \<and> am = amatch + (zm - abase) \<and> ae = am + (ze - zm) \<and> bm = bmatch + (zm - bbase) \<and> be = bm + (ze - zm)"
proof -
  define M where "M = max abase bbase"
  define E where "E = min (abase + alen) (bbase + blen)"
  have int: "intersect (abase, abase + alen) (bbase, bbase + blen) = Inr (if M < E then Some (M, E) else None)"
    unfolding M_def E_def by (rule intersect_block)
  show ?thesis
    using assms unfolding M_def [symmetric] E_def [symmetric] sync_region_def prod.case int bindE_simps Let_def
    by (cases "M < E") (simp_all only: if_True if_False option.case prod.case bindE_Inr_iff sum.inject option.inject prod.inject, auto)
qed

lemma blocks_from_disjoint:
  "blocks_from u v i j L \<Longrightarrow> A \<in> set L \<Longrightarrow> B \<in> set L \<Longrightarrow>
    max (fst A) (fst B) < min (fst A + snd (snd A)) (fst B + snd (snd B)) \<Longrightarrow> A = B"
proof (induction u v i j L rule: blocks_from.induct)
  case (2 u v i j x y k ms)
  have later: "x + k \<le> fst C" if "C \<in> set ms" "blocks_from u v p q ms" "x + k \<le> p" for C p q ms
    using that
  proof (induction u v p q ms rule: blocks_from.induct)
    case (2 u v p q x' y' k' ms)
    then show ?case by (cases "C = (x', y', k')") auto
  qed simp
  show ?case
  proof (cases "A = (x, y, k)"; cases "B = (x, y, k)")
    assume *: "A = (x, y, k)" "B \<noteq> (x, y, k)"
    then have "x + k \<le> fst B" using later [of B ms "x + k" "y + k"] 2(2,4) by auto
    then show ?thesis using 2(5) * by auto
  next
    assume *: "A \<noteq> (x, y, k)" "B = (x, y, k)"
    then have "x + k \<le> fst A" using later [of A ms "x + k" "y + k"] 2(2,3) by auto
    then show ?thesis using 2(5) * by auto
  next
    assume "A \<noteq> (x, y, k)" "B \<noteq> (x, y, k)"
    then show ?thesis using 2 by auto
  qed simp
qed simp

text \<open>Both sides matched alike: the sync regions are the same on both sides.\<close>

lemma sync_loop_same:
  assumes "blocks_from u v 0 0 L" "sync_loop m L L = Inr sl"
  shows "\<forall>(zm, ze, am, ae, bm, be)\<in>set sl. am = bm \<and> ae = be"
proof (rule sync_loop_all [OF assms(2)])
  fix A B s assume A: "A \<in> set L" and B: "B \<in> set L" and s: "sync_region m A B = Inr (Some s)"
  obtain abase amatch alen where a: "A = (abase, amatch, alen)" by (cases A)
  obtain bbase bmatch blen where b: "B = (bbase, bmatch, blen)" by (cases B)
  obtain zm ze am ae bm be where s': "s = (zm, ze, am, ae, bm, be)" by (cases s)
  note sr = sync_region_some [OF s [unfolded a b s']]
  have "A = B" by (rule blocks_from_disjoint [OF assms(1) A B]) (use sr a b in simp)
  then show "case s of (zm, ze, am, ae, bm, be) \<Rightarrow> am = bm \<and> ae = be" using sr a b s' by simp
qed

text \<open>One side matched on the diagonal: its part of a sync region is the base part.\<close>

lemma sync_loop_diag_a:
  assumes "sync_loop m (refl_matches n) bs = Inr sl"
  shows "\<forall>(zm, ze, am, ae, bm, be)\<in>set sl. am = zm \<and> ae = ze"
proof (rule sync_loop_all [OF assms])
  fix A B s assume A: "A \<in> set (refl_matches n)" and s: "sync_region m A B = Inr (Some s)"
  obtain p l where a: "A = (p, p, l)" using A by (auto simp: refl_matches_def split: if_splits)
  obtain bbase bmatch blen where b: "B = (bbase, bmatch, blen)" by (cases B)
  obtain zm ze am ae bm be where s': "s = (zm, ze, am, ae, bm, be)" by (cases s)
  show "case s of (zm, ze, am, ae, bm, be) \<Rightarrow> am = zm \<and> ae = ze"
    using sync_region_some [OF s [unfolded a b s']] s' by auto
qed

lemma sync_loop_diag_b:
  assumes "sync_loop m as (refl_matches n) = Inr sl"
  shows "\<forall>(zm, ze, am, ae, bm, be)\<in>set sl. bm = zm \<and> be = ze"
proof (rule sync_loop_all [OF assms])
  fix A B s assume B: "B \<in> set (refl_matches n)" and s: "sync_region m A B = Inr (Some s)"
  obtain p l where b: "B = (p, p, l)" using B by (auto simp: refl_matches_def split: if_splits)
  obtain abase amatch alen where a: "A = (abase, amatch, alen)" by (cases A)
  obtain zm ze am ae bm be where s': "s = (zm, ze, am, ae, bm, be)" by (cases s)
  show "case s of (zm, ze, am, ae, bm, be) \<Rightarrow> bm = zm \<and> be = ze"
    using sync_region_some [OF s [unfolded a b s']] s' by auto
qed

lemma pieces_same:
  "\<forall>(zm, ze, am, ae, bm, be)\<in>set rs. am = bm \<and> ae = be \<Longrightarrow> m3_a m = m3_b m \<Longrightarrow> ia = ib \<Longrightarrow>
    p \<in> set (pieces m iz ia ib rs) \<Longrightarrow> piece_a p = piece_b p"
  by (induction m iz ia ib rs rule: pieces.induct) auto

lemma pieces_diag_a:
  "\<forall>(zm, ze, am, ae, bm, be)\<in>set rs. am = zm \<and> ae = ze \<Longrightarrow> m3_a m = m3_base m \<Longrightarrow> ia = iz \<Longrightarrow>
    p \<in> set (pieces m iz ia ib rs) \<Longrightarrow> piece_a p = piece_base p"
  by (induction m iz ia ib rs rule: pieces.induct) auto

lemma pieces_diag_b:
  "\<forall>(zm, ze, am, ae, bm, be)\<in>set rs. bm = zm \<and> be = ze \<Longrightarrow> m3_b m = m3_base m \<Longrightarrow> ib = iz \<Longrightarrow>
    p \<in> set (pieces m iz ia ib rs) \<Longrightarrow> piece_b p = piece_base p"
  by (induction m iz ia ib rs rule: pieces.induct) auto

text \<open>The text of a piece that merges without a conflict.\<close>

lemma piece_text_same:
  "piece_a p = piece_b p \<Longrightarrow> list_all (\<lambda>g. \<not> is_conflict g) (piece_groups p)
    \<and> concat (map (fst \<circ> group_lines k nl) (piece_groups p)) = piece_a p"
  by (cases p) auto

lemma piece_text_base_a:
  "piece_a p = piece_base p \<Longrightarrow> list_all (\<lambda>g. \<not> is_conflict g) (piece_groups p)
    \<and> concat (map (fst \<circ> group_lines k nl) (piece_groups p)) = piece_b p"
  by (cases p) auto

lemma piece_text_base_b:
  "piece_b p = piece_base p \<Longrightarrow> list_all (\<lambda>g. \<not> is_conflict g) (piece_groups p)
    \<and> concat (map (fst \<circ> group_lines k nl) (piece_groups p)) = piece_a p"
  by (cases p) auto

section \<open>The merge, for every block matcher\<close>

definition wf_m3 :: "merge3text \<Rightarrow> bool" where
  "wf_m3 m \<longleftrightarrow> m3_base m = splitnewlines (m3_basetext m) \<and> m3_a m = splitnewlines (m3_atext m)
     \<and> m3_b m = splitnewlines (m3_btext m)"

lemma wf_m3_init: "wf_m3 (merge3text_init base a b None None None)"
  by (simp add: wf_m3_def merge3text_init_def)

lemma from_to_blocks:
  "map (\<lambda>(d0, d1, d2, d3). (d0, d2, d1 - d0)) (to_blocks d) = d"
  by (induction d) (auto simp: to_blocks_def)

abbreviation end_sync :: "merge3text \<Rightarrow> sync" where
  "end_sync m \<equiv> (length (m3_base m), length (m3_base m), length (m3_a m), length (m3_a m), length (m3_b m), length (m3_b m))"

lemma merge_lines_plain:
  assumes "merge_regions blk m = Inr rs" "\<forall>r\<in>set rs. region_ok m r"
    and "map (region_group m) rs = concat (map piece_groups ps)"
    and "\<And>p. p \<in> set ps \<Longrightarrow> list_all (\<lambda>g. \<not> is_conflict g) (piece_groups p)
      \<and> concat (map (fst \<circ> group_lines k (merge_newline m)) (piece_groups p)) = side p"
  shows "merge_lines blk m k = Inr \<lparr>mg_lines = concat (map side ps), mg_conflicts = False, mg_count = 0\<rparr>"
proof -
  define f where "f = group_lines k (merge_newline m)"
  have none: "\<forall>g\<in>set (concat (map piece_groups ps)). \<not> is_conflict g"
    using assms(4) by (fastforce simp: list_all_iff)
  then have "minimize m rs = rs"
    by (intro minimize_no_conflict) (simp add: assms(3) list_ex_iff)
  moreover have "\<not> snd (f g)" if "\<not> is_conflict g" for g using that unfolding f_def by (cases g) auto
  with none have "\<not> list_ex (snd \<circ> f) (concat (map piece_groups ps))" "filter (snd \<circ> f) (concat (map piece_groups ps)) = []"
    by (auto simp: list_ex_iff filter_empty_conv)
  moreover have "concat (map (fst \<circ> f) (concat (map piece_groups ps))) = concat (map side ps)"
    using assms(4) unfolding f_def [symmetric] by (induction ps) auto
  ultimately show ?thesis
    using regions_lines_groups [OF assms(2), of k] assms(1,3)
    by (simp add: merge_lines_def f_def [symmetric] del: map_map)
qed

context block_matcher
begin

lemma get_blocks:
  "\<exists>d. mdiff_get_matching_blocks blk s t = Inr d \<and> match_list (splitnewlines s) (splitnewlines t) d"
  using blk_ok [of s t] by (auto simp: mdiff_get_matching_blocks_def from_to_blocks)

lemma get_blocks_refl: "mdiff_get_matching_blocks blk s s = Inr (refl_matches (length (splitnewlines s)))"
  by (simp add: mdiff_get_matching_blocks_def blk_refl from_to_blocks)

lemma find_sync_regions_ok:
  assumes "wf_m3 m" "mdiff_get_matching_blocks blk (m3_basetext m) (m3_atext m) = Inr am"
    "mdiff_get_matching_blocks blk (m3_basetext m) (m3_btext m) = Inr bm"
  shows "\<exists>sl. sync_loop m am bm = Inr sl \<and> find_sync_regions blk m = Inr (sl @ [end_sync m])
    \<and> sync_from m 0 0 0 (sl @ [end_sync m])"
proof -
  have "blocks_from (m3_base m) (m3_a m) 0 0 am" "blocks_from (m3_base m) (m3_b m) 0 0 bm"
    using assms get_blocks [of "m3_basetext m" "m3_atext m"] get_blocks [of "m3_basetext m" "m3_btext m"]
    by (auto simp: wf_m3_def match_list_def)
  then obtain sl where sl: "sync_loop m am bm = Inr sl" "sync_from m 0 0 0 sl"
    using sync_loop_ok [of m 0 0 am 0 0 bm 0 0 0] by (auto simp: at_block_def split: prod.splits)
  then have "sync_from m 0 0 0 (sl @ [end_sync m])"
    using sync_end_bound [OF sl(2)] by (auto simp: sync_from_append split: prod.splits)
  then show ?thesis using sl(1) assms(2,3) by (simp add: find_sync_regions_def Let_def)
qed

lemma merge_regions_ok:
  assumes "wf_m3 m" "mdiff_get_matching_blocks blk (m3_basetext m) (m3_atext m) = Inr am"
    "mdiff_get_matching_blocks blk (m3_basetext m) (m3_btext m) = Inr bm"
  shows "\<exists>sl rs. sync_loop m am bm = Inr sl \<and> merge_regions blk m = Inr rs \<and> (\<forall>r\<in>set rs. region_ok m r)
    \<and> map (region_group m) rs = concat (map piece_groups (pieces m 0 0 0 (sl @ [end_sync m])))
    \<and> concat (map piece_base (pieces m 0 0 0 (sl @ [end_sync m]))) = m3_base m
    \<and> concat (map piece_a (pieces m 0 0 0 (sl @ [end_sync m]))) = m3_a m
    \<and> concat (map piece_b (pieces m 0 0 0 (sl @ [end_sync m]))) = m3_b m"
proof -
  obtain sl where sl: "sync_loop m am bm = Inr sl" "find_sync_regions blk m = Inr (sl @ [end_sync m])"
    "sync_from m 0 0 0 (sl @ [end_sync m])" using find_sync_regions_ok [OF assms] by blast
  have e: "sync_end s (sl @ [end_sync m]) = (length (m3_base m), length (m3_a m), length (m3_b m))" for s
    by (induction s sl rule: sync_end.induct) auto
  obtain rs where "merge_loop m 0 0 0 (sl @ [end_sync m]) = Inr rs" "\<forall>r\<in>set rs. region_ok m r"
    "map (region_group m) rs = concat (map piece_groups (pieces m 0 0 0 (sl @ [end_sync m])))"
    using merge_loop_ok [OF sl(3)] by blast
  then show ?thesis using pieces_sides [OF sl(3) _ e] sl(1,2) by (simp add: merge_regions_def)
qed

lemma merge_identical:
  assumes "wf_m3 m" "m3_atext m = m3_btext m"
  shows "merge_lines blk m k = Inr \<lparr>mg_lines = m3_a m, mg_conflicts = False, mg_count = 0\<rparr>"
proof -
  obtain d where d: "mdiff_get_matching_blocks blk (m3_basetext m) (m3_atext m) = Inr d"
    "match_list (m3_base m) (m3_a m) d"
    using get_blocks [of "m3_basetext m" "m3_atext m"] assms(1) by (auto simp: wf_m3_def)
  obtain sl rs where r: "sync_loop m d d = Inr sl" "merge_regions blk m = Inr rs" "\<forall>r\<in>set rs. region_ok m r"
    "map (region_group m) rs = concat (map piece_groups (pieces m 0 0 0 (sl @ [end_sync m])))"
    "concat (map piece_a (pieces m 0 0 0 (sl @ [end_sync m]))) = m3_a m"
    using merge_regions_ok [OF assms(1) d(1)] d(1) assms(2) by auto
  have ab: "m3_a m = m3_b m" using assms by (simp add: wf_m3_def)
  have "\<forall>(zm, ze, am, ae, bm, be)\<in>set (sl @ [end_sync m]). am = bm \<and> ae = be"
    using sync_loop_same [of "m3_base m" "m3_a m" d m sl] d(2) r(1) ab by (auto simp: match_list_def)
  note same = pieces_same [OF this ab refl, THEN piece_text_same]
  show ?thesis using merge_lines_plain [OF r(2-4) same] r(5) by simp
qed

lemma merge_local_unchanged:
  assumes "wf_m3 m" "m3_atext m = m3_basetext m"
  shows "merge_lines blk m k = Inr \<lparr>mg_lines = m3_b m, mg_conflicts = False, mg_count = 0\<rparr>"
proof -
  obtain d where d: "mdiff_get_matching_blocks blk (m3_basetext m) (m3_btext m) = Inr d"
    using get_blocks [of "m3_basetext m" "m3_btext m"] by blast
  obtain sl rs where r: "sync_loop m (refl_matches (length (m3_base m))) d = Inr sl" "merge_regions blk m = Inr rs"
    "\<forall>r\<in>set rs. region_ok m r"
    "map (region_group m) rs = concat (map piece_groups (pieces m 0 0 0 (sl @ [end_sync m])))"
    "concat (map piece_b (pieces m 0 0 0 (sl @ [end_sync m]))) = m3_b m"
    using merge_regions_ok [OF assms(1) _ d] get_blocks_refl assms by (auto simp: wf_m3_def)
  have ab: "m3_a m = m3_base m" using assms by (simp add: wf_m3_def)
  have "\<forall>(zm, ze, am, ae, bm, be)\<in>set (sl @ [end_sync m]). am = zm \<and> ae = ze"
    using sync_loop_diag_a [OF r(1)] ab by auto
  note diag = pieces_diag_a [OF this ab refl, THEN piece_text_base_a]
  show ?thesis using merge_lines_plain [OF r(2-4) diag] r(5) by simp
qed

lemma merge_other_unchanged:
  assumes "wf_m3 m" "m3_btext m = m3_basetext m"
  shows "merge_lines blk m k = Inr \<lparr>mg_lines = m3_a m, mg_conflicts = False, mg_count = 0\<rparr>"
proof -
  obtain d where d: "mdiff_get_matching_blocks blk (m3_basetext m) (m3_atext m) = Inr d"
    using get_blocks [of "m3_basetext m" "m3_atext m"] by blast
  obtain sl rs where r: "sync_loop m d (refl_matches (length (m3_base m))) = Inr sl" "merge_regions blk m = Inr rs"
    "\<forall>r\<in>set rs. region_ok m r"
    "map (region_group m) rs = concat (map piece_groups (pieces m 0 0 0 (sl @ [end_sync m])))"
    "concat (map piece_a (pieces m 0 0 0 (sl @ [end_sync m]))) = m3_a m"
    using merge_regions_ok [OF assms(1) d] get_blocks_refl assms by (auto simp: wf_m3_def)
  have ab: "m3_b m = m3_base m" using assms by (simp add: wf_m3_def)
  have "\<forall>(zm, ze, am, ae, bm, be)\<in>set (sl @ [end_sync m]). bm = zm \<and> be = ze"
    using sync_loop_diag_b [OF r(1)] ab by auto
  note diag = pieces_diag_b [OF this ab refl, THEN piece_text_base_b]
  show ?thesis using merge_lines_plain [OF r(2-4) diag] r(5) by simp
qed

end

section \<open>Properties of the merge\<close>

text \<open>
  (C4) The merge refines the chunk-wise three-way merge.  For every three texts
  \<open>merge_groups\<close> returns (no assertion fails, no index is out of range), and its
  groups are those of a division of base, local and other into pieces, where
  the pieces of each text join to that text, stable pieces are equal in all
  three, and a changed piece gives the common side, the one side that differs
  from the base, or a conflict of exactly the three pieces.
\<close>

theorem merge_groups_diff3:
  "\<exists>ps gs. merge_groups blocks (merge3text_init base a b None None None) = Inr gs
    \<and> gs = concat (map piece_groups ps)
    \<and> concat (concat (map piece_base ps)) = base
    \<and> concat (concat (map piece_a ps)) = a
    \<and> concat (concat (map piece_b ps)) = b"
proof -
  define m where "m = merge3text_init base a b None None None"
  have m: "wf_m3 m" "m3_base m = splitnewlines base" "m3_a m = splitnewlines a" "m3_b m = splitnewlines b"
    by (simp_all add: m_def wf_m3_init, simp_all add: merge3text_init_def)
  obtain am bm where "mdiff_get_matching_blocks blocks (m3_basetext m) (m3_atext m) = Inr am"
    "mdiff_get_matching_blocks blocks (m3_basetext m) (m3_btext m) = Inr bm"
    using pure.get_blocks by blast
  from pure.merge_regions_ok [OF m(1) this] obtain sl rs where
    "merge_regions blocks m = Inr rs"
    "map (region_group m) rs = concat (map piece_groups (pieces m 0 0 0 (sl @ [end_sync m])))"
    "concat (map piece_base (pieces m 0 0 0 (sl @ [end_sync m]))) = m3_base m"
    "concat (map piece_a (pieces m 0 0 0 (sl @ [end_sync m]))) = m3_a m"
    "concat (map piece_b (pieces m 0 0 0 (sl @ [end_sync m]))) = m3_b m" by blast
  then show ?thesis unfolding m_def [symmetric]
    by (intro exI [of _ "pieces m 0 0 0 (sl @ [end_sync m])"]) (simp add: merge_groups_def m(2-4))
qed

lemma verifytext_plain: "\<not> binary t \<Longrightarrow> verifytext t path opts = ([], Inr t)"
  by (simp add: verifytext_def)

lemma simplemerge_plain:
  assumes "\<not> binary (fc_data l)" "\<not> binary (fc_data b)" "\<not> binary (fc_data r)" "length (mo_label opts) \<le> 3"
    and "\<And>k. merge_lines blk (merge3text_init (fc_data b) (fc_data l) (fc_data r) None None None) k
      = Inr \<lparr>mg_lines = ls, mg_conflicts = False, mg_count = 0\<rparr>"
  shows "\<exists>run. simplemerge blk l b r opts = Inr run \<and> mr_result run = None \<and> mr_warnings run = []
    \<and> mr_written run = (if mo_print opts then None else Some (concat ls))
    \<and> mr_printed run = (if mo_print opts then ls else [])"
proof -
  have "\<exists>labels. (if mo_mode opts \<noteq> ''union''
            then picklabels [Some (fc_path l), Some (fc_path r), None] (mo_label opts)
            else Inr [None, None, None]) = Inr labels"
    using assms(4) by (simp add: picklabels_def)
  then show ?thesis
    using assms(1-3,5) by (auto simp: simplemerge_def verifytext_plain Let_def)
qed

text \<open>
  (C9) \<open>simplemerge\<close> on the trivial merges, for texts without a NUL byte, every
  mode, label and marker setting: if the local file is unchanged the other text
  is written, if the other file is unchanged the local text is written, and if
  both sides made the same change that text is written; each time the merge
  reports no conflict.
\<close>

theorem simplemerge_trivial:
  assumes "\<not> binary (fc_data l)" "\<not> binary (fc_data b)" "\<not> binary (fc_data r)"
    and "length (mo_label opts) \<le> 3" "\<not> mo_print opts"
    and "(fc_data l = fc_data b \<and> t = fc_data r) \<or> (fc_data r = fc_data b \<and> t = fc_data l)
      \<or> (fc_data l = fc_data r \<and> t = fc_data l)"
  shows "\<exists>run. simplemerge blocks l b r opts = Inr run \<and> mr_result run = None \<and> mr_written run = Some t"
proof -
  define m where "m = merge3text_init (fc_data b) (fc_data l) (fc_data r) None None None"
  have m: "wf_m3 m" "m3_basetext m = fc_data b" "m3_atext m = fc_data l" "m3_btext m = fc_data r"
    "m3_a m = splitnewlines (fc_data l)" "m3_b m = splitnewlines (fc_data r)"
    by (simp_all add: m_def wf_m3_init, simp_all add: merge3text_init_def)
  have "merge_lines blocks m k = Inr \<lparr>mg_lines = splitnewlines t, mg_conflicts = False, mg_count = 0\<rparr>" for k
    using assms(6) pure.merge_identical [OF m(1), of k] pure.merge_local_unchanged [OF m(1), of k]
      pure.merge_other_unchanged [OF m(1), of k] m(2-6) by auto
  from simplemerge_plain [OF assms(1-4) this [unfolded m_def]] assms(5) show ?thesis by auto
qed

definition example_opts :: merge_opts where
  "example_opts = \<lparr>mo_mode = ''merge'', mo_label = [], mo_localorother = None, mo_print = False,
     mo_quiet = False, mo_text = False\<rparr>"

lemma simplemerge_trivial_witness:
  "\<exists>run. simplemerge blocks \<lparr>fc_path = ''f'', fc_data = ''x''\<rparr> \<lparr>fc_path = ''f'', fc_data = ''x''\<rparr>
      \<lparr>fc_path = ''f'', fc_data = ''y''\<rparr> example_opts = Inr run
    \<and> mr_result run = None \<and> mr_written run = Some ''y''"
  by (rule simplemerge_trivial) (simp_all add: binary_def example_opts_def)

section \<open>Trimmed conflicts\<close>

text \<open>A region resolved to the local or to the other side.\<close>

fun resolve_local :: "merge3text \<Rightarrow> region \<Rightarrow> bytes list" where
  "resolve_local m (Unchanged i j) = slice (m3_base m) i j"
| "resolve_local m (Same i j) = slice (m3_a m) i j"
| "resolve_local m (RegA i j) = slice (m3_a m) i j"
| "resolve_local m (RegB i j) = slice (m3_b m) i j"
| "resolve_local m (Conflict z1 z2 a1 a2 b1 b2) = slice (m3_a m) a1 a2"

fun resolve_other :: "merge3text \<Rightarrow> region \<Rightarrow> bytes list" where
  "resolve_other m (Conflict z1 z2 a1 a2 b1 b2) = slice (m3_b m) b1 b2"
| "resolve_other m r = resolve_local m r"

text \<open>The matches at the front and at the end of a conflict do not overlap.\<close>

fun no_overlap :: "merge3text \<Rightarrow> region \<Rightarrow> bool" where
  "no_overlap m (Conflict z1 z2 a1 a2 b1 b2) \<longleftrightarrow>
     front_matches (m3_a m) (m3_b m) a1 b1 (min (a2 - a1) (b2 - b1))
     + end_matches (m3_a m) (m3_b m) a2 b2 (min (a2 - a1) (b2 - b1)) \<le> min (a2 - a1) (b2 - b1)"
| "no_overlap m r \<longleftrightarrow> True"

lemma front_matches_ok:
  "a1 + n \<le> length a \<Longrightarrow> b1 + n \<le> length b \<Longrightarrow>
    front_matches a b a1 b1 n \<le> n
    \<and> slice a a1 (a1 + front_matches a b a1 b1 n) = slice b b1 (b1 + front_matches a b a1 b1 n)"
proof (induction a b a1 b1 n rule: front_matches.induct)
  case (2 a b a1 b1 n)
  show ?case
  proof (cases "a ! a1 = b ! b1")
    case True
    define f where "f = front_matches a b (Suc a1) (Suc b1) n"
    have "f \<le> n" "slice a (Suc a1) (Suc a1 + f) = slice b (Suc b1) (Suc b1 + f)"
      using 2 True by (simp_all add: f_def)
    moreover have "slice a a1 (Suc a1) = slice b b1 (Suc b1)" using True 2(2,3) by (simp add: slice_Suc)
    ultimately have "slice a a1 (a1 + Suc f) = slice b b1 (b1 + Suc f)"
      using slice_append [of a1 "Suc a1" "a1 + Suc f" a] slice_append [of b1 "Suc b1" "b1 + Suc f" b] by auto
    then show ?thesis using True \<open>f \<le> n\<close> by (simp add: f_def)
  next
    case False
    then show ?thesis by simp
  qed
qed simp

lemma end_matches_ok:
  "n \<le> a2 \<Longrightarrow> n \<le> b2 \<Longrightarrow> a2 \<le> length a \<Longrightarrow> b2 \<le> length b \<Longrightarrow>
    end_matches a b a2 b2 n \<le> n
    \<and> slice a (a2 - end_matches a b a2 b2 n) a2 = slice b (b2 - end_matches a b a2 b2 n) b2"
proof (induction a b a2 b2 n rule: end_matches.induct)
  case (2 a b a2 b2 n)
  show ?case
  proof (cases "a ! (a2 - 1) = b ! (b2 - 1)")
    case True
    define f where "f = end_matches a b (a2 - 1) (b2 - 1) n"
    have f: "f \<le> n" "slice a (a2 - 1 - f) (a2 - 1) = slice b (b2 - 1 - f) (b2 - 1)"
      using 2 True by (simp_all add: f_def)
    have "slice a (a2 - Suc f) (Suc (a2 - 1)) = slice b (b2 - Suc f) (Suc (b2 - 1))"
      using slice_Suc [of "a2 - Suc f" "a2 - 1" a] slice_Suc [of "b2 - Suc f" "b2 - 1" b] f True 2(2-5) by simp
    then show ?thesis using True f(1) 2(2,3) by (simp add: f_def)
  next
    case False
    then show ?thesis by simp
  qed
qed simp

lemma minimize_region_sides:
  assumes "region_ok m r" "no_overlap m r"
  shows "concat (map (resolve_local m) (minimize_region m r)) = resolve_local m r
    \<and> concat (map (resolve_other m) (minimize_region m r)) = resolve_other m r"
proof (cases r)
  case (Conflict z1 z2 a1 a2 b1 b2)
  define n where "n = min (a2 - a1) (b2 - b1)"
  define s where "s = front_matches (m3_a m) (m3_b m) a1 b1 n"
  define e where "e = end_matches (m3_a m) (m3_b m) a2 b2 n"
  have ord: "a1 \<le> a2" "b1 \<le> b2" "a2 \<le> length (m3_a m)" "b2 \<le> length (m3_b m)" "s + e \<le> n"
    using assms Conflict by (auto simp: s_def e_def n_def)
  have s: "slice (m3_a m) a1 (a1 + s) = slice (m3_b m) b1 (b1 + s)"
    using front_matches_ok [of a1 n "m3_a m" b1 "m3_b m"] ord by (simp add: s_def n_def)
  have e: "slice (m3_a m) (a2 - e) a2 = slice (m3_b m) (b2 - e) b2"
    using end_matches_ok [of n a2 b2 "m3_a m" "m3_b m"] ord by (simp add: e_def n_def)
  have le: "a1 + s \<le> a2 - e" "b1 + s \<le> b2 - e" using ord by (auto simp: n_def)
  have "slice (m3_a m) a1 (a1 + s) @ slice (m3_a m) (a1 + s) (a2 - e) @ slice (m3_a m) (a2 - e) a2 = slice (m3_a m) a1 a2"
    "slice (m3_b m) b1 (b1 + s) @ slice (m3_b m) (b1 + s) (b2 - e) @ slice (m3_b m) (b2 - e) b2 = slice (m3_b m) b1 b2"
    using le ord(1,2) by (simp_all add: slice_append)
  moreover have "minimize_region m r = (if s > 0 then [Same a1 (a1 + s)] else [])
      @ [Conflict z1 z2 (a1 + s) (a2 - e) (b1 + s) (b2 - e)] @ (if e > 0 then [Same (a2 - e) a2] else [])"
    by (simp add: Conflict Let_def s_def e_def n_def)
  ultimately show ?thesis using s e Conflict by (cases "s = 0"; cases "e = 0") auto
qed simp_all

text \<open>
  (C31) \<open>minimize\<close> does not change what either side of the merge is: when in no
  conflict the lines matching at its front and at its end overlap, resolving
  the trimmed regions to the local (or to the other) side gives the same lines
  as resolving the original regions.
\<close>

theorem minimize_keeps_sides:
  assumes "\<forall>r\<in>set rs. region_ok m r \<and> no_overlap m r"
  shows "concat (map (resolve_local m) (minimize m rs)) = concat (map (resolve_local m) rs)
    \<and> concat (map (resolve_other m) (minimize m rs)) = concat (map (resolve_other m) rs)"
  using assms
proof (induction rs)
  case (Cons r rs)
  then show ?case using minimize_region_sides [of m r] by (simp add: minimize_def)
qed (simp add: minimize_def)

definition example_m3 :: merge3text where
  "example_m3 = merge3text_init [] ''pxs'' ''pyzs'' (Some []) (Some [''p'', ''x'', ''s'']) (Some [''p'', ''y'', ''z'', ''s''])"

lemma minimize_keeps_sides_witness:
  "minimize example_m3 [Conflict 0 0 0 3 0 4] = [Same 0 1, Conflict 0 0 1 2 1 3, Same 2 3]
   \<and> concat (map (resolve_other example_m3) (minimize example_m3 [Conflict 0 0 0 3 0 4])) = [''p'', ''y'', ''z'', ''s'']"
proof -
  have "\<forall>r\<in>set [Conflict 0 0 0 3 0 4]. region_ok example_m3 r \<and> no_overlap example_m3 r"
    "minimize example_m3 [Conflict 0 0 0 3 0 4] = [Same 0 1, Conflict 0 0 1 2 1 3, Same 2 3]"
    "concat (map (resolve_other example_m3) [Conflict 0 0 0 3 0 4]) = [''p'', ''y'', ''z'', ''s'']"
    by code_simp+
  then show ?thesis using minimize_keeps_sides by metis
qed


end
