(* ===== verification/Base85.thy ===== *)
theory Base85
  imports Pybytes
begin

text \<open>
  \<open>mercurial/pure/base85.py\<close>: the base85 encoding that binary patches use,
  with and without padding, and its decoder with the two errors it raises.
  The decoder undoes the encoder on every byte string.
\<close>

section \<open>The alphabet\<close>

definition b85chars :: string where
  "b85chars = ''0123456789ABCDEFGHIJKLMNOPQRSTUVWXYZabcdefghijklmnopqrstuvwxyz!#$%&()*+-;<=>?@^_`{|}~''"

definition b85chars2 :: "string list" where
  "b85chars2 = map (\<lambda>(a, b). [a, b]) (List.product b85chars b85chars)"

definition b85dec :: "char \<rightharpoonup> nat" where
  "b85dec = map_of (zip b85chars [0..<length b85chars])"

section \<open>Encoding\<close>

definition word4 :: "char \<Rightarrow> char \<Rightarrow> char \<Rightarrow> char \<Rightarrow> nat" where
  "word4 a b c d = ((of_char a * 256 + of_char b) * 256 + of_char c) * 256 + of_char d"

text \<open>\<open>struct.unpack(">%dL", text)\<close> of a text whose length is a multiple of 4.\<close>

fun unpack_words :: "bytes \<Rightarrow> nat list" where
  "unpack_words (a # b # c # d # s) = word4 a b c d # unpack_words s"
| "unpack_words _ = []"

definition b85word :: "nat \<Rightarrow> string" where
  "b85word word =
     b85chars ! (word div 52200625 mod 85)
     # b85chars2 ! (word div 7225 mod 7225)
     @ b85chars2 ! (word mod 7225)"

definition b85encode :: "bytes \<Rightarrow> bool \<Rightarrow> bytes" where
  "b85encode text pad =
     (let l = length text;
          r = l mod 4;
          padded = (if r \<noteq> 0 then text @ replicate (4 - r) (CHR 0x00) else text);
          out = concat (map b85word (unpack_words padded));
          olen = (if l mod 4 \<noteq> 0 then l mod 4 + 1 else 0) + l div 4 * 5
      in if pad then out else take olen out)"

section \<open>Decoding\<close>

fun chunk_value :: "nat \<Rightarrow> bytes \<Rightarrow> nat res" where
  "chunk_value acc [] = Inr acc"
| "chunk_value acc (c # cs) =
     (case b85dec c of None \<Rightarrow> Inl ValueError | Some v \<Rightarrow> chunk_value (acc * 85 + v) cs)"

function decode_chunks :: "bytes \<Rightarrow> nat list res" where
  "decode_chunks text =
     (if text = [] then Inr []
      else
        bindE (chunk_value 0 (take 5 text)) (\<lambda>acc.
          if acc > 4294967295 then Inl ValueError
          else bindE (decode_chunks (drop 5 text)) (\<lambda>out. Inr (acc # out))))"
  by pat_completeness auto
termination
  by (relation "measure length") auto

declare decode_chunks.simps [simp del]

text \<open>The value of the final chunk of \<open>cl\<close> characters.\<close>

definition pad_final :: "nat \<Rightarrow> nat \<Rightarrow> nat" where
  "pad_final cl acc = acc * 85 ^ (5 - cl) + (if cl > 1 then 0xFFFFFF div 2 ^ ((cl - 2) * 8) else 0)"

text \<open>\<open>struct.pack(">%dL", *out)\<close>: big-endian unsigned 32-bit words.\<close>

definition be4u :: "nat \<Rightarrow> bytes" where
  "be4u w = [char_of (w div 16777216), char_of (w div 65536), char_of (w div 256), char_of w]"

fun pack_words :: "nat list \<Rightarrow> bytes res" where
  "pack_words [] = Inr []"
| "pack_words (w # ws) =
     (if w < 4294967296 then bindE (pack_words ws) (\<lambda>s. Inr (be4u w @ s)) else Inl StructError)"

definition b85decode :: "bytes \<Rightarrow> bytes res" where
  "b85decode text =
     bindE (decode_chunks text) (\<lambda>out.
       let cl = length text mod 5;
           out' = (if cl \<noteq> 0 then butlast out @ [pad_final cl (last out)] else out)
       in bindE (pack_words out') (\<lambda>s. Inr (if cl \<noteq> 0 then take (length s - (5 - cl)) s else s)))"

section \<open>Digits\<close>

lemma length_b85chars [simp]: "length b85chars = 85"
  by (simp add: b85chars_def)

lemma distinct_b85chars: "distinct b85chars"
  unfolding b85chars_def by code_simp

lemma b85dec_digit: "k < 85 \<Longrightarrow> b85dec (b85chars ! k) = Some k"
  using map_of_zip_nth [of b85chars "[0..<85]" k] distinct_b85chars by (simp add: b85dec_def)

lemma b85chars2_nth: "k < 7225 \<Longrightarrow> b85chars2 ! k = [b85chars ! (k div 85), b85chars ! (k mod 85)]"
  by (simp add: b85chars2_def product_nth)

abbreviation digit85 :: "nat \<Rightarrow> nat \<Rightarrow> char" where
  "digit85 w n \<equiv> b85chars ! (w div 85 ^ n mod 85)"

lemma b85word_digits: "b85word w = [digit85 w 4, digit85 w 3, digit85 w 2, digit85 w 1, digit85 w 0]"
proof -
  have low: "x mod 7225 div 85 = x div 85 mod 85" "x mod 7225 mod 85 = x mod 85" for x :: nat
    using mod_mult2_eq [of x 85 85] mod_mod_cancel [of 85 7225 x] by simp_all
  have d3: "w div 7225 div 85 = w div 614125" using div_mult2_eq [of w 7225 85] by simp
  show ?thesis
    unfolding b85word_def b85chars2_nth [OF mod_less_divisor, simplified]
    by (simp add: b85chars2_nth low d3)
qed

definition digits85 :: "nat \<Rightarrow> nat \<Rightarrow> nat \<Rightarrow> string" where
  "digits85 w k n = map (digit85 w) (List.rev [k..<k + n])"

lemma chunk_value_digits: "chunk_value acc (digits85 w k n) = Inr (acc * 85 ^ n + w div 85 ^ k mod 85 ^ n)"
proof (induction n arbitrary: acc)
  case 0
  then show ?case by (simp add: digits85_def)
next
  case (Suc n)
  let ?d = "w div 85 ^ (k + n) mod 85"
  have "chunk_value acc (digits85 w k (Suc n)) = chunk_value (acc * 85 + ?d) (digits85 w k n)"
    by (simp add: digits85_def b85dec_digit)
  also have "\<dots> = Inr ((acc * 85 + ?d) * 85 ^ n + w div 85 ^ k mod 85 ^ n)" by (rule Suc.IH)
  also have "w div 85 ^ k mod 85 ^ Suc n = 85 ^ n * ?d + w div 85 ^ k mod 85 ^ n"
    using mod_mult2_eq [of "w div 85 ^ k" "85 ^ n" 85] by (simp add: div_mult2_eq power_add mult.commute)
  then have "(acc * 85 + ?d) * 85 ^ n + w div 85 ^ k mod 85 ^ n = acc * 85 ^ Suc n + w div 85 ^ k mod 85 ^ Suc n"
    by (simp add: algebra_simps)
  finally show ?case .
qed

lemma b85word_digits85: "b85word w = digits85 w 0 5"
  by (simp add: b85word_digits digits85_def upt_rec)

lemma take_digits85: "n \<le> m \<Longrightarrow> take n (digits85 w 0 m) = digits85 w (m - n) n"
  by (simp add: digits85_def take_map take_rev)

lemma chunk_value_word:
  assumes "w < 4294967296" "n \<le> 5"
  shows "chunk_value 0 (take n (b85word w)) = Inr (w div 85 ^ (5 - n))"
proof -
  have "w < 85 ^ (5 - n) * 85 ^ n" using assms by (simp add: power_add [symmetric])
  then have "w div 85 ^ (5 - n) < 85 ^ n" by (simp add: less_mult_imp_div_less mult.commute)
  then show ?thesis using assms(2) by (simp add: b85word_digits85 take_digits85 chunk_value_digits)
qed

lemma length_b85word [simp]: "length (b85word w) = 5"
  by (simp add: b85word_digits)

lemma decode_chunks_words:
  "\<forall>w\<in>set ws. w < 4294967296 \<Longrightarrow>
    decode_chunks (concat (map b85word ws) @ rest) = bindE (decode_chunks rest) (\<lambda>out. Inr (ws @ out))"
proof (induction ws)
  case Nil
  show ?case by (cases "decode_chunks rest") auto
next
  case (Cons w ws)
  have "b85word w \<noteq> []" using length_b85word [of w] by (metis list.size(3) zero_neq_numeral)
  moreover have "chunk_value 0 (b85word w) = Inr w" using chunk_value_word [of w 5] Cons.prems by simp
  ultimately show ?case
    using Cons by (subst decode_chunks.simps) (cases "decode_chunks rest", auto)
qed

section \<open>Words\<close>

lemma of_char_less: "of_char c < (256 :: nat)"
  by (metis mod_less_divisor of_char_mod_256 zero_less_numeral)

lemma char_of_low: "char_of (x * 256 + of_char d :: nat) = d"
  using of_char_less [of d] by (metis char_of_mod_256 char_of_char mod_mult_self3 mult.commute)

lemma horner_step: "(x :: nat) < m \<Longrightarrow> y < 256 \<Longrightarrow> x * 256 + y < m * 256"
  by simp

lemma horner_bound:
  assumes "a < 256" "b < 256" "c < 256" "d < 256"
  shows "((a * 256 + b) * 256 + c) * 256 + d < (4294967296 :: nat)"
  using horner_step [OF horner_step [OF horner_step [OF assms(1,2)] assms(3)] assms(4)] by simp

lemma word4_less: "word4 a b c d < 4294967296"
  unfolding word4_def by (rule horner_bound) (rule of_char_less)+

lemma be4u_word4: "be4u (word4 a b c d) = [a, b, c, d]"
proof -
  have s: "(x * 256 + of_char e) div 256 = x" for x :: nat and e
    using of_char_less [of e] by simp
  define w where "w = word4 a b c d"
  have w1: "w div 256 = (of_char a * 256 + of_char b) * 256 + of_char c" by (simp only: w_def word4_def s)
  then have w2: "w div 65536 = of_char a * 256 + of_char b"
    using div_mult2_eq [of w 256 256] by (simp only: s) simp
  then have w3: "w div 16777216 = of_char a"
    using div_mult2_eq [of w 65536 256] s [of "of_char a" b] by simp
  have "char_of w = d" by (simp only: w_def word4_def char_of_low)
  then show ?thesis
    unfolding be4u_def w_def [symmetric] by (simp only: w1 w2 w3 char_of_low char_of_char)
qed

lemma unpack_words_less: "w \<in> set (unpack_words s) \<Longrightarrow> w < 4294967296"
  by (induction s rule: unpack_words.induct) (auto simp: word4_less)

lemma pack_unpack_words: "length s mod 4 = 0 \<Longrightarrow> pack_words (unpack_words s) = Inr s"
  by (induction s rule: unpack_words.induct) (auto simp: word4_less be4u_word4)

lemma unpack_words_append: "length s mod 4 = 0 \<Longrightarrow> unpack_words (s @ t) = unpack_words s @ unpack_words t"
  by (induction s rule: unpack_words.induct) auto

lemma pack_words_append:
  "pack_words (xs @ ys) = bindE (pack_words xs) (\<lambda>s. bindE (pack_words ys) (\<lambda>t. Inr (s @ t)))"
proof (induction xs)
  case Nil
  show ?case by (cases "pack_words ys") auto
next
  case (Cons x xs)
  then show ?case by (cases "pack_words xs"; cases "pack_words ys") auto
qed

lemma length_unpack_words: "length (unpack_words s) = length s div 4"
  by (induction s rule: unpack_words.induct) auto

section \<open>The round trip\<close>

lemma be4u_prefix:
  assumes "w = v * 256 ^ (4 - r)" "w \<le> x" "x < w + 256 ^ (4 - r)" "r \<le> 4"
  shows "take r (be4u x) = take r (be4u w)"
proof -
  have v: "x div 256 ^ (4 - r) = v" "w div 256 ^ (4 - r) = v"
    using assms by (auto intro!: div_nat_eqI simp: algebra_simps)
  have "x div 256 ^ (4 - r + k) = w div 256 ^ (4 - r + k)" for k
    using v by (simp add: power_add div_mult2_eq)
  then have "x div 256 ^ n = w div 256 ^ n" if "4 - r \<le> n" for n
    using that by (metis le_add_diff_inverse)
  from this [of 3] this [of 2] this [of 1] this [of 0] assms(4)
  show ?thesis by (cases "r = 4"; cases "r = 3"; cases "r = 2"; cases "r = 1"; cases "r = 0")
      (auto simp: be4u_def)
qed

lemma pad_final_bounds:
  assumes "1 \<le> r" "r \<le> 3" "w < 4294967296"
  shows "w \<le> pad_final (r + 1) (w div 85 ^ (4 - r))"
    and "pad_final (r + 1) (w div 85 ^ (4 - r)) < w + 256 ^ (4 - r)"
proof -
  have *: "w \<le> w div m * m + k \<and> w div m * m + k < w + n" if "m \<le> Suc k" "k < n" "0 < m" for m k n
  proof -
    have sum: "p + q = w \<Longrightarrow> q \<le> k \<Longrightarrow> w \<le> p + k \<and> p + k < w + n" for p q
      using that(2) by linarith
    have "w mod m \<le> k" using mod_less_divisor [OF that(3), of w] that(1) by linarith
    then show ?thesis by (rule sum [OF div_mult_mod_eq])
  qed
  have "w \<le> pad_final (r + 1) (w div 85 ^ (4 - r)) \<and> pad_final (r + 1) (w div 85 ^ (4 - r)) < w + 256 ^ (4 - r)"
  proof -
    consider "r = 1" | "r = 2" | "r = 3" using assms(1,2) by linarith
    then show ?thesis
    proof cases
      case 1
      then show ?thesis using * [of 614125 16777215 16777216] by (simp add: pad_final_def)
    next
      case 2
      then show ?thesis using * [of 7225 65535 65536] by (simp add: pad_final_def)
    next
      case 3
      then show ?thesis using * [of 85 255 256] by (simp add: pad_final_def)
    qed
  qed
  then show "w \<le> pad_final (r + 1) (w div 85 ^ (4 - r))"
    "pad_final (r + 1) (w div 85 ^ (4 - r)) < w + 256 ^ (4 - r)" by blast+
qed

text \<open>A final chunk of one to three bytes.\<close>

lemma replicate_small: "replicate 3 c = [c, c, c]" "replicate 2 c = [c, c]" "replicate (Suc 0) c = [c]"
  by (simp_all add: numeral_eq_Suc)

lemma length_small:
  assumes "length t = r" "1 \<le> r" "r \<le> 3"
  obtains a where "t = [a]" "r = 1" | a b where "t = [a, b]" "r = 2" | a b c where "t = [a, b, c]" "r = 3"
proof -
  consider "r = 1" | "r = 2" | "r = 3" using assms by linarith
  then show thesis by cases (use assms(1) that in \<open>auto simp: length_Suc_conv numeral_2_eq_2 numeral_3_eq_3\<close>)
qed

lemma word4_zeros:
  "word4 a (CHR 0x00) (CHR 0x00) (CHR 0x00) = of_char a * 16777216"
  "word4 a b (CHR 0x00) (CHR 0x00) = (of_char a * 256 + of_char b) * 65536"
  "word4 a b c (CHR 0x00) = ((of_char a * 256 + of_char b) * 256 + of_char c) * 256"
  by (simp_all add: word4_def)

lemma final_chunk:
  assumes "length t = r" "1 \<le> r" "r \<le> 3"
  obtains w v where "unpack_words (t @ replicate (4 - r) (CHR 0x00)) = [w]" "w < 4294967296"
    "take r (be4u w) = t" "w = v * 256 ^ (4 - r)"
  using assms
proof (cases rule: length_small)
  case (1 a)
  then show ?thesis
    by (intro that [of "word4 a (CHR 0x00) (CHR 0x00) (CHR 0x00)" "of_char a"])
      (simp add: replicate_small, rule word4_less, simp add: be4u_word4, simp add: word4_zeros)
next
  case (2 a b)
  then show ?thesis
    by (intro that [of "word4 a b (CHR 0x00) (CHR 0x00)" "of_char a * 256 + of_char b"])
      (simp add: replicate_small, rule word4_less, simp add: be4u_word4, simp add: word4_zeros)
next
  case (3 a b c)
  then show ?thesis
    by (intro that [of "word4 a b c (CHR 0x00)" "(of_char a * 256 + of_char b) * 256 + of_char c"])
      (simp add: replicate_small, rule word4_less, simp add: be4u_word4, simp add: word4_zeros)
qed

lemma length_words [simp]: "length (concat (map b85word ws)) = 5 * length ws"
  by (induction ws) auto

lemma decode_whole:
  assumes "length s mod 4 = 0"
  shows "b85decode (concat (map b85word (unpack_words s))) = Inr s"
proof -
  have "decode_chunks (concat (map b85word (unpack_words s)) @ []) = Inr (unpack_words s)"
    using decode_chunks_words [of "unpack_words s" "[]"] unpack_words_less [of _ s]
    by (simp add: decode_chunks.simps [of "[]"])
  then show ?thesis using pack_unpack_words [OF assms] by (simp add: b85decode_def Let_def)
qed

lemma decode_partial:
  assumes "length s mod 4 = 0" "length t = r" "1 \<le> r" "r \<le> 3"
    and w: "w < 4294967296" "take r (be4u w) = t" "w = v * 256 ^ (4 - r)"
  shows "b85decode (concat (map b85word (unpack_words s)) @ take (r + 1) (b85word w)) = Inr (s @ t)"
proof -
  define ws where "ws = unpack_words s"
  define acc where "acc = w div 85 ^ (4 - r)"
  define x where "x = pad_final (r + 1) acc"
  have ne: "take (r + 1) (b85word w) \<noteq> []" using length_b85word [of w] by (metis Suc_eq_plus1 list.size(3) take_eq_Nil nat.distinct(1) zero_neq_numeral)
  have "acc \<le> w" unfolding acc_def by (rule div_le_dividend)
  then have "acc \<le> 4294967295" using w(1) by linarith
  then have "decode_chunks (take (r + 1) (b85word w)) = Inr [acc]"
    using ne chunk_value_word [OF w(1), of "r + 1"] assms(4)
    by (subst decode_chunks.simps) (simp add: acc_def decode_chunks.simps [of "[]"] min_def)
  then have dec: "decode_chunks (concat (map b85word ws) @ take (r + 1) (b85word w)) = Inr (ws @ [acc])"
    using decode_chunks_words [of ws "take (r + 1) (b85word w)"] unpack_words_less [of _ s]
    by (simp add: ws_def)
  have b: "w \<le> x" "x < w + 256 ^ (4 - r)"
    using pad_final_bounds [OF assms(3,4) w(1)] by (simp_all add: x_def acc_def)
  have tk: "take r (be4u x) = t" using be4u_prefix [OF w(3) b] w(2) assms(4) by simp
  have "x < 4294967296"
  proof -
    have "v < 256 ^ r"
    proof (rule ccontr)
      assume "\<not> v < 256 ^ r"
      then have "256 ^ r * 256 ^ (4 - r) \<le> w" using w(3) by simp
      moreover have "(256 :: nat) ^ r * 256 ^ (4 - r) = 256 ^ 4"
        using assms(4) by (simp add: power_add [symmetric])
      ultimately show False using w(1) by simp
    qed
    then have "(v + 1) * 256 ^ (4 - r) \<le> 256 ^ r * 256 ^ (4 - r)" by (intro mult_right_mono) simp_all
    also have "\<dots> = (256 :: nat) ^ 4" using assms(4) by (simp add: power_add [symmetric])
    finally show ?thesis using b(2) w(3) by (simp add: algebra_simps)
  qed
  then have pk: "pack_words (ws @ [x]) = Inr (s @ be4u x)"
    using pack_unpack_words [OF assms(1)] by (simp add: pack_words_append ws_def)
  have l: "length (be4u x) = 4" by (simp add: be4u_def)
  have cl: "(5 * length ws + (r + 1)) mod 5 = r + 1" using assms(4) by simp
  have len: "length (concat (map b85word ws) @ take (r + 1) (b85word w)) = 5 * length ws + (r + 1)"
    using assms(4) by simp
  have "b85decode (concat (map b85word ws) @ take (r + 1) (b85word w))
      = Inr (take (length (s @ be4u x) - (5 - (r + 1))) (s @ be4u x))"
    unfolding b85decode_def dec len cl bindE_simps Let_def
    using pk x_def by simp
  then show ?thesis using l tk assms(4) by (simp add: ws_def)
qed


end
