(* ===== verification/Smartset.thy ===== *)
theory Smartset
  imports Prelude
begin

text \<open>
  \<open>mercurial/smartset.py\<close>: the ordered, lazily combined revision sets that
  revset evaluation works on.  The class hierarchy is a datatype with one
  constructor per class; a method is one function with a clause per class that
  overrides it.  The constructors carry the cached attributes, because the
  code takes different paths depending on which caches are filled.  Iterators
  are the lists of what they yield.  The laws every smartset must satisfy are
  the locale \<open>smartset_spec\<close>.
\<close>

section \<open>The classes\<close>

text \<open>
  \<open>Baseset list set ascending istopo\<close>: the attributes \<open>_list\<close> and \<open>_set\<close> may or
  may not be computed yet.  \<open>Spansset spans ascending\<close> wraps the native span set,
  here the set of its revisions.  \<open>Addset r1 r2 ascending genlist asclist\<close>.
  \<open>Generatorset values finished ascending iterasc\<close>: \<open>values\<close> is everything the
  generator yields.  \<open>Spanset start end ascending hiddenrevs full\<close>: \<open>full\<close> marks
  the subclass \<open>fullreposet\<close>.
\<close>

datatype smartset =
    Baseset "rev list option" "rev set option" "bool option" bool
  | Spansset "rev set" bool
  | Filteredset smartset "rev \<Rightarrow> bool"
  | Addset smartset smartset "bool option" "rev list option" "rev list option"
  | Generatorset "rev list" bool bool "bool option"
  | Spanset rev rev bool "rev set" bool

text \<open>\<open>baseset(data)\<close> for a list and for a set.\<close>

definition baseset_list :: "rev list \<Rightarrow> bool \<Rightarrow> smartset" where
  "baseset_list data istopo = Baseset (Some data) None None istopo"

definition baseset_set :: "rev set \<Rightarrow> bool \<Rightarrow> smartset" where
  "baseset_set data istopo = Baseset None (Some data) (Some True) istopo"

text \<open>The lazily computed attributes \<open>_list\<close>, \<open>_set\<close> and \<open>_asclist\<close> of a baseset.\<close>

definition bs_list :: "rev list option \<Rightarrow> rev set option \<Rightarrow> rev list" where
  "bs_list l s = (case l of Some xs \<Rightarrow> xs | None \<Rightarrow> (case s of Some S \<Rightarrow> sorted_list_of_set S | None \<Rightarrow> []))"

definition bs_set :: "rev list option \<Rightarrow> rev set option \<Rightarrow> rev set" where
  "bs_set l s = (case s of Some S \<Rightarrow> S | None \<Rightarrow> set (bs_list l s))"

definition bs_asclist :: "rev list option \<Rightarrow> rev set option \<Rightarrow> rev list" where
  "bs_asclist l s = sort (bs_list l s)"

text \<open>\<open>_iterordered(ascending, iter1, iter2)\<close>\<close>

fun iterordered :: "bool \<Rightarrow> rev list \<Rightarrow> rev list \<Rightarrow> rev list" where
  "iterordered asc (x # xs) (y # ys) =
     (let n = (if asc then min x y else max x y)
      in if x = y then n # iterordered asc xs ys
         else if x = n then n # iterordered asc xs (y # ys)
         else n # iterordered asc (x # xs) ys)"
| "iterordered asc [] ys = ys"
| "iterordered asc xs [] = xs"

section \<open>Iteration\<close>

text \<open>\<open>_spanset._iterfilter\<close> and the ranges of \<open>_spanset\<close>\<close>

definition span_filter :: "rev set \<Rightarrow> rev list \<Rightarrow> rev list" where
  "span_filter hidden iterrange = (if hidden \<noteq> {} then filter (\<lambda>r. r \<notin> hidden) iterrange else iterrange)"

definition span_asc :: "rev \<Rightarrow> rev \<Rightarrow> rev set \<Rightarrow> rev list" where
  "span_asc start stop hidden = span_filter hidden [start..stop - 1]"

definition span_desc :: "rev \<Rightarrow> rev \<Rightarrow> rev set \<Rightarrow> rev list" where
  "span_desc start stop hidden = span_filter hidden (range_desc (stop - 1) (start - 1))"

text \<open>\<open>_trysetasclist\<close>: the sorted cache, computed from \<open>_genlist\<close> if there is one.\<close>

definition try_asclist :: "rev list option \<Rightarrow> rev list option \<Rightarrow> rev list option" where
  "try_asclist genlist asclist = (case asclist of Some l \<Rightarrow> Some l | None \<Rightarrow> map_option sort genlist)"

definition filteredset_fast :: "(rev \<Rightarrow> bool) \<Rightarrow> rev list option \<Rightarrow> rev list option" where
  [simp]: "filteredset_fast condition it = map_option (filter condition) it"

definition addset_fastasc :: "rev list option \<Rightarrow> rev list option \<Rightarrow> rev list option \<Rightarrow> rev list option \<Rightarrow> rev list option" where
  [simp]: "addset_fastasc genlist asclist iter1 iter2 =
     (case try_asclist genlist asclist of
        Some l \<Rightarrow> Some l
      | None \<Rightarrow> (case (iter1, iter2) of
                   (Some l1, Some l2) \<Rightarrow> Some (iterordered True l1 l2)
                 | _ \<Rightarrow> None))"

definition addset_fastdesc :: "rev list option \<Rightarrow> rev list option \<Rightarrow> rev list option \<Rightarrow> rev list option \<Rightarrow> rev list option" where
  [simp]: "addset_fastdesc genlist asclist iter1 iter2 =
     (case try_asclist genlist asclist of
        Some l \<Rightarrow> Some (List.rev l)
      | None \<Rightarrow> (case (iter1, iter2) of
                   (Some l1, Some l2) \<Rightarrow> Some (iterordered False l1 l2)
                 | _ \<Rightarrow> None))"

fun fastasc :: "smartset \<Rightarrow> rev list option" where
  "fastasc (Baseset l s asc topo) = Some (bs_asclist l s)"
| "fastasc (Spansset s asc) = Some (sorted_list_of_set s)"
| "fastasc (Filteredset u c) = filteredset_fast c (fastasc u)"
| "fastasc (Addset r1 r2 asc gl al) = addset_fastasc gl al (fastasc r1) (fastasc r2)"
| "fastasc (Generatorset g fin asc it) =
     (if fin then Some (sort g) else if it = Some True then Some g else None)"
| "fastasc (Spanset a b asc hidden full) = Some (span_asc a b hidden)"

fun fastdesc :: "smartset \<Rightarrow> rev list option" where
  "fastdesc (Baseset l s asc topo) = Some (List.rev (bs_asclist l s))"
| "fastdesc (Spansset s asc) = Some (List.rev (sorted_list_of_set s))"
| "fastdesc (Filteredset u c) = filteredset_fast c (fastdesc u)"
| "fastdesc (Addset r1 r2 asc gl al) = addset_fastdesc gl al (fastdesc r1) (fastdesc r2)"
| "fastdesc (Generatorset g fin asc it) =
     (if fin then Some (List.rev (sort g)) else if it = Some False then Some g else None)"
| "fastdesc (Spanset a b asc hidden full) = Some (span_desc a b hidden)"

definition spanset_contains :: "rev \<Rightarrow> rev \<Rightarrow> rev set \<Rightarrow> rev \<Rightarrow> bool" where
  [simp]: "spanset_contains start stop hidden x \<longleftrightarrow> (start \<le> x \<and> x < stop) \<and> \<not> (hidden \<noteq> {} \<and> x \<in> hidden)"

fun contains :: "smartset \<Rightarrow> rev \<Rightarrow> bool" where
  "contains (Baseset l s asc topo) x \<longleftrightarrow> x \<in> bs_set l s"
| "contains (Spansset s asc) x \<longleftrightarrow> x \<in> s"
| "contains (Filteredset u c) x \<longleftrightarrow> contains u x \<and> c x"
| "contains (Addset r1 r2 asc gl al) x \<longleftrightarrow> contains r1 x \<or> contains r2 x"
| "contains (Generatorset g fin asc it) x \<longleftrightarrow> x \<in> set g"
| "contains (Spanset a b asc hidden full) x \<longleftrightarrow> spanset_contains a b hidden x"

text \<open>\<open>sorted(xs, reverse=...)\<close>\<close>

definition sorted_dir :: "bool \<Rightarrow> rev list \<Rightarrow> rev list" where
  "sorted_dir asc xs = (if asc then sort xs else List.rev (sort xs))"

text \<open>The \<open>__iter__\<close> methods, as functions of the attributes they read.\<close>

definition baseset_iter :: "rev list option \<Rightarrow> rev set option \<Rightarrow> bool option \<Rightarrow> rev list" where
  [simp]: "baseset_iter l s asc =
     (case asc of
        None \<Rightarrow> bs_list l s
      | Some True \<Rightarrow> bs_asclist l s
      | Some False \<Rightarrow> List.rev (bs_asclist l s))"

definition spansset_iter :: "rev set \<Rightarrow> bool \<Rightarrow> rev list" where
  [simp]: "spansset_iter s asc = (if asc then sorted_list_of_set s else List.rev (sorted_list_of_set s))"

definition addset_iter :: "bool option \<Rightarrow> rev list option \<Rightarrow> rev list option \<Rightarrow> rev list \<Rightarrow> rev list
    \<Rightarrow> (rev \<Rightarrow> bool) \<Rightarrow> (bool \<Rightarrow> rev list option) \<Rightarrow> (bool \<Rightarrow> rev list option) \<Rightarrow> rev list" where
  [simp]: "addset_iter asc gl al r1 r2 inr1 fast1 fast2 =
     (case asc of
        None \<Rightarrow>
          (case gl of
             Some (y # ys) \<Rightarrow> y # ys
           | _ \<Rightarrow> r1 @ filter (\<lambda>r. \<not> inr1 r) r2)
      | Some up \<Rightarrow>
          (case try_asclist gl al of
             Some l \<Rightarrow> (if up then l else List.rev l)
           | None \<Rightarrow>
               let l1 = (case fast1 up of Some l \<Rightarrow> l | None \<Rightarrow> sorted_dir up r1);
                   l2 = (case fast2 up of Some l \<Rightarrow> l | None \<Rightarrow> sorted_dir up r2)
               in iterordered up l1 l2))"

definition generatorset_iter :: "rev list \<Rightarrow> bool \<Rightarrow> bool \<Rightarrow> bool option \<Rightarrow> rev list" where
  [simp]: "generatorset_iter g fin asc it =
     (if asc then (if fin then sort g else if it = Some True then g else sort g)
      else (if fin then List.rev (sort g) else if it = Some False then g else List.rev (sort g)))"

definition spanset_iter :: "rev \<Rightarrow> rev \<Rightarrow> bool \<Rightarrow> rev set \<Rightarrow> rev list" where
  [simp]: "spanset_iter a b asc hidden = (if asc then span_asc a b hidden else span_desc a b hidden)"

fun iter :: "smartset \<Rightarrow> rev list" where
  "iter (Baseset l s asc topo) = baseset_iter l s asc"
| "iter (Spansset s asc) = spansset_iter s asc"
| "iter (Filteredset u c) = filter c (iter u)"
| "iter (Addset r1 r2 asc gl al) =
     addset_iter asc gl al (iter r1) (iter r2) (contains r1)
       (\<lambda>up. if up then fastasc r1 else fastdesc r1) (\<lambda>up. if up then fastasc r2 else fastdesc r2)"
| "iter (Generatorset g fin asc it) = generatorset_iter g fin asc it"
| "iter (Spanset a b asc hidden full) = spanset_iter a b asc hidden"

section \<open>Queries\<close>

definition hd_opt :: "'a list \<Rightarrow> 'a option" where
  "hd_opt xs = (case xs of [] \<Rightarrow> None | x # _ \<Rightarrow> Some x)"

definition last_opt :: "'a list \<Rightarrow> 'a option" where
  "last_opt xs = (if xs = [] then None else Some (last xs))"

text \<open>\<open>__len__\<close>\<close>

definition baseset_len :: "rev list option \<Rightarrow> rev set option \<Rightarrow> nat" where
  [simp]: "baseset_len l s = (case l of Some xs \<Rightarrow> length xs | None \<Rightarrow> card (bs_set l s))"

definition spanset_len :: "rev \<Rightarrow> rev \<Rightarrow> rev set \<Rightarrow> nat" where
  [simp]: "spanset_len a b hidden =
     (if hidden = {} then nat \<bar>b - a\<bar>
      else nat \<bar>b - a\<bar> - card {r \<in> hidden. (b < r \<and> r \<le> a) \<or> (a \<le> r \<and> r < b)})"

fun smart_len :: "smartset \<Rightarrow> nat" where
  "smart_len (Baseset l s asc topo) = baseset_len l s"
| "smart_len (Spansset s asc) = card s"
| "smart_len (Addset r1 r2 asc gl al) =
     (case gl of Some (y # ys) \<Rightarrow> length (y # ys) | _ \<Rightarrow> length (iter (Addset r1 r2 asc gl al)))"
| "smart_len (Generatorset g fin asc it) = length g"
| "smart_len (Spanset a b asc hidden full) = spanset_len a b hidden"
| "smart_len s = length (iter s)"

definition baseset_isascending :: "rev list option \<Rightarrow> rev set option \<Rightarrow> bool option \<Rightarrow> bool" where
  [simp]: "baseset_isascending l s asc \<longleftrightarrow> baseset_len l s \<le> 1 \<or> asc = Some True"

definition baseset_isdescending :: "rev list option \<Rightarrow> rev set option \<Rightarrow> bool option \<Rightarrow> bool" where
  [simp]: "baseset_isdescending l s asc \<longleftrightarrow> baseset_len l s \<le> 1 \<or> asc = Some False"

definition baseset_istopo :: "rev list option \<Rightarrow> rev set option \<Rightarrow> bool \<Rightarrow> bool" where
  [simp]: "baseset_istopo l s topo \<longleftrightarrow> baseset_len l s \<le> 1 \<or> topo"

definition spansset_isascending :: "rev set \<Rightarrow> bool \<Rightarrow> bool" where
  [simp]: "spansset_isascending s asc \<longleftrightarrow> card s \<le> 1 \<or> asc"

definition spansset_isdescending :: "rev set \<Rightarrow> bool \<Rightarrow> bool" where
  [simp]: "spansset_isdescending s asc \<longleftrightarrow> card s \<le> 1 \<or> \<not> asc"

definition spansset_istopo :: "rev set \<Rightarrow> bool" where
  [simp]: "spansset_istopo s \<longleftrightarrow> card s \<le> 1"

fun isascending :: "smartset \<Rightarrow> bool" where
  "isascending (Baseset l s asc topo) \<longleftrightarrow> baseset_isascending l s asc"
| "isascending (Spansset s asc) \<longleftrightarrow> spansset_isascending s asc"
| "isascending (Filteredset u c) \<longleftrightarrow> isascending u"
| "isascending (Addset r1 r2 asc gl al) \<longleftrightarrow> asc = Some True"
| "isascending (Generatorset g fin asc it) \<longleftrightarrow> asc"
| "isascending (Spanset a b asc hidden full) \<longleftrightarrow> asc"

fun isdescending :: "smartset \<Rightarrow> bool" where
  "isdescending (Baseset l s asc topo) \<longleftrightarrow> baseset_isdescending l s asc"
| "isdescending (Spansset s asc) \<longleftrightarrow> spansset_isdescending s asc"
| "isdescending (Filteredset u c) \<longleftrightarrow> isdescending u"
| "isdescending (Addset r1 r2 asc gl al) \<longleftrightarrow> asc = Some False"
| "isdescending (Generatorset g fin asc it) \<longleftrightarrow> \<not> asc"
| "isdescending (Spanset a b asc hidden full) \<longleftrightarrow> \<not> asc"

fun istopo :: "smartset \<Rightarrow> bool" where
  "istopo (Baseset l s asc topo) \<longleftrightarrow> baseset_istopo l s topo"
| "istopo (Spansset s asc) \<longleftrightarrow> spansset_istopo s"
| "istopo (Filteredset u c) \<longleftrightarrow> istopo u"
| "istopo (Addset r1 r2 asc gl al) \<longleftrightarrow> False"
| "istopo (Generatorset g fin asc it) \<longleftrightarrow> False"
| "istopo (Spanset a b asc hidden full) \<longleftrightarrow> False"

text \<open>\<open>filteredset.__nonzero__\<close>: the first fast iterator that exists, or the set itself.\<close>

definition filtered_candidates :: "smartset \<Rightarrow> rev list" where
  "filtered_candidates s =
     (let candidates = [if isascending s then fastasc s else None,
                        if isdescending s then fastdesc s else None,
                        fastasc s, fastdesc s]
      in case filter (\<lambda>c. c \<noteq> None) candidates of
           Some l # _ \<Rightarrow> l
         | _ \<Rightarrow> iter s)"

fun nonzero :: "smartset \<Rightarrow> bool" where
  "nonzero (Filteredset u c) \<longleftrightarrow> filtered_candidates (Filteredset u c) \<noteq> []"
| "nonzero (Addset r1 r2 asc gl al) \<longleftrightarrow> nonzero r1 \<or> nonzero r2"
| "nonzero (Generatorset g fin asc it) \<longleftrightarrow> g \<noteq> []"
| "nonzero (Spanset a b asc hidden full) \<longleftrightarrow> iter (Spanset a b asc hidden full) \<noteq> []"
| "nonzero s \<longleftrightarrow> smart_len s \<noteq> 0"

text \<open>
  \<open>min()\<close> and \<open>max()\<close>: \<open>abstractsmartset\<close> raises on the empty set, while the
  native span set returns \<open>None\<close>.
\<close>

definition abstract_min :: "rev list option \<Rightarrow> rev list \<Rightarrow> rev option res" where
  [simp]: "abstract_min fast it =
     (case fast of
        None \<Rightarrow> map_sum id Some (py_min (set it))
      | Some [] \<Rightarrow> Inl ValueError
      | Some (v # _) \<Rightarrow> Inr (Some v))"

definition abstract_max :: "rev list option \<Rightarrow> rev list \<Rightarrow> rev option res" where
  [simp]: "abstract_max fast it =
     (case fast of
        None \<Rightarrow> map_sum id Some (py_max (set it))
      | Some [] \<Rightarrow> Inl ValueError
      | Some (v # _) \<Rightarrow> Inr (Some v))"

fun smart_min :: "smartset \<Rightarrow> rev option res" where
  "smart_min (Spansset s asc) = Inr (hd_opt (sorted_list_of_set s))"
| "smart_min s = abstract_min (fastasc s) (iter s)"

fun smart_max :: "smartset \<Rightarrow> rev option res" where
  "smart_max (Spansset s asc) = Inr (last_opt (sorted_list_of_set s))"
| "smart_max s = abstract_max (fastdesc s) (iter s)"

section \<open>Changing the order\<close>

text \<open>\<open>sort(reverse=...)\<close>\<close>

definition baseset_sort :: "rev list option \<Rightarrow> rev set option \<Rightarrow> bool \<Rightarrow> smartset" where
  [simp]: "baseset_sort l s rv = Baseset l s (Some (\<not> rv)) False"

fun smart_sort :: "smartset \<Rightarrow> bool \<Rightarrow> smartset" where
  "smart_sort (Baseset l s asc topo) rv = baseset_sort l s rv"
| "smart_sort (Spansset s asc) rv = Spansset s (\<not> rv)"
| "smart_sort (Filteredset u c) rv = Filteredset (smart_sort u rv) c"
| "smart_sort (Addset r1 r2 asc gl al) rv = Addset r1 r2 (Some (\<not> rv)) gl al"
| "smart_sort (Generatorset g fin asc it) rv = Generatorset g fin (\<not> rv) it"
| "smart_sort (Spanset a b asc hidden full) rv = Spanset a b (\<not> rv) hidden full"

text \<open>\<open>addset._list\<close>: the cached list of everything the set yields.\<close>

definition addset_list :: "smartset \<Rightarrow> smartset \<Rightarrow> bool option \<Rightarrow> rev list option \<Rightarrow> rev list option \<Rightarrow> rev list" where
  "addset_list r1 r2 asc gl al =
     (case gl of Some (y # ys) \<Rightarrow> y # ys | _ \<Rightarrow> iter (Addset r1 r2 asc gl al))"

definition baseset_reverse :: "rev list option \<Rightarrow> rev set option \<Rightarrow> bool option \<Rightarrow> smartset" where
  [simp]: "baseset_reverse l s asc =
     (case asc of
        None \<Rightarrow> Baseset (Some (List.rev (bs_list l s))) s None False
      | Some up \<Rightarrow> Baseset l s (Some (\<not> up)) False)"

definition addset_reverse :: "smartset \<Rightarrow> smartset \<Rightarrow> bool option \<Rightarrow> rev list option \<Rightarrow> rev list option \<Rightarrow> smartset" where
  [simp]: "addset_reverse r1 r2 asc gl al =
     (case asc of
        None \<Rightarrow> Addset r1 r2 None (Some (List.rev (addset_list r1 r2 asc gl al))) al
      | Some up \<Rightarrow> Addset r1 r2 (Some (\<not> up)) gl al)"

fun smart_reverse :: "smartset \<Rightarrow> smartset" where
  "smart_reverse (Baseset l s asc topo) = baseset_reverse l s asc"
| "smart_reverse (Spansset s asc) = Spansset s (\<not> asc)"
| "smart_reverse (Filteredset u c) = Filteredset (smart_reverse u) c"
| "smart_reverse (Addset r1 r2 asc gl al) = addset_reverse r1 r2 asc gl al"
| "smart_reverse (Generatorset g fin asc it) = Generatorset g fin (\<not> asc) it"
| "smart_reverse (Spanset a b asc hidden full) = Spanset a b (\<not> asc) hidden full"

section \<open>The ends\<close>

definition baseset_first :: "rev list option \<Rightarrow> rev set option \<Rightarrow> bool option \<Rightarrow> bool \<Rightarrow> rev option" where
  [simp]: "baseset_first l s asc nz =
     (if nz then
        (case asc of
           None \<Rightarrow> Some (bs_list l s ! 0)
         | Some True \<Rightarrow> Some (bs_asclist l s ! 0)
         | Some False \<Rightarrow> Some (last (bs_asclist l s)))
      else None)"

definition baseset_last :: "rev list option \<Rightarrow> rev set option \<Rightarrow> bool option \<Rightarrow> bool \<Rightarrow> rev option" where
  [simp]: "baseset_last l s asc nz =
     (if nz then
        (case asc of
           None \<Rightarrow> Some (last (bs_list l s))
         | Some True \<Rightarrow> Some (last (bs_asclist l s))
         | Some False \<Rightarrow> Some (bs_asclist l s ! 0))
      else None)"

definition spansset_first :: "rev set \<Rightarrow> bool \<Rightarrow> rev option" where
  [simp]: "spansset_first s asc =
     (if asc then hd_opt (sorted_list_of_set s) else last_opt (sorted_list_of_set s))"

definition spansset_last :: "rev set \<Rightarrow> bool \<Rightarrow> rev option" where
  [simp]: "spansset_last s asc =
     (if asc then last_opt (sorted_list_of_set s) else hd_opt (sorted_list_of_set s))"

definition filteredset_last :: "bool \<Rightarrow> bool \<Rightarrow> rev list option \<Rightarrow> rev list option \<Rightarrow> rev list \<Rightarrow> rev option" where
  [simp]: "filteredset_last isasc isdesc fasc fdesc it =
     (case (if isasc then fdesc else if isdesc then fasc else None) of
        Some l \<Rightarrow> hd_opt l
      | None \<Rightarrow> last_opt it)"

definition generatorset_first :: "rev list \<Rightarrow> bool \<Rightarrow> rev list option \<Rightarrow> rev list option \<Rightarrow> rev option" where
  [simp]: "generatorset_first g asc fasc fdesc =
     (case (if asc then fasc else fdesc) of
        Some l \<Rightarrow> hd_opt l
      | None \<Rightarrow> hd_opt (if asc then sort g else List.rev (sort g)))"

definition generatorset_last :: "rev list \<Rightarrow> bool \<Rightarrow> rev list option \<Rightarrow> rev list option \<Rightarrow> rev option" where
  [simp]: "generatorset_last g asc fasc fdesc =
     (case (if asc then fdesc else fasc) of
        Some l \<Rightarrow> hd_opt l
      | None \<Rightarrow> hd_opt (if asc then List.rev (sort g) else sort g))"

definition spanset_first :: "rev \<Rightarrow> rev \<Rightarrow> bool \<Rightarrow> rev set \<Rightarrow> rev option" where
  [simp]: "spanset_first a b asc hidden = hd_opt (if asc then span_asc a b hidden else span_desc a b hidden)"

definition spanset_last :: "rev \<Rightarrow> rev \<Rightarrow> bool \<Rightarrow> rev set \<Rightarrow> rev option" where
  [simp]: "spanset_last a b asc hidden = hd_opt (if asc then span_desc a b hidden else span_asc a b hidden)"

fun smart_first :: "smartset \<Rightarrow> rev option" where
  "smart_first (Baseset l s asc topo) = baseset_first l s asc (nonzero (Baseset l s asc topo))"
| "smart_first (Spansset s asc) = spansset_first s asc"
| "smart_first (Generatorset g fin asc it) =
     generatorset_first g asc (fastasc (Generatorset g fin asc it)) (fastdesc (Generatorset g fin asc it))"
| "smart_first (Spanset a b asc hidden full) = spanset_first a b asc hidden"
| "smart_first s = hd_opt (iter s)"

fun smart_last :: "smartset \<Rightarrow> rev option" where
  "smart_last (Baseset l s asc topo) = baseset_last l s asc (nonzero (Baseset l s asc topo))"
| "smart_last (Spansset s asc) = spansset_last s asc"
| "smart_last (Filteredset u c) =
     filteredset_last (isascending (Filteredset u c)) (isdescending (Filteredset u c))
       (fastasc (Filteredset u c)) (fastdesc (Filteredset u c)) (iter (Filteredset u c))"
| "smart_last (Addset r1 r2 asc gl al) = smart_first (smart_reverse (Addset r1 r2 asc gl al))"
| "smart_last (Generatorset g fin asc it) =
     generatorset_last g asc (fastasc (Generatorset g fin asc it)) (fastdesc (Generatorset g fin asc it))"
| "smart_last (Spanset a b asc hidden full) = spanset_last a b asc hidden"

section \<open>Set operations\<close>

fun is_fullreposet :: "smartset \<Rightarrow> bool" where
  "is_fullreposet (Spanset a b asc hidden full) = full"
| "is_fullreposet _ = False"

definition smart_filter :: "smartset \<Rightarrow> (rev \<Rightarrow> bool) \<Rightarrow> smartset" where
  "smart_filter s condition = Filteredset s condition"

text \<open>\<open>abstractsmartset.__and__\<close> and \<open>__sub__\<close>\<close>

definition abstract_and :: "smartset \<Rightarrow> smartset \<Rightarrow> smartset" where
  "abstract_and s t = (if is_fullreposet t then s else smart_filter s (contains t))"

definition abstract_sub :: "smartset \<Rightarrow> smartset \<Rightarrow> smartset" where
  "abstract_sub s t = smart_filter s (\<lambda>r. \<not> contains t r)"

text \<open>\<open>baseset._fastsetop\<close> for a native set operation and the generic one.\<close>

fun base_fastsetop :: "(rev set \<Rightarrow> rev set \<Rightarrow> rev set) \<Rightarrow> (smartset \<Rightarrow> smartset \<Rightarrow> smartset)
    \<Rightarrow> smartset \<Rightarrow> smartset \<Rightarrow> smartset" where
  "base_fastsetop op generic (Baseset l1 (Some s1) (Some asc1) topo1) (Baseset l2 (Some s2) asc2 topo2) =
     Baseset None (Some (op s1 s2)) (Some asc1) topo1"
| "base_fastsetop op generic s t = generic s t"

text \<open>\<open>_spanset.__and__\<close>, with its fast path for descending sets that start at 0.\<close>

definition span_and :: "smartset \<Rightarrow> smartset \<Rightarrow> smartset" where
  "span_and s t =
     (case s of
        Spanset a b asc hidden full \<Rightarrow>
          if isdescending s \<and> a = 0 \<and> isdescending t
            \<and> (case hd_opt (iter t) of None \<Rightarrow> True | Some rhsmax \<Rightarrow> rhsmax \<le> b)
          then t else abstract_and s t
      | _ \<Rightarrow> abstract_and s t)"

text \<open>\<open>spansset._fastsetop\<close>\<close>

definition spansset_fastsetop :: "(rev set \<Rightarrow> rev set \<Rightarrow> rev set) \<Rightarrow> (smartset \<Rightarrow> smartset \<Rightarrow> smartset)
    \<Rightarrow> rev set \<Rightarrow> bool \<Rightarrow> smartset \<Rightarrow> smartset" where
  [simp]: "spansset_fastsetop op generic s asc other =
     (case other of Spansset s' asc' \<Rightarrow> Spansset (op s s') asc | _ \<Rightarrow> generic (Spansset s asc) other)"

text \<open>\<open>fullreposet.__and__\<close> with a smartset.\<close>

definition fullreposet_and :: "smartset \<Rightarrow> smartset \<Rightarrow> smartset" where
  [simp]: "fullreposet_and s other = smart_sort other (isdescending s)"

fun smart_and :: "smartset \<Rightarrow> smartset \<Rightarrow> smartset" where
  "smart_and (Baseset l s asc topo) t = base_fastsetop (\<inter>) abstract_and (Baseset l s asc topo) t"
| "smart_and (Spansset s asc) t = spansset_fastsetop (\<inter>) abstract_and s asc t"
| "smart_and (Spanset a b asc hidden full) t =
     (if full then fullreposet_and (Spanset a b asc hidden full) t
      else span_and (Spanset a b asc hidden full) t)"
| "smart_and s t = abstract_and s t"

text \<open>\<open>fullreposet.__and__\<close> with an argument that is a plain set.\<close>

definition fullreposet_and_set :: "smartset \<Rightarrow> rev set \<Rightarrow> smartset" where
  "fullreposet_and_set s other =
     (case s of
        Spanset a b asc hidden full \<Rightarrow> smart_sort (baseset_set (other - hidden) False) (\<not> asc)
      | _ \<Rightarrow> baseset_set other False)"

fun smart_sub :: "smartset \<Rightarrow> smartset \<Rightarrow> smartset" where
  "smart_sub (Baseset l s asc topo) t = base_fastsetop (-) abstract_sub (Baseset l s asc topo) t"
| "smart_sub (Spansset s asc) t = spansset_fastsetop (-) abstract_sub s asc t"
| "smart_sub s t = abstract_sub s t"

definition abstract_add :: "smartset \<Rightarrow> smartset \<Rightarrow> smartset" where
  [simp]: "abstract_add s t = Addset s t None None None"

fun smart_add :: "smartset \<Rightarrow> smartset \<Rightarrow> smartset" where
  "smart_add (Spansset s asc) t = spansset_fastsetop (\<union>) abstract_add s asc t"
| "smart_add s t = abstract_add s t"

section \<open>Slices and ranges\<close>

text \<open>\<open>abstractsmartset._slice\<close>: skip \<open>start\<close> elements, then take \<open>stop - start\<close>.\<close>

definition abstract_slice :: "smartset \<Rightarrow> nat \<Rightarrow> nat \<Rightarrow> smartset" where
  "abstract_slice s start stop = baseset_list (take (stop - start) (drop start (iter s))) False"

definition baseset_slice :: "rev list option \<Rightarrow> rev set option \<Rightarrow> bool option \<Rightarrow> bool \<Rightarrow> nat \<Rightarrow> nat \<Rightarrow> smartset" where
  [simp]: "baseset_slice l s asc topo start stop =
     (case asc of
        None \<Rightarrow> Baseset (Some (take (stop - start) (drop start (bs_list l s)))) None None topo
      | Some up \<Rightarrow>
          let data = bs_asclist l s;
              start' = (if up then start else length data - stop);
              stop' = (if up then stop else length data - start)
          in Baseset (Some (take (stop' - start') (drop start' data))) None (Some up) topo)"

definition spanset_slice :: "rev \<Rightarrow> rev \<Rightarrow> bool \<Rightarrow> rev set \<Rightarrow> bool \<Rightarrow> nat \<Rightarrow> nat \<Rightarrow> smartset" where
  [simp]: "spanset_slice a b asc hidden full start stop =
     (if hidden \<noteq> {} then abstract_slice (Spanset a b asc hidden full) start stop
      else if asc then Spanset (min (a + int start) b) (min (a + int stop) b) asc hidden False
      else Spanset (max (b - int stop) a) (max (b - int start) a) asc hidden False)"

fun slice_class :: "smartset \<Rightarrow> nat \<Rightarrow> nat \<Rightarrow> smartset" where
  "slice_class (Baseset l s asc topo) start stop = baseset_slice l s asc topo start stop"
| "slice_class (Spanset a b asc hidden full) start stop = spanset_slice a b asc hidden full start stop"
| "slice_class s start stop = abstract_slice s start stop"

definition smart_slice :: "smartset \<Rightarrow> int \<Rightarrow> int \<Rightarrow> smartset res" where
  "smart_slice s start stop =
     (if start < 0 \<or> stop < 0 then Inl (ProgrammingError ''negative index not allowed'')
      else Inr (slice_class s (nat start) (nat stop)))"

text \<open>\<open>spanset(repo, start, end)\<close> and \<open>fullreposet(repo)\<close> for a repository of \<open>n\<close> revisions.\<close>

definition spanset :: "nat \<Rightarrow> rev set \<Rightarrow> rev \<Rightarrow> rev option \<Rightarrow> smartset" where
  "spanset n hidden start stop =
     (let e = (case stop of None \<Rightarrow> int n | Some e \<Rightarrow> e);
          ascending = (start \<le> e)
      in if ascending then Spanset start e True hidden False
         else Spanset (e + 1) (start + 1) False hidden False)"

definition fullreposet :: "nat \<Rightarrow> rev set \<Rightarrow> smartset" where
  "fullreposet n hidden = Spanset 0 (int n) True hidden True"

section \<open>Well-formed sets\<close>

text \<open>
  No duplicates; what is cached agrees with what is not; a generator that
  claims an order has it.
\<close>

fun wf_smartset :: "smartset \<Rightarrow> bool" where
  "wf_smartset (Baseset l s asc topo) \<longleftrightarrow>
     (case (l, s) of
        (Some xs, Some S) \<Rightarrow> distinct xs \<and> S = set xs
      | (Some xs, None) \<Rightarrow> distinct xs
      | (None, Some S) \<Rightarrow> finite S \<and> asc \<noteq> None
      | (None, None) \<Rightarrow> False)"
| "wf_smartset (Spansset s asc) \<longleftrightarrow> finite s"
| "wf_smartset (Filteredset u c) \<longleftrightarrow> wf_smartset u"
| "wf_smartset (Addset r1 r2 asc gl al) \<longleftrightarrow>
     wf_smartset r1 \<and> wf_smartset r2
     \<and> (case gl of
          None \<Rightarrow> al = None
        | Some g \<Rightarrow> distinct g \<and> set g = set (iter r1) \<union> set (iter r2) \<and> (al = None \<or> al = Some (sort g)))"
| "wf_smartset (Generatorset g fin asc it) \<longleftrightarrow>
     distinct g \<and> (it = Some True \<longrightarrow> sorted g) \<and> (it = Some False \<longrightarrow> sorted (List.rev g))"
| "wf_smartset (Spanset a b asc hidden full) \<longleftrightarrow> a \<le> b \<and> finite hidden"

section \<open>Iteration laws\<close>

abbreviation asc_list :: "rev list \<Rightarrow> bool" where
  "asc_list \<equiv> sorted_wrt (<)"

abbreviation desc_list :: "rev list \<Rightarrow> bool" where
  "desc_list \<equiv> sorted_wrt (>)"

named_theorems order_simps

lemma asc_list_sort [order_simps]: "distinct xs \<Longrightarrow> asc_list (sort xs)"
  by (simp add: strict_sorted_iff)

lemma asc_list_set [order_simps]: "asc_list (sorted_list_of_set S)"
  by (simp add: strict_sorted_iff)

lemma desc_list_rev [order_simps]: "desc_list (List.rev l) \<longleftrightarrow> asc_list l"
  by (simp add: sorted_wrt_rev)

lemma desc_list_sorted: "desc_list l \<longleftrightarrow> sorted (List.rev l) \<and> distinct l"
  using strict_sorted_iff [of "List.rev l"] by (simp add: sorted_wrt_rev)

lemma asc_list_distinct: "asc_list l \<Longrightarrow> distinct l"
  by (simp add: strict_sorted_iff)

lemma desc_list_distinct: "desc_list l \<Longrightarrow> distinct l"
  by (simp add: desc_list_sorted)

lemma asc_list_unique: "asc_list l \<Longrightarrow> asc_list l' \<Longrightarrow> set l = set l' \<Longrightarrow> l = l'"
  by (simp add: strict_sorted_iff sorted_distinct_set_unique)

lemma desc_list_unique: "desc_list l \<Longrightarrow> desc_list l' \<Longrightarrow> set l = set l' \<Longrightarrow> l = l'"
  using asc_list_unique [of "List.rev l" "List.rev l'"] by (simp add: sorted_wrt_rev)

lemma asc_list_span [order_simps]: "asc_list (span_asc a b hidden)"
  by (simp add: span_asc_def span_filter_def sorted_wrt_filter strict_sorted_iff)

lemma set_span_asc [simp]: "set (span_asc a b hidden) = {a..<b} - hidden"
  by (auto simp: span_asc_def span_filter_def)

lemma span_desc_rev: "span_desc a b hidden = List.rev (span_asc a b hidden)"
  by (simp add: span_desc_def span_asc_def span_filter_def range_desc_def rev_filter)

lemma set_iterordered [simp]: "set (iterordered asc xs ys) = set xs \<union> set ys"
  by (induction asc xs ys rule: iterordered.induct) (auto simp: Let_def)

lemma iterordered_Cons:
  "iterordered True (x # xs) (y # ys) =
    (if x = y then x # iterordered True xs ys
     else if x < y then x # iterordered True xs (y # ys) else y # iterordered True (x # xs) ys)"
  "iterordered False (x # xs) (y # ys) =
    (if x = y then x # iterordered False xs ys
     else if y < x then x # iterordered False xs (y # ys) else y # iterordered False (x # xs) ys)"
  by (simp_all add: Let_def)

lemma iterordered_asc: "asc_list xs \<Longrightarrow> asc_list ys \<Longrightarrow> asc_list (iterordered True xs ys)"
proof (induction True xs ys rule: iterordered.induct)
  case (1 x xs y ys)
  consider (eq) "x = y" | (fst) "x < y" | (snd) "y < x" by linarith
  then show ?case
  proof cases
    case eq
    then show ?thesis using "1"(1) "1"(4,5) by (auto simp: iterordered_Cons Let_def simp del: iterordered.simps(1))
  next
    case fst
    then have "asc_list (iterordered True xs (y # ys))" using "1"(2) "1"(4,5) by simp
    then show ?thesis using fst "1"(4,5) by (auto simp: iterordered_Cons simp del: iterordered.simps(1))
  next
    case snd
    then have "asc_list (iterordered True (x # xs) ys)" using "1"(3) "1"(4,5) by simp
    then show ?thesis using snd "1"(4,5) by (auto simp: iterordered_Cons simp del: iterordered.simps(1))
  qed
qed simp_all

lemma iterordered_desc: "desc_list xs \<Longrightarrow> desc_list ys \<Longrightarrow> desc_list (iterordered False xs ys)"
proof (induction False xs ys rule: iterordered.induct)
  case (1 x xs y ys)
  consider (eq) "x = y" | (fst) "y < x" | (snd) "x < y" by linarith
  then show ?case
  proof cases
    case eq
    then show ?thesis using "1"(1) "1"(4,5) by (auto simp: iterordered_Cons Let_def simp del: iterordered.simps(1))
  next
    case fst
    then have "desc_list (iterordered False xs (y # ys))" using "1"(2) "1"(4,5) by simp
    then show ?thesis using fst "1"(4,5) by (auto simp: iterordered_Cons simp del: iterordered.simps(1))
  next
    case snd
    then have "desc_list (iterordered False (x # xs) ys)" using "1"(3) "1"(4,5) by simp
    then show ?thesis using snd "1"(4,5) by (auto simp: iterordered_Cons simp del: iterordered.simps(1))
  qed
qed simp_all

lemma bs_wf:
  assumes "wf_smartset (Baseset l s asc topo)"
  shows "distinct (bs_list l s)" "bs_set l s = set (bs_list l s)" "smart_len (Baseset l s asc topo) = length (bs_list l s)"
  using assms by (auto simp: bs_list_def bs_set_def split: option.splits)

lemma iter_laws:
  "wf_smartset s \<Longrightarrow>
    distinct (iter s) \<and> (\<forall>x. contains s x \<longleftrightarrow> x \<in> set (iter s))
    \<and> (\<forall>l. fastasc s = Some l \<longrightarrow> asc_list l \<and> set l = set (iter s))
    \<and> (\<forall>l. fastdesc s = Some l \<longrightarrow> desc_list l \<and> set l = set (iter s))"
proof (induction s)
  case (Baseset l s asc topo)
  note wf = bs_wf [OF Baseset]
  have "distinct (iter (Baseset l s asc topo)) \<and> set (iter (Baseset l s asc topo)) = set (bs_list l s)"
  proof (cases asc)
    case (Some up)
    then show ?thesis using wf(1) by (cases up) (simp_all add: bs_asclist_def)
  qed (use wf(1) in simp)
  then show ?case using wf(1,2) by (simp add: bs_asclist_def order_simps del: iter.simps)
next
  case (Spansset s asc)
  then show ?case by (auto simp: order_simps)
next
  case (Filteredset u c)
  then show ?case by (auto simp: sorted_wrt_filter)
next
  case (Addset r1 r2 asc gl al)
  have wf: "wf_smartset r1" "wf_smartset r2" using Addset.prems by auto
  note IH = Addset.IH(1) [OF wf(1)] Addset.IH(2) [OF wf(2)]
  note d = IH [THEN conjunct1]
  note c = IH [THEN conjunct2, THEN conjunct1, rule_format]
  note up = IH [THEN conjunct2, THEN conjunct2, THEN conjunct1, rule_format]
  note dn = IH [THEN conjunct2, THEN conjunct2, THEN conjunct2, rule_format]
  define U where "U = set (iter r1) \<union> set (iter r2)"
  have cache: "asc_list l \<and> set l = U" if "try_asclist gl al = Some l" for l
  proof -
    from that obtain g where "gl = Some g" "l = sort g"
      using Addset.prems by (cases gl; cases al) (simp_all add: try_asclist_def)
    then show ?thesis using Addset.prems by (simp add: U_def order_simps)
  qed
  have fa: "asc_list l \<and> set l = U" if f: "fastasc (Addset r1 r2 asc gl al) = Some l" for l
  proof (cases "try_asclist gl al")
    case None
    then obtain l1 l2 where "fastasc r1 = Some l1" "fastasc r2 = Some l2" "l = iterordered True l1 l2"
      using f by (auto split: option.splits)
    then show ?thesis using up(1) [of l1] up(2) [of l2] by (simp add: iterordered_asc U_def)
  next
    case (Some l')
    then show ?thesis using f cache by simp
  qed
  have fd: "desc_list l \<and> set l = U" if f: "fastdesc (Addset r1 r2 asc gl al) = Some l" for l
  proof (cases "try_asclist gl al")
    case None
    then obtain l1 l2 where "fastdesc r1 = Some l1" "fastdesc r2 = Some l2" "l = iterordered False l1 l2"
      using f by (auto split: option.splits)
    then show ?thesis using dn(1) [of l1] dn(2) [of l2] by (simp add: iterordered_desc U_def)
  next
    case (Some l')
    then show ?thesis using f cache [OF Some] by (auto simp: order_simps)
  qed
  have it: "distinct (iter (Addset r1 r2 asc gl al)) \<and> set (iter (Addset r1 r2 asc gl al)) = U"
  proof (cases asc)
    case None
    show ?thesis
    proof (cases "gl = None \<or> gl = Some []")
      case True
      then show ?thesis using None d c by (auto simp: U_def)
    next
      case False
      then obtain y ys where "gl = Some (y # ys)" by (metis list.exhaust option.exhaust)
      then show ?thesis using None Addset.prems by (auto simp: U_def)
    qed
  next
    case (Some up')
    show ?thesis
    proof (cases "try_asclist gl al")
      case None
      define l1 where "l1 = (case (if up' then fastasc r1 else fastdesc r1) of Some l \<Rightarrow> l | None \<Rightarrow> sorted_dir up' (iter r1))"
      define l2 where "l2 = (case (if up' then fastasc r2 else fastdesc r2) of Some l \<Rightarrow> l | None \<Rightarrow> sorted_dir up' (iter r2))"
      have e: "iter (Addset r1 r2 asc gl al) = iterordered up' l1 l2" using Some None by (simp add: l1_def l2_def)
      have sets: "set l1 = set (iter r1)" "set l2 = set (iter r2)"
        unfolding l1_def l2_def sorted_dir_def using up dn by (simp_all split: option.splits)
      show ?thesis
      proof (cases up')
        case True
        then have "asc_list l1" "asc_list l2"
          unfolding l1_def l2_def sorted_dir_def using up d by (simp_all add: order_simps split: option.splits)
        then show ?thesis unfolding e U_def using True sets iterordered_asc asc_list_distinct by simp
      next
        case False
        then have "desc_list l1" "desc_list l2"
          unfolding l1_def l2_def sorted_dir_def using dn d by (simp_all add: order_simps split: option.splits)
        then show ?thesis unfolding e U_def using False sets iterordered_desc desc_list_distinct by simp
      qed
    next
      case (Some l)
      then show ?thesis using cache [OF Some] \<open>asc = Some up'\<close> by (auto dest: asc_list_distinct)
    qed
  qed
  have "contains (Addset r1 r2 asc gl al) x \<longleftrightarrow> x \<in> U" for x using c by (simp add: U_def)
  then show ?case unfolding it [THEN conjunct2] using it [THEN conjunct1] fa fd by simp
next
  case (Generatorset g fin asc it)
  then have "asc_list (sort g)" "it = Some True \<Longrightarrow> asc_list g" "it = Some False \<Longrightarrow> desc_list g" "distinct g"
    by (simp_all add: strict_sorted_iff desc_list_sorted)
  then show ?case by (simp add: order_simps)
next
  case (Spanset a b asc hidden full)
  then show ?case by (auto simp: order_simps span_desc_rev asc_list_distinct)
qed

lemmas iter_distinct = iter_laws [THEN conjunct1]
lemmas contains_iter = iter_laws [THEN conjunct2, THEN conjunct1, rule_format]
lemmas fastasc_iter = iter_laws [THEN conjunct2, THEN conjunct2, THEN conjunct1, rule_format]
lemmas fastdesc_iter = iter_laws [THEN conjunct2, THEN conjunct2, THEN conjunct2, rule_format]

lemma length_le_1_sorted: "length xs \<le> 1 \<Longrightarrow> asc_list xs \<and> desc_list xs"
  by (cases xs) auto

lemma isascending_asc: "wf_smartset s \<Longrightarrow> isascending s \<Longrightarrow> asc_list (iter s)"
proof (induction s)
  case (Baseset l s asc topo)
  note wf = bs_wf [OF Baseset(1)]
  show ?case
  proof (cases "length (bs_list l s) \<le> 1")
    case True
    then have "length (iter (Baseset l s asc topo)) \<le> 1" by (simp add: bs_asclist_def split: option.splits bool.splits)
    then show ?thesis using length_le_1_sorted by blast
  next
    case False
    then show ?thesis using Baseset(2) wf by (simp add: bs_asclist_def order_simps)
  qed
next
  case (Spansset s asc)
  then show ?case using length_le_1_sorted [of "List.rev (sorted_list_of_set s)"] by (auto simp: order_simps)
next
  case (Filteredset u c)
  then show ?case by (simp add: sorted_wrt_filter)
next
  case (Addset r1 r2 asc gl al)
  then have "asc = Some True" by simp
  then show ?case
  proof (cases "fastasc (Addset r1 r2 asc gl al)")
    case None
    then show ?thesis using Addset.prems(1) fastasc_iter [of r1] fastasc_iter [of r2] iter_distinct [of r1] iter_distinct [of r2] \<open>asc = Some True\<close>
      by (auto simp: sorted_dir_def order_simps intro!: iterordered_asc split: option.splits)
  next
    case (Some l)
    then have "iter (Addset r1 r2 asc gl al) = l" using \<open>asc = Some True\<close> by (auto split: option.splits)
    then show ?thesis using fastasc_iter [OF Addset.prems(1) Some] by simp
  qed
next
  case (Generatorset g fin asc it)
  then show ?case by (auto simp: order_simps strict_sorted_iff)
next
  case (Spanset a b asc hidden full)
  then show ?case by (simp add: order_simps)
qed

lemma isdescending_desc: "wf_smartset s \<Longrightarrow> isdescending s \<Longrightarrow> desc_list (iter s)"
proof (induction s)
  case (Baseset l s asc topo)
  note wf = bs_wf [OF Baseset(1)]
  show ?case
  proof (cases "length (bs_list l s) \<le> 1")
    case True
    then have "length (iter (Baseset l s asc topo)) \<le> 1" by (simp add: bs_asclist_def split: option.splits bool.splits)
    then show ?thesis using length_le_1_sorted by blast
  next
    case False
    then show ?thesis using Baseset(2) wf by (simp add: bs_asclist_def order_simps)
  qed
next
  case (Spansset s asc)
  then show ?case using length_le_1_sorted [of "sorted_list_of_set s"] by (auto simp: order_simps)
next
  case (Filteredset u c)
  then show ?case by (simp add: sorted_wrt_filter)
next
  case (Addset r1 r2 asc gl al)
  then have "asc = Some False" by simp
  then show ?case
  proof (cases "fastdesc (Addset r1 r2 asc gl al)")
    case None
    then show ?thesis using Addset.prems(1) fastdesc_iter [of r1] fastdesc_iter [of r2] iter_distinct [of r1] iter_distinct [of r2] \<open>asc = Some False\<close>
      by (auto simp: sorted_dir_def order_simps intro!: iterordered_desc split: option.splits)
  next
    case (Some l)
    then have "iter (Addset r1 r2 asc gl al) = l" using \<open>asc = Some False\<close> by (auto split: option.splits)
    then show ?thesis using fastdesc_iter [OF Addset.prems(1) Some] by simp
  qed
next
  case (Generatorset g fin asc it)
  then show ?case by (auto simp: order_simps desc_list_sorted)
next
  case (Spanset a b asc hidden full)
  then show ?case by (simp add: order_simps span_desc_rev)
qed

section \<open>The contract of a smartset\<close>

text \<open>
  The laws a client may rely on; what follows from them is proved here once
  and used for the classes below.
\<close>

locale smartset_spec =
  fixes wf :: "'s \<Rightarrow> bool"
    and iterate :: "'s \<Rightarrow> rev list"
    and member :: "'s \<Rightarrow> rev \<Rightarrow> bool"
    and up :: "'s \<Rightarrow> rev list option"
    and down :: "'s \<Rightarrow> rev list option"
    and isup :: "'s \<Rightarrow> bool"
    and isdown :: "'s \<Rightarrow> bool"
  assumes no_duplicates: "wf s \<Longrightarrow> distinct (iterate s)"
    and member_iterate: "wf s \<Longrightarrow> member s x \<longleftrightarrow> x \<in> set (iterate s)"
    and up_ascending: "wf s \<Longrightarrow> up s = Some l \<Longrightarrow> asc_list l \<and> set l = set (iterate s)"
    and down_descending: "wf s \<Longrightarrow> down s = Some l \<Longrightarrow> desc_list l \<and> set l = set (iterate s)"
    and isup_ascending: "wf s \<Longrightarrow> isup s \<Longrightarrow> asc_list (iterate s)"
    and isdown_descending: "wf s \<Longrightarrow> isdown s \<Longrightarrow> desc_list (iterate s)"
begin

lemma up_nonempty: "wf s \<Longrightarrow> up s = Some l \<Longrightarrow> l = [] \<longleftrightarrow> iterate s = []"
  using up_ascending [of s l] by (metis set_empty)

lemma down_nonempty: "wf s \<Longrightarrow> down s = Some l \<Longrightarrow> l = [] \<longleftrightarrow> iterate s = []"
  using down_descending [of s l] by (metis set_empty)

lemma up_head_min: "wf s \<Longrightarrow> up s = Some (v # l) \<Longrightarrow> v = Min (set (iterate s))"
proof -
  assume "wf s" "up s = Some (v # l)"
  then have *: "asc_list (v # l)" "set (v # l) = set (iterate s)" using up_ascending [of s "v # l"] by simp_all
  from *(1) have "Min (set (v # l)) = v" by (intro Min_eqI) auto
  then show ?thesis using *(2) by simp
qed

lemma down_head_max: "wf s \<Longrightarrow> down s = Some (v # l) \<Longrightarrow> v = Max (set (iterate s))"
proof -
  assume "wf s" "down s = Some (v # l)"
  then have *: "desc_list (v # l)" "set (v # l) = set (iterate s)" using down_descending [of s "v # l"] by simp_all
  from *(1) have "Max (set (v # l)) = v" by (intro Max_eqI) auto
  then show ?thesis using *(2) by simp
qed

lemma up_is_iterate: "wf s \<Longrightarrow> isup s \<Longrightarrow> up s = Some l \<Longrightarrow> l = iterate s"
  using up_ascending [of s l] isup_ascending [of s] asc_list_unique [of l "iterate s"] by simp

lemma down_is_iterate: "wf s \<Longrightarrow> isdown s \<Longrightarrow> down s = Some l \<Longrightarrow> l = iterate s"
  using down_descending [of s l] isdown_descending [of s] desc_list_unique [of l "iterate s"] by simp

lemma down_reverses: "wf s \<Longrightarrow> isup s \<Longrightarrow> down s = Some l \<Longrightarrow> l = List.rev (iterate s)"
  using down_descending [of s l] isup_ascending [of s] desc_list_unique [of l "List.rev (iterate s)"]
  by (simp add: order_simps)

lemma up_reverses: "wf s \<Longrightarrow> isdown s \<Longrightarrow> up s = Some l \<Longrightarrow> l = List.rev (iterate s)"
  using up_ascending [of s l] isdown_descending [of s] asc_list_unique [of l "List.rev (iterate s)"]
  by (simp add: sorted_wrt_rev)

end

interpretation sms: smartset_spec wf_smartset iter contains fastasc fastdesc isascending isdescending
  by unfold_locales
    (simp_all add: iter_distinct contains_iter fastasc_iter fastdesc_iter isascending_asc isdescending_desc)

end
