(* ===== verification/Smartset_ops.thy ===== *)
theory Smartset_ops
  imports Smartset
begin

text \<open>
  What the operations of \<open>mercurial/smartset.py\<close> promise: each query agrees with
  the iteration order, reordering changes the order only, and the set operations
  and slices have their list or set meaning, on every class and every cache state.
\<close>

section \<open>Queries\<close>

lemma hd_opt_rev: "hd_opt (List.rev xs) = last_opt xs"
  by (cases xs rule: rev_cases) (auto simp: hd_opt_def last_opt_def)

lemma last_opt_rev: "last_opt (List.rev xs) = hd_opt xs"
  by (cases xs) (auto simp: hd_opt_def last_opt_def)

lemma sort_Nil_iff [simp]: "sort xs = [] \<longleftrightarrow> xs = []"
  by (metis set_empty set_sort)

lemma length_unique: "distinct xs \<Longrightarrow> distinct ys \<Longrightarrow> set xs = set ys \<Longrightarrow> length xs = length ys"
  by (metis distinct_card)

lemma span_hidden_card:
  assumes "a \<le> b" "finite hidden"
  shows "length (span_asc a b hidden) = nat (b - a) - card {r \<in> hidden. a \<le> r \<and> r < b}"
proof -
  have "{a..<b} - hidden = {a..<b} - {r \<in> hidden. a \<le> r \<and> r < b}" by auto
  moreover have "card ({a..<b} - {r \<in> hidden. a \<le> r \<and> r < b}) = card {a..<b} - card {r \<in> hidden. a \<le> r \<and> r < b}"
    by (rule card_Diff_subset) (use assms in auto)
  moreover have "length (span_asc a b hidden) = card ({a..<b} - hidden)"
    using distinct_card [of "span_asc a b hidden"] by (simp add: asc_list_distinct order_simps)
  ultimately show ?thesis by simp
qed

lemma set_iter_Addset:
  assumes "wf_smartset (Addset r1 r2 asc gl al)"
  shows "set (iter (Addset r1 r2 asc gl al)) = set (iter r1) \<union> set (iter r2)"
proof (rule set_eqI)
  fix x
  have "wf_smartset r1" "wf_smartset r2" using assms by simp_all
  then show "x \<in> set (iter (Addset r1 r2 asc gl al)) \<longleftrightarrow> x \<in> set (iter r1) \<union> set (iter r2)"
    unfolding contains_iter [OF assms, symmetric] by (simp add: contains_iter)
qed

lemma length_iter_Addset:
  assumes "wf_smartset (Addset r1 r2 asc (Some g) al)"
  shows "length (iter (Addset r1 r2 asc (Some g) al)) = length g"
  using set_iter_Addset [OF assms] iter_distinct [OF assms] assms by (intro length_unique) simp_all

lemma smart_len_Spanset:
  assumes "wf_smartset (Spanset a b asc hidden full)"
  shows "smart_len (Spanset a b asc hidden full) = length (span_asc a b hidden)"
proof -
  have "{r \<in> hidden. (b < r \<and> r \<le> a) \<or> (a \<le> r \<and> r < b)} = {r \<in> hidden. a \<le> r \<and> r < b}"
    using assms by auto
  then show ?thesis using assms by (simp add: span_hidden_card)
qed

lemma smart_len_iter: "wf_smartset s \<Longrightarrow> smart_len s = length (iter s)"
proof (induction s)
  case (Baseset l s asc topo)
  then show ?case using bs_wf(3) [OF Baseset] by (simp add: bs_asclist_def split: option.split bool.split del: smart_len.simps)
next
  case (Addset r1 r2 asc gl al)
  show ?case
  proof (cases "gl = None \<or> gl = Some []")
    case False
    then obtain y ys where "gl = Some (y # ys)" by (metis list.exhaust option.exhaust)
    then show ?thesis using length_iter_Addset [of r1 r2 asc "y # ys" al] Addset.prems
      by (simp del: iter.simps wf_smartset.simps)
  qed (auto simp del: iter.simps)
next
  case (Spanset a b asc hidden full)
  then show ?case by (simp add: smart_len_Spanset span_desc_rev del: smart_len.simps wf_smartset.simps)
qed simp_all

lemma filtered_candidates_empty:
  assumes "wf_smartset s"
  shows "filtered_candidates s = [] \<longleftrightarrow> iter s = []"
proof (cases "fastasc s"; cases "fastdesc s")
  fix l assume "fastasc s = None" "fastdesc s = Some l"
  then show ?thesis using sms.down_nonempty [OF assms] by (auto simp: filtered_candidates_def)
next
  fix l assume "fastasc s = Some l" "fastdesc s = None"
  then show ?thesis using sms.up_nonempty [OF assms] by (auto simp: filtered_candidates_def)
next
  fix l l' assume "fastasc s = Some l" "fastdesc s = Some l'"
  then show ?thesis using sms.up_nonempty [OF assms] sms.down_nonempty [OF assms]
    by (auto simp: filtered_candidates_def)
qed (simp add: filtered_candidates_def)

lemma nonzero_iter: "wf_smartset s \<Longrightarrow> nonzero s \<longleftrightarrow> iter s \<noteq> []"
proof (induction s)
  case (Filteredset u c)
  then show ?case using filtered_candidates_empty [of "Filteredset u c"] by simp
next
  case (Addset r1 r2 asc gl al)
  have "iter (Addset r1 r2 asc gl al) = [] \<longleftrightarrow> iter r1 = [] \<and> iter r2 = []"
    using set_iter_Addset [OF Addset.prems] by (metis Un_empty set_empty)
  then show ?case using Addset by (simp del: iter.simps)
next
  case (Baseset l s asc topo)
  then show ?case using smart_len_iter [OF Baseset] by (simp del: iter.simps smart_len.simps)
qed simp_all

lemma hd_opt_nth: "xs \<noteq> [] \<Longrightarrow> hd_opt xs = Some (xs ! 0)"
  by (cases xs) (simp_all add: hd_opt_def)

lemma rev_nth_0 [simp]: "xs \<noteq> [] \<Longrightarrow> List.rev xs ! 0 = last xs"
  by (simp add: rev_nth last_conv_nth)

lemma last_rev_nth [simp]: "xs \<noteq> [] \<Longrightarrow> last (List.rev xs) = xs ! 0"
  by (simp add: last_rev hd_conv_nth)

lemma last_opt_last: "xs \<noteq> [] \<Longrightarrow> last_opt xs = Some (last xs)"
  by (simp add: last_opt_def)

lemma bs_asclist_Nil [simp]: "bs_asclist l s = [] \<longleftrightarrow> bs_list l s = []"
  by (simp add: bs_asclist_def)

lemma Baseset_empty: "iter (Baseset l s asc topo) = [] \<longleftrightarrow> bs_list l s = []"
  by (simp split: option.split bool.split)

lemma smart_first_iter: "wf_smartset s \<Longrightarrow> smart_first s = hd_opt (iter s)"
proof (cases s)
  case (Baseset l s' asc topo)
  assume wf: "wf_smartset s"
  show ?thesis
  proof (cases "bs_list l s' = []")
    case True
    then show ?thesis using nonzero_iter [OF wf] Baseset
      by (simp add: Baseset_empty hd_opt_def bs_asclist_def split: option.split bool.split del: nonzero.simps wf_smartset.simps)
  next
    case False
    then show ?thesis using nonzero_iter [OF wf] unfolding Baseset
      by (simp add: Baseset_empty hd_opt_nth hd_opt_rev last_opt_last split: option.split bool.split del: nonzero.simps wf_smartset.simps)
  qed
qed (simp_all add: hd_opt_rev)

lemma smart_last_Filteredset:
  assumes wf: "wf_smartset (Filteredset u c)"
  shows "smart_last (Filteredset u c) = last_opt (iter (Filteredset u c))"
proof -
  let ?s = "Filteredset u c"
  have "hd_opt l = last_opt (iter ?s)" if "isascending ?s" "fastdesc ?s = Some l" for l
    using sms.down_reverses [OF wf that] by (simp add: hd_opt_rev)
  moreover have "hd_opt l = last_opt (iter ?s)" if "isdescending ?s" "fastasc ?s = Some l" for l
    using sms.up_reverses [OF wf that] by (simp add: hd_opt_rev)
  ultimately show ?thesis
    by (simp split: option.split del: iter.simps isascending.simps isdescending.simps fastasc.simps fastdesc.simps)
qed

section \<open>Changing the order\<close>

lemma sorted_dir_filter: "filter c (sorted_dir up xs) = sorted_dir up (filter c xs)"
  by (simp add: sorted_dir_def filter_sort flip: rev_filter)

lemma sorted_dir_flip: "xs = sorted_dir up xs \<Longrightarrow> List.rev xs = sorted_dir (\<not> up) xs"
  by (metis rev_rev_ident sorted_dir_def)

lemma asc_sort_unique: "asc_list l \<Longrightarrow> distinct xs \<Longrightarrow> set l = set xs \<Longrightarrow> l = sort xs"
  using asc_list_unique [of l "sort xs"] by (simp add: order_simps)

lemma sort_desc:
  fixes g :: "rev list"
  shows "distinct g \<Longrightarrow> sorted (List.rev g) \<Longrightarrow> sort g = List.rev g"
  using asc_sort_unique [of "List.rev g" g] by (simp add: strict_sorted_iff)

lemma desc_sort_unique: "desc_list l \<Longrightarrow> distinct xs \<Longrightarrow> set l = set xs \<Longrightarrow> l = List.rev (sort xs)"
  using desc_list_unique [of l "List.rev (sort xs)"] by (simp add: order_simps)

lemma ordered_unique:
  assumes "wf_smartset s" "wf_smartset t" "set (iter s) = set (iter t)"
  shows "isascending s \<Longrightarrow> iter s = sort (iter t)" "isdescending s \<Longrightarrow> iter s = List.rev (sort (iter t))"
  using assms iter_distinct [of t] isascending_asc [of s] isdescending_desc [of s]
    asc_sort_unique [of "iter s" "iter t"] desc_sort_unique [of "iter s" "iter t"] by simp_all

lemma smart_sort_wf: "wf_smartset s \<Longrightarrow> wf_smartset (smart_sort s rv)"
  by (induction s) (simp_all split: option.splits)

lemma smart_sort_contains: "contains (smart_sort s rv) x = contains s x"
  by (induction s) simp_all

lemma smart_sort_order: "isascending (smart_sort s False)" "isdescending (smart_sort s True)"
  by (induction s) simp_all

lemma smart_sort_iter:
  assumes "wf_smartset s"
  shows "iter (smart_sort s rv) = sorted_dir (\<not> rv) (iter s)"
proof -
  note wf = smart_sort_wf [OF assms, of rv]
  have "set (iter (smart_sort s rv)) = set (iter s)"
    using contains_iter [OF assms] contains_iter [OF wf] smart_sort_contains by blast
  then show ?thesis using ordered_unique [OF wf assms] smart_sort_order
    by (cases rv) (simp_all add: sorted_dir_def)
qed

lemma addset_list_iter:
  assumes "wf_smartset (Addset r1 r2 None gl al)"
  shows "addset_list r1 r2 None gl al = iter (Addset r1 r2 None gl al)"
  by (simp add: addset_list_def split: option.split list.split)

lemma sort_same_set:
  fixes xs ys :: "rev list"
  shows "distinct xs \<Longrightarrow> distinct ys \<Longrightarrow> set xs = set ys \<Longrightarrow> sort xs = sort ys"
  using asc_sort_unique [of "sort xs" ys] by (simp add: order_simps)

lemma smart_reverse_Addset:
  assumes wf: "wf_smartset (Addset r1 r2 None gl al)"
  shows "wf_smartset (smart_reverse (Addset r1 r2 None gl al))"
    and "iter (smart_reverse (Addset r1 r2 None gl al)) = List.rev (iter (Addset r1 r2 None gl al))"
proof -
  let ?l = "iter (Addset r1 r2 None gl al)"
  have e: "smart_reverse (Addset r1 r2 None gl al) = Addset r1 r2 None (Some (List.rev ?l)) al"
    by (simp add: addset_list_iter [OF wf] del: iter.simps)
  have u: "set ?l = set (iter r1) \<union> set (iter r2)" and d: "distinct ?l"
    using set_iter_Addset [OF wf] iter_distinct [OF wf] by simp_all
  have "al = None \<or> al = Some (sort (List.rev ?l))"
  proof (cases gl)
    case (Some g)
    then have "sort g = sort (List.rev ?l)" using wf u d by (intro sort_same_set) (simp_all del: iter.simps)
    then show ?thesis using wf Some by (auto simp del: iter.simps)
  qed (use wf in simp)
  then show "wf_smartset (smart_reverse (Addset r1 r2 None gl al))"
    unfolding e using wf u d by (simp del: iter.simps)
  show "iter (smart_reverse (Addset r1 r2 None gl al)) = List.rev ?l"
  proof (cases "?l = []")
    case True
    then have "set (iter r1) \<union> set (iter r2) = {}" using u by (metis list.set(1))
    then show ?thesis unfolding e True by simp
  next
    case False
    then obtain y ys where "List.rev ?l = y # ys" by (metis list.exhaust rev_is_Nil_conv)
    then show ?thesis unfolding e by simp
  qed
qed

lemma smart_reverse_laws:
  "wf_smartset s \<Longrightarrow> wf_smartset (smart_reverse s) \<and> iter (smart_reverse s) = List.rev (iter s)"
proof (induction s)
  case (Baseset l s asc topo)
  then show ?case by (cases asc; cases l; cases s) (simp_all add: bs_list_def split: option.splits bool.splits)
next
  case (Filteredset u c)
  then show ?case by (simp flip: rev_filter)
next
  case (Addset r1 r2 asc gl al)
  show ?case
  proof (cases asc)
    case None
    then show ?thesis using smart_reverse_Addset [of r1 r2 gl al] Addset.prems by blast
  next
    case (Some up)
    let ?t = "Addset r1 r2 (Some (\<not> up)) gl al" and ?s = "Addset r1 r2 (Some up) gl al"
    have wf: "wf_smartset ?s" "wf_smartset ?t" using Addset.prems by simp_all
    have "set (iter ?t) = set (iter ?s)" using set_iter_Addset [OF wf(1)] set_iter_Addset [OF wf(2)] by blast
    moreover have "iter ?s = sorted_dir up (iter ?s)"
      using ordered_unique [OF wf(1) wf(1)] by (cases up) (simp_all add: sorted_dir_def del: iter.simps wf_smartset.simps)
    moreover have "iter ?t = sorted_dir (\<not> up) (iter ?s)"
      using ordered_unique [OF wf(2) wf(1)] calculation(1)
      by (cases up) (simp_all add: sorted_dir_def del: iter.simps wf_smartset.simps)
    ultimately have "iter ?t = List.rev (iter ?s)" using sorted_dir_flip by metis
    then show ?thesis using wf Some by (simp del: iter.simps wf_smartset.simps)
  qed
next
  case (Generatorset g fin asc it)
  then show ?case by (auto simp: sorted_sort_id sort_desc)
qed (simp_all add: span_desc_rev)

lemmas smart_reverse_wf = smart_reverse_laws [THEN conjunct1]
lemmas smart_reverse_iter = smart_reverse_laws [THEN conjunct2]

lemma smart_last_iter: "wf_smartset s \<Longrightarrow> smart_last s = last_opt (iter s)"
proof (cases s)
  case (Baseset l s' asc topo)
  assume wf: "wf_smartset s"
  show ?thesis
  proof (cases "bs_list l s' = []")
    case True
    then show ?thesis using nonzero_iter [OF wf] Baseset
      by (simp add: Baseset_empty last_opt_def bs_asclist_def split: option.split bool.split del: nonzero.simps wf_smartset.simps)
  next
    case False
    then show ?thesis using nonzero_iter [OF wf] unfolding Baseset
      by (simp add: Baseset_empty last_opt_last split: option.split bool.split del: nonzero.simps wf_smartset.simps)
  qed
next
  case (Filteredset u c)
  assume "wf_smartset s"
  then show ?thesis unfolding Filteredset by (rule smart_last_Filteredset)
next
  case (Addset r1 r2 asc gl al)
  assume wf: "wf_smartset s"
  then show ?thesis using smart_first_iter [OF smart_reverse_wf [OF wf]] unfolding Addset
    by (simp add: smart_reverse_iter hd_opt_rev del: iter.simps smart_reverse.simps smart_first.simps wf_smartset.simps)
next
  case (Generatorset g fin asc it)
  assume wf: "wf_smartset s"
  have "smart_last s = hd_opt (iter (smart_reverse s))" unfolding Generatorset by simp
  then show ?thesis using smart_reverse_iter [OF wf] by (simp add: hd_opt_rev)
next
  case (Spanset a b asc hidden full)
  then show ?thesis by (simp add: span_desc_rev hd_opt_rev last_opt_rev)
qed (simp add: hd_opt_rev last_opt_rev)

lemma smart_min_iter:
  assumes wf: "wf_smartset s"
  shows "smart_min s =
    (if iter s \<noteq> [] then Inr (Some (Min (set (iter s))))
     else if \<exists>S asc. s = Spansset S asc then Inr None else Inl ValueError)"
proof (cases "\<exists>S asc. s = Spansset S asc")
  case True
  then obtain S asc where s: "s = Spansset S asc" by blast
  show ?thesis
  proof (cases "sorted_list_of_set S")
    case (Cons v l)
    then have "v = Min (set (iter s))" using sms.up_head_min [OF wf, of v l] s by simp
    moreover have "smart_min s = Inr (Some v)" "iter s \<noteq> []" using Cons by (simp_all add: s hd_opt_def)
    ultimately show ?thesis by simp
  qed (simp add: s hd_opt_def)
next
  case False
  then have "smart_min s = (case fastasc s of None \<Rightarrow> map_sum id Some (py_min (set (iter s)))
      | Some [] \<Rightarrow> Inl ValueError | Some (v # _) \<Rightarrow> Inr (Some v))"
    by (cases s) (auto simp del: iter.simps fastasc.simps)
  then show ?thesis using False sms.up_head_min [OF wf] sms.up_nonempty [OF wf]
    by (auto simp: py_min_def split: option.splits list.splits)
qed

lemma smart_max_iter:
  assumes wf: "wf_smartset s"
  shows "smart_max s =
    (if iter s \<noteq> [] then Inr (Some (Max (set (iter s))))
     else if \<exists>S asc. s = Spansset S asc then Inr None else Inl ValueError)"
proof (cases "\<exists>S asc. s = Spansset S asc")
  case True
  then obtain S asc where s: "s = Spansset S asc" by blast
  show ?thesis
  proof (cases "List.rev (sorted_list_of_set S)")
    case (Cons v l)
    then have "v = Max (set (iter s))" using sms.down_head_max [OF wf, of v l] s by simp
    moreover have "smart_max s = Inr (Some v)" using Cons by (simp add: s hd_opt_def flip: hd_opt_rev)
    moreover have "iter s \<noteq> []" using Cons by (auto simp: s)
    ultimately show ?thesis by simp
  qed (simp add: s last_opt_def)
next
  case False
  then have "smart_max s = (case fastdesc s of None \<Rightarrow> map_sum id Some (py_max (set (iter s)))
      | Some [] \<Rightarrow> Inl ValueError | Some (v # _) \<Rightarrow> Inr (Some v))"
    by (cases s) (auto simp del: iter.simps fastdesc.simps)
  then show ?thesis using False sms.down_head_max [OF wf] sms.down_nonempty [OF wf]
    by (auto simp: py_max_def split: option.splits list.splits)
qed

section \<open>Set operations\<close>

lemma Filteredset_wf: "wf_smartset (Filteredset u c) = wf_smartset u"
  by simp

lemma ordered_filter:
  assumes wf: "wf_smartset s" "wf_smartset t" and sub: "set (iter t) = set (iter s) \<inter> S"
    and dir: "isascending s \<and> isascending t \<or> isdescending s \<and> isdescending t"
  shows "iter t = filter (\<lambda>x. x \<in> S) (iter s)"
  using dir
proof
  assume d: "isascending s \<and> isascending t"
  then have "asc_list (filter (\<lambda>x. x \<in> S) (iter s))" using wf isascending_asc [of s] by (simp add: sorted_wrt_filter)
  then show ?thesis using d wf isascending_asc [of t] sub by (intro asc_list_unique) auto
next
  assume d: "isdescending s \<and> isdescending t"
  then have "desc_list (filter (\<lambda>x. x \<in> S) (iter s))" using wf isdescending_desc [of s] by (simp add: sorted_wrt_filter)
  then show ?thesis using d wf isdescending_desc [of t] sub by (intro desc_list_unique) auto
qed

lemma abstract_and_iter:
  assumes "is_fullreposet t \<Longrightarrow> set (iter s) \<subseteq> Collect (contains t)"
  shows "iter (abstract_and s t) = filter (contains t) (iter s)"
proof (cases "is_fullreposet t")
  case True
  then have "\<forall>x\<in>set (iter s). contains t x" using assms by blast
  then show ?thesis using True by (simp add: abstract_and_def)
qed (simp add: abstract_and_def smart_filter_def)

lemma abstract_sub_iter: "iter (abstract_sub s t) = filter (\<lambda>x. \<not> contains t x) (iter s)"
  by (simp add: abstract_sub_def smart_filter_def)

text \<open>\<open>baseset._fastsetop\<close> agrees with the generic operation.\<close>

lemma base_fastsetop_iter:
  assumes wf: "wf_smartset (Baseset l s asc topo)" "wf_smartset t"
    and gen: "iter (generic (Baseset l s asc topo) t) = filter (\<lambda>x. x \<in> op UNIV (Collect (contains t))) (iter (Baseset l s asc topo))"
    and op: "\<And>A B. op A B = A \<inter> op UNIV B"
    and gwf: "wf_smartset (generic (Baseset l s asc topo) t)"
  shows "wf_smartset (base_fastsetop op generic (Baseset l s asc topo) t)
    \<and> iter (base_fastsetop op generic (Baseset l s asc topo) t)
      = filter (\<lambda>x. x \<in> op UNIV (Collect (contains t))) (iter (Baseset l s asc topo))"
proof (cases "\<exists>s1 up l2 s2 asc2 topo2. s = Some s1 \<and> asc = Some up \<and> t = Baseset l2 (Some s2) asc2 topo2")
  case True
  then obtain s1 up l2 s2 asc2 topo2 where e: "s = Some s1" "asc = Some up" "t = Baseset l2 (Some s2) asc2 topo2" by blast
  let ?r = "Baseset None (Some (op s1 s2)) (Some up) topo"
  have fin: "finite s1" and c: "Collect (contains t) = s2" and i: "set (iter (Baseset l s asc topo)) = s1"
    using wf e by (auto simp: bs_set_def bs_list_def bs_asclist_def split: option.splits bool.splits)
  have r: "wf_smartset ?r" "set (iter ?r) = s1 \<inter> op UNIV s2"
    using fin op [of s1 s2] by (auto simp: bs_list_def bs_asclist_def split: bool.splits)
  have "iter ?r = filter (\<lambda>x. x \<in> op UNIV s2) (iter (Baseset l s asc topo))"
  proof (rule ordered_filter)
    show "isascending (Baseset l s asc topo) \<and> isascending ?r \<or> isdescending (Baseset l s asc topo) \<and> isdescending ?r"
      using e by (cases up) simp_all
  qed (use wf r i in blast)+
  then show ?thesis using r(1) e c by (simp del: iter.simps wf_smartset.simps)
next
  case False
  then have "base_fastsetop op generic (Baseset l s asc topo) t = generic (Baseset l s asc topo) t"
    by (cases s; cases asc; cases t) auto
  then show ?thesis using gen gwf by simp
qed

text \<open>
  What the shortcuts of \<open>__and__\<close> rely on: a full repository set contains the
  other operand, and the other operand of a descending span set holds visible
  revisions of the repository, the end of the span excluded.
\<close>

fun and_domain :: "smartset \<Rightarrow> smartset \<Rightarrow> bool" where
  "and_domain (Spanset a b asc hidden full) t \<longleftrightarrow>
     (if full then set (iter t) \<subseteq> {a..<b} - hidden
      else asc \<or> (\<forall>x\<in>set (iter t). 0 \<le> x \<and> x \<noteq> b \<and> x \<notin> hidden))
     \<and> (is_fullreposet t \<longrightarrow> {a..<b} - hidden \<subseteq> set (iter t))"
| "and_domain s t \<longleftrightarrow> (is_fullreposet t \<longrightarrow> set (iter s) \<subseteq> set (iter t))"

lemma and_domain_full: "wf_smartset t \<Longrightarrow> and_domain s t \<Longrightarrow> is_fullreposet t \<Longrightarrow> set (iter s) \<subseteq> Collect (contains t)"
  by (cases s) (auto simp: contains_iter span_desc_rev simp del: iter.simps(1-5))

lemma abstract_and_laws:
  assumes "wf_smartset s" "wf_smartset t" "and_domain s t"
  shows "wf_smartset (abstract_and s t) \<and> iter (abstract_and s t) = filter (contains t) (iter s)"
  using abstract_and_iter [OF and_domain_full [OF assms(2,3)]] assms(1)
  by (simp add: abstract_and_def smart_filter_def)

lemma filter_contains: "wf_smartset t \<Longrightarrow> filter (contains t) xs = filter (\<lambda>x. x \<in> set (iter t)) xs"
  by (simp add: contains_iter cong: filter_cong)

lemma desc_list_le_head: "desc_list (v # l) \<Longrightarrow> x \<in> set (v # l) \<Longrightarrow> x \<le> v"
  by auto

lemma span_and_laws:
  assumes wf: "wf_smartset (Spanset a b asc hidden False)" "wf_smartset t"
    and dom: "and_domain (Spanset a b asc hidden False) t"
  shows "wf_smartset (span_and (Spanset a b asc hidden False) t)
    \<and> iter (span_and (Spanset a b asc hidden False) t) = filter (contains t) (iter (Spanset a b asc hidden False))"
proof (cases "\<not> asc \<and> a = 0 \<and> isdescending t \<and> (case hd_opt (iter t) of None \<Rightarrow> True | Some rhsmax \<Rightarrow> rhsmax \<le> b)")
  case True
  let ?s = "Spanset a b asc hidden False"
  have e: "span_and ?s t = t" using True by (simp add: span_and_def)
  have "x < b" if "x \<in> set (iter t)" for x
  proof (cases "iter t")
    case (Cons v l)
    then have "x \<le> v" using desc_list_le_head isdescending_desc [OF wf(2)] True that by metis
    moreover have "v \<le> b" using True Cons by (simp add: hd_opt_def)
    moreover have "x \<noteq> b" using dom True that by simp
    ultimately show ?thesis by simp
  qed (use that in simp)
  then have "set (iter t) = set (iter ?s) \<inter> set (iter t)" using dom True by (auto simp: span_desc_rev)
  then have "iter t = filter (\<lambda>x. x \<in> set (iter t)) (iter ?s)"
    using ordered_filter [OF wf, of "set (iter t)"] True by simp
  then show ?thesis unfolding e using wf(2) filter_contains [OF wf(2)] by metis
next
  case False
  then have "span_and (Spanset a b asc hidden False) t = abstract_and (Spanset a b asc hidden False) t"
    by (auto simp: span_and_def)
  then show ?thesis using abstract_and_laws [OF wf dom] by simp
qed

lemma full_and_laws:
  assumes wf: "wf_smartset (Spanset a b asc hidden True)" "wf_smartset t"
    and dom: "and_domain (Spanset a b asc hidden True) t"
  shows "wf_smartset (smart_sort t (\<not> asc))
    \<and> iter (smart_sort t (\<not> asc)) = filter (contains t) (iter (Spanset a b asc hidden True))"
proof -
  let ?s = "Spanset a b asc hidden True"
  note w = smart_sort_wf [OF wf(2), of "\<not> asc"]
  have "set (iter (smart_sort t (\<not> asc))) = set (iter ?s) \<inter> set (iter t)"
    unfolding smart_sort_iter [OF wf(2)] using dom by (auto simp: sorted_dir_def span_desc_rev)
  then have "iter (smart_sort t (\<not> asc)) = filter (\<lambda>x. x \<in> set (iter t)) (iter ?s)"
    using ordered_filter [OF wf(1) w, of "set (iter t)"] smart_sort_order [of t] by (cases asc) simp_all
  then show ?thesis using w filter_contains [OF wf(2)] by metis
qed

lemma smart_and_laws:
  assumes wf: "wf_smartset s" "wf_smartset t" and dom: "and_domain s t"
  shows "wf_smartset (smart_and s t) \<and> iter (smart_and s t) = filter (contains t) (iter s)"
proof (cases s)
  case (Baseset l s' asc topo)
  then show ?thesis using base_fastsetop_iter [of l s' asc topo t abstract_and "(\<inter>)"] abstract_and_laws [OF wf dom] wf
    by (simp del: iter.simps wf_smartset.simps)
next
  case (Spansset S asc)
  show ?thesis
  proof (cases t)
    case t: (Spansset S' asc')
    have "iter (Spansset (S \<inter> S') asc) = filter (\<lambda>x. x \<in> S') (iter s)"
      by (rule ordered_filter) (use wf t Spansset in auto)
    moreover have "filter (\<lambda>x. x \<in> S') (iter s) = filter (contains t) (iter s)"
      by (rule filter_cong) (simp_all add: t)
    ultimately show ?thesis using wf t Spansset by (simp del: iter.simps)
  qed (use abstract_and_laws [OF wf dom] Spansset in simp_all)
next
  case (Spanset a b asc hidden full)
  then show ?thesis using span_and_laws [of a b asc hidden t] full_and_laws [of a b asc hidden t] wf dom
    by (cases full) (simp_all del: iter.simps wf_smartset.simps and_domain.simps)
qed (use abstract_and_laws [OF wf dom] in simp_all)

lemma smart_sub_laws:
  assumes wf: "wf_smartset s" "wf_smartset t"
  shows "wf_smartset (smart_sub s t) \<and> iter (smart_sub s t) = filter (\<lambda>x. \<not> contains t x) (iter s)"
proof -
  have gen: "wf_smartset (abstract_sub s t)" "iter (abstract_sub s t) = filter (\<lambda>x. \<not> contains t x) (iter s)"
    using wf by (simp_all add: abstract_sub_def smart_filter_def)
  show ?thesis
  proof (cases s)
    case (Baseset l s' asc topo)
    then show ?thesis using base_fastsetop_iter [of l s' asc topo t abstract_sub "(-)"] gen wf
      by (simp add: Diff_eq del: iter.simps wf_smartset.simps)
  next
    case (Spansset S asc)
    show ?thesis
    proof (cases t)
      case t: (Spansset S' asc')
      have "iter (Spansset (S - S') asc) = filter (\<lambda>x. x \<in> - S') (iter s)"
        by (rule ordered_filter) (use wf t Spansset in auto)
      then show ?thesis using wf t Spansset by simp
    qed (use gen Spansset in simp_all)
  qed (use gen in simp_all)
qed

lemma smart_add_wf: "wf_smartset s \<Longrightarrow> wf_smartset t \<Longrightarrow> wf_smartset (smart_add s t)"
  by (cases s; cases t) simp_all

lemma smart_add_contains: "contains (smart_add s t) x \<longleftrightarrow> contains s x \<or> contains t x"
  by (cases s; cases t) simp_all

lemma smart_add_order:
  "(\<exists>S a S' a'. s = Spansset S a \<and> t = Spansset S' a')
   \<or> iter (smart_add s t) = iter s @ filter (\<lambda>x. \<not> contains s x) (iter t)"
  by (cases s; cases t) simp_all

section \<open>Slices\<close>

lemma abstract_slice_iter: "iter (abstract_slice s start stop) = take (stop - start) (drop start (iter s))"
  by (simp add: abstract_slice_def baseset_list_def bs_list_def)

lemma abstract_slice_wf: "wf_smartset s \<Longrightarrow> wf_smartset (abstract_slice s start stop)"
  using iter_distinct [of s] by (simp add: abstract_slice_def baseset_list_def)

lemma rev_slice:
  "List.rev (take ((length xs - start) - (length xs - stop)) (drop (length xs - stop) xs))
    = take (stop - start) (drop start (List.rev xs))" (is "List.rev ?l = ?r")
proof (rule nth_equalityI)
  show len: "length (List.rev ?l) = length ?r" by simp
  fix i assume i: "i < length (List.rev ?l)"
  then have "start + i < length xs" by simp
  have "List.rev ?l ! i = xs ! ((length xs - stop) + (length ?l - Suc i))" using i by (simp add: rev_nth)
  moreover have "?r ! i = xs ! (length xs - Suc (start + i))" using i len \<open>start + i < length xs\<close> by (simp add: rev_nth)
  moreover have "(length xs - stop) + (length ?l - Suc i) = length xs - Suc (start + i)" using i by simp
  ultimately show "List.rev ?l ! i = ?r ! i" by simp
qed

lemma sort_slice: "sort (take n (drop m (sort xs))) = take n (drop m (sort xs))"
  by (simp add: sorted_sort_id sorted_wrt_take sorted_wrt_drop)

lemma take_drop_upto: "take n (drop m [a..b - 1]) = [min (a + int m) b..min (a + int m + int n) b - 1]" (is "?l = ?r")
proof (rule nth_equalityI)
  show len: "length ?l = length ?r" by simp
  fix i assume i: "i < length ?l"
  then have "i < nat (b - a) - m" "i < n" by simp_all
  then have "a + int m + int i < b" "i < n" by linarith+
  then show "?l ! i = ?r ! i" using i len by (simp add: nth_upto)
qed

lemma slice_Baseset_iter:
  assumes "wf_smartset (Baseset l s asc topo)"
  shows "iter (slice_class (Baseset l s asc topo) start stop) = take (stop - start) (drop start (iter (Baseset l s asc topo)))"
proof (cases asc)
  case (Some up)
  show ?thesis
  proof (cases up)
    case True
    then show ?thesis using Some by (simp add: bs_list_def [of "Some _"] bs_asclist_def sort_slice)
  next
    case False
    then show ?thesis using Some rev_slice [of "sort (bs_list l s)" start stop]
      by (simp add: Let_def bs_list_def [of "Some _"] bs_asclist_def sort_slice)
  qed
qed (simp add: bs_list_def)

lemma slice_Spanset_iter:
  assumes "a \<le> b"
  shows "iter (slice_class (Spanset a b asc {} full) start stop) = take (stop - start) (drop start (iter (Spanset a b asc {} full)))"
proof (cases asc)
  case True
  then show ?thesis using take_drop_upto [of "stop - start" start a b]
    by (cases "start \<le> stop") (simp_all add: span_asc_def span_filter_def of_nat_diff min_def)
next
  case False
  define n where "n = nat (b - a)"
  have "take (n - start - (n - stop)) (drop (n - stop) [a..b - 1]) = [max (b - int stop) a..max (b - int start) a - 1]"
  proof (cases "n - stop < n - start")
    case True
    then have "min (a + int (n - stop)) b = max (b - int stop) a"
        "min (a + int (n - stop) + int (n - start - (n - stop))) b = max (b - int start) a"
      using assms unfolding n_def by linarith+
    then show ?thesis by (simp only: take_drop_upto)
  next
    case False
    then have "max (b - int start) a - 1 < max (b - int stop) a" using assms unfolding n_def by linarith
    then show ?thesis using False by simp
  qed
  then show ?thesis using False rev_slice [of "[a..b - 1]" start stop]
    by (simp add: span_desc_rev span_asc_def span_filter_def n_def)
qed

lemma slice_class_iter:
  assumes "wf_smartset s"
  shows "iter (slice_class s start stop) = take (stop - start) (drop start (iter s))"
proof (cases s)
  case (Baseset l s' asc topo)
  then show ?thesis using slice_Baseset_iter assms by simp
next
  case (Spanset a b asc hidden full)
  then show ?thesis using slice_Spanset_iter [of a b asc full start stop] assms
    by (cases "hidden = {}") (simp_all add: abstract_slice_iter del: iter.simps)
qed (simp_all add: abstract_slice_iter del: iter.simps)

lemma slice_class_wf:
  assumes "wf_smartset s" "start \<le> stop"
  shows "wf_smartset (slice_class s start stop)"
proof (cases s)
  case (Baseset l s' asc topo)
  then show ?thesis using assms bs_wf(1) [of l s' asc topo]
    by (cases asc) (simp_all add: Let_def bs_asclist_def split: option.splits)
next
  case (Spanset a b asc hidden full)
  then show ?thesis using assms abstract_slice_wf [OF assms(1)] by auto
qed (use abstract_slice_wf [OF assms(1)] in simp_all)

section \<open>Properties\<close>

lemma fastasc_sort: "wf_smartset s \<Longrightarrow> fastasc s = None \<or> fastasc s = Some (sort (iter s))"
  using fastasc_iter [of s] asc_sort_unique [OF _ iter_distinct [of s]] by (cases "fastasc s") auto

lemma fastdesc_sort: "wf_smartset s \<Longrightarrow> fastdesc s = None \<or> fastdesc s = Some (List.rev (sort (iter s)))"
  using fastdesc_iter [of s] desc_sort_unique [OF _ iter_distinct [of s]] by (cases "fastdesc s") auto

text \<open>
  (C10) Every query of a well-formed smartset agrees with what its iterator
  yields, whatever class and cache state it has: the iterator has no
  duplicates, membership, length and truth value are those of the yielded
  list, \<open>first\<close> and \<open>last\<close> are its ends (\<open>None\<close> when it is empty), and the fast
  iterators yield the same revisions in increasing and decreasing order.
\<close>

theorem smartset_queries_agree:
  assumes "wf_smartset s"
  shows "distinct (iter s) \<and> (contains s x \<longleftrightarrow> x \<in> set (iter s))
    \<and> smart_len s = length (iter s) \<and> (nonzero s \<longleftrightarrow> iter s \<noteq> [])
    \<and> smart_first s = hd_opt (iter s) \<and> smart_last s = last_opt (iter s)
    \<and> (fastasc s = None \<or> fastasc s = Some (sort (iter s)))
    \<and> (fastdesc s = None \<or> fastdesc s = Some (List.rev (sort (iter s))))"
  using fastasc_sort [OF assms] fastdesc_sort [OF assms] assms
  by (simp add: iter_distinct contains_iter smart_len_iter nonzero_iter smart_first_iter smart_last_iter)

theorem smartset_queries_agree_witness:
  "wf_smartset (Addset (baseset_list [3, 1] False) (Spanset 0 3 False {2} False) None None None)
   \<and> smart_last (Addset (baseset_list [3, 1] False) (Spanset 0 3 False {2} False) None None None)
     = last_opt (iter (Addset (baseset_list [3, 1] False) (Spanset 0 3 False {2} False) None None None))"
  using smartset_queries_agree [of "Addset (baseset_list [3, 1] False) (Spanset 0 3 False {2} False) None None None"]
  by (simp add: baseset_list_def del: iter.simps smart_last.simps)

text \<open>
  (C35) \<open>min()\<close> and \<open>max()\<close> return the extremes of the iterated revisions; on an
  empty set they raise ValueError, except for the native span set, which
  returns \<open>None\<close>.
\<close>

theorem smart_min_max:
  assumes "wf_smartset s"
  shows "smart_min s =
      (if iter s \<noteq> [] then Inr (Some (Min (set (iter s))))
       else if \<exists>S asc. s = Spansset S asc then Inr None else Inl ValueError)
    \<and> smart_max s =
      (if iter s \<noteq> [] then Inr (Some (Max (set (iter s))))
       else if \<exists>S asc. s = Spansset S asc then Inr None else Inl ValueError)"
  using smart_min_iter [OF assms] smart_max_iter [OF assms] by simp

theorem smart_min_max_witness:
  "smart_min (Generatorset [5, 2, 9] False True None) = Inr (Some (Min {5, 2, 9}))"
  using smart_min_max [of "Generatorset [5, 2, 9] False True None"] by simp

text \<open>
  (C32) \<open>sort\<close> and \<open>reverse\<close> change the order and nothing else: the sorted set
  yields the sorted list in the requested direction, the reversed one yields
  the reversed list, and both keep the caches consistent.
\<close>

theorem smart_reorder:
  assumes "wf_smartset s"
  shows "wf_smartset (smart_sort s rv) \<and> iter (smart_sort s rv) = sorted_dir (\<not> rv) (iter s)
    \<and> wf_smartset (smart_reverse s) \<and> iter (smart_reverse s) = List.rev (iter s)"
  using smart_sort_wf smart_sort_iter smart_reverse_laws assms by blast

theorem smart_reorder_witness:
  "iter (smart_reverse (smart_reverse (Addset (baseset_list [3, 1] False) (baseset_list [2] False) None None None)))
   = List.rev (List.rev [3, 1, 2])"
  using smart_reorder [of "smart_reverse (Addset (baseset_list [3, 1] False) (baseset_list [2] False) None None None)" False]
  by (simp add: baseset_list_def bs_list_def bs_set_def addset_list_def)

text \<open>
  (C13) The set operators keep the left operand's order: \<open>a & b\<close> yields exactly
  the elements of \<open>a\<close> that are in \<open>b\<close>, \<open>a - b\<close> those that are not, in the order
  of \<open>a\<close>, through every fast path of every class; for \<open>&\<close> under what its
  shortcuts rely on.
\<close>

theorem smart_and_sub:
  assumes "wf_smartset s" "wf_smartset t" "and_domain s t"
  shows "wf_smartset (smart_and s t) \<and> iter (smart_and s t) = filter (contains t) (iter s)
    \<and> wf_smartset (smart_sub s t) \<and> iter (smart_sub s t) = filter (\<lambda>x. \<not> contains t x) (iter s)"
  using smart_and_laws [OF assms] smart_sub_laws [OF assms(1,2)] by blast

theorem smart_and_sub_witness:
  "iter (smart_and (Spanset 0 5 False {} False) (Spanset 1 4 False {} False)) = filter (contains (Spanset 1 4 False {} False)) (iter (Spanset 0 5 False {} False))
   \<and> contains (Spanset 1 4 False {} False) 3"
  using smart_and_sub [of "Spanset 0 5 False {} False" "Spanset 1 4 False {} False"]
  by (simp add: span_desc_rev del: iter.simps(1-5) smart_and.simps)

text \<open>
  \<open>a + b\<close> holds what either operand holds, and yields \<open>a\<close> followed by what
  \<open>b\<close> adds to it (the native span sets, which are always sorted, apart).
\<close>

lemma smart_add_union:
  assumes "wf_smartset s" "wf_smartset t"
  shows "wf_smartset (smart_add s t) \<and> set (iter (smart_add s t)) = set (iter s) \<union> set (iter t)
    \<and> ((\<exists>S a S' a'. s = Spansset S a \<and> t = Spansset S' a')
       \<or> iter (smart_add s t) = iter s @ filter (\<lambda>x. x \<notin> set (iter s)) (iter t))"
proof -
  note w = smart_add_wf [OF assms]
  have "set (iter (smart_add s t)) = set (iter s) \<union> set (iter t)"
    using contains_iter [OF w] contains_iter [OF assms(1)] contains_iter [OF assms(2)] smart_add_contains by blast
  moreover have "filter (\<lambda>x. \<not> contains s x) (iter t) = filter (\<lambda>x. x \<notin> set (iter s)) (iter t)"
    using contains_iter [OF assms(1)] by (intro filter_cong) simp_all
  ultimately show ?thesis using w smart_add_order [of s t] by metis
qed

text \<open>
  (C33) \<open>slice(start, stop)\<close> yields the elements \<open>start\<close> to \<open>stop - 1\<close> of the
  iteration on every class, and negative bounds raise ProgrammingError.
\<close>

theorem smart_slice_elements:
  assumes "wf_smartset s"
  shows "if start < 0 \<or> stop < 0
    then smart_slice s start stop = Inl (ProgrammingError ''negative index not allowed'')
    else \<exists>t. smart_slice s start stop = Inr t
      \<and> iter t = take (nat stop - nat start) (drop (nat start) (iter s))
      \<and> (stop < start \<or> wf_smartset t)"
  using slice_class_iter [OF assms, of "nat start" "nat stop"] slice_class_wf [OF assms, of "nat start" "nat stop"]
  by (simp add: smart_slice_def) linarith

theorem smart_slice_elements_witness:
  "wf_smartset (Spanset 2 9 False {} False)
   \<and> (\<exists>t. smart_slice (Spanset 2 9 False {} False) 1 3 = Inr t
      \<and> iter t = take (nat 3 - nat 1) (drop (nat 1) (iter (Spanset 2 9 False {} False)))
      \<and> (3 < (1::int) \<or> wf_smartset t))"
  using smart_slice_elements [of "Spanset 2 9 False {} False" 1 3] by simp

text \<open>
  An empty slice of a span set, with the stop before the start, yields
  nothing but reports a positive length.
\<close>

lemma span_slice_length:
  "\<exists>s t. wf_smartset s \<and> smart_slice s 3 1 = Inr t \<and> iter t = [] \<and> smart_len t = 2"
  by (rule exI [of _ "Spanset 0 9 True {} False"]) (simp add: smart_slice_def span_asc_def span_filter_def)


end
