(* ===== verification/Genset.thy ===== *)
theory Genset
  imports Smartset_ops
begin

text \<open>
  The class \<open>generatorset\<close> of \<open>mercurial/smartset.py\<close> as the stateful object it
  is: a partly consumed generator, the cache of membership answers, the list of
  what was generated and the fast iterators it installs when the generator ends.
  Every operation refines the constructor \<open>Generatorset\<close> of the datatype of
  smartsets, in any interleaving with other iterators over the same object.
\<close>

section \<open>State\<close>

text \<open>What the attribute \<open>fastasc\<close> or \<open>fastdesc\<close> holds.\<close>

datatype fast_iter =
    NoFast
  | Fast_iterator
  | Fast_list "rev list"

record genset =
  gs_gen :: "rev list"
  gs_asclist :: "rev list option"
  gs_cache :: "rev \<rightharpoonup> bool"
  gs_genlist :: "rev list"
  gs_finished :: bool
  gs_ascending :: bool
  gs_fastasc :: fast_iter
  gs_fastdesc :: fast_iter
  gs_containing :: "bool option"

text \<open>
  \<open>__init__\<close>: \<open>gs_gen\<close> is what the generator has still to yield, \<open>gs_containing\<close>
  which of the contains methods the attribute \<open>__contains__\<close> is.
\<close>

definition gs_init :: "rev list \<Rightarrow> bool option \<Rightarrow> genset" where
  "gs_init gen iterasc =
     \<lparr> gs_gen = gen, gs_asclist = None, gs_cache = Map.empty, gs_genlist = [], gs_finished = False,
       gs_ascending = True,
       gs_fastasc = (if iterasc = Some True then Fast_iterator else NoFast),
       gs_fastdesc = (if iterasc = Some False then Fast_iterator else NoFast),
       gs_containing = iterasc \<rparr>"

section \<open>Consuming the generator\<close>

text \<open>One \<open>next()\<close> of \<open>_consumegen\<close>: the next item, or the end of the generator.\<close>

definition consumegen :: "genset \<Rightarrow> rev option \<times> genset" where
  "consumegen s =
     (case gs_gen s of
        item # rest \<Rightarrow>
          (Some item, s\<lparr> gs_gen := rest, gs_cache := (gs_cache s)(item \<mapsto> True),
                         gs_genlist := gs_genlist s @ [item] \<rparr>)
      | [] \<Rightarrow>
          (None, if gs_finished s then s
                 else let asc = sort (gs_genlist s)
                      in s\<lparr> gs_finished := True, gs_asclist := Some asc,
                            gs_fastasc := Fast_list asc, gs_fastdesc := Fast_list (List.rev asc) \<rparr>))"

lemma consumegen_gen: "(Some x, s') = consumegen s \<Longrightarrow> length (gs_gen s) = Suc (length (gs_gen s'))"
  by (auto simp: consumegen_def split: list.splits)

text \<open>\<open>for x in self._consumegen(): pass\<close>\<close>

function consume_all :: "genset \<Rightarrow> genset" where
  "consume_all s = (case consumegen s of (Some x, s') \<Rightarrow> consume_all s' | (None, s') \<Rightarrow> s')"
  by auto
termination
  by (relation "measure (length \<circ> gs_gen)") (auto dest: consumegen_gen)

declare consume_all.simps [simp del]

definition gs_nonzero :: "genset \<Rightarrow> bool \<times> genset" where
  "gs_nonzero s =
     (if gs_genlist s \<noteq> [] then (True, s)
      else case consumegen s of (Some r, s') \<Rightarrow> (True, s') | (None, s') \<Rightarrow> (False, s'))"

section \<open>Membership\<close>

text \<open>The loop of the three contains methods; \<open>stop\<close> is their early exit.\<close>

function contains_loop :: "(rev \<Rightarrow> bool) \<Rightarrow> rev \<Rightarrow> genset \<Rightarrow> bool \<times> genset" where
  "contains_loop stop x s =
     (case consumegen s of
        (Some l, s') \<Rightarrow>
          if l = x then (True, s')
          else if stop l then (False, s'\<lparr> gs_cache := (gs_cache s')(x \<mapsto> False) \<rparr>)
          else contains_loop stop x s'
      | (None, s') \<Rightarrow> (False, s'\<lparr> gs_cache := (gs_cache s')(x \<mapsto> False) \<rparr>))"
  by auto
termination
  by (relation "measure (\<lambda>(stop, x, s). length (gs_gen s))") (auto dest: consumegen_gen)

declare contains_loop.simps [simp del]

definition gs_contains :: "genset \<Rightarrow> rev \<Rightarrow> bool \<times> genset" where
  "gs_contains s x =
     (case gs_cache s x of
        Some b \<Rightarrow> (b, s)
      | None \<Rightarrow> contains_loop (\<lambda>l. False) x s)"

definition gs_asccontains :: "genset \<Rightarrow> rev \<Rightarrow> bool \<times> genset" where
  "gs_asccontains s x =
     (case gs_cache s x of
        Some b \<Rightarrow> (b, s)
      | None \<Rightarrow> contains_loop (\<lambda>l. x < l) x s)"

definition gs_desccontains :: "genset \<Rightarrow> rev \<Rightarrow> bool \<times> genset" where
  "gs_desccontains s x =
     (case gs_cache s x of
        Some b \<Rightarrow> (b, s)
      | None \<Rightarrow> contains_loop (\<lambda>l. l < x) x s)"

text \<open>The attribute \<open>__contains__\<close>, as \<open>filter(other.__contains__)\<close> reads it.\<close>

definition gs_contains_attr :: "genset \<Rightarrow> rev \<Rightarrow> bool \<times> genset" where
  "gs_contains_attr s x =
     (case gs_containing s of
        None \<Rightarrow> gs_contains s x
      | Some True \<Rightarrow> gs_asccontains s x
      | Some False \<Rightarrow> gs_desccontains s x)"

section \<open>Iteration\<close>

text \<open>
  One \<open>next()\<close> of the generator of \<open>_iterator\<close>, whose local \<open>i\<close> is the argument:
  an item another iterator has generated already, or a new one.
\<close>

definition iterator_next :: "nat \<Rightarrow> genset \<Rightarrow> rev option \<times> genset" where
  "iterator_next i s = (if i < length (gs_genlist s) then (Some (gs_genlist s ! i), s) else consumegen s)"

text \<open>The items it yields when it is run to the end.\<close>

function iterator_run :: "nat \<Rightarrow> genset \<Rightarrow> rev list \<times> genset" where
  "iterator_run i s =
     (case iterator_next i s of
        (Some x, s') \<Rightarrow> (case iterator_run (Suc i) s' of (xs, s'') \<Rightarrow> (x # xs, s''))
      | (None, s') \<Rightarrow> ([], s'))"
  by auto
termination
  by (relation "measures [\<lambda>(i, s). length (gs_gen s), \<lambda>(i, s). length (gs_genlist s) - i]")
    (auto simp: iterator_next_def consumegen_def split: if_splits list.splits)

declare iterator_run.simps [simp del]

definition iterator_all :: "genset \<Rightarrow> rev list \<times> genset" where
  "iterator_all s = (if gs_finished s then (gs_genlist s, s) else iterator_run 0 s)"

definition fast_all :: "fast_iter \<Rightarrow> genset \<Rightarrow> (rev list \<times> genset) option" where
  "fast_all f s =
     (case f of
        NoFast \<Rightarrow> None
      | Fast_iterator \<Rightarrow> Some (iterator_all s)
      | Fast_list l \<Rightarrow> Some (l, s))"

text \<open>\<open>__iter__\<close>, run to the end\<close>

partial_function (option) gs_iter :: "genset \<Rightarrow> (rev list \<times> genset) option" where
  "gs_iter s =
     (case fast_all (if gs_ascending s then gs_fastasc s else gs_fastdesc s) s of
        Some r \<Rightarrow> Some r
      | None \<Rightarrow> gs_iter (consume_all s))"

text \<open>\<open>next(it(), None)\<close>\<close>

definition fast_next :: "fast_iter \<Rightarrow> genset \<Rightarrow> (rev option \<times> genset) option" where
  "fast_next f s =
     (case f of
        NoFast \<Rightarrow> None
      | Fast_iterator \<Rightarrow> Some (if gs_finished s then (hd_opt (gs_genlist s), s) else iterator_next 0 s)
      | Fast_list l \<Rightarrow> Some (hd_opt l, s))"

partial_function (option) gs_first :: "genset \<Rightarrow> (rev option \<times> genset) option" where
  "gs_first s =
     (case fast_next (if gs_ascending s then gs_fastasc s else gs_fastdesc s) s of
        Some r \<Rightarrow> Some r
      | None \<Rightarrow> gs_first (consume_all s))"

partial_function (option) gs_last :: "genset \<Rightarrow> (rev option \<times> genset) option" where
  "gs_last s =
     (case fast_next (if gs_ascending s then gs_fastdesc s else gs_fastasc s) s of
        Some r \<Rightarrow> Some r
      | None \<Rightarrow> gs_last (consume_all s))"

definition gs_len :: "genset \<Rightarrow> nat \<times> genset" where
  "gs_len s = (let s' = consume_all s in (length (gs_genlist s'), s'))"

definition gs_sort :: "bool \<Rightarrow> genset \<Rightarrow> genset" where
  "gs_sort rv s = s\<lparr> gs_ascending := \<not> rv \<rparr>"

definition gs_reverse :: "genset \<Rightarrow> genset" where
  "gs_reverse s = s\<lparr> gs_ascending := \<not> gs_ascending s \<rparr>"

section \<open>Invariant\<close>

text \<open>The smartset a generator set stands for.\<close>

definition gs_abs :: "genset \<Rightarrow> smartset" where
  "gs_abs s = Generatorset (gs_genlist s @ gs_gen s) (gs_finished s) (gs_ascending s) (gs_containing s)"

text \<open>
  The generated and the remaining items are the generator's values, a cached
  answer is right, and the fast iterators are the sorted list once the generator
  has ended and the generator itself, if it is ordered, before.
\<close>

definition gs_inv :: "bool option \<Rightarrow> rev list \<Rightarrow> genset \<Rightarrow> bool" where
  "gs_inv it vs s \<longleftrightarrow>
     gs_genlist s @ gs_gen s = vs \<and> gs_containing s = it
     \<and> (\<forall>x. gs_cache s x = Some True \<longleftrightarrow> x \<in> set (gs_genlist s))
     \<and> (\<forall>x. gs_cache s x = Some False \<longrightarrow> x \<notin> set vs)
     \<and> (if gs_finished s
        then gs_gen s = [] \<and> gs_asclist s = Some (sort vs)
          \<and> gs_fastasc s = Fast_list (sort vs) \<and> gs_fastdesc s = Fast_list (List.rev (sort vs))
        else gs_asclist s = None
          \<and> gs_fastasc s = (if it = Some True then Fast_iterator else NoFast)
          \<and> gs_fastdesc s = (if it = Some False then Fast_iterator else NoFast))"

abbreviation gen_ok :: "bool option \<Rightarrow> rev list \<Rightarrow> bool" where
  "gen_ok it vs \<equiv> wf_smartset (Generatorset vs False True it)"

lemma gs_inv_abs: "gs_inv it vs s \<Longrightarrow> gs_abs s = Generatorset vs (gs_finished s) (gs_ascending s) it"
  by (simp add: gs_inv_def gs_abs_def)

lemma gs_init_inv: "gs_inv it vs (gs_init vs it)"
  by (simp add: gs_inv_def gs_init_def)

lemma gs_inv_update [simp]:
  "gs_inv it vs (s\<lparr> gs_ascending := a \<rparr>) = gs_inv it vs s"
  "x \<notin> set vs \<Longrightarrow> gs_inv it vs s \<Longrightarrow> gs_inv it vs (s\<lparr> gs_cache := (gs_cache s)(x \<mapsto> False) \<rparr>)"
  by (auto simp: gs_inv_def)

text \<open>\<open>later it vs s t\<close>: \<open>t\<close> is a later state of the same set, iterated the same way.\<close>

abbreviation later :: "bool option \<Rightarrow> rev list \<Rightarrow> genset \<Rightarrow> genset \<Rightarrow> bool" where
  "later it vs s t \<equiv>
     gs_inv it vs t \<and> gs_ascending t = gs_ascending s \<and> length (gs_genlist s) \<le> length (gs_genlist t)"

lemma consumegen_cases:
  assumes "gs_inv it vs s" "consumegen s = (r, s')"
  shows "later it vs s s'
    \<and> (case r of
         Some x \<Rightarrow> length (gs_genlist s) < length vs \<and> x = vs ! length (gs_genlist s) \<and> gs_genlist s' = gs_genlist s @ [x]
           \<and> gs_finished s' = gs_finished s
       | None \<Rightarrow> gs_genlist s = vs \<and> gs_genlist s' = vs \<and> gs_finished s')"
proof (cases "gs_gen s")
  case Nil
  then show ?thesis using assms
    by (cases "gs_finished s") (auto simp: consumegen_def gs_inv_def Let_def)
next
  case (Cons item rest)
  then have vs: "vs = gs_genlist s @ item # rest" using assms(1) by (simp add: gs_inv_def)
  have "\<not> gs_finished s" using assms(1) Cons by (auto simp: gs_inv_def)
  moreover have "r = Some item" "s' = s\<lparr> gs_gen := rest, gs_cache := (gs_cache s)(item \<mapsto> True), gs_genlist := gs_genlist s @ [item] \<rparr>"
    using assms(2) Cons by (simp_all add: consumegen_def)
  ultimately show ?thesis using assms(1) Cons vs by (simp add: gs_inv_def)
qed

lemma consume_all_laws:
  "gs_inv it vs s \<Longrightarrow>
    later it vs s (consume_all s) \<and> gs_genlist (consume_all s) = vs \<and> gs_finished (consume_all s)"
proof (induction s rule: consume_all.induct)
  case (1 s)
  obtain r s' where c: "consumegen s = (r, s')" by (cases "consumegen s")
  note laws = consumegen_cases [OF "1.prems" c]
  show ?case
  proof (cases r)
    case None
    then show ?thesis using laws c by (simp add: consume_all.simps [of s])
  next
    case (Some x)
    then have "consume_all s = consume_all s'" using c by (simp add: consume_all.simps [of s])
    then show ?thesis using "1.IH" [OF c [symmetric, unfolded Some]] laws by auto
  qed
qed

lemma contains_loop_laws:
  "gs_inv it vs s \<Longrightarrow> x \<notin> set (gs_genlist s) \<Longrightarrow>
   (\<And>i j. stop (vs ! i) \<Longrightarrow> i < j \<Longrightarrow> j < length vs \<Longrightarrow> vs ! j \<noteq> x) \<Longrightarrow>
   contains_loop stop x s = (b, s') \<Longrightarrow>
   b = (x \<in> set vs) \<and> later it vs s s'"
proof (induction stop x s rule: contains_loop.induct)
  case (1 stop x s)
  obtain r s1 where c: "consumegen s = (r, s1)" by (cases "consumegen s")
  note laws = consumegen_cases [OF "1.prems"(1) c]
  define n where "n = length (gs_genlist s)"
  have gl: "gs_genlist s = take n vs" using "1.prems"(1) by (auto simp: gs_inv_def n_def)
  show ?case
  proof (cases r)
    case None
    then show ?thesis using laws c "1.prems"(2,4) by (auto simp: contains_loop.simps [of stop x s])
  next
    case (Some l)
    then have l: "n < length vs" "l = vs ! n" "gs_genlist s1 = gs_genlist s @ [l]" and inv: "gs_inv it vs s1"
      using laws by (simp_all add: n_def)
    consider (found) "l = x" | (exit) "l \<noteq> x" "stop l" | (cont) "l \<noteq> x" "\<not> stop l" by blast
    then show ?thesis
    proof cases
      case found
      then show ?thesis using l Some c "1.prems"(4) laws by (auto simp: contains_loop.simps [of stop x s])
    next
      case exit
      have "x \<notin> set vs"
      proof
        assume "x \<in> set vs"
        then obtain j where j: "j < length vs" "vs ! j = x" by (auto simp: in_set_conv_nth)
        then have "\<not> j < n" using "1.prems"(2) gl by (metis in_set_conv_nth length_take min_less_iff_conj nth_take)
        then show False using "1.prems"(3) [of n j] exit l j by (cases "j = n") auto
      qed
      then show ?thesis using exit Some c "1.prems"(4) laws inv by (auto simp: contains_loop.simps [of stop x s])
    next
      case cont
      then have lp: "contains_loop stop x s1 = (b, s')" using Some c "1.prems"(4) by (simp add: contains_loop.simps [of stop x s])
      have "x \<notin> set (gs_genlist s1)" using l(3) "1.prems"(2) cont by simp
      then have "b = (x \<in> set vs) \<and> later it vs s1 s'"
        by (rule "1.IH" [OF c [symmetric] Some cont inv]) (rule "1.prems"(3), assumption+, rule lp)
      then show ?thesis using laws by auto
    qed
  qed
qed

lemma cache_hit:
  assumes "gs_inv it vs s"
  shows "gs_cache s x = Some b \<Longrightarrow> b = (x \<in> set vs)" "gs_cache s x = None \<Longrightarrow> x \<notin> set (gs_genlist s)"
proof -
  have hit: "gs_cache s x = Some True \<longleftrightarrow> x \<in> set (gs_genlist s)" "gs_cache s x = Some False \<longrightarrow> x \<notin> set vs"
    and vs: "vs = gs_genlist s @ gs_gen s" using assms by (simp_all add: gs_inv_def)
  show "gs_cache s x = Some b \<Longrightarrow> b = (x \<in> set vs)" using hit vs by (cases b) simp_all
  show "gs_cache s x = None \<Longrightarrow> x \<notin> set (gs_genlist s)" using hit(1) by simp
qed

lemma gs_contains_laws:
  assumes "gs_inv it vs s" "gs_contains s x = (b, s')"
  shows "b = (x \<in> set vs) \<and> later it vs s s'"
proof (cases "gs_cache s x")
  case None
  then show ?thesis
    using contains_loop_laws [OF assms(1) cache_hit(2) [OF assms(1) None], of "\<lambda>l. False" b s'] assms(2)
    by (simp add: gs_contains_def)
qed (use assms cache_hit(1) [OF assms(1)] in \<open>auto simp: gs_contains_def\<close>)

lemma gs_asccontains_laws:
  assumes "gs_inv it vs s" "sorted vs" "gs_asccontains s x = (b, s')"
  shows "b = (x \<in> set vs) \<and> later it vs s s'"
proof (cases "gs_cache s x")
  case None
  have "vs ! j \<noteq> x" if "x < vs ! i" "i < j" "j < length vs" for i j
    using sorted_nth_mono [OF assms(2), of i j] that by simp
  then show ?thesis
    using contains_loop_laws [OF assms(1) cache_hit(2) [OF assms(1) None], of "\<lambda>l. x < l" b s'] assms(3) None
    by (simp add: gs_asccontains_def)
qed (use assms cache_hit(1) [OF assms(1)] in \<open>auto simp: gs_asccontains_def\<close>)

lemma sorted_rev_nth_le: "sorted (List.rev vs) \<Longrightarrow> i < j \<Longrightarrow> j < length vs \<Longrightarrow> vs ! j \<le> vs ! i"
  using sorted_rev_nth_mono [of vs i j] by simp

lemma gs_desccontains_laws:
  assumes "gs_inv it vs s" "sorted (List.rev vs)" "gs_desccontains s x = (b, s')"
  shows "b = (x \<in> set vs) \<and> later it vs s s'"
proof (cases "gs_cache s x")
  case None
  have "vs ! j \<noteq> x" if "vs ! i < x" "i < j" "j < length vs" for i j
    using sorted_rev_nth_le [OF assms(2), of i j] that by simp
  then show ?thesis
    using contains_loop_laws [OF assms(1) cache_hit(2) [OF assms(1) None], of "\<lambda>l. l < x" b s'] assms(3) None
    by (simp add: gs_desccontains_def)
qed (use assms cache_hit(1) [OF assms(1)] in \<open>auto simp: gs_desccontains_def\<close>)

lemma gs_contains_attr_laws:
  assumes "gs_inv it vs s" "gen_ok it vs" "gs_contains_attr s x = (b, s')"
  shows "b = (x \<in> set vs) \<and> later it vs s s'"
proof -
  have it: "gs_containing s = it" using assms(1) by (simp add: gs_inv_def)
  consider (plain) "it = None" | (asc) "it = Some True" | (desc) "it = Some False" by (cases it) auto
  then show ?thesis
  proof cases
    case plain
    then show ?thesis using gs_contains_laws [OF assms(1)] it assms(3) by (simp add: gs_contains_attr_def)
  next
    case asc
    then show ?thesis using gs_asccontains_laws [OF assms(1)] it assms(2,3) by (simp add: gs_contains_attr_def)
  next
    case desc
    then show ?thesis using gs_desccontains_laws [OF assms(1)] it assms(2,3) by (simp add: gs_contains_attr_def)
  qed
qed

lemma iterator_next_laws:
  assumes "gs_inv it vs s" "i \<le> length (gs_genlist s)" "iterator_next i s = (r, s')"
  shows "later it vs s s'
    \<and> (case r of
         Some x \<Rightarrow> i < length vs \<and> x = vs ! i \<and> i < length (gs_genlist s') \<and> gs_finished s' = gs_finished s
       | None \<Rightarrow> i = length vs \<and> gs_finished s')"
proof (cases "i < length (gs_genlist s)")
  case True
  have "vs = gs_genlist s @ gs_gen s" using assms(1) by (simp add: gs_inv_def)
  then show ?thesis using True assms by (auto simp: iterator_next_def nth_append)
next
  case False
  then have "consumegen s = (r, s')" "i = length (gs_genlist s)" using assms(2,3) by (simp_all add: iterator_next_def)
  then show ?thesis using consumegen_cases [OF assms(1), of r s'] by (cases r) auto
qed

lemma iterator_run_laws:
  "gs_inv it vs s \<Longrightarrow> i \<le> length (gs_genlist s) \<Longrightarrow> iterator_run i s = (xs, s') \<Longrightarrow>
    xs = drop i vs \<and> later it vs s s'"
proof (induction i s arbitrary: xs s' rule: iterator_run.induct)
  case (1 i s)
  obtain r s1 where n: "iterator_next i s = (r, s1)" by (cases "iterator_next i s")
  note laws = iterator_next_laws [OF "1.prems"(1,2) n]
  show ?case
  proof (cases r)
    case None
    then have "iterator_run i s = ([], s1)" using n by (simp add: iterator_run.simps [of i s])
    then show ?thesis using laws None "1.prems"(3) by simp
  next
    case (Some x)
    obtain ys s2 where run: "iterator_run (Suc i) s1 = (ys, s2)" by (cases "iterator_run (Suc i) s1")
    have "xs = x # ys" "s' = s2" using "1.prems"(3) n Some run by (simp_all add: iterator_run.simps [of i s])
    moreover have "drop i vs = x # drop (Suc i) vs" using laws Some by (simp add: Cons_nth_drop_Suc)
    ultimately show ?thesis using "1.IH" [OF n [symmetric] Some _ _ run] laws Some by simp
  qed
qed

section \<open>Refinement\<close>

lemma finished_fast:
  assumes "gs_inv it vs s" "gs_finished s"
  shows "gs_fastasc s = Fast_list (sort vs)" "gs_fastdesc s = Fast_list (List.rev (sort vs))"
  using assms by (simp_all add: gs_inv_def)

lemma unfinished_fast:
  assumes "gs_inv it vs s" "\<not> gs_finished s"
  shows "gs_fastasc s = (if it = Some True then Fast_iterator else NoFast)"
    "gs_fastdesc s = (if it = Some False then Fast_iterator else NoFast)"
  using assms by (simp_all add: gs_inv_def)

lemma iter_finished:
  assumes "gs_inv it vs s" "gs_finished s"
  shows "gs_iter s = Some (if gs_ascending s then sort vs else List.rev (sort vs), s)"
    "gs_first s = Some (hd_opt (if gs_ascending s then sort vs else List.rev (sort vs)), s)"
    "gs_last s = Some (hd_opt (if gs_ascending s then List.rev (sort vs) else sort vs), s)"
  using finished_fast [OF assms]
  by (simp_all add: gs_iter.simps [of s] gs_first.simps [of s] gs_last.simps [of s] fast_all_def fast_next_def)

lemma gs_iter_laws:
  assumes inv: "gs_inv it vs s"
  shows "\<exists>s'. gs_iter s = Some (iter (gs_abs s), s') \<and> later it vs s s'"
proof (cases "gs_finished s")
  case True
  then show ?thesis using inv iter_finished [OF inv True] by (simp add: gs_inv_abs [OF inv])
next
  case False
  note all = consume_all_laws [OF inv]
  obtain s1 where run: "iterator_run 0 s = (vs, s1)" "later it vs s s1"
    using iterator_run_laws [OF inv, of 0] by (cases "iterator_run 0 s") auto
  show ?thesis
  proof (cases "it = Some (gs_ascending s)")
    case True
    then have "gs_iter s = Some (vs, s1)" using unfinished_fast [OF inv False] False run(1)
      by (cases "gs_ascending s") (simp_all add: gs_iter.simps [of s] fast_all_def iterator_all_def)
    moreover have "iter (gs_abs s) = vs" using True False by (cases "gs_ascending s") (simp_all add: gs_inv_abs [OF inv])
    ultimately show ?thesis using run by simp
  next
    case NoFast: False
    then have "gs_iter s = gs_iter (consume_all s)" using unfinished_fast [OF inv False]
      by (cases "gs_ascending s") (simp_all add: gs_iter.simps [of s] fast_all_def)
    moreover have "iter (gs_abs s) = (if gs_ascending s then sort vs else List.rev (sort vs))"
      using NoFast False by (cases "gs_ascending s") (simp_all add: gs_inv_abs [OF inv])
    ultimately show ?thesis using iter_finished(1) [of it vs "consume_all s"] all by auto
  qed
qed

lemma iterator_hd:
  assumes "gs_inv it vs s"
  shows "\<exists>s1. iterator_next 0 s = (hd_opt vs, s1) \<and> later it vs s s1"
proof -
  obtain r s1 where n: "iterator_next 0 s = (r, s1)" by (cases "iterator_next 0 s")
  have "r = hd_opt vs" using iterator_next_laws [OF assms _ n] by (cases r; cases vs) (simp_all add: hd_opt_def)
  then show ?thesis using iterator_next_laws [OF assms _ n] n by simp
qed

lemma gs_first_laws:
  assumes inv: "gs_inv it vs s"
  shows "\<exists>s'. gs_first s = Some (smart_first (gs_abs s), s') \<and> later it vs s s'"
proof (cases "gs_finished s")
  case True
  then show ?thesis using inv iter_finished [OF inv True] by (simp add: gs_inv_abs [OF inv])
next
  case False
  note all = consume_all_laws [OF inv]
  obtain s1 where n: "iterator_next 0 s = (hd_opt vs, s1)" "later it vs s s1" using iterator_hd [OF inv] by blast
  show ?thesis
  proof (cases "it = Some (gs_ascending s)")
    case True
    then have "gs_first s = Some (hd_opt vs, s1)" using unfinished_fast [OF inv False] False n(1)
      by (cases "gs_ascending s") (simp_all add: gs_first.simps [of s] fast_next_def)
    moreover have "smart_first (gs_abs s) = hd_opt vs" using True False by (cases "gs_ascending s") (simp_all add: gs_inv_abs [OF inv])
    ultimately show ?thesis using n by simp
  next
    case NoFast: False
    then have "gs_first s = gs_first (consume_all s)" using unfinished_fast [OF inv False]
      by (cases "gs_ascending s") (simp_all add: gs_first.simps [of s] fast_next_def)
    moreover have "smart_first (gs_abs s) = hd_opt (if gs_ascending s then sort vs else List.rev (sort vs))"
      using NoFast False by (cases "gs_ascending s") (simp_all add: gs_inv_abs [OF inv])
    ultimately show ?thesis using iter_finished(2) [of it vs "consume_all s"] all by auto
  qed
qed

lemma gs_last_laws:
  assumes inv: "gs_inv it vs s"
  shows "\<exists>s'. gs_last s = Some (smart_last (gs_abs s), s') \<and> later it vs s s'"
proof (cases "gs_finished s")
  case True
  then show ?thesis using inv iter_finished [OF inv True] by (simp add: gs_inv_abs [OF inv])
next
  case False
  note all = consume_all_laws [OF inv]
  obtain s1 where n: "iterator_next 0 s = (hd_opt vs, s1)" "later it vs s s1" using iterator_hd [OF inv] by blast
  show ?thesis
  proof (cases "it = Some (\<not> gs_ascending s)")
    case True
    then have "gs_last s = Some (hd_opt vs, s1)" using unfinished_fast [OF inv False] False n(1)
      by (cases "gs_ascending s") (simp_all add: gs_last.simps [of s] fast_next_def)
    moreover have "smart_last (gs_abs s) = hd_opt vs" using True False by (cases "gs_ascending s") (simp_all add: gs_inv_abs [OF inv])
    ultimately show ?thesis using n by simp
  next
    case NoFast: False
    then have "gs_last s = gs_last (consume_all s)" using unfinished_fast [OF inv False]
      by (cases "gs_ascending s") (simp_all add: gs_last.simps [of s] fast_next_def)
    moreover have "smart_last (gs_abs s) = hd_opt (if gs_ascending s then List.rev (sort vs) else sort vs)"
      using NoFast False by (cases "gs_ascending s") (simp_all add: gs_inv_abs [OF inv])
    ultimately show ?thesis using iter_finished(3) [of it vs "consume_all s"] all by auto
  qed
qed

lemma gs_len_laws:
  assumes "gs_inv it vs s" "gs_len s = (n, s')"
  shows "n = length vs \<and> later it vs s s'"
  using consume_all_laws [OF assms(1)] assms(2) by (auto simp: gs_len_def Let_def)

lemma gs_nonzero_laws:
  assumes inv: "gs_inv it vs s" and nz: "gs_nonzero s = (b, s')"
  shows "b = (vs \<noteq> []) \<and> later it vs s s'"
proof (cases "gs_genlist s = []")
  case True
  obtain r s1 where c: "consumegen s = (r, s1)" by (cases "consumegen s")
  then show ?thesis using consumegen_cases [OF inv c] True nz by (cases r) (auto simp: gs_nonzero_def)
next
  case False
  then show ?thesis using inv nz by (auto simp: gs_nonzero_def gs_inv_def)
qed

section \<open>Interleaved use\<close>

text \<open>
  A set shared by several iterators: the second component holds, for each
  iterator, what it has yielded.  A step is any operation on the set or one
  \<open>next()\<close> of one iterator.
\<close>

inductive gs_step :: "genset \<times> rev list list \<Rightarrow> genset \<times> rev list list \<Rightarrow> bool" where
  new: "gs_step (s, outs) (s, outs @ [[]])"
| yields: "k < length outs \<Longrightarrow> iterator_next (length (outs ! k)) s = (Some x, s') \<Longrightarrow>
    gs_step (s, outs) (s', outs[k := outs ! k @ [x]])"
| stops: "k < length outs \<Longrightarrow> iterator_next (length (outs ! k)) s = (None, s') \<Longrightarrow> gs_step (s, outs) (s', outs)"
| member: "gs_contains s x = (b, s') \<Longrightarrow> gs_step (s, outs) (s', outs)"
| member_attr: "gs_contains_attr s x = (b, s') \<Longrightarrow> gs_step (s, outs) (s', outs)"
| iterates: "gs_iter s = Some (xs, s') \<Longrightarrow> gs_step (s, outs) (s', outs)"
| first: "gs_first s = Some (r, s') \<Longrightarrow> gs_step (s, outs) (s', outs)"
| lasts: "gs_last s = Some (r, s') \<Longrightarrow> gs_step (s, outs) (s', outs)"
| len: "gs_len s = (n, s') \<Longrightarrow> gs_step (s, outs) (s', outs)"
| nonzero: "gs_nonzero s = (b, s') \<Longrightarrow> gs_step (s, outs) (s', outs)"
| sorts: "gs_step (s, outs) (gs_sort rv s, outs)"
| reverses: "gs_step (s, outs) (gs_reverse s, outs)"

abbreviation outs_ok :: "rev list \<Rightarrow> genset \<Rightarrow> rev list list \<Rightarrow> bool" where
  "outs_ok vs s outs \<equiv> \<forall>out\<in>set outs. length out \<le> length (gs_genlist s) \<and> out = take (length out) vs"

lemma outs_ok_mono: "outs_ok vs s outs \<Longrightarrow> length (gs_genlist s) \<le> length (gs_genlist s') \<Longrightarrow> outs_ok vs s' outs"
  using order_trans by blast

lemma outs_ok_yields:
  assumes "outs_ok vs s outs" "length (gs_genlist s) \<le> length (gs_genlist s')" "k < length outs"
    "length (outs ! k) < length (gs_genlist s')" "length (outs ! k) < length vs" "x = vs ! length (outs ! k)"
  shows "outs_ok vs s' (outs[k := outs ! k @ [x]])"
proof
  fix out assume "out \<in> set (outs[k := outs ! k @ [x]])"
  then have "out = outs ! k @ [x] \<or> out \<in> set outs"
    using set_update_subset_insert [of outs k "outs ! k @ [x]"] by auto
  then show "length out \<le> length (gs_genlist s') \<and> out = take (length out) vs"
  proof
    assume o: "out = outs ! k @ [x]"
    have "outs ! k = take (length (outs ! k)) vs" using assms(1,3) nth_mem by blast
    then have "out = take (Suc (length (outs ! k))) vs" unfolding o using assms(5,6)
      by (metis take_Suc_conv_app_nth)
    then show ?thesis using o assms(4) by (metis Suc_leI length_append_singleton)
  qed (use outs_ok_mono [OF assms(1,2)] in blast)
qed

lemma gs_step_inv:
  assumes step: "gs_step (s, outs) (s', outs')" and inv: "gs_inv it vs s" and ok: "gen_ok it vs" and outs: "outs_ok vs s outs"
  shows "gs_inv it vs s' \<and> outs_ok vs s' outs'"
proof -
  have same: ?thesis if "later it vs s s'" "outs' = outs" using that outs_ok_mono [OF outs] by blast
  show ?thesis using step
  proof cases
    case new
    then show ?thesis using inv outs by simp
  next
    case (yields k x)
    then have "length (outs ! k) \<le> length (gs_genlist s)" using outs nth_mem by blast
    note laws = iterator_next_laws [OF inv this yields(3)]
    then show ?thesis using outs_ok_yields [OF outs _ yields(2), of s' x] yields(1) by simp
  next
    case (stops k)
    then have "length (outs ! k) \<le> length (gs_genlist s)" using outs nth_mem by blast
    then show ?thesis using same iterator_next_laws [OF inv _ stops(3)] stops(1) by blast
  next
    case (member x b)
    then show ?thesis using same gs_contains_laws [OF inv member(2)] by blast
  next
    case (member_attr x b)
    then show ?thesis using same gs_contains_attr_laws [OF inv ok member_attr(2)] by blast
  next
    case (iterates xs)
    then show ?thesis using same gs_iter_laws [OF inv] by auto
  next
    case (first r)
    then show ?thesis using same gs_first_laws [OF inv] by auto
  next
    case (lasts r)
    then show ?thesis using same gs_last_laws [OF inv] by auto
  next
    case (len n)
    then show ?thesis using same gs_len_laws [OF inv len(2)] by blast
  next
    case (nonzero b)
    then show ?thesis using same gs_nonzero_laws [OF inv nonzero(2)] by blast
  qed (use inv outs in \<open>simp_all add: gs_sort_def gs_reverse_def\<close>)
qed

lemma gs_steps_inv:
  assumes "gs_step\<^sup>*\<^sup>* (gs_init vs it, []) (s, outs)" "gen_ok it vs"
  shows "gs_inv it vs s \<and> outs_ok vs s outs"
  using assms(1)
proof (induction "(s, outs)" arbitrary: s outs rule: rtranclp_induct)
  case base
  then show ?case using gs_init_inv by simp
next
  case (step st)
  obtain s1 outs1 where st: "st = (s1, outs1)" by (cases st)
  have "gs_inv it vs s1 \<and> outs_ok vs s1 outs1" by (rule step.hyps(3)) (rule st)
  then show ?case using gs_step_inv [OF step.hyps(2) [unfolded st] _ assms(2)] by simp
qed

section \<open>Properties\<close>

text \<open>
  (C15) \<open>generatorset\<close> refines the smartset of everything its generator yields:
  whatever has been consumed, each operation returns what the smartset has and
  leaves a later state of the same set, membership answers through the cache
  and the early exits of the ordered variants included; \<open>__iter__\<close>, \<open>first\<close>
  and \<open>last\<close>, which call themselves again after consuming the generator, return.
\<close>

theorem generatorset_refines:
  assumes inv: "gs_inv it vs s" and ok: "gen_ok it vs"
  shows "(\<exists>s'. gs_iter s = Some (iter (gs_abs s), s') \<and> later it vs s s')
    \<and> (\<exists>s'. gs_first s = Some (smart_first (gs_abs s), s') \<and> later it vs s s')
    \<and> (\<exists>s'. gs_last s = Some (smart_last (gs_abs s), s') \<and> later it vs s s')
    \<and> (\<exists>s'. gs_len s = (smart_len (gs_abs s), s') \<and> later it vs s s')
    \<and> (\<exists>s'. gs_nonzero s = (nonzero (gs_abs s), s') \<and> later it vs s s')
    \<and> (\<exists>s'. gs_contains s x = (contains (gs_abs s) x, s') \<and> later it vs s s')
    \<and> (\<exists>s'. gs_contains_attr s x = (contains (gs_abs s) x, s') \<and> later it vs s s')
    \<and> gs_abs (gs_sort rv s) = smart_sort (gs_abs s) rv
    \<and> gs_abs (gs_reverse s) = smart_reverse (gs_abs s)"
proof (intro conjI)
  note abs = gs_inv_abs [OF inv]
  show "\<exists>s'. gs_len s = (smart_len (gs_abs s), s') \<and> later it vs s s'"
    using gs_len_laws [OF inv] by (cases "gs_len s") (simp add: abs)
  show "\<exists>s'. gs_nonzero s = (nonzero (gs_abs s), s') \<and> later it vs s s'"
    using gs_nonzero_laws [OF inv] by (cases "gs_nonzero s") (simp add: abs)
  show "\<exists>s'. gs_contains s x = (contains (gs_abs s) x, s') \<and> later it vs s s'"
    using gs_contains_laws [OF inv] by (cases "gs_contains s x") (simp add: abs)
  show "\<exists>s'. gs_contains_attr s x = (contains (gs_abs s) x, s') \<and> later it vs s s'"
    using gs_contains_attr_laws [OF inv ok] by (cases "gs_contains_attr s x") (simp add: abs)
qed (simp_all add: gs_iter_laws [OF inv] gs_first_laws [OF inv] gs_last_laws [OF inv],
     simp_all add: gs_abs_def gs_sort_def gs_reverse_def)

theorem generatorset_refines_witness:
  "\<exists>s'. gs_contains_attr (gs_init [1, 4, 6] (Some True)) 3 = (contains (gs_abs (gs_init [1, 4, 6] (Some True))) 3, s')"
  using generatorset_refines [OF gs_init_inv, where vs = "[1, 4, 6]" and it = "Some True" and x = 3] by auto


lemma two_iterators: "gs_step\<^sup>*\<^sup>* (gs_init [7, 3] None, [])
    (snd (iterator_next 0 (gs_init [7, 3] None)), [[7], []])"
proof -
  let ?s = "gs_init [7, 3] None"
  have "gs_step (?s, []) (?s, [[]])" using gs_step.new [of ?s "[]"] by simp
  moreover have "gs_step (?s, [[]]) (?s, [[], []])" using gs_step.new [of ?s "[[]]"] by simp
  moreover have "gs_step (?s, [[], []]) (snd (iterator_next 0 ?s), [[7], []])"
    using gs_step.yields [of 0 "[[], []]" ?s 7] by (simp add: iterator_next_def consumegen_def gs_init_def)
  ultimately show ?thesis by (meson converse_rtranclp_into_rtranclp rtranclp.rtrancl_refl)
qed


end
