(* ===== verification/Pyfmt.thy ===== *)
theory Pyfmt
  imports Pybytes
begin

text \<open>
  String formatting and trimming of Python byte strings: \<open>%d\<close>, \<open>rstrip()\<close>,
  \<open>strip(c)\<close>, \<open>isalnum()\<close> \<open>int(s)\<close> and \<open>readlines()\<close>.
\<close>

section \<open>Decimal numbers\<close>

definition digit_char :: "nat \<Rightarrow> char" where
  "digit_char d = char_of (48 + d)"

fun dec_nat :: "nat \<Rightarrow> bytes" where
  "dec_nat n = (if n < 10 then [digit_char n] else dec_nat (n div 10) @ [digit_char (n mod 10)])"

declare dec_nat.simps [simp del]

text \<open>\<open>"%d" % x\<close>\<close>

definition dec :: "int \<Rightarrow> bytes" where
  "dec x = (if x < 0 then ''-'' @ dec_nat (nat (- x)) else dec_nat (nat x))"

text \<open>\<open>int(s)\<close> of a string of digits.\<close>

definition undec_nat :: "bytes \<Rightarrow> nat" where
  "undec_nat s = foldl (\<lambda>v c. v * 10 + (of_char c - 48)) 0 s"

lemma of_digit_char: "d < 10 \<Longrightarrow> (of_char (digit_char d) :: nat) = 48 + d"
  by (simp add: digit_char_def)

lemma undec_dec_nat [simp]: "undec_nat (dec_nat n) = n"
proof (induction n rule: dec_nat.induct)
  case (1 n)
  show ?case
  proof (cases "n < 10")
    case True
    then show ?thesis by (simp add: dec_nat.simps [of n] undec_nat_def of_digit_char)
  next
    case False
    then have "undec_nat (dec_nat n) = undec_nat (dec_nat (n div 10)) * 10 + n mod 10"
      by (simp add: dec_nat.simps [of n] undec_nat_def of_digit_char)
    then show ?thesis using 1 [OF False] by simp
  qed
qed

lemma dec_nat_nonempty [simp]: "dec_nat n \<noteq> []"
  by (simp add: dec_nat.simps [of n])

section \<open>Trimming\<close>

definition is_space :: "char \<Rightarrow> bool" where
  "is_space c \<longleftrightarrow> c \<in> {CHR 0x20, CHR 0x09, NL, CHR 0x0B, CHR 0x0C, CR}"

definition rstrip_if :: "(char \<Rightarrow> bool) \<Rightarrow> bytes \<Rightarrow> bytes" where
  "rstrip_if p s = List.rev (dropWhile p (List.rev s))"

definition strip_if :: "(char \<Rightarrow> bool) \<Rightarrow> bytes \<Rightarrow> bytes" where
  "strip_if p s = rstrip_if p (dropWhile p s)"

definition is_alnum :: "char \<Rightarrow> bool" where
  "is_alnum c \<longleftrightarrow>
     (let n = (of_char c :: nat) in (48 \<le> n \<and> n \<le> 57) \<or> (65 \<le> n \<and> n \<le> 90) \<or> (97 \<le> n \<and> n \<le> 122))"

text \<open>\<open>int(s)\<close>: surrounding white space, a sign, digits.\<close>

definition is_digit :: "char \<Rightarrow> bool" where
  "is_digit c \<longleftrightarrow> (48 :: nat) \<le> of_char c \<and> of_char c \<le> (57 :: nat)"

definition py_int :: "bytes \<Rightarrow> int res" where
  "py_int s =
     (let s = strip_if is_space s;
          neg = (s \<noteq> [] \<and> hd s = CHR ''-'');
          ds = (if s \<noteq> [] \<and> (hd s = CHR ''-'' \<or> hd s = CHR ''+'') then tl s else s)
      in if ds = [] \<or> \<not> list_all is_digit ds then Inl ValueError
         else Inr (if neg then - int (undec_nat ds) else int (undec_nat ds)))"

text \<open>\<open>fp.readlines()\<close>: lines end at LF.\<close>

fun readlines_aux :: "bytes \<Rightarrow> bytes \<Rightarrow> bytes list" where
  "readlines_aux acc [] = (if acc = [] then [] else [acc])"
| "readlines_aux acc (c # cs) = (if c = NL then (acc @ [c]) # readlines_aux [] cs else readlines_aux (acc @ [c]) cs)"

definition readlines :: "bytes \<Rightarrow> bytes list" where
  "readlines s = readlines_aux [] s"

lemma readlines_aux_line: "NL \<notin> set s \<Longrightarrow> readlines_aux acc (s @ NL # rest) = (acc @ s @ [NL]) # readlines_aux [] rest"
  by (induction s arbitrary: acc) auto

lemma readlines_lines:
  "\<forall>x \<in> set xs. NL \<notin> set (g x) \<Longrightarrow> readlines (concat (map (\<lambda>x. g x @ [NL]) xs)) = map (\<lambda>x. g x @ [NL]) xs"
  by (induction xs) (auto simp: readlines_def readlines_aux_line)

lemma strip_line:
  assumes "\<And>c. c \<in> set s \<Longrightarrow> \<not> is_space c"
  shows "strip_if is_space (s @ [NL]) = s"
proof -
  have "strip_if is_space (s @ [NL]) = rstrip_if is_space (s @ [NL])"
    using assms by (cases s) (auto simp: strip_if_def rstrip_if_def is_space_def)
  moreover have "dropWhile is_space (List.rev s) = List.rev s"
    using assms by (cases s rule: rev_cases) auto
  ultimately show ?thesis by (simp add: rstrip_if_def is_space_def)
qed

end
