(* ===== verification/Mdiff.thy ===== *)
theory Mdiff
  imports Simplemerge Base85 Pyfmt
begin

text \<open>
  \<open>mercurial/mdiff.py\<close>: the blocks a diff is made of, unified diffs, binary
  diffs and the trivial deltas of the revlog.  The block matcher \<open>mdiff.blocks\<close>
  is bound to, \<open>zlib.compress\<close> and \<open>hashlib.sha1\<close> are arguments.
\<close>

section \<open>Options\<close>

record diffopts =
  o_context :: nat
  o_text :: bool
  o_showfunc :: bool
  o_git :: bool
  o_nodates :: bool
  o_nobinary :: bool
  o_noprefix :: bool
  o_index :: int
  o_ignorews :: bool
  o_ignorewsamount :: bool
  o_ignorewseol :: bool
  o_ignoreblanklines :: bool
  o_upgrade :: bool
  o_showsimilarity :: bool
  o_worddiff :: bool
  o_hashbinary :: bool
  o_filtercopysource :: bool

definition defaultopts :: diffopts where
  "defaultopts =
     \<lparr> o_context = 3, o_text = False, o_showfunc = False, o_git = False, o_nodates = False,
       o_nobinary = False, o_noprefix = False, o_index = 0, o_ignorews = False,
       o_ignorewsamount = False, o_ignorewseol = False, o_ignoreblanklines = False,
       o_upgrade = False, o_showsimilarity = False, o_worddiff = False, o_hashbinary = False,
       o_filtercopysource = False \<rparr>"

section \<open>White space\<close>

text \<open>\<open>re.sub("\n+", "\n", text)\<close>\<close>

fun squeeze_nl :: "bytes \<Rightarrow> bytes" where
  "squeeze_nl (c # d # cs) = (if c = NL \<and> d = NL then squeeze_nl (d # cs) else c # squeeze_nl (d # cs))"
| "squeeze_nl cs = cs"

text \<open>\<open>re.sub(r"[ \t\r\f]+\n", r"\n", text)\<close>: \<open>run\<close> holds the blanks read so far.\<close>

fun sub_eol_blanks :: "bytes \<Rightarrow> bytes \<Rightarrow> bytes" where
  "sub_eol_blanks run [] = run"
| "sub_eol_blanks run (c # cs) =
     (if c \<in> {CHR 0x20, CHR 0x09, CR, CHR 0x0C} then sub_eol_blanks (run @ [c]) cs
      else if c = NL then NL # sub_eol_blanks [] cs
      else run @ c # sub_eol_blanks [] cs)"

definition wsclean :: "diffopts \<Rightarrow> bytes \<Rightarrow> bool \<Rightarrow> bytes" where
  "wsclean opts t blank =
     (let t1 = (if o_ignorews opts then fixws t True
                else if o_ignorewsamount opts then fixws t False else t);
          t2 = (if blank \<and> o_ignoreblanklines opts then strip_if (\<lambda>c. c = NL) (squeeze_nl t1) else t1)
      in if o_ignorewseol opts then sub_eol_blanks [] t2 else t2)"

section \<open>Blocks\<close>

text \<open>\<open>splitblock\<close>: the flags say which lines are not blank.\<close>

datatype btype = Eq | Bang | Tilde

definition blank_end :: "bool list \<Rightarrow> nat \<Rightarrow> nat" where
  "blank_end flags i = i + length (takeWhile Not (drop i flags))"

text \<open>The loop over matching lines; \<open>lines2[i2]\<close> raises past the end.\<close>

fun match_run :: "bool list \<Rightarrow> bool list \<Rightarrow> nat res" where
  "match_run (True # fs) [] = Inl IndexError"
| "match_run (True # fs) (True # gs) = bindE (match_run fs gs) (\<lambda>n. Inr (Suc n))"
| "match_run fs gs = Inr 0"

definition split_step :: "bool list \<Rightarrow> bool list \<Rightarrow> nat \<Rightarrow> nat \<Rightarrow> (nat \<times> nat \<times> btype) res" where
  "split_step f1 f2 s1 s2 =
     (if length f1 \<le> s1 \<or> \<not> f1 ! s1 \<or> length f2 \<le> s2 \<or> \<not> f2 ! s2
      then Inr (blank_end f1 s1, blank_end f2 s2, Tilde)
      else bindE (match_run (drop s1 f1) (drop s2 f2)) (\<lambda>n. Inr (s1 + n, s2 + n, Eq)))"

partial_function (option) split_loop ::
  "nat \<Rightarrow> bool list \<Rightarrow> nat \<Rightarrow> bool list \<Rightarrow> nat \<Rightarrow> nat \<Rightarrow> (block \<times> btype) list res option" where
  "split_loop base1 f1 base2 f2 s1 s2 =
     (if s1 < length f1 \<or> s2 < length f2
      then (case split_step f1 f2 s1 s2 of
              Inl e \<Rightarrow> Some (Inl e)
            | Inr (i1, i2, bt) \<Rightarrow>
                Option.bind (split_loop base1 f1 base2 f2 i1 i2) (\<lambda>r.
                  Some (bindE r (\<lambda>bs. Inr (((base1 + s1, base1 + i1, base2 + s2, base2 + i2), bt) # bs)))))
      else Some (Inr []))"

definition splitblock :: "nat \<Rightarrow> bytes list \<Rightarrow> nat \<Rightarrow> bytes list \<Rightarrow> diffopts \<Rightarrow> (block \<times> btype) list res option" where
  "splitblock base1 lines1 base2 lines2 opts =
     split_loop base1 (map (\<lambda>l. wsclean opts l True \<noteq> []) lines1)
       base2 (map (\<lambda>l. wsclean opts l True \<noteq> []) lines2) 0 0"

definition hunkinrange :: "int \<times> int \<Rightarrow> int \<times> int \<Rightarrow> bool" where
  "hunkinrange hunk linerange =
     (case hunk of (start, len) \<Rightarrow> case linerange of (lowerbound, upperbound) \<Rightarrow>
        lowerbound < start + len \<and> start < upperbound)"

type_synonym iblock = "(int \<times> int \<times> int \<times> int) \<times> btype"

text \<open>One block of the loop of \<open>blocksinrange\<close>: the new \<open>lba\<close> and \<open>uba\<close>.\<close>

definition range_step :: "int \<Rightarrow> int \<Rightarrow> int option \<times> int option \<Rightarrow> iblock \<Rightarrow> int option \<times> int option" where
  "range_step lbb ubb r blk =
     (case r of (lba, uba) \<Rightarrow> case blk of ((a1, a2, b1, b2), stype) \<Rightarrow>
        if b1 \<le> lbb \<and> ubb \<le> b2 \<and> stype = Eq then (Some (lbb - b1 + a1), Some (ubb - b1 + a1))
        else
          (if b1 \<le> lbb \<and> lbb < b2 then Some (if stype = Eq then a2 - (b2 - lbb) else a1) else lba,
           if b1 < ubb \<and> ubb \<le> b2 then Some (if stype = Eq then a1 + (ubb - b1) else a2) else uba))"

definition blocksinrange :: "iblock list \<Rightarrow> int \<times> int \<Rightarrow> (iblock list \<times> (int \<times> int)) res" where
  "blocksinrange bs rangeb =
     (case foldl (range_step (fst rangeb) (snd rangeb)) (None, None) bs of
        (Some lba, Some uba) \<Rightarrow>
          if uba < lba then Inl (Abort ''line range exceeds file size'')
          else Inr (filter (\<lambda>((a1, a2, b1, b2), stype). hunkinrange (b1, b2 - b1) rangeb) bs, (lba, uba))
      | _ \<Rightarrow> Inl (Abort ''line range exceeds file size''))"

text \<open>The loop of \<open>allblocks\<close>; \<open>prev\<close> is the previous match.\<close>

fun allblocks_loop :: "diffopts \<Rightarrow> bytes list \<Rightarrow> bytes list \<Rightarrow> block \<Rightarrow> block list \<Rightarrow> (block \<times> btype) list" where
  "allblocks_loop opts lines1 lines2 prev [] = []"
| "allblocks_loop opts lines1 lines2 (p0, p1, p2, p3) ((a1, a2, b1, b2) # diff) =
     (if p1 \<noteq> a1 \<or> p3 \<noteq> b1
      then let old = wsclean opts (concat (slice lines1 p1 a1)) True;
               new = wsclean opts (concat (slice lines2 p3 b1)) True
           in [((p1, a1, p3, b1), if o_ignoreblanklines opts \<and> old = new then Tilde else Bang)]
      else [])
     @ ((a1, a2, b1, b2), Eq) # allblocks_loop opts lines1 lines2 (a1, a2, b1, b2) diff"

definition allblocks :: "matcher \<Rightarrow> bytes \<Rightarrow> bytes \<Rightarrow> diffopts \<Rightarrow> bytes list option \<Rightarrow> bytes list option
    \<Rightarrow> (block \<times> btype) list res" where
  "allblocks blk text1 text2 opts lines1 lines2 =
     (let clean = (\<lambda>t. if o_ignorews opts \<or> o_ignorewsamount opts \<or> o_ignorewseol opts
                       then wsclean opts t False else t);
          l1 = (case lines1 of Some l \<Rightarrow> l | None \<Rightarrow> splitnewlines (clean text1));
          l2 = (case lines2 of Some l \<Rightarrow> l | None \<Rightarrow> splitnewlines (clean text2))
      in bindE (blk (clean text1) (clean text2)) (\<lambda>diff.
           Inr (allblocks_loop opts l1 l2 (0, 0, 0, 0) diff)))"

section \<open>Unified diffs\<close>

definition missing_newline_marker :: bytes where
  "missing_newline_marker = CHR 0x5C # '' No newline at end of file'' @ [NL]"

text \<open>A hunk under construction: \<open>[astart, a2, bstart, b2, delta]\<close>.\<close>

record dhunk =
  h_astart :: nat
  h_a2 :: nat
  h_bstart :: int
  h_b2 :: int
  h_delta :: "bytes list"

type_synonym hunkrange = "nat \<times> nat \<times> int \<times> int"

definition contextend :: "diffopts \<Rightarrow> nat \<Rightarrow> nat \<Rightarrow> nat" where
  "contextend opts l len = (let ret = l + o_context opts in if len < ret then len else ret)"

definition contextstart :: "diffopts \<Rightarrow> int \<Rightarrow> int" where
  "contextstart opts l = (let ret = l - int (o_context opts) in if ret < 0 then 0 else ret)"

text \<open>The function line shown after the range, and the state \<open>lastfunc\<close>.\<close>

definition func_line :: "diffopts \<Rightarrow> bytes list \<Rightarrow> nat \<Rightarrow> nat \<times> bytes \<Rightarrow> bytes \<times> (nat \<times> bytes)" where
  "func_line opts l1 astart lastfunc =
     (if o_showfunc opts then
        (case lastfunc of (lastpos, func) \<Rightarrow>
           let func' = (case find (\<lambda>i. is_alnum (hd (l1 ! i))) (List.rev [lastpos..<astart]) of
                          Some i \<Rightarrow> CHR 0x20 # take 40 (rstrip_if is_space (l1 ! i))
                        | None \<Rightarrow> func)
           in (func', (astart, func')))
      else ([], lastfunc))"

text \<open>
  The loop that marks the last line, from the end, whose first character is in
  \<open>cs\<close>: the line gets its newline and the marker follows.  The lines are in
  reverse; the second result is the first character of the marked line.
\<close>

fun mark_rev :: "char set \<Rightarrow> bytes list \<Rightarrow> bytes list \<times> char option" where
  "mark_rev cs [] = ([], None)"
| "mark_rev cs (l # ls) =
     (if hd l \<in> cs then (missing_newline_marker # (l @ [NL]) # ls, Some (hd l))
      else (case mark_rev cs ls of (ls', r) \<Rightarrow> (l # ls', r)))"

definition mark_newline :: "char set \<Rightarrow> bytes list \<Rightarrow> bytes list \<times> char option" where
  "mark_newline cs ls = (case mark_rev cs (List.rev ls) of (r, c) \<Rightarrow> (List.rev r, c))"

definition py_last :: "'a list \<Rightarrow> 'a res" where
  "py_last xs = (if xs = [] then Inl IndexError else Inr (last xs))"

text \<open>
  The markers of a hunk: \<open>aend\<close> and \<open>bend\<close> say that it reaches the end of the old
  and of the new text.
\<close>

definition mark_missing :: "bytes \<Rightarrow> bytes \<Rightarrow> bool \<Rightarrow> bool \<Rightarrow> bytes list \<Rightarrow> bytes list res" where
  "mark_missing t1 t2 aend bend hunklines =
     bindE (py_last t1) (\<lambda>c1.
       let (hunklines1, marked) =
             (if c1 \<noteq> NL \<and> aend then mark_newline {CHR ''-'', CHR 0x20} hunklines else (hunklines, None))
       in if marked = Some (CHR 0x20) then Inr hunklines1
          else bindE (py_last t2) (\<lambda>c2.
                 Inr (if c2 \<noteq> NL \<and> bend then fst (mark_newline {CHR ''+''} hunklines1) else hunklines1)))"

definition hunk_header :: "hunkrange \<Rightarrow> bytes \<Rightarrow> bytes" where
  "hunk_header r func =
     (case r of (astart, alen, bstart, blen) \<Rightarrow>
        ''@@ -'' @ dec (int astart) @ '','' @ dec (int alen) @ '' +'' @ dec bstart @ '','' @ dec blen @ '' @@'' @ func @ [NL])"

definition yieldhunk :: "diffopts \<Rightarrow> bytes \<Rightarrow> bytes \<Rightarrow> bytes list \<Rightarrow> bytes list \<Rightarrow> nat \<times> bytes \<Rightarrow> dhunk
    \<Rightarrow> ((hunkrange \<times> bytes list) \<times> (nat \<times> bytes)) res" where
  "yieldhunk opts t1 t2 l1 l2 lastfunc h =
     (let aend = contextend opts (h_a2 h) (length l1);
          alen = aend - h_astart h;
          blen = h_b2 h - h_bstart h + int aend - int (h_a2 h);
          (func, lastfunc') = func_line opts l1 (h_astart h) lastfunc;
          astart = (if alen \<noteq> 0 then h_astart h + 1 else h_astart h);
          bstart = (if blen \<noteq> 0 then h_bstart h + 1 else h_bstart h);
          hunkrange = (astart, alen, bstart, blen);
          hunklines = [hunk_header hunkrange func] @ h_delta h
            @ map (\<lambda>x. CHR 0x20 # l1 ! x) [h_a2 h..<aend]
      in bindE (mark_missing t1 t2 (astart + alen = length l1 + 1) (bstart + blen = int (length l2) + 1) hunklines)
           (\<lambda>hunklines'. Inr ((hunkrange, hunklines'), lastfunc')))"

text \<open>The lines a changed block adds to the delta of its hunk.\<close>

definition delta_lines :: "bytes list \<Rightarrow> bytes list \<Rightarrow> nat \<Rightarrow> block \<Rightarrow> bytes list" where
  "delta_lines l1 l2 astart blk =
     (case blk of (a1, a2, b1, b2) \<Rightarrow>
        map (\<lambda>x. CHR 0x20 # x) (slice l1 astart a1)
        @ map (\<lambda>x. CHR ''-'' # x) (slice l1 a1 a2)
        @ map (\<lambda>x. CHR ''+'' # x) (slice l2 b1 b2))"

fun unidiff_loop :: "diffopts \<Rightarrow> bytes \<Rightarrow> bytes \<Rightarrow> bytes list \<Rightarrow> bytes list \<Rightarrow> dhunk option \<Rightarrow> int
    \<Rightarrow> nat \<times> bytes \<Rightarrow> (block \<times> btype) list \<Rightarrow> (hunkrange \<times> bytes list) list res" where
  "unidiff_loop opts t1 t2 l1 l2 hunk ignoredlines lastfunc [] =
     (case hunk of
        None \<Rightarrow> Inr []
      | Some h \<Rightarrow> bindE (yieldhunk opts t1 t2 l1 l2 lastfunc h) (\<lambda>(x, _). Inr [x]))"
| "unidiff_loop opts t1 t2 l1 l2 hunk ignoredlines lastfunc (((a1, a2, b1, b2), stype) # bs) =
     (if stype \<noteq> Bang then
        unidiff_loop opts t1 t2 l1 l2 hunk
          (if stype = Tilde then ignoredlines + ((int b2 - int b1) - (int a2 - int a1)) else ignoredlines) lastfunc bs
      else
        let astart = nat (contextstart opts (int a1));
            bstart = contextstart opts (int b1 - ignoredlines);
            b2' = int b2 - ignoredlines;
            fresh = \<lparr> h_astart = astart, h_a2 = a2, h_bstart = bstart, h_b2 = b2',
                      h_delta = delta_lines l1 l2 astart (a1, a2, b1, b2) \<rparr>
        in case hunk of
             None \<Rightarrow> unidiff_loop opts t1 t2 l1 l2 (Some fresh) ignoredlines lastfunc bs
           | Some h \<Rightarrow>
               if astart < h_a2 h + o_context opts + 1 then
                 unidiff_loop opts t1 t2 l1 l2
                   (Some (h\<lparr> h_a2 := a2, h_b2 := b2',
                             h_delta := h_delta h @ delta_lines l1 l2 (h_a2 h) (a1, a2, b1, b2) \<rparr>))
                   ignoredlines lastfunc bs
               else
                 bindE (yieldhunk opts t1 t2 l1 l2 lastfunc h) (\<lambda>(x, lastfunc').
                 bindE (unidiff_loop opts t1 t2 l1 l2 (Some fresh) ignoredlines lastfunc' bs) (\<lambda>xs.
                   Inr (x # xs))))"

text \<open>\<open>_unidiff\<close>: whether there are hunks, and the hunks.\<close>

definition unidiff_hunks :: "matcher \<Rightarrow> bytes \<Rightarrow> bytes \<Rightarrow> diffopts \<Rightarrow> (bool \<times> (hunkrange \<times> bytes list) list) res" where
  "unidiff_hunks blk t1 t2 opts =
     (let l1 = splitnewlines t1; l2 = splitnewlines t2
      in bindE (allblocks blk t1 t2 opts (Some l1) (Some l2)) (\<lambda>bs.
         bindE (unidiff_loop opts t1 t2 l1 l2 None 0 (0, []) bs) (\<lambda>hs.
           Inr (hs \<noteq> [], hs))))"

definition datetag :: "diffopts \<Rightarrow> bytes \<Rightarrow> bytes option \<Rightarrow> bytes" where
  "datetag opts date fn =
     (if \<not> o_git opts \<and> \<not> o_nodates opts then CHR 0x09 # date
      else case fn of
             Some f \<Rightarrow> if f \<noteq> [] \<and> CHR 0x20 \<in> set f then [CHR 0x09] else []
           | None \<Rightarrow> [])"

text \<open>\<open>util.pconvert\<close> on POSIX\<close>

definition pconvert :: "bytes \<Rightarrow> bytes" where
  "pconvert path = path"

text \<open>The lines of a file that is added or removed as a whole.\<close>

definition whole_hunk :: "char \<Rightarrow> bytes \<Rightarrow> bytes \<Rightarrow> bytes list" where
  "whole_hunk sign header t =
     (let hunklines = header # map (\<lambda>e. sign # e) (splitnewlines t)
      in if last t \<noteq> NL then butlast hunklines @ [last hunklines @ [NL], missing_newline_marker]
         else hunklines)"

definition falsy :: "bytes option \<Rightarrow> bool" where
  "falsy a \<longleftrightarrow> a = None \<or> a = Some []"

definition the_text :: "bytes option \<Rightarrow> bytes" where
  "the_text a = (case a of Some t \<Rightarrow> t | None \<Rightarrow> [])"

definition unidiff :: "matcher \<Rightarrow> (bytes \<Rightarrow> bytes) \<Rightarrow> bytes \<Rightarrow> bytes option \<Rightarrow> bytes \<Rightarrow> bytes option \<Rightarrow> bytes
    \<Rightarrow> bytes \<Rightarrow> bytes \<Rightarrow> diffopts \<Rightarrow> bool \<Rightarrow> (bytes list \<times> (hunkrange option \<times> bytes list) list) res" where
  "unidiff blk sha1 epoch a ad b bd fn1 fn2 opts check_binary =
     (if falsy a \<and> falsy b then Inr ([], [])
      else
        let aprefix = (if o_noprefix opts then [] else ''a/'');
            bprefix = (if o_noprefix opts then [] else ''b/'');
            fn1' = pconvert fn1; fn2' = pconvert fn2;
            at = the_text a; bt = the_text b;
            fromline = ''--- '' @ aprefix @ fn1' @ datetag opts ad (Some fn1');
            toline = ''+++ '' @ bprefix @ fn2' @ datetag opts bd (Some fn2')
        in if \<not> o_text opts \<and> check_binary \<and> (binary at \<or> binary bt) then
             (if \<not> falsy a \<and> \<not> falsy b \<and> at = bt then Inr ([], [])
              else if o_hashbinary opts \<and> b = None then Inl TypeError
              else Inr ([], [(None, [''Binary file '' @ fn1' @ '' has changed''
                @ (if o_hashbinary opts then '' to '' @ sha1 bt else []) @ [NL]])]))
           else if falsy a then
             Inr ([if a = None then ''--- /dev/null'' @ datetag opts epoch None else fromline, toline],
                  [(Some (0, 0, 1, int (length (splitnewlines bt))),
                    whole_hunk (CHR ''+'') (''@@ -0,0 +1,'' @ dec (int (length (splitnewlines bt))) @ '' @@'' @ [NL]) bt)])
           else if falsy b then
             Inr ([fromline, if b = None then ''+++ /dev/null'' @ datetag opts epoch None else toline],
                  [(Some (1, length (splitnewlines at), 0, 0),
                    whole_hunk (CHR ''-'') (''@@ -1,'' @ dec (int (length (splitnewlines at))) @ '' +0,0 @@'' @ [NL]) at)])
           else
             bindE (unidiff_hunks blk at bt opts) (\<lambda>(any, hunks).
               if any then Inr ([fromline, toline], map (\<lambda>(r, ls). (Some r, ls)) hunks) else Inr ([], [])))"

section \<open>Binary diffs and trivial deltas\<close>

definition fmtline :: "bytes \<Rightarrow> bytes" where
  "fmtline line =
     (let l = length line;
          c = (if l \<le> 26 then char_of (65 + l - 1) else char_of (l - 26 + 97 - 1))
      in c # b85encode line True @ [NL])"

fun chunk :: "nat \<Rightarrow> bytes \<Rightarrow> bytes list" where
  "chunk csize t = (if t = [] \<or> csize = 0 then [] else take csize t # chunk csize (drop csize t))"

declare chunk.simps [simp del]

definition b85diff :: "(bytes \<Rightarrow> bytes) \<Rightarrow> bytes option \<Rightarrow> bytes option \<Rightarrow> bytes" where
  "b85diff compress to tn =
     (let to' = the_text to; tn' = the_text tn
      in if to' = tn' then []
         else ''GIT binary patch'' @ [NL] @ ''literal '' @ dec (int (length tn')) @ [NL]
           @ concat (map fmtline (chunk 52 (compress tn'))) @ [NL])"

text \<open>\<open>patchtext\<close>, which may not return on a negative length.\<close>

partial_function (option) patchtext_loop :: "bytes \<Rightarrow> int \<Rightarrow> bytes \<Rightarrow> bytes res option" where
  "patchtext_loop bin pos t =
     (if pos < int (length bin) then
        (case unpack_lll (py_slice bin pos (pos + 12)) of
           Inl e \<Rightarrow> Some (Inl e)
         | Inr (p1, p2, l) \<Rightarrow> patchtext_loop bin (pos + 12 + l) (t @ py_slice bin (pos + 12) (pos + 12 + l)))
      else Some (Inr t))"

definition patchtext :: "bytes \<Rightarrow> bytes res option" where
  "patchtext bin = patchtext_loop bin 0 []"

definition patch :: "bytes \<Rightarrow> bytes \<Rightarrow> bytes res option" where
  "patch a bin = (if length a = 0 then Some (Inr (drop 12 bin)) else patches a [bin])"

definition trivialdiffheader :: "int \<Rightarrow> bytes res" where
  "trivialdiffheader len = (if len \<noteq> 0 then pack_lll 0 0 len else Inr [])"

definition replacediffheader :: "int \<Rightarrow> int \<Rightarrow> bytes res" where
  "replacediffheader oldlen newlen = pack_lll 0 oldlen newlen"

end
