(* ===== verification/Unidiff.thy ===== *)
theory Unidiff
  imports Mdiff
begin

text \<open>
  Unified diffs are right: the hunks \<open>mdiff._unidiff\<close> yields, read back the way
  \<open>patch\<close> reads them, turn the old text into the new one.  The lemmas hold for
  every block matcher that satisfies \<open>block_matcher\<close>.
\<close>

section \<open>Lines of a text\<close>

lemma splitnewlines_butlast: "x \<in> set (butlast (splitnewlines t)) \<Longrightarrow> last x = NL"
proof -
  define ls where "ls = map (\<lambda>l. l @ [NL]) (py_split NL t)"
  have ne: "ls \<noteq> []" by (simp add: ls_def)
  have "set (butlast (splitnewlines t)) \<subseteq> set ls"
    using ne by (auto simp: splitnewlines_def ls_def [symmetric] Let_def butlast_append dest!: in_set_butlastD)
  then show "x \<in> set (butlast (splitnewlines t)) \<Longrightarrow> last x = NL" by (auto simp: ls_def)
qed

lemma splitnewlines_Nil [simp]: "splitnewlines t = [] \<longleftrightarrow> t = []"
  by (metis concat.simps(1) concat_splitnewlines splitnewlines_nonempty list.set_intros(1) neq_Nil_conv concat_eq_Nil_conv)

lemma splitnewlines_last: "t \<noteq> [] \<Longrightarrow> last (last (splitnewlines t)) = last t"
proof -
  assume "t \<noteq> []"
  then have ne: "splitnewlines t \<noteq> []" by simp
  then have "t = concat (butlast (splitnewlines t)) @ last (splitnewlines t)"
    by (metis append_butlast_last_id concat.simps concat_append concat_splitnewlines append_Nil2)
  moreover have "last (splitnewlines t) \<noteq> []" using ne splitnewlines_nonempty last_in_set by blast
  ultimately show ?thesis by (metis last_appendR)
qed

lemma splitnewlines_nth:
  assumes "k < length (splitnewlines t)" "last (splitnewlines t ! k) \<noteq> NL"
  shows "Suc k = length (splitnewlines t) \<and> t \<noteq> [] \<and> last t \<noteq> NL"
proof -
  have "splitnewlines t \<noteq> []" using assms(1) by (metis list.size(3) not_less0)
  then have "t \<noteq> []" by simp
  have k: "Suc k = length (splitnewlines t)"
  proof (rule ccontr)
    assume "Suc k \<noteq> length (splitnewlines t)"
    then have "k < length (butlast (splitnewlines t))" using assms(1) by simp
    then have "splitnewlines t ! k \<in> set (butlast (splitnewlines t))" by (metis nth_butlast nth_mem)
    then show False using splitnewlines_butlast assms(2) by blast
  qed
  then have "splitnewlines t ! k = last (splitnewlines t)" using assms(1) by (metis diff_Suc_1 last_conv_nth list.size(3) not_less0)
  then show ?thesis using splitnewlines_last [OF \<open>t \<noteq> []\<close>] assms(2) k \<open>t \<noteq> []\<close> by simp
qed

section \<open>Tilings\<close>

text \<open>The blocks cover both texts in order, and the matching ones agree.\<close>

fun tiles :: "'a list \<Rightarrow> 'a list \<Rightarrow> nat \<Rightarrow> nat \<Rightarrow> (block \<times> btype) list \<Rightarrow> bool" where
  "tiles l1 l2 i j [] \<longleftrightarrow> i = length l1 \<and> j = length l2"
| "tiles l1 l2 i j (((a1, a2, b1, b2), ty) # bs) \<longleftrightarrow>
     a1 = i \<and> b1 = j \<and> a1 \<le> a2 \<and> b1 \<le> b2 \<and> a2 \<le> length l1 \<and> b2 \<le> length l2
     \<and> (if ty = Eq then slice l1 a1 a2 = slice l2 b1 b2 else a1 < a2 \<or> b1 < b2)
     \<and> tiles l1 l2 a2 b2 bs"

lemma allblocks_loop_tiles:
  "blocks_from l1 l2 p1 p3 d \<Longrightarrow> d \<noteq> [] \<Longrightarrow> last d = (length l1, length l2, 0) \<Longrightarrow>
    tiles l1 l2 p1 p3 (allblocks_loop opts x y (p0, p1, p2, p3) (to_blocks d))"
proof (induction d arbitrary: p0 p1 p2 p3)
  case (Cons m d)
  obtain a b n where m: "m = (a, b, n)" by (cases m)
  have le: "p1 \<le> a" "p3 \<le> b" "a + n \<le> length l1" "b + n \<le> length l2" "slice l1 a (a + n) = slice l2 b (b + n)"
    and bf: "blocks_from l1 l2 (a + n) (b + n) d" using Cons.prems(1) m by simp_all
  have "tiles l1 l2 (a + n) (b + n) (allblocks_loop opts x y (a, a + n, b, b + n) (to_blocks d))"
  proof (cases "d = []")
    case True
    then show ?thesis using Cons.prems(3) m by (simp add: to_blocks_def)
  next
    case False
    then show ?thesis using Cons.IH [OF bf False] Cons.prems(3) by simp
  qed
  then show ?case using le m by (auto simp: to_blocks_def Let_def)
qed simp

definition plain :: "diffopts \<Rightarrow> bool" where
  "plain opts \<longleftrightarrow> \<not> o_ignorews opts \<and> \<not> o_ignorewsamount opts \<and> \<not> o_ignorewseol opts \<and> \<not> o_ignoreblanklines opts"

lemma allblocks_loop_types:
  "\<not> o_ignoreblanklines opts \<Longrightarrow> (blk, ty) \<in> set (allblocks_loop opts x y p d) \<Longrightarrow> ty \<noteq> Tilde"
  by (induction opts x y p d rule: allblocks_loop.induct) (auto split: if_splits)

section \<open>Reading a unified diff\<close>

text \<open>
  A line of a hunk is a sign and its text; the marker takes the newline off the
  line before it.
\<close>

fun parse_lines :: "bytes list \<Rightarrow> (char \<times> bytes) list" where
  "parse_lines (l # m # ls) =
     (if m = missing_newline_marker then (hd l, butlast (tl l)) # parse_lines ls
      else (hd l, tl l) # parse_lines (m # ls))"
| "parse_lines [l] = [(hd l, tl l)]"
| "parse_lines [] = []"

definition old_side :: "(char \<times> bytes) list \<Rightarrow> bytes list" where
  "old_side ps = map snd (filter (\<lambda>p. fst p \<noteq> CHR ''+'') ps)"

definition new_side :: "(char \<times> bytes) list \<Rightarrow> bytes list" where
  "new_side ps = map snd (filter (\<lambda>p. fst p \<noteq> CHR ''-'') ps)"

text \<open>
  Applying hunks to the lines of a text, from line \<open>apos\<close> of the old and \<open>bpos\<close>
  of the new text: a hunk must lie after what is done, its old side must be
  there, and its ranges must be those of its lines; every line must end in a
  newline.
\<close>

fun apply_hunks :: "bytes list \<Rightarrow> nat \<Rightarrow> nat \<Rightarrow> (hunkrange \<times> bytes list) list \<Rightarrow> bytes list option" where
  "apply_hunks l1 apos bpos [] = Some (drop apos l1)"
| "apply_hunks l1 apos bpos (((s1, n1, s2, n2), ls) # hs) =
     (let start = (if n1 = 0 then s1 else s1 - 1);
          bstart = (if n2 = 0 then s2 else s2 - 1);
          ps = parse_lines (tl ls)
      in if apos \<le> start \<and> start + n1 \<le> length l1 \<and> old_side ps = slice l1 start (start + n1)
           \<and> bstart = int (bpos + (start - apos)) \<and> n2 = int (length (new_side ps))
           \<and> (\<forall>l\<in>set ls. l \<noteq> [] \<and> last l = NL)
         then map_option (\<lambda>r. slice l1 apos start @ new_side ps @ r)
                (apply_hunks l1 (start + n1) (bpos + (start - apos) + nat n2) hs)
         else None)"

lemma side_append [simp]:
  "old_side (ps @ qs) = old_side ps @ old_side qs" "new_side (ps @ qs) = new_side ps @ new_side qs"
  by (simp_all add: old_side_def new_side_def)

lemma side_simps [simp]:
  "old_side [] = []" "new_side [] = []"
  "old_side ((c, x) # ps) = (if c \<noteq> CHR ''+'' then x # old_side ps else old_side ps)"
  "new_side ((c, x) # ps) = (if c \<noteq> CHR ''-'' then x # new_side ps else new_side ps)"
  by (simp_all add: old_side_def new_side_def)

definition signed :: "char \<Rightarrow> bytes list \<Rightarrow> (char \<times> bytes) list" where
  "signed c xs = map (\<lambda>x. (c, x)) xs"

lemma side_signed [simp]:
  "old_side (signed c xs) = (if c = CHR ''+'' then [] else xs)"
  "new_side (signed c xs) = (if c = CHR ''-'' then [] else xs)"
  by (induction xs) (auto simp: signed_def)

definition put :: "(char \<times> bytes) list \<Rightarrow> bytes list" where
  "put ps = map (\<lambda>(c, x). c # x) ps"

abbreviation signs :: "char set" where
  "signs \<equiv> {CHR 0x20, CHR ''-'', CHR ''+''}"

lemma put_simps [simp]: "put [] = []" "put ((c, x) # ps) = (c # x) # put ps" "put (ps @ qs) = put ps @ put qs"
  by (simp_all add: put_def)

lemma hd_marker [simp]: "hd missing_newline_marker = CHR 0x5C" "missing_newline_marker \<noteq> []"
  "last missing_newline_marker = NL"
  by (simp_all add: missing_newline_marker_def)

lemma not_marker: "c \<in> signs \<Longrightarrow> c # x \<noteq> missing_newline_marker"
  by (auto simp: missing_newline_marker_def)

text \<open>Lines of a hunk, some of them marked.\<close>

fun enc :: "((char \<times> bytes) \<times> bool) list \<Rightarrow> bytes list" where
  "enc [] = []"
| "enc (((c, x), m) # ps) = (if m then [c # x @ [NL], missing_newline_marker] else [c # x]) @ enc ps"

lemma enc_append [simp]: "enc (ps @ qs) = enc ps @ enc qs"
  by (induction ps rule: enc.induct) auto

lemma enc_put: "enc (map (\<lambda>p. (p, False)) ps) = put ps"
  by (induction ps) auto

lemma parse_enc: "\<forall>p\<in>set ps. fst (fst p) \<in> signs \<Longrightarrow> parse_lines (enc ps) = map fst ps"
proof (induction ps rule: enc.induct)
  case (2 c x m ps)
  have hd_enc: "m' # ms = enc ps \<Longrightarrow> m' \<noteq> missing_newline_marker" for m' ms
    using "2.prems" by (cases ps rule: enc.cases) (auto simp: not_marker split: if_splits)
  show ?case
  proof (cases "enc ps")
    case Nil
    then show ?thesis using 2 by (auto simp del: hd_marker)
  next
    case (Cons m' ms)
    then show ?thesis using 2 hd_enc [OF Cons [symmetric]] not_marker [of c "x @ [NL]"]
      by (cases ms) auto
  qed
qed simp

section \<open>The markers\<close>

lemma mark_rev_skip:
  "\<forall>l\<in>set ls. hd l \<notin> cs \<Longrightarrow> mark_rev cs (ls @ ms) = (case mark_rev cs ms of (r, c) \<Rightarrow> (ls @ r, c))"
  by (induction ls) (auto split: prod.splits)

lemma mark_newline_none: "\<forall>l\<in>set ls. hd l \<notin> cs \<Longrightarrow> mark_newline cs ls = (ls, None)"
  using mark_rev_skip [of "List.rev ls" cs "[]"] by (simp add: mark_newline_def)

lemma mark_newline_last:
  "hd l \<in> cs \<Longrightarrow> \<forall>y\<in>set ys. hd y \<notin> cs \<Longrightarrow>
    mark_newline cs (xs @ l # ys) = (xs @ (l @ [NL]) # missing_newline_marker # ys, Some (hd l))"
  using mark_rev_skip [of "List.rev ys" cs "l # List.rev xs"] by (simp add: mark_newline_def)

lemma hd_enc: "l \<in> set (enc es) \<Longrightarrow> hd l = CHR 0x5C \<or> hd l \<in> (fst \<circ> fst) ` set es"
  by (induction es rule: enc.induct) (auto split: if_splits)

lemma mark_enc:
  assumes "c \<in> cs" "cs \<subseteq> signs" "\<forall>p\<in>set vs. fst (fst p) \<notin> cs"
  shows "mark_newline cs (hdr # enc (us @ ((c, x), False) # vs)) = (hdr # enc (us @ ((c, x), True) # vs), Some c)"
proof -
  have "\<forall>l\<in>set (enc vs). hd l \<notin> cs" using hd_enc [of _ vs] assms(2,3) by fastforce
  then show ?thesis using mark_newline_last [of "c # x" cs "enc vs" "hdr # enc us"] assms(1) by simp
qed

definition bad :: "char \<times> bytes \<Rightarrow> bool" where
  "bad p \<longleftrightarrow> last (snd p) \<noteq> NL"

definition flag :: "((char \<times> bytes) \<Rightarrow> bool) \<Rightarrow> (char \<times> bytes) list \<Rightarrow> ((char \<times> bytes) \<times> bool) list" where
  "flag P ps = map (\<lambda>p. (p, P p)) ps"

lemma flag_append [simp]: "flag P (ps @ qs) = flag P ps @ flag P qs" "flag P (p # ps) = (p, P p) # flag P ps" "flag P [] = []"
  by (simp_all add: flag_def)

lemma flag_False: "\<forall>p\<in>set ps. \<not> P p \<Longrightarrow> flag P ps = flag (\<lambda>p. False) ps"
  by (simp add: flag_def)

lemma flag_signs: "p \<in> set (flag P ps) \<Longrightarrow> fst p \<in> set ps"
  by (auto simp: flag_def)

lemma old_side_Nil: "old_side ps = [] \<longleftrightarrow> (\<forall>p\<in>set ps. fst p = CHR ''+'')"
  by (auto simp: old_side_def filter_empty_conv)

lemma new_side_Nil: "new_side ps = [] \<longleftrightarrow> (\<forall>p\<in>set ps. fst p = CHR ''-'')"
  by (auto simp: new_side_def filter_empty_conv)

text \<open>
  The hypotheses say where a line without a newline can be: it is the last of its
  side, which reaches the end of a text without a final newline; and there it is.
\<close>

lemma flag_cong: "(\<And>p. p \<in> set ps \<Longrightarrow> P p = Q p) \<Longrightarrow> flag P ps = flag Q ps"
  by (simp add: flag_def)

abbreviation bad_old :: "char \<times> bytes \<Rightarrow> bool" where
  "bad_old p \<equiv> bad p \<and> fst p \<noteq> CHR ''+''"

lemma mark_old:
  assumes sg: "\<forall>p\<in>set qs. fst p \<in> signs" and ne: "old_side qs \<noteq> []"
    and F1: "\<And>us p vs. qs = us @ p # vs \<Longrightarrow> fst p \<noteq> CHR ''+'' \<Longrightarrow> bad p \<longleftrightarrow> old_side vs = []"
  shows "\<exists>xs c x ys. qs = xs @ (c, x) # ys \<and> c \<noteq> CHR ''+'' \<and> bad (c, x) \<and> old_side ys = []
    \<and> mark_newline {CHR ''-'', CHR 0x20} (hdr # put qs) = (hdr # enc (flag bad_old qs), Some c)"
proof -
  obtain xs p ys where q: "qs = xs @ p # ys" "fst p \<noteq> CHR ''+''" "\<forall>q\<in>set ys. fst q = CHR ''+''"
    using split_list_last_prop [of qs "\<lambda>p. fst p \<noteq> CHR ''+''"] ne by (auto simp: old_side_Nil)
  obtain c x where p: "p = (c, x)" by (cases p)
  have ys: "old_side ys = []" using q(3) by (simp add: old_side_Nil)
  then have b: "bad p" using F1 [OF q(1,2)] by simp
  have nb: "\<not> bad_old r" if "r \<in> set xs" for r
  proof
    assume r: "bad_old r"
    obtain us vs where "xs = us @ r # vs" using split_list [OF \<open>r \<in> set xs\<close>] by blast
    then have "old_side (vs @ p # ys) = []" using F1 [of us r "vs @ p # ys"] r q(1) by simp
    then show False using p q(2) by simp
  qed
  have "flag bad_old qs = flag (\<lambda>p. False) xs @ ((c, x), True) # flag (\<lambda>p. False) ys"
    using flag_False [of xs bad_old] flag_False [of ys bad_old] nb q b p by simp
  moreover have "put qs = enc (flag (\<lambda>p. False) xs @ ((c, x), False) # flag (\<lambda>p. False) ys)"
    using q(1) p by (simp add: flag_def enc_put)
  moreover have "c \<in> {CHR ''-'', CHR 0x20}" using sg q(1,2) p by auto
  moreover have "\<forall>r\<in>set (flag (\<lambda>p. False) ys). fst (fst r) \<notin> {CHR ''-'', CHR 0x20}" using q(3) by (auto simp: flag_def)
  ultimately have "mark_newline {CHR ''-'', CHR 0x20} (hdr # put qs) = (hdr # enc (flag bad_old qs), Some c)"
    using mark_enc [of c "{CHR ''-'', CHR 0x20}" "flag (\<lambda>p. False) ys" hdr "flag (\<lambda>p. False) xs" x] by simp
  then show ?thesis using q(1,2) p b ys by auto
qed

lemma mark_new:
  assumes q: "qs = us @ (CHR ''+'', x) # vs" "new_side vs = []"
    and F2: "\<And>us p vs. qs = us @ p # vs \<Longrightarrow> fst p = CHR ''+'' \<Longrightarrow> bad p \<longleftrightarrow> new_side vs = []"
  shows "mark_newline {CHR ''+''} (hdr # enc (flag bad_old qs)) = (hdr # enc (flag bad qs), Some (CHR ''+''))"
proof -
  have b: "bad (CHR ''+'', x)" using F2 [OF q(1)] q(2) by simp
  have nb: "bad r \<longleftrightarrow> bad_old r" if ru: "r \<in> set us" for r
  proof (rule ccontr)
    assume n: "\<not> ?thesis"
    then have r: "bad r" "fst r = CHR ''+''" by auto
    obtain us' vs' where "us = us' @ r # vs'" using split_list [OF ru] by blast
    then have "new_side (vs' @ (CHR ''+'', x) # vs) = []" using F2 [of us' r "vs' @ (CHR ''+'', x) # vs"] r q(1) by simp
    then show False by simp
  qed
  have vs: "\<forall>r\<in>set vs. fst r = CHR ''-''" using q(2) by (simp add: new_side_Nil)
  have "flag bad us = flag bad_old us" "flag bad vs = flag bad_old vs" using nb vs by (auto intro!: flag_cong)
  then have "flag bad qs = flag bad_old us @ ((CHR ''+'', x), True) # flag bad_old vs" using q(1) b by simp
  moreover have "flag bad_old qs = flag bad_old us @ ((CHR ''+'', x), False) # flag bad_old vs" using q(1) by simp
  moreover have "\<forall>r\<in>set (flag bad_old vs). fst (fst r) \<notin> {CHR ''+''}" using vs by (auto simp: flag_def)
  ultimately show ?thesis
    using mark_enc [of "CHR ''+''" "{CHR ''+''}" "flag bad_old vs" hdr "flag bad_old us" x] by simp
qed

lemma mark_missing_ok:
  assumes t: "t1 \<noteq> []" "t2 \<noteq> []" and sg: "\<forall>p\<in>set qs. fst p \<in> signs"
    and A: "A \<longleftrightarrow> last t1 \<noteq> NL \<and> aend" and B: "B \<longleftrightarrow> last t2 \<noteq> NL \<and> bend"
    and F1: "\<And>us p vs. qs = us @ p # vs \<Longrightarrow> fst p \<noteq> CHR ''+'' \<Longrightarrow> bad p \<longleftrightarrow> A \<and> old_side vs = []"
    and F2: "\<And>us p vs. qs = us @ p # vs \<Longrightarrow> fst p \<noteq> CHR ''-'' \<Longrightarrow> bad p \<longleftrightarrow> B \<and> new_side vs = []"
    and F3: "A \<Longrightarrow> old_side qs \<noteq> []" and F4: "B \<Longrightarrow> new_side qs \<noteq> []"
  shows "mark_missing t1 t2 aend bend (hdr # put qs) = Inr (hdr # enc (flag bad qs))"
proof -
  have bad1: "bad_old p \<longleftrightarrow> False" if "\<not> A" "p \<in> set qs" for p
    using F1 that split_list [OF that(2)] by blast
  have noB: "flag bad qs = flag bad_old qs" if "\<not> B"
  proof (rule flag_cong)
    fix p assume "p \<in> set qs"
    then obtain us vs where "qs = us @ p # vs" using split_list by fast
    then show "bad p = bad_old p" using F2 [of us p vs] that by auto
  qed
  have noA: "put qs = enc (flag bad_old qs)" if "\<not> A"
  proof -
    have "flag bad_old qs = flag (\<lambda>p. False) qs" using bad1 [OF that] by (intro flag_cong) simp
    moreover have "enc (flag (\<lambda>p. False) qs) = put qs" unfolding flag_def by (rule enc_put)
    ultimately show ?thesis by metis
  qed
  have new: "fst (mark_newline {CHR ''+''} (hdr # enc (flag bad_old qs))) = hdr # enc (flag bad qs)"
    if Bt: B and ctx: "\<And>us x. qs = us @ [(CHR 0x20, x)] \<Longrightarrow> \<not> A"
  proof -
    obtain us r vs where q: "qs = us @ r # vs" "fst r \<noteq> CHR ''-''" "\<forall>q\<in>set vs. fst q = CHR ''-''"
      using split_list_last_prop [of qs "\<lambda>p. fst p \<noteq> CHR ''-''"] F4 [OF Bt] by (auto simp: new_side_Nil)
    obtain c x where r: "r = (c, x)" by (cases r)
    have vs: "new_side vs = []" using q(3) by (simp add: new_side_Nil)
    have "c = CHR ''+''"
    proof (rule ccontr)
      assume c: "c \<noteq> CHR ''+''"
      then have "A \<and> old_side vs = []" using F1 [OF q(1)] F2 [OF q(1,2)] vs r \<open>B\<close> by auto
      moreover have "c = CHR 0x20" using sg q(1,2) r c by auto
      moreover have "vs = []" using calculation(1) q(3) by (cases vs) (auto simp: old_side_Nil)
      ultimately show False using ctx [of us x] q(1) r by simp
    qed
    then show ?thesis using mark_new [of qs us x vs hdr] q(1) r vs F2 \<open>B\<close> by auto
  qed
  show ?thesis
  proof (cases A)
    case True
    then obtain xs c x ys where m: "qs = xs @ (c, x) # ys" "c \<noteq> CHR ''+''" "bad (c, x)" "old_side ys = []"
      "mark_newline {CHR ''-'', CHR 0x20} (hdr # put qs) = (hdr # enc (flag bad_old qs), Some c)"
      using mark_old [OF sg F3 [OF True]] F1 by blast
    have c1: "last t1 \<noteq> NL" aend using A True by simp_all
    show ?thesis
    proof (cases "c = CHR 0x20")
      case True
      have "bad p = bad_old p" if "p \<in> set qs" for p
      proof (cases "fst p = CHR ''+''")
        case plus: True
        have "new_side ys = []" using F2 [OF m(1)] m(3) True by simp
        then have "p \<in> set xs" using that m(1,4) plus True by (cases p) (auto simp: old_side_Nil new_side_Nil)
        then obtain us vs where "xs = us @ p # vs" using split_list by fast
        then show ?thesis using F2 [of us p "vs @ (c, x) # ys"] m(1) plus True by simp
      qed simp
      then have "flag bad qs = flag bad_old qs" by (rule flag_cong)
      then show ?thesis using m(5) True c1 t by (simp add: mark_missing_def py_last_def)
    next
      case False
      have "qs \<noteq> us @ [(CHR 0x20, x')]" for us x'
        using m(1,4) False by (cases ys rule: rev_cases) (auto simp: old_side_Nil)
      then have "B \<Longrightarrow> fst (mark_newline {CHR ''+''} (hdr # enc (flag bad_old qs))) = hdr # enc (flag bad qs)"
        using new by blast
      then show ?thesis using m(5) False c1 t B noB by (auto simp: mark_missing_def py_last_def)
    qed
  next
    case False
    then show ?thesis using noA noB new t A B by (auto simp: mark_missing_def py_last_def)
  qed
qed

section \<open>One hunk\<close>

lemma last_without_newline:
  assumes qs: "side (us @ p # vs) = side us @ snd p # side vs" and sl: "side (us @ p # vs) = slice l i k"
    and l: "l = splitnewlines t" and ik: "i \<le> k" "k \<le> length l"
  shows "bad p \<longleftrightarrow> (t \<noteq> [] \<and> last t \<noteq> NL \<and> k = length l) \<and> side vs = []"
proof -
  define n where "n = i + length (side us)"
  have len: "length (side us) + Suc (length (side vs)) = k - i" using qs sl ik by (metis diff_le_mono length_append length_slice list.size(4) min.absorb1 add_Suc_right One_nat_def add.right_neutral)
  then have n: "n < k" by (simp add: n_def)
  have "length (side us) < k - i" using len by simp
  then have "slice l i k ! length (side us) = l ! n" using nth_slice [of "length (side us)" k i l] ik by (simp add: n_def)
  moreover have "slice l i k ! length (side us) = snd p" using sl qs by (metis nth_append_length)
  ultimately have x: "snd p = l ! n" by simp
  have "bad p \<longleftrightarrow> last (l ! n) \<noteq> NL" by (simp add: bad_def x)
  also have "\<dots> \<longleftrightarrow> Suc n = length l \<and> t \<noteq> [] \<and> last t \<noteq> NL"
  proof
    assume "last (l ! n) \<noteq> NL"
    then show "Suc n = length l \<and> t \<noteq> [] \<and> last t \<noteq> NL" using splitnewlines_nth [of n t] n ik l by simp
  next
    assume a: "Suc n = length l \<and> t \<noteq> [] \<and> last t \<noteq> NL"
    then have "l ! n = last l" by (metis diff_Suc_1 last_conv_nth length_0_conv nat.distinct(1))
    then show "last (l ! n) \<noteq> NL" using splitnewlines_last a l by simp
  qed
  also have "Suc n = length l \<longleftrightarrow> k = length l \<and> length (side vs) = 0" using len ik n unfolding n_def by linarith
  finally show ?thesis by auto
qed

lemma enc_newlines: "\<forall>p\<in>set ps. snd p \<noteq> [] \<Longrightarrow> l \<in> set (enc (flag bad ps)) \<Longrightarrow> l \<noteq> [] \<and> last l = NL"
  by (induction ps) (auto simp: bad_def hd_marker(2) [symmetric] split: if_splits)

lemma hunk_lines_ok:
  assumes l: "l1 = splitnewlines t1" "l2 = splitnewlines t2" and t: "t1 \<noteq> []" "t2 \<noteq> []"
    and sg: "\<forall>p\<in>set qs. fst p \<in> signs"
    and old: "old_side qs = slice l1 i k" "i \<le> k" "k \<le> length l1"
    and new: "new_side qs = slice l2 j m" "j \<le> m" "m \<le> length l2"
    and aend: "aend \<longleftrightarrow> i < k \<and> k = length l1" and bend: "bend \<longleftrightarrow> j < m \<and> m = length l2"
  shows "mark_missing t1 t2 aend bend (hdr # put qs) = Inr (hdr # enc (flag bad qs))"
proof (rule mark_missing_ok [OF t sg refl refl])
  fix us p vs assume q: "qs = us @ p # vs" 
  have sp: "old_side qs \<noteq> []" if "fst p \<noteq> CHR ''+''" using q that by (cases p) simp
  assume c: "fst p \<noteq> CHR ''+''"
  then have "i < k" using sp [OF c] old(1) by (cases "i < k") (simp_all add: slice_def)
  moreover have "old_side (us @ p # vs) = old_side us @ snd p # old_side vs" using c by (cases p) simp
  ultimately show "bad p \<longleftrightarrow> (last t1 \<noteq> NL \<and> aend) \<and> old_side vs = []"
    using last_without_newline [of old_side us p vs l1 i k t1] q old l t aend by blast
next
  fix us p vs assume q: "qs = us @ p # vs" 
  have sp: "new_side qs \<noteq> []" if "fst p \<noteq> CHR ''-''" using q that by (cases p) simp
  assume c: "fst p \<noteq> CHR ''-''"
  then have "j < m" using sp [OF c] new(1) by (cases "j < m") (simp_all add: slice_def)
  moreover have "new_side (us @ p # vs) = new_side us @ snd p # new_side vs" using c by (cases p) simp
  ultimately show "bad p \<longleftrightarrow> (last t2 \<noteq> NL \<and> bend) \<and> new_side vs = []"
    using last_without_newline [of new_side us p vs l2 j m t2] q new l t bend by blast
next
  assume "last t1 \<noteq> NL \<and> aend"
  then show "old_side qs \<noteq> []" using old aend by (metis diff_is_0_eq length_slice list.size(3) min.absorb1 diff_le_mono not_less)
next
  assume "last t2 \<noteq> NL \<and> bend"
  then show "new_side qs \<noteq> []" using new bend by (metis diff_is_0_eq length_slice list.size(3) min.absorb1 diff_le_mono not_less)
qed

text \<open>
  A hunk under construction: its delta spells the old lines \<open>astart..a2\<close> and the
  new lines \<open>bstart..b2\<close>.
\<close>

definition hunk_inv :: "bytes list \<Rightarrow> bytes list \<Rightarrow> dhunk \<Rightarrow> nat \<Rightarrow> nat \<Rightarrow> bool" where
  "hunk_inv l1 l2 h bs b2 \<longleftrightarrow>
     (\<exists>ps. h_delta h = put ps \<and> (\<forall>p\<in>set ps. fst p \<in> signs)
        \<and> old_side ps = slice l1 (h_astart h) (h_a2 h) \<and> new_side ps = slice l2 bs b2)
     \<and> h_bstart h = int bs \<and> h_b2 h = int b2 \<and> bs \<le> b2 \<and> b2 \<le> length l2
     \<and> h_astart h \<le> h_a2 h \<and> h_a2 h \<le> length l1"

lemma side_snd: "p \<in> set ps \<Longrightarrow> fst p \<in> signs \<Longrightarrow> snd p \<in> set (old_side ps) \<union> set (new_side ps)"
  by (cases p) (force simp: old_side_def new_side_def)

lemma set_slice: "x \<in> set (slice xs i j) \<Longrightarrow> x \<in> set xs"
  by (auto simp: slice_def dest: in_set_takeD in_set_dropD)

lemma yieldhunk_ok:
  assumes l: "l1 = splitnewlines t1" "l2 = splitnewlines t2" and t: "t1 \<noteq> []" "t2 \<noteq> []"
    and h: "hunk_inv l1 l2 h bs b2" and aend: "aend = contextend opts (h_a2 h) (length l1)"
    and ctx: "slice l1 (h_a2 h) aend = slice l2 b2 (b2 + (aend - h_a2 h))" "b2 + (aend - h_a2 h) \<le> length l2"
  shows "\<exists>x lf'. yieldhunk opts t1 t2 l1 l2 lf h = Inr (x, lf') \<and>
    (\<forall>apos bpos hs. apos \<le> h_astart h \<longrightarrow> bs = bpos + (h_astart h - apos) \<longrightarrow>
       apply_hunks l1 apos bpos (x # hs) =
         map_option (\<lambda>r. slice l1 apos (h_astart h) @ slice l2 bs (b2 + (aend - h_a2 h)) @ r)
           (apply_hunks l1 aend (b2 + (aend - h_a2 h)) hs))"
proof -
  obtain ps where ps: "h_delta h = put ps" "\<forall>p\<in>set ps. fst p \<in> signs"
      "old_side ps = slice l1 (h_astart h) (h_a2 h)" "new_side ps = slice l2 bs b2"
    and b: "h_bstart h = int bs" "h_b2 h = int b2" "bs \<le> b2" "b2 \<le> length l2" "h_astart h \<le> h_a2 h" "h_a2 h \<le> length l1"
    using h by (auto simp: hunk_inv_def)
  define bend where "bend = b2 + (aend - h_a2 h)"
  have ae: "h_a2 h \<le> aend" "aend \<le> length l1" using aend b by (auto simp: contextend_def Let_def)
  define qs where "qs = ps @ signed (CHR 0x20) (slice l1 (h_a2 h) aend)"
  have sg: "\<forall>p\<in>set qs. fst p \<in> signs" using ps(2) by (auto simp: qs_def signed_def)
  have old: "old_side qs = slice l1 (h_astart h) aend"
    using ps(3) slice_append [of "h_astart h" "h_a2 h" aend l1] b ae by (simp add: qs_def)
  have new: "new_side qs = slice l2 bs bend"
    using ps(4) ctx(1) slice_append [of bs b2 bend l2] b by (simp add: qs_def bend_def)
  have "map (\<lambda>x. CHR 0x20 # l1 ! x) [h_a2 h..<aend] = put (signed (CHR 0x20) (slice l1 (h_a2 h) aend))"
    using map_nth_slice [of aend l1 "h_a2 h"] ae by (simp add: put_def signed_def flip: map_map [unfolded comp_def])
  then have lines: "h_delta h @ map (\<lambda>x. CHR 0x20 # l1 ! x) [h_a2 h..<aend] = put qs" using ps(1) by (simp add: qs_def)
  obtain func lf' where fl: "func_line opts l1 (h_astart h) lf = (func, lf')" by (cases "func_line opts l1 (h_astart h) lf")
  define alen where "alen = aend - h_astart h"
  define blen where "blen = int bend - int bs"
  define r where "r = (if alen \<noteq> 0 then h_astart h + 1 else h_astart h, alen, if blen \<noteq> 0 then int bs + 1 else int bs, blen)"
  define ls where "ls = hunk_header r func # enc (flag bad qs)"
  have bl: "h_b2 h - int bs + int aend - int (h_a2 h) = blen" using b ae by (simp add: blen_def bend_def)
  have ends: "fst r + alen = length l1 + 1 \<longleftrightarrow> h_astart h < aend \<and> aend = length l1"
    "fst (snd (snd r)) + blen = int (length l2) + 1 \<longleftrightarrow> bs < bend \<and> bend = length l2"
    using b ae ctx(2) by (auto simp: r_def alen_def blen_def bend_def)
  have "mark_missing t1 t2 (fst r + alen = length l1 + 1) (fst (snd (snd r)) + blen = int (length l2) + 1)
      (hunk_header r func # put qs) = Inr ls"
    unfolding ls_def by (rule hunk_lines_ok [OF l t sg old _ _ new _ _ ends]) (use b ae ctx(2) in \<open>auto simp: bend_def\<close>)
  then have y: "yieldhunk opts t1 t2 l1 l2 lf h = Inr ((r, ls), lf')"
    unfolding yieldhunk_def Let_def aend [symmetric] b(1) bl alen_def [symmetric] lines
    by (simp add: fl r_def)
  have parse: "parse_lines (tl ls) = qs"
    using parse_enc [of "flag bad qs"] sg by (simp add: ls_def flag_def comp_def)
  have "snd p \<noteq> []" if "p \<in> set qs" for p
    using side_snd [OF that] sg that old new splitnewlines_nonempty l by (metis Un_iff set_slice)
  then have nl: "\<forall>x\<in>set ls. x \<noteq> [] \<and> last x = NL"
    using enc_newlines [of qs] by (auto simp: ls_def hunk_header_def r_def)
  have "length (new_side qs) = bend - bs" using new ctx(2) by (simp add: bend_def)
  then have n2: "blen = int (length (new_side qs))" using b by (simp add: blen_def bend_def)
  have "apply_hunks l1 apos bpos ((r, ls) # hs) =
         map_option (\<lambda>r. slice l1 apos (h_astart h) @ slice l2 bs bend @ r) (apply_hunks l1 aend bend hs)"
    if "apos \<le> h_astart h" "bs = bpos + (h_astart h - apos)" for apos bpos hs
  proof -
    define s1 where "s1 = fst r"
    define s2 where "s2 = fst (snd (snd r))"
    have r: "r = (s1, alen, s2, blen)" by (simp add: s1_def s2_def r_def)
    have st: "(if alen = 0 then s1 else s1 - 1) = h_astart h" "(if blen = 0 then s2 else s2 - 1) = int bs"
      by (simp_all add: s1_def s2_def r_def)
    have e: "h_astart h + alen = aend" using b ae by (simp add: alen_def)
    have "int (bpos + (h_astart h - apos) + nat blen) = int bend"
      unfolding that(2) [symmetric] using b(3) by (simp add: blen_def bend_def)
    then have e2: "bpos + (h_astart h - apos) + nat blen = bend" by (simp only: of_nat_eq_iff)
    have cond: "apos \<le> h_astart h \<and> aend \<le> length l1 \<and> old_side qs = slice l1 (h_astart h) aend
        \<and> int bs = int (bpos + (h_astart h - apos)) \<and> blen = int (length (slice l2 bs bend)) \<and> (\<forall>x\<in>set ls. x \<noteq> [] \<and> last x = NL)"
      using that ae(2) old n2 [unfolded new] nl by blast
    show ?thesis unfolding r apply_hunks.simps Let_def st parse e e2 new by (rule if_P [OF cond])
  qed
  then show ?thesis using y unfolding bend_def by blast
qed

section \<open>All hunks\<close>

text \<open>The two texts agree for \<open>n\<close> lines from lines \<open>a\<close> and \<open>b\<close> on.\<close>

definition same :: "'a list \<Rightarrow> 'a list \<Rightarrow> nat \<Rightarrow> nat \<Rightarrow> nat \<Rightarrow> bool" where
  "same l1 l2 a b n \<longleftrightarrow> slice l1 a (a + n) = slice l2 b (b + n) \<and> a + n \<le> length l1 \<and> b + n \<le> length l2"

lemma same_sub: "same l1 l2 a b n \<Longrightarrow> k + m \<le> n \<Longrightarrow> same l1 l2 (a + k) (b + k) m"
  using slice_sub_eq [of l1 a n l2 b k m] by (simp add: same_def)

lemma same_join: "same l1 l2 a b n \<Longrightarrow> same l1 l2 (a + n) (b + n) m \<Longrightarrow> same l1 l2 a b (n + m)"
  unfolding same_def using slice_append [of a "a + n" "a + n + m" l1] slice_append [of b "b + n" "b + n + m" l2]
  by (simp add: add.assoc)

lemma same_0: "a \<le> length l1 \<Longrightarrow> b \<le> length l2 \<Longrightarrow> same l1 l2 a b 0"
  by (simp add: same_def)

lemma same_Eq:
  assumes "slice l1 i a2 = slice l2 j b2" "i \<le> a2" "j \<le> b2" "a2 \<le> length l1" "b2 \<le> length l2"
  shows "\<exists>m. a2 = i + m \<and> b2 = j + m \<and> same l1 l2 i j m"
proof -
  have "a2 - i = b2 - j" using arg_cong [OF assms(1), of length] assms(2-) by simp
  then have "a2 = i + (a2 - i)" "b2 = j + (a2 - i)" using assms(2,3) by simp_all
  then show ?thesis using assms unfolding same_def by metis
qed

lemma delta_lines_put:
  "delta_lines l1 l2 x (a1, a2, b1, b2) =
    put (signed (CHR 0x20) (slice l1 x a1) @ signed (CHR ''-'') (slice l1 a1 a2) @ signed (CHR ''+'') (slice l2 b1 b2))"
  by (simp add: delta_lines_def put_def signed_def comp_def)

lemma hunk_inv_fresh:
  assumes "same l1 l2 x y n" "x + n \<le> a2" "y + n \<le> b2" "a2 \<le> length l1" "b2 \<le> length l2"
  shows "hunk_inv l1 l2 \<lparr> h_astart = x, h_a2 = a2, h_bstart = int y, h_b2 = int b2,
      h_delta = delta_lines l1 l2 x (x + n, a2, y + n, b2) \<rparr> y b2"
proof -
  let ?ps = "signed (CHR 0x20) (slice l1 x (x + n)) @ signed (CHR ''-'') (slice l1 (x + n) a2) @ signed (CHR ''+'') (slice l2 (y + n) b2)"
  have "old_side ?ps = slice l1 x a2" using slice_append [of x "x + n" a2 l1] assms(2) by simp
  moreover have "new_side ?ps = slice l2 y b2" using slice_append [of y "y + n" b2 l2] assms(1,3) by (simp add: same_def)
  moreover have "\<forall>p\<in>set ?ps. fst p \<in> signs" by (auto simp: signed_def)
  ultimately show ?thesis using assms(2-) unfolding hunk_inv_def by (auto simp: delta_lines_put intro!: exI [of _ ?ps])
qed

lemma hunk_inv_join:
  assumes inv: "hunk_inv l1 l2 h bs b" and same: "same l1 l2 (h_a2 h) b n"
    and le: "h_a2 h + n \<le> a2" "b + n \<le> b2" "a2 \<le> length l1" "b2 \<le> length l2"
  shows "hunk_inv l1 l2 (h\<lparr> h_a2 := a2, h_b2 := int b2,
      h_delta := h_delta h @ delta_lines l1 l2 (h_a2 h) (h_a2 h + n, a2, b + n, b2) \<rparr>) bs b2"
proof -
  obtain ps where ps: "h_delta h = put ps" "\<forall>p\<in>set ps. fst p \<in> signs"
      "old_side ps = slice l1 (h_astart h) (h_a2 h)" "new_side ps = slice l2 bs b"
    and r: "h_bstart h = int bs" "bs \<le> b" "h_astart h \<le> h_a2 h"
    using inv by (auto simp: hunk_inv_def)
  let ?a = "h_a2 h"
  let ?qs = "ps @ signed (CHR 0x20) (slice l1 ?a (?a + n)) @ signed (CHR ''-'') (slice l1 (?a + n) a2) @ signed (CHR ''+'') (slice l2 (b + n) b2)"
  have "old_side ?qs = slice l1 (h_astart h) a2"
    using ps(3) slice_append [of "h_astart h" ?a "?a + n" l1] slice_append [of "h_astart h" "?a + n" a2 l1] r le
    by (simp flip: append_assoc)
  moreover have "new_side ?qs = slice l2 bs b2"
    using ps(4) same slice_append [of bs b "b + n" l2] slice_append [of bs "b + n" b2 l2] r le
    by (simp add: same_def flip: append_assoc)
  moreover have "\<forall>p\<in>set ?qs. fst p \<in> signs" using ps(2) by (auto simp: signed_def)
  ultimately show ?thesis using r le ps(1) unfolding hunk_inv_def by (auto simp: delta_lines_put intro!: exI [of _ ?qs])
qed

lemma slice_drop: "i \<le> j \<Longrightarrow> slice l i j @ drop j l = drop i l"
  using slice_append [of i j "max j (length l)" l] by (simp add: slice_to_drop)

lemma last_hunk_ok:
  assumes l: "l1 = splitnewlines t1" "l2 = splitnewlines t2" and t: "t1 \<noteq> []" "t2 \<noteq> []"
    and inv: "hunk_inv l1 l2 h bs b2" and same: "same l1 l2 (h_a2 h) b2 n" and ctx: "o_context opts \<le> n \<or> h_a2 h + n = length l1"
    and pos: "apos \<le> h_astart h" "bs = bpos + (h_astart h - apos)" "slice l1 apos (h_astart h) = slice l2 bpos bs"
  defines "k \<equiv> min (o_context opts) n"
  shows "\<exists>x lf'. yieldhunk opts t1 t2 l1 l2 lf h = Inr (x, lf')
    \<and> (\<forall>hs. apply_hunks l1 (h_a2 h + k) (b2 + k) hs = Some (drop (b2 + k) l2)
         \<longrightarrow> apply_hunks l1 apos bpos (x # hs) = Some (drop bpos l2))"
proof -
  have le: "h_a2 h + n \<le> length l1" "b2 + n \<le> length l2" using same by (simp_all add: same_def)
  then have ce: "h_a2 h + k = contextend opts (h_a2 h) (length l1)"
    using ctx by (auto simp: contextend_def Let_def k_def)
  have "same l1 l2 (h_a2 h) b2 k" using same_sub [OF same, of 0 k] by (simp add: k_def)
  then have "slice l1 (h_a2 h) (h_a2 h + k) = slice l2 b2 (b2 + (h_a2 h + k - h_a2 h))" "b2 + (h_a2 h + k - h_a2 h) \<le> length l2"
    by (simp_all add: same_def)
  from yieldhunk_ok [OF l t inv ce this, of lf] obtain x lf' where y: "yieldhunk opts t1 t2 l1 l2 lf h = Inr (x, lf')"
    "\<And>hs. apply_hunks l1 apos bpos (x # hs) =
      map_option (\<lambda>r. slice l1 apos (h_astart h) @ slice l2 bs (b2 + k) @ r) (apply_hunks l1 (h_a2 h + k) (b2 + k) hs)"
    using pos by auto
  have "bpos \<le> bs" "bs \<le> b2 + k" using pos inv by (auto simp: hunk_inv_def)
  then have "slice l2 bpos bs @ slice l2 bs (b2 + k) @ drop (b2 + k) l2 = drop bpos l2"
    by (simp add: slice_drop)
  then show ?thesis using y pos(3) by auto
qed

lemma unidiff_loop_Some:
  assumes l: "l1 = splitnewlines t1" "l2 = splitnewlines t2" and t: "t1 \<noteq> []" "t2 \<noteq> []"
  shows "tiles l1 l2 (h_a2 h + n) (b2 + n) blks \<Longrightarrow> \<forall>blk\<in>set blks. snd blk \<noteq> Tilde \<Longrightarrow>
    hunk_inv l1 l2 h bs b2 \<Longrightarrow> same l1 l2 (h_a2 h) b2 n \<Longrightarrow>
    apos \<le> h_astart h \<Longrightarrow> bs = bpos + (h_astart h - apos) \<Longrightarrow> slice l1 apos (h_astart h) = slice l2 bpos bs \<Longrightarrow>
    \<exists>hs. unidiff_loop opts t1 t2 l1 l2 (Some h) 0 lf blks = Inr hs \<and> hs \<noteq> []
      \<and> apply_hunks l1 apos bpos hs = Some (drop bpos l2)"
proof (induction blks arbitrary: h bs b2 n apos bpos lf)
  case Nil
  then have n: "h_a2 h + n = length l1" "b2 + n = length l2" by simp_all
  from last_hunk_ok [OF l t Nil.prems(3,4) _ Nil.prems(5-7), of opts lf] n(1) obtain x lf' where
    y: "yieldhunk opts t1 t2 l1 l2 lf h = Inr (x, lf')"
    and ap: "\<And>hs. apply_hunks l1 (h_a2 h + min (o_context opts) n) (b2 + min (o_context opts) n) hs
        = Some (drop (b2 + min (o_context opts) n) l2) \<longrightarrow> apply_hunks l1 apos bpos (x # hs) = Some (drop bpos l2)" by auto
  let ?k = "min (o_context opts) n"
  have "same l1 l2 (h_a2 h + ?k) (b2 + ?k) (n - ?k)" using same_sub [OF Nil.prems(4), of ?k "n - ?k"] by simp
  then have "drop (h_a2 h + ?k) l1 = drop (b2 + ?k) l2" using n by (simp add: same_def slice_to_drop)
  then have "apply_hunks l1 apos bpos [x] = Some (drop bpos l2)" using ap [of "[]"] by simp
  then show ?case using y by simp
next
  case (Cons blk blks)
  obtain a1 a2 b1 b2' ty where blk: "blk = ((a1, a2, b1, b2'), ty)" by (metis prod.exhaust)
  have tl: "a1 = h_a2 h + n" "b1 = b2 + n" "a1 \<le> a2" "b1 \<le> b2'" "a2 \<le> length l1" "b2' \<le> length l2"
    "tiles l1 l2 a2 b2' blks" "ty = Eq \<Longrightarrow> slice l1 a1 a2 = slice l2 b1 b2'"
    using Cons.prems(1) blk by (auto split: if_splits)
  have nt: "\<forall>blk\<in>set blks. snd blk \<noteq> Tilde" "ty \<noteq> Tilde" using Cons.prems(2) blk by auto
  consider (eq) "ty = Eq" | (join) "ty = Bang" "nat (contextstart opts (int a1)) < h_a2 h + o_context opts + 1"
    | (fresh) "ty = Bang" "h_a2 h + o_context opts + 1 \<le> nat (contextstart opts (int a1))"
    using nt(2) by (cases ty) force+
  then show ?case
  proof cases
    case eq
    then obtain m where m: "a2 = a1 + m" "b2' = b1 + m" "same l1 l2 a1 b1 m" using same_Eq [OF tl(8) tl(3-6)] by blast
    have "same l1 l2 (h_a2 h) b2 (n + m)" using same_join [OF Cons.prems(4)] m(3) tl(1,2) by simp
    moreover have "tiles l1 l2 (h_a2 h + (n + m)) (b2 + (n + m)) blks" using tl(1,2,7) m by (simp add: add.assoc)
    ultimately show ?thesis using Cons.IH [OF _ nt(1) Cons.prems(3) _ Cons.prems(5-7), of "n + m" lf] eq blk by simp
  next
    case join
    let ?h = "h\<lparr> h_a2 := a2, h_b2 := int b2', h_delta := h_delta h @ delta_lines l1 l2 (h_a2 h) (a1, a2, b1, b2') \<rparr>"
    have "hunk_inv l1 l2 ?h bs b2'" using hunk_inv_join [OF Cons.prems(3,4), of a2 b2'] tl by simp
    moreover have "tiles l1 l2 (h_a2 ?h + 0) (b2' + 0) blks" using tl(7) by simp
    moreover have "same l1 l2 (h_a2 ?h) b2' 0" using tl by (simp add: same_0)
    ultimately show ?thesis using Cons.IH [of ?h 0 b2' bs apos bpos lf] nt(1) Cons.prems(5-7) join blk by (simp add: Let_def)
  next
    case fresh
    define c where "c = o_context opts"
    have nc: "c + c < n" and st: "nat (contextstart opts (int a1)) = h_a2 h + (n - c)"
      "contextstart opts (int b1) = int (b2 + (n - c))"
      using fresh(2) tl(1,2) by (auto simp: contextstart_def Let_def c_def split: if_splits)
    let ?h = "\<lparr> h_astart = h_a2 h + (n - c), h_a2 = a2, h_bstart = int (b2 + (n - c)), h_b2 = int b2',
        h_delta = delta_lines l1 l2 (h_a2 h + (n - c)) (a1, a2, b1, b2') \<rparr>"
    have "same l1 l2 (h_a2 h + (n - c)) (b2 + (n - c)) c" using same_sub [OF Cons.prems(4), of "n - c" c] nc by simp
    from hunk_inv_fresh [OF this, of a2 b2'] have inv: "hunk_inv l1 l2 ?h (b2 + (n - c)) b2'" using tl nc by simp
    have "same l1 l2 (h_a2 h + c) (b2 + c) (n - c - c)" using same_sub [OF Cons.prems(4), of c "n - c - c"] nc by simp
    then have sl: "slice l1 (h_a2 h + c) (h_a2 h + (n - c)) = slice l2 (b2 + c) (b2 + (n - c))" using nc by (simp add: same_def)
    have ap: "h_a2 h + c \<le> h_astart ?h" "b2 + (n - c) = b2 + c + (h_astart ?h - (h_a2 h + c))" using nc by simp_all
    have "tiles l1 l2 (h_a2 ?h + 0) (b2' + 0) blks" "same l1 l2 (h_a2 ?h) b2' 0" using tl by (simp_all add: same_0)
    note IH = Cons.IH [OF this(1) nt(1) inv this(2) ap]
    from last_hunk_ok [OF l t Cons.prems(3,4) _ Cons.prems(5-7), of opts lf] nc obtain x lf' where
      y: "yieldhunk opts t1 t2 l1 l2 lf h = Inr (x, lf')"
      "\<And>hs. apply_hunks l1 (h_a2 h + c) (b2 + c) hs = Some (drop (b2 + c) l2) \<longrightarrow> apply_hunks l1 apos bpos (x # hs) = Some (drop bpos l2)"
      by (auto simp: c_def min_def)
    obtain hs where "unidiff_loop opts t1 t2 l1 l2 (Some ?h) 0 lf' blks = Inr hs" "apply_hunks l1 (h_a2 h + c) (b2 + c) hs = Some (drop (b2 + c) l2)"
      using IH [of lf'] sl by auto
    then show ?thesis using y fresh blk st by (auto simp: Let_def)
  qed
qed

lemma unidiff_loop_None:
  assumes l: "l1 = splitnewlines t1" "l2 = splitnewlines t2" and t: "t1 \<noteq> []" "t2 \<noteq> []"
  shows "tiles l1 l2 i i blks \<Longrightarrow> \<forall>blk\<in>set blks. snd blk \<noteq> Tilde \<Longrightarrow> same l1 l2 0 0 i \<Longrightarrow>
    \<exists>hs. unidiff_loop opts t1 t2 l1 l2 None 0 lf blks = Inr hs \<and> apply_hunks l1 0 0 hs = Some l2"
proof (induction blks arbitrary: i)
  case Nil
  then show ?case by (simp add: same_def slice_def)
next
  case (Cons blk blks)
  obtain a1 a2 b1 b2 ty where blk: "blk = ((a1, a2, b1, b2), ty)" by (metis prod.exhaust)
  have tl: "a1 = i" "b1 = i" "i \<le> a2" "i \<le> b2" "a2 \<le> length l1" "b2 \<le> length l2"
    "tiles l1 l2 a2 b2 blks" "ty = Eq \<Longrightarrow> slice l1 i a2 = slice l2 i b2"
    using Cons.prems(1) blk by (auto split: if_splits)
  have nt: "\<forall>blk\<in>set blks. snd blk \<noteq> Tilde" "ty \<noteq> Tilde" using Cons.prems(2) blk by auto
  show ?case
  proof (cases "ty = Eq")
    case True
    then obtain m where m: "a2 = i + m" "b2 = i + m" "same l1 l2 i i m" using same_Eq [OF tl(8) tl(3-6)] by blast
    have "same l1 l2 0 0 (i + m)" using same_join [OF Cons.prems(3)] m(3) by simp
    then show ?thesis using Cons.IH [of "i + m"] tl(7) m nt(1) blk True by simp
  next
    case False
    then have ty: "ty = Bang" using nt(2) by (cases ty) auto
    define c where "c = min (o_context opts) i"
    have st: "nat (contextstart opts (int i)) = i - c" "contextstart opts (int i) = int (i - c)"
      by (auto simp: contextstart_def Let_def c_def)
    let ?h = "\<lparr> h_astart = i - c, h_a2 = a2, h_bstart = int (i - c), h_b2 = int b2,
        h_delta = delta_lines l1 l2 (i - c) (i, a2, i, b2) \<rparr>"
    have "same l1 l2 (i - c) (i - c) c" using same_sub [OF Cons.prems(3), of "i - c" c] by (simp add: c_def)
    from hunk_inv_fresh [OF this, of a2 b2] have inv: "hunk_inv l1 l2 ?h (i - c) b2" using tl by (simp add: c_def)
    have "same l1 l2 0 0 (i - c)" using same_sub [OF Cons.prems(3), of 0 "i - c"] by simp
    then have sl: "slice l1 0 (h_astart ?h) = slice l2 0 (i - c)" by (simp add: same_def)
    have "tiles l1 l2 (h_a2 ?h + 0) (b2 + 0) blks" "same l1 l2 (h_a2 ?h) b2 0" using tl by (simp_all add: same_0)
    from unidiff_loop_Some [OF l t this(1) nt(1) inv this(2) _ _ sl, of opts lf]
    show ?thesis using blk ty tl st by (auto simp: Let_def)
  qed
qed

section \<open>Whole files\<close>

lemma whole_hunk_enc:
  assumes "t \<noteq> []"
  shows "whole_hunk c hdr t = hdr # enc (flag bad (signed c (splitnewlines t)))"
proof -
  define xs where "xs = butlast (splitnewlines t)"
  define x where "x = last (splitnewlines t)"
  have l: "splitnewlines t = xs @ [x]" using assms by (simp add: xs_def x_def)
  have "\<forall>p\<in>set (signed c xs). \<not> bad p" using splitnewlines_butlast by (auto simp: signed_def bad_def xs_def)
  then have f: "flag bad (signed c xs) = flag (\<lambda>p. False) (signed c xs)" by (rule flag_False)
  have e: "enc (flag (\<lambda>p. False) (signed c xs)) = map (\<lambda>e. c # e) xs"
    by (induction xs) (simp_all add: signed_def)
  have "bad (c, x) \<longleftrightarrow> last t \<noteq> NL" using splitnewlines_last [OF assms] by (simp add: bad_def x_def)
  moreover have "signed c (splitnewlines t) = signed c xs @ [(c, x)]" by (simp add: l signed_def)
  ultimately have "enc (flag bad (signed c (splitnewlines t))) =
      map (\<lambda>e. c # e) xs @ (if last t \<noteq> NL then [c # x @ [NL], missing_newline_marker] else [c # x])"
    using f e by simp
  then show ?thesis by (simp add: whole_hunk_def Let_def l butlast_append)
qed

lemma whole_hunk_lines:
  assumes "t \<noteq> []" "c \<in> signs" "hdr \<noteq> []" "last hdr = NL"
  shows "parse_lines (tl (whole_hunk c hdr t)) = signed c (splitnewlines t)"
    and "\<forall>l\<in>set (whole_hunk c hdr t). l \<noteq> [] \<and> last l = NL"
proof -
  show "parse_lines (tl (whole_hunk c hdr t)) = signed c (splitnewlines t)"
    using parse_enc [of "flag bad (signed c (splitnewlines t))"] assms(2)
    by (simp add: whole_hunk_enc [OF assms(1)] flag_def comp_def signed_def)
  show "\<forall>l\<in>set (whole_hunk c hdr t). l \<noteq> [] \<and> last l = NL"
    using enc_newlines [of "signed c (splitnewlines t)"] splitnewlines_nonempty assms(3,4)
    by (auto simp: whole_hunk_enc [OF assms(1)] signed_def)
qed

lemma whole_hunk_added:
  assumes "t \<noteq> []" "hdr \<noteq> []" "last hdr = NL"
  shows "apply_hunks [] 0 0 [((0, 0, 1, int (length (splitnewlines t))), whole_hunk (CHR ''+'') hdr t)] = Some (splitnewlines t)"
proof -
  have "length (splitnewlines t) \<noteq> 0" using assms(1) by simp
  then show ?thesis using whole_hunk_lines [OF assms(1) _ assms(2,3), of "CHR ''+''"] by (simp add: Let_def slice_def)
qed

lemma whole_hunk_removed:
  assumes "t \<noteq> []" "hdr \<noteq> []" "last hdr = NL"
  shows "apply_hunks (splitnewlines t) 0 0 [((1, length (splitnewlines t), 0, 0), whole_hunk (CHR ''-'') hdr t)] = Some []"
proof -
  have "length (splitnewlines t) \<noteq> 0" using assms(1) by simp
  then show ?thesis using whole_hunk_lines [OF assms(1) _ assms(2,3), of "CHR ''-''"] by (simp add: Let_def slice_def)
qed

section \<open>Any block matcher\<close>

context block_matcher
begin

lemma allblocks_tiles:
  assumes "plain opts"
  shows "\<exists>bs. allblocks blk t1 t2 opts (Some l1) (Some l2) = Inr bs
    \<and> tiles (splitnewlines t1) (splitnewlines t2) 0 0 bs \<and> (\<forall>b\<in>set bs. snd b \<noteq> Tilde)"
proof -
  obtain d where d: "blk t1 t2 = Inr (to_blocks d)" "match_list (splitnewlines t1) (splitnewlines t2) d"
    using blk_ok by blast
  then show ?thesis
    using allblocks_loop_tiles [of "splitnewlines t1" "splitnewlines t2" 0 0 d opts l1 l2 0 0]
      allblocks_loop_types [of opts _ _ l1 l2 "(0, 0, 0, 0)" "to_blocks d"] assms
    by (auto simp: allblocks_def Let_def plain_def match_list_def)
qed

lemma unidiff_hunks_apply:
  assumes "plain opts" "t1 \<noteq> []" "t2 \<noteq> []"
  shows "\<exists>hs. unidiff_hunks blk t1 t2 opts = Inr (hs \<noteq> [], hs)
    \<and> apply_hunks (splitnewlines t1) 0 0 hs = Some (splitnewlines t2)"
proof -
  let ?l1 = "splitnewlines t1" and ?l2 = "splitnewlines t2"
  obtain bs where bs: "allblocks blk t1 t2 opts (Some ?l1) (Some ?l2) = Inr bs"
      "tiles ?l1 ?l2 0 0 bs" "\<forall>b\<in>set bs. snd b \<noteq> Tilde"
    using allblocks_tiles [OF assms(1)] by blast
  obtain hs where "unidiff_loop opts t1 t2 ?l1 ?l2 None 0 (0, []) bs = Inr hs" "apply_hunks ?l1 0 0 hs = Some ?l2"
    using unidiff_loop_None [OF refl refl assms(2,3) bs(2,3)] same_0 by blast
  then show ?thesis using bs(1) by (simp add: unidiff_hunks_def Let_def)
qed

lemma unidiff_hunks_refl:
  assumes "plain opts"
  shows "unidiff_hunks blk t t opts = Inr (False, [])"
proof -
  have "allblocks_loop opts x y (0, 0, 0, 0) (to_blocks (refl_matches n)) = map (\<lambda>b. (b, Eq)) (to_blocks (refl_matches n))" for x y n
    by (simp add: refl_matches_def to_blocks_def)
  then show ?thesis using assms blk_refl [of t]
    by (simp add: unidiff_hunks_def allblocks_def plain_def Let_def refl_matches_def to_blocks_def)
qed

end

section \<open>Properties\<close>

text \<open>
  (C19) The unified diff of two text files is right: unless the diff ignores white
  space, \<open>unidiff\<close> returns, and its hunks, read the way \<open>patch\<close> reads them
  (ranges, context, the marker of a missing final newline), apply to the old text
  and give the new one, whether the file is changed, added or removed; equal
  texts give an empty diff.
\<close>

theorem unidiff_applies:
  assumes "plain opts" "o_text opts \<or> \<not> check_binary \<or> \<not> binary (the_text a) \<and> \<not> binary (the_text b)"
  shows "\<exists>headers hs. unidiff blocks sha1 epoch a ad b bd fn1 fn2 opts check_binary
      = Inr (headers, map (\<lambda>(r, ls). (Some r, ls)) hs)
    \<and> apply_hunks (splitnewlines (the_text a)) 0 0 hs = Some (splitnewlines (the_text b))
    \<and> (hs = [] \<longleftrightarrow> the_text a = the_text b)"
proof -
  let ?u = "unidiff blocks sha1 epoch a ad b bd fn1 fn2 opts check_binary"
  have hdr: "''@@ -0,0 +1,'' @ x @ '' @@'' @ [NL] \<noteq> []" "last (''@@ -0,0 +1,'' @ x @ '' @@'' @ [NL]) = NL"
    "''@@ -1,'' @ x @ '' +0,0 @@'' @ [NL] \<noteq> []" "last (''@@ -1,'' @ x @ '' +0,0 @@'' @ [NL]) = NL" for x by simp_all
  consider (none) "the_text a = []" "the_text b = []" | (added) "the_text a = []" "the_text b \<noteq> []"
    | (removed) "the_text a \<noteq> []" "the_text b = []" | (changed) "the_text a \<noteq> []" "the_text b \<noteq> []" by blast
  then show ?thesis
  proof cases
    case none
    then have "?u = Inr ([], map (\<lambda>(r, ls). (Some r, ls)) [])"
      by (auto simp: unidiff_def falsy_def the_text_def split: option.splits)
    then show ?thesis using none by auto
  next
    case added
    let ?hs = "[((0, 0, 1, int (length (splitnewlines (the_text b)))),
      whole_hunk (CHR ''+'') (''@@ -0,0 +1,'' @ dec (int (length (splitnewlines (the_text b)))) @ '' @@'' @ [NL]) (the_text b))]"
    have "falsy a" "\<not> falsy b" using added by (auto simp: falsy_def the_text_def split: option.splits)
    then have "\<exists>headers. ?u = Inr (headers, map (\<lambda>(r, ls). (Some r, ls)) ?hs)"
      using assms(2) by (auto simp: unidiff_def Let_def)
    moreover have "apply_hunks [] 0 0 ?hs = Some (splitnewlines (the_text b))" by (rule whole_hunk_added [OF added(2) hdr(1,2)])
    ultimately show ?thesis using added by (metis list.distinct(1) splitnewlines_Nil)
  next
    case removed
    let ?hs = "[((1, length (splitnewlines (the_text a)), 0, 0 :: int),
      whole_hunk (CHR ''-'') (''@@ -1,'' @ dec (int (length (splitnewlines (the_text a)))) @ '' +0,0 @@'' @ [NL]) (the_text a))]"
    have "\<not> falsy a" "falsy b" using removed by (auto simp: falsy_def the_text_def split: option.splits)
    then have "\<exists>headers. ?u = Inr (headers, map (\<lambda>(r, ls). (Some r, ls)) ?hs)"
      using assms(2) by (auto simp: unidiff_def Let_def)
    moreover have "apply_hunks (splitnewlines (the_text a)) 0 0 ?hs = Some []" by (rule whole_hunk_removed [OF removed(1) hdr(3,4)])
    ultimately show ?thesis using removed by (metis list.distinct(1) splitnewlines_Nil)
  next
    case changed
    have f: "\<not> falsy a" "\<not> falsy b" using changed by (auto simp: falsy_def the_text_def split: option.splits)
    obtain hs where hs: "unidiff_hunks blocks (the_text a) (the_text b) opts = Inr (hs \<noteq> [], hs)"
      "apply_hunks (splitnewlines (the_text a)) 0 0 hs = Some (splitnewlines (the_text b))"
      using pure.unidiff_hunks_apply [OF assms(1) changed] by blast
    then have "\<exists>headers. ?u = Inr (headers, map (\<lambda>(r, ls). (Some r, ls)) hs)"
      using f assms(2) by (auto simp: unidiff_def Let_def)
    moreover have "hs = [] \<longleftrightarrow> the_text a = the_text b"
    proof
      assume "hs = []"
      then show "the_text a = the_text b" using hs(2) splitnewlines_inj by simp
    next
      assume "the_text a = the_text b"
      then show "hs = []" using hs(1) pure.unidiff_hunks_refl [OF assms(1), of "the_text b"] by simp
    qed
    ultimately show ?thesis using hs(2) by blast
  qed
qed

theorem unidiff_applies_witness:
  "\<exists>headers hs. unidiff blocks (\<lambda>t. []) [] (Some [CHR ''a'']) [] (Some [CHR ''b'', NL]) [] ''f'' ''f'' defaultopts True
      = Inr (headers, map (\<lambda>(r, ls). (Some r, ls)) hs)
    \<and> apply_hunks (splitnewlines [CHR ''a'']) 0 0 hs = Some (splitnewlines [CHR ''b'', NL]) \<and> hs \<noteq> []"
  using unidiff_applies [of defaultopts True "Some [CHR ''a'']" "Some [CHR ''b'', NL]" "\<lambda>t. []" "[]" "[]" "[]" "''f''" "''f''"]
  by (auto simp: plain_def defaultopts_def the_text_def binary_def)

end
