(* ===== verification/Diffblocks.thy ===== *)
theory Diffblocks
  imports Unidiff
begin

text \<open>
  The remaining operations of \<open>mdiff.py\<close>: splitting a block at its blank lines,
  translating a line range through the blocks of a diff, and the trivial deltas.
\<close>

section \<open>Splitting a block at blank lines\<close>

text \<open>
  Consecutive pieces from \<open>(s1, s2)\<close> on: a matching piece has only lines that are
  not blank, as many on each side, and any other piece only blank lines.
\<close>

fun split_pieces :: "nat \<Rightarrow> nat \<Rightarrow> bool list \<Rightarrow> bool list \<Rightarrow> nat \<Rightarrow> nat \<Rightarrow> (block \<times> btype) list \<Rightarrow> bool" where
  "split_pieces base1 base2 f1 f2 s1 s2 [] \<longleftrightarrow> s1 = length f1 \<and> s2 = length f2"
| "split_pieces base1 base2 f1 f2 s1 s2 (((a1, a2, b1, b2), ty) # bs) \<longleftrightarrow>
     (\<exists>i1 i2. a1 = base1 + s1 \<and> a2 = base1 + i1 \<and> b1 = base2 + s2 \<and> b2 = base2 + i2
        \<and> s1 \<le> i1 \<and> s2 \<le> i2 \<and> s1 + s2 < i1 + i2
        \<and> (if ty = Eq then i1 - s1 = i2 - s2 \<and> (\<forall>x\<in>set (slice f1 s1 i1) \<union> set (slice f2 s2 i2). x)
           else ty = Tilde \<and> (\<forall>x\<in>set (slice f1 s1 i1) \<union> set (slice f2 s2 i2). \<not> x))
        \<and> split_pieces base1 base2 f1 f2 i1 i2 bs)"

definition nonblank :: "bool list \<Rightarrow> nat" where
  "nonblank fs = length (filter id fs)"

lemma blank_end_slice: "\<forall>x\<in>set (slice f i (blank_end f i)). \<not> x"
  by (auto simp: blank_end_def slice_def simp flip: takeWhile_eq_take dest: set_takeWhileD)

lemma blank_end_nonblank: "nonblank (drop (blank_end f i) f) = nonblank (drop i f)"
proof -
  have "drop i f = takeWhile Not (drop i f) @ drop (blank_end f i) f"
    by (metis blank_end_def drop_drop add.commute dropWhile_eq_drop takeWhile_dropWhile_id)
  moreover have "filter id (takeWhile Not (drop i f)) = []" by (auto simp: filter_empty_conv dest: set_takeWhileD)
  ultimately show ?thesis unfolding nonblank_def by (metis filter_append append_Nil)
qed

lemma blank_end_le: "i \<le> length f \<Longrightarrow> i \<le> blank_end f i \<and> blank_end f i \<le> length f"
  using length_takeWhile_le [of Not "drop i f"] by (simp add: blank_end_def)

lemma match_run_ok:
  "nonblank fs = nonblank gs \<Longrightarrow> fs \<noteq> [] \<Longrightarrow> hd fs \<Longrightarrow> gs \<noteq> [] \<Longrightarrow> hd gs \<Longrightarrow>
    \<exists>n. match_run fs gs = Inr n \<and> 0 < n \<and> n \<le> length fs \<and> n \<le> length gs
      \<and> (\<forall>x\<in>set (take n fs) \<union> set (take n gs). x) \<and> nonblank (drop n fs) = nonblank (drop n gs)"
proof (induction fs gs rule: match_run.induct)
  case (2 fs gs)
  have nb: "nonblank fs = nonblank gs" using "2.prems"(1) by (simp add: nonblank_def)
  show ?case
  proof (cases "fs \<noteq> [] \<and> hd fs \<and> gs \<noteq> [] \<and> hd gs")
    case True
    then obtain n where "match_run fs gs = Inr n" "n \<le> length fs" "n \<le> length gs"
        "\<forall>x\<in>set (take n fs) \<union> set (take n gs). x" "nonblank (drop n fs) = nonblank (drop n gs)"
      using "2.IH" nb by blast
    then show ?thesis by (intro exI [of _ "Suc n"]) auto
  next
    case False
    then have "match_run fs gs = Inr 0"
    proof (cases "fs \<noteq> [] \<and> hd fs")
      case True
      then have "nonblank fs \<noteq> 0" by (cases fs) (simp_all add: nonblank_def)
      then have "gs \<noteq> []" using nb by (auto simp: nonblank_def)
      then show ?thesis using False True by (cases fs; cases gs) auto
    next
      case False
      then show ?thesis by (cases fs) auto
    qed
    then show ?thesis using nb by (intro exI [of _ 1]) simp
  qed
qed auto

lemma blank_progress: "i < length f \<Longrightarrow> \<not> f ! i \<Longrightarrow> i < blank_end f i"
  by (simp add: blank_end_def Cons_nth_drop_Suc [symmetric])

lemma nonblank_pos: "i < length f \<Longrightarrow> f ! i \<Longrightarrow> nonblank (drop i f) \<noteq> 0"
  by (simp add: nonblank_def Cons_nth_drop_Suc [symmetric])

lemma split_step_ok:
  assumes le: "s1 \<le> length f1" "s2 \<le> length f2" "s1 < length f1 \<or> s2 < length f2"
    and nb: "nonblank (drop s1 f1) = nonblank (drop s2 f2)"
  shows "\<exists>i1 i2 ty. split_step f1 f2 s1 s2 = Inr (i1, i2, ty) \<and> s1 \<le> i1 \<and> s2 \<le> i2 \<and> s1 + s2 < i1 + i2
    \<and> i1 \<le> length f1 \<and> i2 \<le> length f2 \<and> nonblank (drop i1 f1) = nonblank (drop i2 f2)
    \<and> (if ty = Eq then i1 - s1 = i2 - s2 \<and> (\<forall>x\<in>set (slice f1 s1 i1) \<union> set (slice f2 s2 i2). x)
       else ty = Tilde \<and> (\<forall>x\<in>set (slice f1 s1 i1) \<union> set (slice f2 s2 i2). \<not> x))"
proof (cases "length f1 \<le> s1 \<or> \<not> f1 ! s1 \<or> length f2 \<le> s2 \<or> \<not> f2 ! s2")
  case True
  have "s1 < length f1 \<and> \<not> f1 ! s1 \<or> s2 < length f2 \<and> \<not> f2 ! s2"
  proof (rule ccontr)
    assume c: "\<not> ?thesis"
    then have "length f1 \<le> s1 \<or> length f2 \<le> s2" using True by auto
    then have "nonblank (drop s1 f1) = 0" using nb by (auto simp: nonblank_def)
    then show False using c le(3) nb nonblank_pos [of s1 f1] nonblank_pos [of s2 f2] by auto
  qed
  then have "s1 + s2 < blank_end f1 s1 + blank_end f2 s2"
    using blank_progress [of s1 f1] blank_progress [of s2 f2] blank_end_le [OF le(1)] blank_end_le [OF le(2)] by linarith
  then show ?thesis
    using True blank_end_le [OF le(1)] blank_end_le [OF le(2)] blank_end_nonblank [of f1 s1] blank_end_nonblank [of f2 s2]
      nb blank_end_slice [of f1 s1] blank_end_slice [of f2 s2]
    by (auto simp: split_step_def)
next
  case False
  then have lt: "s1 < length f1" "f1 ! s1" "s2 < length f2" "f2 ! s2" by auto
  have "drop s1 f1 \<noteq> []" "hd (drop s1 f1)" "drop s2 f2 \<noteq> []" "hd (drop s2 f2)" using lt by (simp_all add: hd_drop_conv_nth)
  from match_run_ok [OF nb this] obtain n where n: "match_run (drop s1 f1) (drop s2 f2) = Inr n" "0 < n"
    "n \<le> length (drop s1 f1)" "n \<le> length (drop s2 f2)" "\<forall>x\<in>set (take n (drop s1 f1)) \<union> set (take n (drop s2 f2)). x"
    "nonblank (drop n (drop s1 f1)) = nonblank (drop n (drop s2 f2))" by blast
  have "split_step f1 f2 s1 s2 = Inr (s1 + n, s2 + n, Eq)" unfolding split_step_def using False n(1) by simp
  moreover have "slice f1 s1 (s1 + n) = take n (drop s1 f1)" "slice f2 s2 (s2 + n) = take n (drop s2 f2)"
    by (simp_all add: slice_def)
  moreover have "nonblank (drop (s1 + n) f1) = nonblank (drop (s2 + n) f2)" using n(6) by (simp add: add.commute)
  moreover have "s1 + n \<le> length f1" "s2 + n \<le> length f2" using n(3,4) lt by simp_all
  ultimately show ?thesis using n(2,5) by - (rule exI [of _ "s1 + n"], rule exI [of _ "s2 + n"], rule exI [of _ Eq], simp)
qed

lemma split_loop_ok:
  "s1 \<le> length f1 \<Longrightarrow> s2 \<le> length f2 \<Longrightarrow> nonblank (drop s1 f1) = nonblank (drop s2 f2) \<Longrightarrow>
    \<exists>bs. split_loop base1 f1 base2 f2 s1 s2 = Some (Inr bs) \<and> split_pieces base1 base2 f1 f2 s1 s2 bs"
proof (induction "length f1 + length f2 - (s1 + s2)" arbitrary: s1 s2 rule: less_induct)
  case less
  show ?case
  proof (cases "s1 < length f1 \<or> s2 < length f2")
    case True
    from split_step_ok [OF less.prems(1,2) True less.prems(3)] obtain i1 i2 ty where
      st: "split_step f1 f2 s1 s2 = Inr (i1, i2, ty)" "s1 \<le> i1" "s2 \<le> i2" "s1 + s2 < i1 + i2"
        "i1 \<le> length f1" "i2 \<le> length f2" "nonblank (drop i1 f1) = nonblank (drop i2 f2)"
      and ty: "if ty = Eq then i1 - s1 = i2 - s2 \<and> (\<forall>x\<in>set (slice f1 s1 i1) \<union> set (slice f2 s2 i2). x)
       else ty = Tilde \<and> (\<forall>x\<in>set (slice f1 s1 i1) \<union> set (slice f2 s2 i2). \<not> x)" by blast
    have "length f1 + length f2 - (i1 + i2) < length f1 + length f2 - (s1 + s2)" using st by linarith
    from less.hyps [OF this st(5,6,7)] obtain bs where
      bs: "split_loop base1 f1 base2 f2 i1 i2 = Some (Inr bs)" "split_pieces base1 base2 f1 f2 i1 i2 bs" by blast
    have "split_loop base1 f1 base2 f2 s1 s2 = Some (Inr (((base1 + s1, base1 + i1, base2 + s2, base2 + i2), ty) # bs))"
      by (subst split_loop.simps) (use True st bs in simp)
    then show ?thesis using bs(2) st ty by auto
  next
    case False
    then have "split_loop base1 f1 base2 f2 s1 s2 = Some (Inr [])" by (simp add: split_loop.simps [of base1 f1 base2 f2 s1 s2])
    then show ?thesis using less.prems False by auto
  qed
qed

section \<open>Line ranges\<close>

definition iblk :: "block \<times> btype \<Rightarrow> iblock" where
  "iblk b = (case b of ((a1, a2, b1, b2), ty) \<Rightarrow> ((int a1, int a2, int b1, int b2), ty))"

text \<open>On the blocks of a diff and a range that is not empty the first case is an instance of the others.\<close>

lemma range_step_tile:
  assumes "lbb < ubb" "a1 \<le> a2" "b1 \<le> b2" "ty = Eq \<Longrightarrow> a2 - a1 = b2 - b1"
  shows "range_step lbb ubb (lba, uba) (iblk ((a1, a2, b1, b2), ty)) =
    (if int b1 \<le> lbb \<and> lbb < int b2 then Some (if ty = Eq then int a1 + (lbb - int b1) else int a1) else lba,
     if int b1 < ubb \<and> ubb \<le> int b2 then Some (if ty = Eq then int a1 + (ubb - int b1) else int a2) else uba)"
  using assms by (auto simp: range_step_def iblk_def)

text \<open>The line of the old text that a matching block gives for line \<open>k\<close> of the new one.\<close>

definition maps_line :: "(block \<times> btype) list \<Rightarrow> int \<Rightarrow> int \<Rightarrow> bool" where
  "maps_line bs k x \<longleftrightarrow>
     (\<exists>a1 a2 b1 b2. ((a1, a2, b1, b2), Eq) \<in> set bs \<and> int b1 \<le> k \<and> k < int b2 \<and> x = int a1 + (k - int b1))"

definition range_ok :: "nat \<Rightarrow> nat \<Rightarrow> nat \<Rightarrow> nat \<Rightarrow> (block \<times> btype) list \<Rightarrow> int \<Rightarrow> int \<Rightarrow> int option \<times> int option \<Rightarrow> int option \<times> int option \<Rightarrow> bool" where
  "range_ok n1 n2 i j bs lbb ubb r r' \<longleftrightarrow>
     (if int j \<le> lbb \<and> lbb < int n2
      then \<exists>x. fst r' = Some x \<and> int i \<le> x \<and> x \<le> int n1 \<and> (\<forall>k y. maps_line bs k y \<longrightarrow> lbb \<le> k \<longrightarrow> x \<le> y)
        \<and> (\<forall>u. snd r' = Some u \<longrightarrow> int j < ubb \<longrightarrow> ubb \<le> int n2 \<longrightarrow> x \<le> u)
      else fst r' = fst r)
     \<and> (if int j < ubb \<and> ubb \<le> int n2
        then \<exists>u. snd r' = Some u \<and> int i \<le> u \<and> u \<le> int n1 \<and> (\<forall>k y. maps_line bs k y \<longrightarrow> k < ubb \<longrightarrow> y < u)
        else snd r' = snd r)"

lemma tiles_le: "tiles l1 l2 i j bs \<Longrightarrow> i \<le> length l1 \<and> j \<le> length l2"
  by (cases bs rule: list.exhaust) auto

lemma maps_line_ge:
  "tiles l1 l2 i j bs \<Longrightarrow> maps_line bs k y \<Longrightarrow> int j \<le> k \<and> int i \<le> y"
proof (induction bs arbitrary: i j)
  case (Cons b bs)
  obtain a1 a2 b1 b2 ty where b: "b = ((a1, a2, b1, b2), ty)" by (metis prod.exhaust)
  consider "ty = Eq" "int b1 \<le> k" "y = int a1 + (k - int b1)" | "maps_line bs k y"
    using Cons.prems(2) b by (auto simp: maps_line_def)
  then show ?case
  proof cases
    case 2
    then show ?thesis using Cons.IH [of a2 b2] Cons.prems(1) b by auto
  qed (use Cons.prems(1) b in auto)
qed (simp add: maps_line_def)

lemma range_fold:
  "tiles l1 l2 i j bs \<Longrightarrow> lbb < ubb \<Longrightarrow>
    range_ok (length l1) (length l2) i j bs lbb ubb r (foldl (range_step lbb ubb) r (map iblk bs))"
proof (induction bs arbitrary: i j r)
  case Nil
  then show ?case by (auto simp: range_ok_def)
next
  case (Cons b bs)
  obtain a1 a2 b1 b2 ty where b: "b = ((a1, a2, b1, b2), ty)" by (metis prod.exhaust)
  obtain lba uba where r: "r = (lba, uba)" by (cases r)
  have tl: "a1 = i" "b1 = j" "a1 \<le> a2" "b1 \<le> b2" "a2 \<le> length l1" "b2 \<le> length l2" "tiles l1 l2 a2 b2 bs"
    "ty = Eq \<Longrightarrow> slice l1 a1 a2 = slice l2 b1 b2" using Cons.prems(1) b by (auto split: if_splits)
  have eq: "a2 - a1 = b2 - b1" if "ty = Eq" using arg_cong [OF tl(8) [OF that], of length] tl by simp
  define r1 where "r1 = range_step lbb ubb r (iblk b)"
  have r1: "r1 = (if int b1 \<le> lbb \<and> lbb < int b2 then Some (if ty = Eq then int a1 + (lbb - int b1) else int a1) else lba,
     if int b1 < ubb \<and> ubb \<le> int b2 then Some (if ty = Eq then int a1 + (ubb - int b1) else int a2) else uba)"
    unfolding r1_def b r by (rule range_step_tile) (use Cons.prems(2) tl eq in auto)
  have IH: "range_ok (length l1) (length l2) a2 b2 bs lbb ubb r1 (foldl (range_step lbb ubb) r1 (map iblk bs))"
    by (rule Cons.IH [OF tl(7) Cons.prems(2)])
  have split: "maps_line (b # bs) k y \<longleftrightarrow> maps_line bs k y \<or> (ty = Eq \<and> int b1 \<le> k \<and> k < int b2 \<and> y = int a1 + (k - int b1))" for k y
    using b by (auto simp: maps_line_def)
  define R where "R = foldl (range_step lbb ubb) r1 (map iblk bs)"
  have lo: "if int b2 \<le> lbb \<and> lbb < int (length l2)
      then \<exists>x. fst R = Some x \<and> int a2 \<le> x \<and> x \<le> int (length l1) \<and> (\<forall>k y. maps_line bs k y \<longrightarrow> lbb \<le> k \<longrightarrow> x \<le> y)
        \<and> (\<forall>u. snd R = Some u \<longrightarrow> int b2 < ubb \<longrightarrow> ubb \<le> int (length l2) \<longrightarrow> x \<le> u)
      else fst R = fst r1"
    and up: "if int b2 < ubb \<and> ubb \<le> int (length l2)
      then \<exists>u. snd R = Some u \<and> int a2 \<le> u \<and> u \<le> int (length l1) \<and> (\<forall>k y. maps_line bs k y \<longrightarrow> k < ubb \<longrightarrow> y < u)
      else snd R = snd r1"
    using IH unfolding range_ok_def R_def by blast+
  have ge: "int b2 \<le> k \<and> int a2 \<le> y" if "maps_line bs k y" for k y by (rule maps_line_ge [OF tl(7) that])
  have n: "b2 \<le> length l2" "int a2 \<le> int (length l1)" using tl by simp_all
  have upper: "if int j < ubb \<and> ubb \<le> int (length l2)
      then \<exists>u. snd R = Some u \<and> int i \<le> u \<and> u \<le> int (length l1) \<and> (\<forall>k y. maps_line (b # bs) k y \<longrightarrow> k < ubb \<longrightarrow> y < u)
      else snd R = snd r"
  proof (cases "ubb \<le> int b2")
    case True
    then have "snd R = snd r1" using up by simp
    moreover have "\<not> maps_line bs k y" if "k < ubb" for k y using ge [of k y] that True by auto
    ultimately show ?thesis using True r r1 tl(1-4) eq n split by (auto simp: of_nat_diff)
  next
    case False
    show ?thesis
    proof (cases "ubb \<le> int (length l2)")
      case True
      then obtain u where u: "snd R = Some u" "int a2 \<le> u" "u \<le> int (length l1)" "\<forall>k y. maps_line bs k y \<longrightarrow> k < ubb \<longrightarrow> y < u"
        using up False by auto
      have "y < u" if "maps_line (b # bs) k y" "k < ubb" for k y
        using that u(2,4) split [of k y] eq tl(3,4) by (auto simp: of_nat_diff)
      then show ?thesis using u True False tl(1-4) by auto
    qed (use False up r r1 n in auto)
  qed
  have lower: "if int j \<le> lbb \<and> lbb < int (length l2)
      then \<exists>x. fst R = Some x \<and> int i \<le> x \<and> x \<le> int (length l1) \<and> (\<forall>k y. maps_line (b # bs) k y \<longrightarrow> lbb \<le> k \<longrightarrow> x \<le> y)
        \<and> (\<forall>u. snd R = Some u \<longrightarrow> int j < ubb \<longrightarrow> ubb \<le> int (length l2) \<longrightarrow> x \<le> u)
      else fst R = fst r"
  proof (cases "lbb < int b2")
    case lt: True
    then have L: "fst R = fst r1" using lo by simp
    show ?thesis
    proof (cases "int j \<le> lbb")
      case True
      define x where "x = (if ty = Eq then int a1 + (lbb - int b1) else int a1)"
      have x: "fst R = Some x" "int i \<le> x" "x \<le> int a2" using L r1 lt True tl(1-4) eq by (auto simp: x_def of_nat_diff)
      have "x \<le> y" if "maps_line (b # bs) k y" "lbb \<le> k" for k y
        using that split [of k y] ge [of k y] x(3) by (auto simp: x_def)
      moreover have "x \<le> u" if "snd R = Some u" "ubb \<le> int (length l2)" for u
      proof (cases "ubb \<le> int b2")
        case ub: True
        then have "snd R = snd r1" using up by simp
        then show ?thesis using that r1 ub True tl(1-4) Cons.prems(2) by (auto simp: x_def)
      next
        case False
        then show ?thesis using up that x(3) by auto
      qed
      ultimately show ?thesis using x n True lt by auto
    qed (use L r r1 tl(2) in simp)
  next
    case False
    show ?thesis
    proof (cases "lbb < int (length l2)")
      case True
      then obtain x where x: "fst R = Some x" "int a2 \<le> x" "x \<le> int (length l1)" "\<forall>k y. maps_line bs k y \<longrightarrow> lbb \<le> k \<longrightarrow> x \<le> y"
          "\<forall>u. snd R = Some u \<longrightarrow> int b2 < ubb \<longrightarrow> ubb \<le> int (length l2) \<longrightarrow> x \<le> u" using lo False by auto
      have "x \<le> y" if "maps_line (b # bs) k y" "lbb \<le> k" for k y using that split [of k y] x(4) False by auto
      moreover have "int b2 < ubb" using False Cons.prems(2) by simp
      ultimately show ?thesis using x True False tl(1-4) by auto
    qed (use False lo r r1 n in auto)
  qed
  have "foldl (range_step lbb ubb) r (map iblk (b # bs)) = R" by (simp add: R_def r1_def)
  then show ?case unfolding range_ok_def using conjI [OF lower upper] by (simp only:)
qed

section \<open>Deltas\<close>

lemma patchtext_single:
  assumes "pack_lll x y (int (length t)) = Inr h"
  shows "patchtext (h @ t) = Some (Inr t)"
proof -
  have h: "length h = 12" using assms by (rule length_pack)
  have "py_slice (h @ t) 0 12 = h" using h by (simp add: py_slice_nonneg slice_def)
  moreover have "py_slice (h @ t) 12 (12 + int (length t)) = t" using h by (simp add: py_slice_nonneg slice_def)
  moreover have "unpack_lll h = Inr (x, y, int (length t))" using assms by (rule unpack_pack)
  moreover have "patchtext_loop (h @ t) (12 + int (length t)) t = Some (Inr t)"
    using h by (simp add: patchtext_loop.simps [of "h @ t" "12 + int (length t)"])
  ultimately show ?thesis using h by (simp add: patchtext_def patchtext_loop.simps [of "h @ t" 0 "[]"])
qed

section \<open>Properties\<close>

text \<open>
  The delta of a text against the empty text is its header and the text:
  \<open>patch\<close> and \<open>patchtext\<close> recover the text.
\<close>

lemma trivial_delta_roundtrip:
  assumes "length t < 2147483648" "t \<noteq> []"
  shows "\<exists>h. trivialdiffheader (int (length t)) = Inr h \<and> patch [] (h @ t) = Some (Inr t) \<and> patchtext (h @ t) = Some (Inr t)"
proof -
  have "int32 0" "int32 (int (length t))" using assms(1) by (simp_all add: int32_def)
  then obtain h where h: "pack_lll 0 0 (int (length t)) = Inr h" by (simp add: pack_lll_def)
  then have "trivialdiffheader (int (length t)) = Inr h" using assms(2) by (simp add: trivialdiffheader_def)
  moreover have "patch [] (h @ t) = Some (Inr t)" using length_pack [OF h] by (simp add: patch_def)
  ultimately show ?thesis using patchtext_single [OF h] by blast
qed

text \<open>
  (C37) \<open>splitblock\<close> returns when both sides have the same number of lines that
  are not blank, as its comment requires, and it divides the block into
  consecutive pieces: matching ones without blank lines and of the same size on
  both sides, and ones of blank lines only.
\<close>

theorem splitblock_returns:
  assumes "length (filter (\<lambda>l. wsclean opts l True \<noteq> []) lines1) = length (filter (\<lambda>l. wsclean opts l True \<noteq> []) lines2)"
  shows "\<exists>bs. splitblock base1 lines1 base2 lines2 opts = Some (Inr bs)
    \<and> split_pieces base1 base2 (map (\<lambda>l. wsclean opts l True \<noteq> []) lines1) (map (\<lambda>l. wsclean opts l True \<noteq> []) lines2) 0 0 bs"
  unfolding splitblock_def by (rule split_loop_ok) (use assms in \<open>simp_all add: nonblank_def filter_map comp_def\<close>)

theorem splitblock_returns_witness:
  "\<exists>bs. splitblock 0 [''x'', []] 0 [''y''] defaultopts = Some (Inr bs)
    \<and> split_pieces 0 0 (map (\<lambda>l. wsclean defaultopts l True \<noteq> []) [''x'', []]) (map (\<lambda>l. wsclean defaultopts l True \<noteq> []) [''y'']) 0 0 bs"
  using splitblock_returns [of defaultopts "[''x'', []]" "[''y'']" 0 0] by (simp add: wsclean_def defaultopts_def)

text \<open>
  (C36) \<open>blocksinrange\<close> on the blocks of a diff: a line range that is not empty and
  lies in the new text is translated to a range of the old text that holds
  every line matched with a line of the range, with the blocks that overlap
  it; a range that exceeds the text is an error.
\<close>

theorem blocksinrange_translates:
  assumes "tiles l1 l2 0 0 bs" "lbb < ubb"
  shows "if 0 \<le> lbb \<and> ubb \<le> int (length l2)
    then \<exists>lba uba. blocksinrange (map iblk bs) (lbb, ubb)
        = Inr (filter (\<lambda>((a1, a2, b1, b2), ty). lbb < b2 \<and> b1 < ubb) (map iblk bs), (lba, uba))
      \<and> 0 \<le> lba \<and> lba \<le> uba \<and> uba \<le> int (length l1)
      \<and> (\<forall>k y. maps_line bs k y \<longrightarrow> lbb \<le> k \<longrightarrow> k < ubb \<longrightarrow> lba \<le> y \<and> y < uba)
    else blocksinrange (map iblk bs) (lbb, ubb) = Inl (Abort ''line range exceeds file size'')"
proof -
  obtain L U where R: "foldl (range_step lbb ubb) (None, None) (map iblk bs) = (L, U)" by fastforce
  have ok: "range_ok (length l1) (length l2) 0 0 bs lbb ubb (None, None) (L, U)"
    using range_fold [OF assms, of "(None, None)"] R by simp
  have overlap: "filter (\<lambda>((a1, a2, b1, b2), stype). hunkinrange (b1, b2 - b1) (lbb, ubb)) (map iblk bs)
      = filter (\<lambda>((a1, a2, b1, b2), ty). lbb < b2 \<and> b1 < ubb) (map iblk bs)"
    by (rule filter_cong) (auto simp: hunkinrange_def)
  show ?thesis
  proof (cases "0 \<le> lbb \<and> ubb \<le> int (length l2)")
    case True
    then have "0 \<le> lbb \<and> lbb < int (length l2)" "0 < ubb \<and> ubb \<le> int (length l2)" using assms(2) by auto
    then obtain x u where "L = Some x" "U = Some u" "0 \<le> x" "u \<le> int (length l1)" "x \<le> u"
      "\<forall>k y. maps_line bs k y \<longrightarrow> lbb \<le> k \<longrightarrow> x \<le> y" "\<forall>k y. maps_line bs k y \<longrightarrow> k < ubb \<longrightarrow> y < u"
      using ok unfolding range_ok_def by auto
    then show ?thesis using True R overlap by (simp add: blocksinrange_def)
  next
    case False
    then have "L = None \<or> U = None" using ok assms(2) unfolding range_ok_def by (auto split: if_splits)
    then show ?thesis using False R by (auto simp: blocksinrange_def split: option.split)
  qed
qed

theorem blocksinrange_translates_witness:
  "blocksinrange (map iblk [((0, 1, 0, 1), Eq)]) (0, 2) = Inl (Abort ''line range exceeds file size'')"
  using blocksinrange_translates [of "[''a'']" "[''a'']" "[((0, 1, 0, 1), Eq)]" 0 2] by simp

end
