(* ===== verification/Transaction.thy ===== *)
theory Transaction
  imports Pyfmt "HOL-Library.Char_ord" "HOL-Library.List_Lexorder"
begin

text \<open>
  The store transaction of \<open>transaction.py\<close>: the journal of append-only files
  with their sizes, the backups of files that are rewritten, the groups that
  delay registration, nesting, the file generators, closing, aborting
  (\<open>_playback\<close>) and the recovery of an interrupted transaction from the journal
  files (\<open>rollback\<close>). The file system is a map from a location (a key of
  \<open>_vfsmap\<close>; the empty string is the store) and a path to the contents of the
  file. Callbacks are arguments of the operations that run them.
\<close>

section \<open>Files\<close>

type_synonym loc = bytes
type_synonym fname = bytes
type_synonym fs = "loc \<times> fname \<Rightarrow> bytes option"

definition fs_write :: "loc \<Rightarrow> fname \<Rightarrow> bytes \<Rightarrow> fs \<Rightarrow> fs" where
  "fs_write l f d s = s((l, f) := Some d)"

definition content :: "fs \<Rightarrow> loc \<Rightarrow> fname \<Rightarrow> bytes" where
  "content s l f = (case s (l, f) of None \<Rightarrow> [] | Some d \<Rightarrow> d)"

text \<open>Opening with mode \<open>a\<close> creates the file; writing appends.\<close>

definition fs_append :: "loc \<Rightarrow> fname \<Rightarrow> bytes \<Rightarrow> fs \<Rightarrow> fs" where
  "fs_append l f d s = s((l, f) := Some (content s l f @ d))"

text \<open>\<open>util.truncate(fp, o)\<close> of a file opened with mode \<open>a\<close>; beyond the end it extends with zero bytes.\<close>

definition fs_truncate :: "loc \<Rightarrow> fname \<Rightarrow> int \<Rightarrow> fs \<Rightarrow> fs res" where
  "fs_truncate l f off s =
     (if off < 0 then Inl IOError
      else let d = content s l f; n = nat off
           in Inr (s((l, f) := Some (take n d @ replicate (n - length d) (CHR 0x00)))))"

definition fs_unlink :: "loc \<Rightarrow> fname \<Rightarrow> fs \<Rightarrow> fs res" where
  "fs_unlink l f s = (case s (l, f) of None \<Rightarrow> Inl IOError | Some _ \<Rightarrow> Inr (s((l, f) := None)))"

text \<open>Unlinking where \<open>ENOENT\<close> is ignored, or after asking whether the file exists.\<close>

definition fs_remove :: "loc \<Rightarrow> fname \<Rightarrow> fs \<Rightarrow> fs" where
  "fs_remove l f s = s((l, f) := None)"

text \<open>
  \<open>util.copyfile\<close>: the destination is removed first, then the source is copied (or linked;
  the files that are backed up are replaced, not changed in place, so that a link holds
  the old contents as a copy does).
\<close>

definition copyfile :: "loc \<Rightarrow> fname \<Rightarrow> fname \<Rightarrow> fs \<Rightarrow> fs \<times> bool" where
  "copyfile l src dest s =
     (let s' = fs_remove l dest s
      in case s' (l, src) of None \<Rightarrow> (s', False) | Some d \<Rightarrow> (fs_write l dest d s', True))"

section \<open>Paths\<close>

text \<open>\<open>os.path.split\<close> and \<open>os.path.join\<close>, which \<open>vfs.split\<close> and \<open>vfs.reljoin\<close> are.\<close>

abbreviation slash :: char where
  "slash \<equiv> CHR 0x2F"

definition path_split :: "fname \<Rightarrow> fname \<times> fname" where
  "path_split p =
     (let tail = List.rev (takeWhile (\<lambda>c. c \<noteq> slash) (List.rev p));
          head = take (length p - length tail) p
      in (if list_all (\<lambda>c. c = slash) head then head else rstrip_if (\<lambda>c. c = slash) head, tail))"

definition path_join :: "fname \<Rightarrow> fname \<Rightarrow> fname" where
  "path_join a b =
     (if b \<noteq> [] \<and> hd b = slash then b
      else if a = [] \<or> List.last a = slash then a @ b
      else a @ [slash] @ b)"

section \<open>The transaction object\<close>

type_synonym jentry = "fname \<times> int \<times> int option"
type_synonym bentry = "loc \<times> fname \<times> fname \<times> bool"

record filegenerator =
  fg_order :: int
  fg_filenames :: "fname list"
  fg_genfunc :: "fs \<Rightarrow> bytes list"
  fg_location :: loc

record transaction =
  tr_count :: int
  tr_usages :: int
  tr_vfsmap :: "loc list"
  tr_entries :: "jentry list"
  tr_map :: "fname \<rightharpoonup> nat"
  tr_journal :: fname
  tr_undoname :: "fname option"
  tr_queue :: "jentry list list"
  tr_backupentries :: "bentry list"
  tr_backupmap :: "fname \<rightharpoonup> nat"
  tr_filegenerators :: "(bytes \<times> filegenerator) list"
  tr_anypending :: bool
  tr_pendingcallback :: "bytes list"
  tr_finalizecallback :: "bytes list"
  tr_postclosecallback :: "bytes list"
  tr_abortcallback :: "bytes list"
  tr_fs :: fs

definition backupjournal :: "fname \<Rightarrow> fname" where
  "backupjournal journal = journal @ ''.backupfiles''"

text \<open>\<open>transaction.__init__\<close>; the two journal files are created.\<close>

definition tr_init :: "loc list \<Rightarrow> fname \<Rightarrow> fname option \<Rightarrow> fs \<Rightarrow> transaction" where
  "tr_init vfsmap journalname undoname s =
     \<lparr> tr_count = 1, tr_usages = 1, tr_vfsmap = [] # vfsmap, tr_entries = [], tr_map = Map.empty,
       tr_journal = journalname, tr_undoname = undoname, tr_queue = [], tr_backupentries = [],
       tr_backupmap = Map.empty, tr_filegenerators = [], tr_anypending = False,
       tr_pendingcallback = [], tr_finalizecallback = [], tr_postclosecallback = [],
       tr_abortcallback = [],
       tr_fs = fs_write [] (backupjournal journalname) (dec 2 @ [NL]) (fs_write [] journalname [] s) \<rparr>"

definition active :: "transaction \<Rightarrow> 'a res \<Rightarrow> 'a res" where
  "active t r =
     (if tr_count t = 0 then Inl (Abort ''cannot use transaction when it is already committed/aborted'')
      else r)"

definition jline :: "fname \<Rightarrow> int \<Rightarrow> bytes" where
  "jline f off = f @ [CHR 0x00] @ dec off @ [NL]"

definition registered :: "transaction \<Rightarrow> fname \<Rightarrow> bool" where
  "registered t f \<longleftrightarrow> tr_map t f \<noteq> None \<or> tr_backupmap t f \<noteq> None"

definition addentry :: "jentry \<Rightarrow> transaction \<Rightarrow> transaction" where
  "addentry e t =
     (case e of (f, off, data) \<Rightarrow>
        if registered t f then t
        else t \<lparr> tr_entries := tr_entries t @ [(f, off, data)],
                 tr_map := (tr_map t)(f \<mapsto> length (tr_entries t)),
                 tr_fs := fs_append [] (tr_journal t) (jline f off) (tr_fs t) \<rparr>)"

definition startgroup :: "transaction \<Rightarrow> transaction res" where
  "startgroup t = active t (Inr (t \<lparr> tr_queue := tr_queue t @ [[]] \<rparr>))"

definition endgroup :: "transaction \<Rightarrow> transaction res" where
  "endgroup t = active t
     (if tr_queue t = [] then Inl IndexError
      else Inr (fold addentry (List.last (tr_queue t)) (t \<lparr> tr_queue := butlast (tr_queue t) \<rparr>)))"

definition tr_add :: "fname \<Rightarrow> int \<Rightarrow> int option \<Rightarrow> transaction \<Rightarrow> transaction res" where
  "tr_add f off data t = active t
     (if registered t f then Inr t
      else if tr_queue t \<noteq> []
      then Inr (t \<lparr> tr_queue := butlast (tr_queue t) @ [List.last (tr_queue t) @ [(f, off, data)]] \<rparr>)
      else Inr (addentry (f, off, data) t))"

definition bline :: "bentry \<Rightarrow> bytes" where
  "bline e = (case e of (l, f, b, c) \<Rightarrow>
     l @ [CHR 0x00] @ f @ [CHR 0x00] @ b @ [CHR 0x00] @ dec (if c then 1 else 0) @ [NL])"

definition addbackupentry :: "bentry \<Rightarrow> transaction \<Rightarrow> transaction" where
  "addbackupentry e t =
     t \<lparr> tr_backupentries := tr_backupentries t @ [e],
         tr_backupmap := (tr_backupmap t)(fst (snd e) \<mapsto> length (tr_backupentries t)),
         tr_fs := fs_append [] (backupjournal (tr_journal t)) (bline e) (tr_fs t) \<rparr>"

definition backupname :: "fname \<Rightarrow> fname \<Rightarrow> fname" where
  "backupname journal f = (case path_split f of (dirname, filename) \<Rightarrow>
     path_join dirname (journal @ ''.backup.'' @ filename))"

definition addbackup :: "fname \<Rightarrow> loc \<Rightarrow> transaction \<Rightarrow> transaction res" where
  "addbackup f location t = active t
     (if tr_queue t \<noteq> [] then Inl (ProgrammingError
          (''cannot use transaction.addbackup inside '' @ [CHR 0x22] @ ''group'' @ [CHR 0x22]))
      else if registered t f then Inr t
      else if location \<notin> set (tr_vfsmap t) then Inl KeyError
      else
        (let b = backupname (tr_journal t) f
         in if tr_fs t (location, f) \<noteq> None
            then Inr (addbackupentry (location, f, b, False)
                   (t \<lparr> tr_fs := fst (copyfile location f b (tr_fs t)) \<rparr>))
            else Inr (addbackupentry (location, f, [], False) t)))"

definition registertmp :: "fname \<Rightarrow> loc \<Rightarrow> transaction \<Rightarrow> transaction res" where
  "registertmp tmpfile location t = active t (Inr (addbackupentry (location, [], tmpfile, False) t))"

definition tr_find :: "fname \<Rightarrow> transaction \<Rightarrow> (jentry + bentry) option res" where
  "tr_find f t = active t
     (case tr_map t f of
        Some i \<Rightarrow> bindE (py_index (tr_entries t) i) (\<lambda>e. Inr (Some (Inl e)))
      | None \<Rightarrow>
          (case tr_backupmap t f of
             Some i \<Rightarrow> bindE (py_index (tr_backupentries t) i) (\<lambda>e. Inr (Some (Inr e)))
           | None \<Rightarrow> Inr None))"

definition tr_replace :: "fname \<Rightarrow> int \<Rightarrow> int option \<Rightarrow> transaction \<Rightarrow> transaction res" where
  "tr_replace f off data t = active t
     (case tr_map t f of
        None \<Rightarrow> Inl KeyError
      | Some i \<Rightarrow>
          if i < length (tr_entries t)
          then Inr (t \<lparr> tr_entries := (tr_entries t)[i := (f, off, data)],
                        tr_fs := fs_append [] (tr_journal t) (jline f off) (tr_fs t) \<rparr>)
          else Inl IndexError)"

definition nest :: "transaction \<Rightarrow> transaction res" where
  "nest t = active t (Inr (t \<lparr> tr_count := tr_count t + 1, tr_usages := tr_usages t + 1 \<rparr>))"

definition running :: "transaction \<Rightarrow> bool" where
  "running t \<longleftrightarrow> 0 < tr_count t"

section \<open>Undoing the changes\<close>

text \<open>
  \<open>_playback\<close>. An exception leaves the file system as it is at that point, so the
  result has the files and the exception, if there was one.
\<close>

fun truncate_entries :: "bool \<Rightarrow> jentry list \<Rightarrow> fs \<Rightarrow> fs \<times> pyerror option" where
  "truncate_entries unlink [] s = (s, None)"
| "truncate_entries unlink ((f, off, _) # es) s =
     (if off \<noteq> 0 \<or> \<not> unlink
      then (case fs_truncate [] f off s of
              Inl e \<Rightarrow> (s, Some e)
            | Inr s' \<Rightarrow> truncate_entries unlink es s')
      else truncate_entries unlink es (fs_remove [] f s))"

fun restore_backups :: "loc list \<Rightarrow> bentry list \<Rightarrow> fname list \<Rightarrow> fs \<Rightarrow> (fs \<times> fname list) \<times> pyerror option" where
  "restore_backups vfsmap [] backupfiles s = ((s, backupfiles), None)"
| "restore_backups vfsmap ((l, f, b, c) # es) backupfiles s =
     (if l \<notin> set vfsmap then ((s, backupfiles), Some KeyError)
      else if f \<noteq> [] \<and> b \<noteq> []
      then (case copyfile l b f s of (s', ok) \<Rightarrow>
              restore_backups vfsmap es (if ok then backupfiles @ [b] else backupfiles) s')
      else restore_backups vfsmap es backupfiles (fs_remove l (if f \<noteq> [] then f else b) s))"

definition playback :: "fname \<Rightarrow> loc list \<Rightarrow> jentry list \<Rightarrow> bentry list \<Rightarrow> bool \<Rightarrow> fs \<Rightarrow> fs \<times> pyerror option" where
  "playback journal vfsmap entries backupentries unlink s =
     (case truncate_entries unlink entries s of
        (s1, Some e) \<Rightarrow> (s1, Some e)
      | (s1, None) \<Rightarrow>
          (case restore_backups vfsmap backupentries [] s1 of
             ((s2, _), Some e) \<Rightarrow> (s2, Some e)
           | ((s2, backupfiles), None) \<Rightarrow>
               (let s3 = fs_remove [] (backupjournal journal) s2
                in case fs_unlink [] journal s3 of
                     Inl e \<Rightarrow> (s3, Some e)
                   | Inr s4 \<Rightarrow> (fold (fs_remove []) backupfiles s4, None))))"

text \<open>
  \<open>_abort\<close>. The callbacks are run in sorted order of their categories; an exception of a
  callback or of the playback is reported and otherwise dropped.
\<close>

fun run_callbacks :: "(bytes \<Rightarrow> transaction \<Rightarrow> transaction res) \<Rightarrow> bytes list \<Rightarrow> transaction \<Rightarrow> transaction res" where
  "run_callbacks cb [] t = Inr t"
| "run_callbacks cb (c # cs) t = bindE (cb c t) (run_callbacks cb cs)"

definition abort_undo :: "(bytes \<Rightarrow> transaction \<Rightarrow> transaction res) \<Rightarrow> transaction \<Rightarrow> transaction" where
  "abort_undo abortcb t =
     (case run_callbacks abortcb (sort (tr_abortcallback t)) t of
        Inl _ \<Rightarrow> t
      | Inr t1 \<Rightarrow>
          t1 \<lparr> tr_abortcallback := [],
               tr_fs := fst (playback (tr_journal t1) (tr_vfsmap t1) (tr_entries t1) (tr_backupentries t1) False
                               (tr_fs t1)) \<rparr>)"

definition do_abort :: "(bytes \<Rightarrow> transaction \<Rightarrow> transaction res) \<Rightarrow> transaction \<Rightarrow> transaction res" where
  "do_abort abortcb t =
     (let t = t \<lparr> tr_count := 0, tr_usages := 0 \<rparr>
      in if tr_entries t = [] \<and> tr_backupentries t = []
         then bindE (fs_unlink [] (backupjournal (tr_journal t)) (tr_fs t)) (\<lambda>s.
                bindE (fs_unlink [] (tr_journal t) s) (\<lambda>s'. Inr (t \<lparr> tr_fs := s' \<rparr>)))
         else Inr (abort_undo abortcb t))"

definition tr_abort :: "(bytes \<Rightarrow> transaction \<Rightarrow> transaction res) \<Rightarrow> transaction \<Rightarrow> transaction res" where
  "tr_abort abortcb t = active t (do_abort abortcb t)"

definition release :: "(bytes \<Rightarrow> transaction \<Rightarrow> transaction res) \<Rightarrow> transaction \<Rightarrow> transaction res" where
  "release abortcb t =
     (let t = (if 0 < tr_count t then t \<lparr> tr_usages := tr_usages t - 1 \<rparr> else t)
      in if 0 < tr_count t \<and> tr_usages t = 0 then do_abort abortcb t else Inr t)"

section \<open>Generated files and closing\<close>

datatype gengroup = GenAll | GenPrefinalize | GenPostfinalize

definition postfinalizegenerators :: "bytes set" where
  "postfinalizegenerators = {''bookmarks'', ''dirstate''}"

definition addfilegenerator :: "bytes \<Rightarrow> filegenerator \<Rightarrow> transaction \<Rightarrow> transaction res" where
  "addfilegenerator genid g t = active t
     (Inr (t \<lparr> tr_filegenerators := (genid, g) # filter (\<lambda>(k, _). k \<noteq> genid) (tr_filegenerators t) \<rparr>))"

definition removefilegenerator :: "bytes \<Rightarrow> transaction \<Rightarrow> transaction res" where
  "removefilegenerator genid t = active t
     (Inr (t \<lparr> tr_filegenerators := filter (\<lambda>(k, _). k \<noteq> genid) (tr_filegenerators t) \<rparr>))"

fun prepare_files :: "bytes \<Rightarrow> loc \<Rightarrow> fname list \<Rightarrow> transaction \<Rightarrow> transaction res" where
  "prepare_files suffix location [] t = Inr t"
| "prepare_files suffix location (name # names) t =
     bindE (if suffix \<noteq> [] then registertmp (name @ suffix) location t else addbackup (name @ suffix) location t)
       (prepare_files suffix location names)"

fun write_files :: "bytes \<Rightarrow> loc \<Rightarrow> fname list \<Rightarrow> bytes list \<Rightarrow> fs \<Rightarrow> fs" where
  "write_files suffix location (name # names) (d # ds) s =
     write_files suffix location names ds (fs_write location (name @ suffix) d s)"
| "write_files suffix location (name # names) [] s =
     write_files suffix location names [] (fs_write location (name @ suffix) [] s)"
| "write_files suffix location [] ds s = s"

fun generate_loop :: "bytes \<Rightarrow> gengroup \<Rightarrow> (bytes \<times> filegenerator) list \<Rightarrow> transaction \<Rightarrow> transaction res" where
  "generate_loop suffix grp [] t = Inr t"
| "generate_loop suffix grp ((i, g) # gs) t =
     (if grp \<noteq> GenAll \<and> (i \<in> postfinalizegenerators) \<noteq> (grp = GenPostfinalize)
      then generate_loop suffix grp gs t
      else if fg_location g \<notin> set (tr_vfsmap t) then Inl KeyError
      else bindE (prepare_files suffix (fg_location g) (fg_filenames g) t) (\<lambda>t'.
             generate_loop suffix grp gs
               (t' \<lparr> tr_fs := write_files suffix (fg_location g) (fg_filenames g) (fg_genfunc g (tr_fs t'))
                               (tr_fs t') \<rparr>)))"

definition generatefiles :: "bytes \<Rightarrow> gengroup \<Rightarrow> transaction \<Rightarrow> (bool \<times> transaction) res" where
  "generatefiles suffix grp t =
     bindE (generate_loop suffix grp (sort_key fst (tr_filegenerators t)) t) (\<lambda>t'.
       Inr (tr_filegenerators t \<noteq> [], t'))"

fun run_pending :: "(bytes \<Rightarrow> transaction \<Rightarrow> (bool \<times> transaction) res) \<Rightarrow> bytes list \<Rightarrow> transaction \<Rightarrow> transaction res" where
  "run_pending cb [] t = Inr t"
| "run_pending cb (c # cs) t =
     bindE (cb c (t \<lparr> tr_pendingcallback := filter (\<lambda>k. k \<noteq> c) (tr_pendingcallback t) \<rparr>)) (\<lambda>(any, t').
       run_pending cb cs (t' \<lparr> tr_anypending := tr_anypending t' \<or> any \<rparr>))"

definition writepending :: "(bytes \<Rightarrow> transaction \<Rightarrow> (bool \<times> transaction) res) \<Rightarrow> transaction \<Rightarrow> (bool \<times> transaction) res" where
  "writepending pendingcb t = active t
     (bindE (run_pending pendingcb (sort (tr_pendingcallback t)) t) (\<lambda>t1.
        bindE (generatefiles ''.pending'' GenAll t1) (\<lambda>(any, t2).
          let t3 = t2 \<lparr> tr_anypending := tr_anypending t2 \<or> any \<rparr> in Inr (tr_anypending t3, t3))))"

text \<open>\<open>_writeundo\<close>: \<open>str.replace(journal, undoname, 1)\<close> on a name that starts with the journal's name.\<close>

fun undo_lines :: "fname \<Rightarrow> fname \<Rightarrow> loc list \<Rightarrow> bentry list \<Rightarrow> bytes \<Rightarrow> fs \<Rightarrow> (bytes \<times> fs) res" where
  "undo_lines journal undoname vfsmap [] acc s = Inr (acc, s)"
| "undo_lines journal undoname vfsmap ((l, f, b, c) # es) acc s =
     (if f = [] then undo_lines journal undoname vfsmap es acc s
      else if b = [] then undo_lines journal undoname vfsmap es (acc @ bline (l, f, [], c)) s
      else if l \<notin> set vfsmap \<and> c then undo_lines journal undoname vfsmap es acc s
      else if l \<notin> set vfsmap then Inl KeyError
      else
        (case path_split b of (base, name) \<Rightarrow>
           if take (length journal) name \<noteq> journal then Inl AssertionError
           else
             (let u = path_join base (undoname @ drop (length journal) name)
              in if snd (copyfile l b u s)
                 then undo_lines journal undoname vfsmap es (acc @ bline (l, f, u, c)) (fst (copyfile l b u s))
                 else Inl IOError)))"

definition writeundo :: "transaction \<Rightarrow> transaction res" where
  "writeundo t =
     (case tr_undoname t of
        None \<Rightarrow> Inr t
      | Some u \<Rightarrow>
          bindE (undo_lines (tr_journal t) u (tr_vfsmap t) (tr_backupentries t) (dec 2 @ [NL])
                   (fs_write [] (backupjournal u) [] (tr_fs t)))
            (\<lambda>(out, s). Inr (t \<lparr> tr_fs := fs_write [] (backupjournal u) out s \<rparr>)))"

text \<open>The two loops of \<open>close\<close> over the backup entries: the temporary files, then all backups.\<close>

fun remove_backups :: "(bentry \<Rightarrow> bool) \<Rightarrow> loc list \<Rightarrow> bentry list \<Rightarrow> fs \<Rightarrow> fs res" where
  "remove_backups sel vfsmap [] s = Inr s"
| "remove_backups sel vfsmap ((l, f, b, c) # es) s =
     (if l \<notin> set vfsmap \<and> c then remove_backups sel vfsmap es s
      else if l \<notin> set vfsmap then Inl KeyError
      else remove_backups sel vfsmap es (if sel (l, f, b, c) then fs_remove l b s else s))"

record callbacks =
  cb_validator :: "transaction \<Rightarrow> pyerror option"
  cb_finalize :: "bytes \<Rightarrow> transaction \<Rightarrow> transaction res"
  cb_writemetalog :: "transaction \<Rightarrow> transaction res"
  cb_after :: "transaction \<Rightarrow> transaction res"
  cb_postclose :: "bytes \<Rightarrow> transaction \<Rightarrow> transaction res"

definition close_prepare :: "callbacks \<Rightarrow> transaction \<Rightarrow> transaction res" where
  "close_prepare cb t =
     (case cb_validator cb t of
        Some e \<Rightarrow> Inl e
      | None \<Rightarrow>
          bindE (generatefiles [] GenPrefinalize t) (\<lambda>(_, t1).
            bindE (run_callbacks (cb_finalize cb) (sort (tr_finalizecallback t1)) t1) (\<lambda>t2.
              bindE (generatefiles [] GenPostfinalize (t2 \<lparr> tr_finalizecallback := [] \<rparr>)) (\<lambda>(_, t3). Inr t3))))"

definition close_finish :: "callbacks \<Rightarrow> transaction \<Rightarrow> transaction res" where
  "close_finish cb t =
     bindE (remove_backups (\<lambda>(l, f, b, c). f = [] \<and> b \<noteq> []) (tr_vfsmap t) (tr_backupentries t) (tr_fs t)) (\<lambda>s1.
       bindE (writeundo (t \<lparr> tr_fs := s1, tr_entries := [] \<rparr>)) (\<lambda>t2.
         bindE (cb_writemetalog cb t2) (\<lambda>t3. bindE (cb_after cb t3) (\<lambda>t4.
           let s4 = fs_remove [] (tr_journal t4) (fs_remove [] (backupjournal (tr_journal t4)) (tr_fs t4))
           in bindE (remove_backups (\<lambda>(l, f, b, c). b \<noteq> []) (tr_vfsmap t4) (tr_backupentries t4) s4) (\<lambda>s5.
                bindE (run_callbacks (cb_postclose cb) (sort (tr_postclosecallback t4))
                   (t4 \<lparr> tr_fs := s5, tr_backupentries := [] \<rparr>)) (\<lambda>t6.
                  Inr (t6 \<lparr> tr_postclosecallback := [] \<rparr>)))))))"

definition tr_close :: "callbacks \<Rightarrow> transaction \<Rightarrow> transaction res" where
  "tr_close cb t = active t
     (bindE (if tr_count t = 1 then close_prepare cb t else Inr t) (\<lambda>t1.
        let t2 = t1 \<lparr> tr_count := tr_count t1 - 1 \<rparr>
        in if tr_count t2 \<noteq> 0 then Inr t2 else close_finish cb t2))"

section \<open>Recovery from the journal\<close>

definition parse_jline :: "bytes \<Rightarrow> jentry list" where
  "parse_jline l =
     (case py_split (CHR 0x00) l of
        [f, off] \<Rightarrow> (case py_int off of Inl _ \<Rightarrow> [] | Inr n \<Rightarrow> [(f, n, None)])
      | _ \<Rightarrow> [])"

fun parse_blines :: "bytes list \<Rightarrow> bentry list res" where
  "parse_blines [] = Inr []"
| "parse_blines (line # lines) =
     (if line = [] then parse_blines lines
      else
        (case py_split (CHR 0x00) (butlast line) of
           [l, f, b, c] \<Rightarrow> bindE (parse_blines lines) (\<lambda>es. Inr ((l, f, b, c \<noteq> []) # es))
         | _ \<Rightarrow> Inl AssertionError))"

definition rollback_backups :: "fname \<Rightarrow> fs \<Rightarrow> bentry list res" where
  "rollback_backups f s =
     (case s ([], backupjournal f) of
        None \<Rightarrow> Inr []
      | Some d \<Rightarrow>
          (case readlines d of
             [] \<Rightarrow> Inr []
           | ver # lines \<Rightarrow> if butlast ver = dec 2 then parse_blines lines else Inr []))"

definition rollback :: "loc list \<Rightarrow> fname \<Rightarrow> fs \<Rightarrow> (fs \<times> pyerror option)" where
  "rollback vfsmap f s =
     (case s ([], f) of
        None \<Rightarrow> (s, Some IOError)
      | Some d \<Rightarrow>
          (case rollback_backups f s of
             Inl e \<Rightarrow> (s, Some e)
           | Inr backupentries \<Rightarrow>
               playback f vfsmap (concat (map parse_jline (readlines d))) backupentries True s))"

section \<open>What a transaction keeps\<close>

text \<open>
  The clients of a transaction change the files \<open>C\<close>, under the protection of the
  transaction, and create the temporary files \<open>T\<close>. The names the transaction makes
  up itself (the journals and the backups) are reserved. A path is used
  at one location only: the transaction's maps are keyed by the path alone.
\<close>

definition reserved :: "fname \<Rightarrow> (loc \<times> fname) set \<Rightarrow> fname set" where
  "reserved j C = {j, backupjournal j} \<union> backupname j ` snd ` C"

definition clients_ok :: "fname \<Rightarrow> (loc \<times> fname) set \<Rightarrow> (loc \<times> fname) set \<Rightarrow> fs \<Rightarrow> bool" where
  "clients_ok j C T s0 \<longleftrightarrow>
     (\<forall>l f. (l, f) \<in> C \<union> T \<longrightarrow> f \<noteq> [] \<and> f \<notin> reserved j C) \<and> C \<inter> T = {} \<and>
     (\<forall>l l' f. (l, f) \<in> C \<longrightarrow> (l', f) \<in> C \<longrightarrow> l = l') \<and>
     (\<forall>l f. (l, f) \<in> C \<longrightarrow> backupname j f \<noteq> [] \<and> backupname j f \<noteq> j \<and> backupname j f \<noteq> backupjournal j) \<and>
     (\<forall>l l' f f'. (l, f) \<in> C \<longrightarrow> (l', f') \<in> C \<longrightarrow> backupname j f = backupname j f' \<longrightarrow> f = f') \<and>
     (\<forall>l r. r \<in> reserved j C \<longrightarrow> s0 (l, r) = None) \<and> (\<forall>l f. (l, f) \<in> T \<longrightarrow> s0 (l, f) = None)"

definition tmp_files :: "transaction \<Rightarrow> (loc \<times> fname) set" where
  "tmp_files t = {(l, b). \<exists>c. (l, [], b, c) \<in> set (tr_backupentries t)}"

definition saved_files :: "transaction \<Rightarrow> (loc \<times> fname) set" where
  "saved_files t = {(l, f). f \<noteq> [] \<and> (\<exists>b c. (l, f, b, c) \<in> set (tr_backupentries t))}"

definition backups :: "transaction \<Rightarrow> (loc \<times> fname) set" where
  "backups t = {(l, b). b \<noteq> [] \<and> (\<exists>f c. f \<noteq> [] \<and> (l, f, b, c) \<in> set (tr_backupentries t))}"

definition added_files :: "transaction \<Rightarrow> (loc \<times> fname) set" where
  "added_files t = {([], f) | f. f \<in> fst ` set (tr_entries t)}"

text \<open>A journal entry holds the size the file had, and the file still starts with what it held.\<close>

definition entry_inv :: "fs \<Rightarrow> fs \<Rightarrow> jentry \<Rightarrow> bool" where
  "entry_inv s0 s e \<longleftrightarrow> (case e of (f, off, _) \<Rightarrow>
     off = int (length (content s0 [] f)) \<and> (\<exists>d. content s [] f = content s0 [] f @ d))"

text \<open>A backup entry names a copy of the file as it was, or says that there was none.\<close>

definition backup_inv :: "fname \<Rightarrow> loc list \<Rightarrow> (loc \<times> fname) set \<Rightarrow> (loc \<times> fname) set \<Rightarrow> fs \<Rightarrow> fs \<Rightarrow> bentry \<Rightarrow> bool" where
  "backup_inv j vfsmap C T s0 s e \<longleftrightarrow> (case e of (l, f, b, c) \<Rightarrow>
     l \<in> set vfsmap \<and>
     (if f = [] then (l, b) \<in> T
      else (l, f) \<in> C \<and> (if b = [] then s0 (l, f) = None
                       else b = backupname j f \<and> s (l, b) = s0 (l, f) \<and> s0 (l, f) \<noteq> None)))"

definition maps_ok :: "transaction \<Rightarrow> bool" where
  "maps_ok t \<longleftrightarrow> distinct (map fst (tr_entries t)) \<and> dom (tr_map t) = fst ` set (tr_entries t) \<and>
     dom (tr_backupmap t) = (\<lambda>(l, f, b, c). f) ` set (tr_backupentries t)"

definition untouched :: "fs \<Rightarrow> transaction \<Rightarrow> bool" where
  "untouched s0 t \<longleftrightarrow> (\<forall>l f. (l, f) \<notin> added_files t \<union> saved_files t \<union> tmp_files t \<union> backups t \<longrightarrow>
     (l, f) \<noteq> ([], tr_journal t) \<longrightarrow> (l, f) \<noteq> ([], backupjournal (tr_journal t)) \<longrightarrow> tr_fs t (l, f) = s0 (l, f))"

definition queued_ok :: "(loc \<times> fname) set \<Rightarrow> fs \<Rightarrow> jentry list \<Rightarrow> bool" where
  "queued_ok C s0 q \<longleftrightarrow> (\<forall>(f, off, _) \<in> set q. ([], f) \<in> C \<and> off = int (length (content s0 [] f)))"

definition tr_inv :: "(loc \<times> fname) set \<Rightarrow> (loc \<times> fname) set \<Rightarrow> fs \<Rightarrow> transaction \<Rightarrow> bool" where
  "tr_inv C T s0 t \<longleftrightarrow>
     maps_ok t \<and> added_files t \<subseteq> C \<and> added_files t \<inter> saved_files t = {} \<and>
     (\<forall>e \<in> set (tr_entries t). entry_inv s0 (tr_fs t) e) \<and>
     (\<forall>e \<in> set (tr_backupentries t). backup_inv (tr_journal t) (tr_vfsmap t) C T s0 (tr_fs t) e) \<and>
     (\<forall>q \<in> set (tr_queue t). queued_ok C s0 q) \<and>
     untouched s0 t \<and>
     tr_fs t ([], tr_journal t) = Some (concat (map (\<lambda>(f, off, _). jline f off) (tr_entries t))) \<and>
     tr_fs t ([], backupjournal (tr_journal t)) = Some (dec 2 @ [NL] @ concat (map bline (tr_backupentries t)))"

lemmas file_sets = tmp_files_def saved_files_def backups_def added_files_def

text \<open>
  What the clients do: they register a file and then append to it; they back a file up and
  then write it anew or delete it; they register temporary files and write them.
\<close>

inductive tr_step :: "(loc \<times> fname) set \<Rightarrow> (loc \<times> fname) set \<Rightarrow> transaction \<Rightarrow> transaction \<Rightarrow> bool"
  for C T where
  step_add: "([], f) \<in> C \<Longrightarrow> tr_add f (int (length (content (tr_fs t) [] f))) d t = Inr t' \<Longrightarrow> tr_step C T t t'"
| step_startgroup: "startgroup t = Inr t' \<Longrightarrow> tr_step C T t t'"
| step_endgroup: "endgroup t = Inr t' \<Longrightarrow> tr_step C T t t'"
| step_append: "tr_map t f \<noteq> None \<Longrightarrow> tr_step C T t (t \<lparr> tr_fs := fs_append [] f d (tr_fs t) \<rparr>)"
| step_backup: "(l, f) \<in> C \<Longrightarrow> addbackup f l t = Inr t' \<Longrightarrow> tr_step C T t t'"
| step_rewrite: "(l, f) \<in> saved_files t \<Longrightarrow> tr_step C T t (t \<lparr> tr_fs := (tr_fs t)((l, f) := d) \<rparr>)"
| step_tmp: "(l, f) \<in> T \<Longrightarrow> l \<in> set (tr_vfsmap t) \<Longrightarrow> registertmp f l t = Inr t' \<Longrightarrow> tr_step C T t t'"
| step_writetmp: "(l, f) \<in> tmp_files t \<Longrightarrow> tr_step C T t (t \<lparr> tr_fs := (tr_fs t)((l, f) := d) \<rparr>)"
| step_nest: "nest t = Inr t' \<Longrightarrow> tr_step C T t t'"

section \<open>Every step keeps the invariant\<close>

lemma content_upd [simp]: "content (s((l, f) := x)) l' f' =
    (if l' = l \<and> f' = f then (case x of None \<Rightarrow> [] | Some d \<Rightarrow> d) else content s l' f')"
  by (simp add: content_def)

lemma content_append [simp]: "content (fs_append l f d s) l' f' =
    (if l' = l \<and> f' = f then content s l f @ d else content s l' f')"
  by (simp add: fs_append_def)

lemma content_cong: "s (l, f) = s' (l, f) \<Longrightarrow> content s l f = content s' l f"
  by (simp add: content_def)

lemma reserved_simps [simp]: "j \<in> reserved j C" "backupjournal j \<in> reserved j C" "backupjournal j \<noteq> j" "j \<noteq> backupjournal j"
  by (auto simp: reserved_def backupjournal_def)

lemma reserved_backup: "(l, f) \<in> C \<Longrightarrow> backupname j f \<in> reserved j C"
  by (force simp: reserved_def)

lemma tr_init_inv:
  assumes "clients_ok j C T s0"
  shows "tr_inv C T s0 (tr_init vfsmap j u s0)"
  by (simp add: tr_inv_def tr_init_def maps_ok_def file_sets untouched_def fs_write_def)

lemma clients_okD:
  assumes "clients_ok j C T s0"
  shows "(l, f) \<in> C \<Longrightarrow> f \<noteq> []" "(l, f) \<in> C \<Longrightarrow> f \<notin> reserved j C" "(l, f) \<in> T \<Longrightarrow> f \<notin> reserved j C"
    "(l, f) \<in> C \<Longrightarrow> backupname j f \<noteq> []" "(l, f) \<in> C \<Longrightarrow> (l, f) \<notin> T"
    "(l, f) \<in> C \<Longrightarrow> (l', f) \<in> C \<Longrightarrow> l = l'" "r \<in> reserved j C \<Longrightarrow> s0 (l, r) = None"
    "(l, f) \<in> T \<Longrightarrow> s0 (l, f) = None" "(l, f) \<in> C \<Longrightarrow> backupname j f \<noteq> j"
    "(l, f) \<in> C \<Longrightarrow> backupname j f \<noteq> backupjournal j" "(l, f) \<in> T \<Longrightarrow> f \<noteq> []"
  using assms unfolding clients_ok_def by blast+

lemma clients_ok_inj:
  "clients_ok j C T s0 \<Longrightarrow> (l, f) \<in> C \<Longrightarrow> (l', f') \<in> C \<Longrightarrow> backupname j f = backupname j f' \<Longrightarrow> f = f'"
  unfolding clients_ok_def by blast

lemma inv_sets:
  assumes "tr_inv C T s0 t" "clients_ok (tr_journal t) C T s0"
  shows "tmp_files t \<subseteq> T" "saved_files t \<subseteq> C" "added_files t \<subseteq> C"
    "(l, b) \<in> backups t \<Longrightarrow> \<exists>f. (l, f) \<in> saved_files t \<and> b = backupname (tr_journal t) f"
proof -
  have bi: "backup_inv (tr_journal t) (tr_vfsmap t) C T s0 (tr_fs t) e" if "e \<in> set (tr_backupentries t)" for e
    using assms(1) that by (simp add: tr_inv_def)
  show "tmp_files t \<subseteq> T" "saved_files t \<subseteq> C"
    using bi by (force simp: file_sets backup_inv_def)+
  show "added_files t \<subseteq> C" using assms(1) by (simp add: tr_inv_def)
  show "\<exists>f. (l, f) \<in> saved_files t \<and> b = backupname (tr_journal t) f" if "(l, b) \<in> backups t"
    using that bi by (fastforce simp: file_sets backup_inv_def)
qed

lemma backups_reserved:
  assumes "tr_inv C T s0 t" "clients_ok (tr_journal t) C T s0" "(l, b) \<in> backups t"
  shows "b \<in> reserved (tr_journal t) C"
  using inv_sets(2,4) [OF assms(1,2)] assms(3) reserved_backup by blast

lemma registered_iff:
  assumes "tr_inv C T s0 t"
  shows "registered t f \<longleftrightarrow> ([], f) \<in> added_files t \<or> (\<exists>l. (l, f) \<in> saved_files t) \<or> (f = [] \<and> tmp_files t \<noteq> {})"
proof -
  have "tr_map t f \<noteq> None \<longleftrightarrow> f \<in> fst ` set (tr_entries t)"
    using assms unfolding tr_inv_def maps_ok_def by blast
  moreover have "tr_backupmap t f \<noteq> None \<longleftrightarrow> f \<in> (\<lambda>(l, f, b, c). f) ` set (tr_backupentries t)"
    using assms unfolding tr_inv_def maps_ok_def by blast
  ultimately show ?thesis unfolding registered_def file_sets by (force simp: image_iff)
qed

lemma unregistered_same:
  assumes "tr_inv C T s0 t" "clients_ok (tr_journal t) C T s0" "(l, f) \<in> C" "\<not> registered t f"
  shows "tr_fs t (l, f) = s0 (l, f)"
proof -
  have r: "f \<notin> reserved (tr_journal t) C" using clients_okD(2) [OF assms(2,3)] .
  have "(l, f) \<notin> backups t" using backups_reserved [OF assms(1,2)] r by blast
  moreover have "(l, f) \<notin> tmp_files t" using inv_sets(1) [OF assms(1,2)] clients_okD(5) [OF assms(2,3)] by blast
  moreover have "(l, f) \<notin> added_files t" "(l, f) \<notin> saved_files t"
    using assms(4) registered_iff [OF assms(1)] by (auto simp: added_files_def)
  moreover have "f \<noteq> tr_journal t" "f \<noteq> backupjournal (tr_journal t)" using r by auto
  ultimately show ?thesis using assms(1) by (auto simp: tr_inv_def untouched_def)
qed

text \<open>A write to a file of the clients or to a temporary file touches no journal and no backup.\<close>

lemma write_inv:
  assumes inv: "tr_inv C T s0 t" and ok: "clients_ok (tr_journal t) C T s0"
    and x: "(l, f) \<in> added_files t \<union> saved_files t \<union> tmp_files t"
    and a: "([], f) \<in> added_files t \<Longrightarrow> l = [] \<Longrightarrow>
      \<exists>d. (case v of None \<Rightarrow> [] | Some d \<Rightarrow> d) = content s0 [] f @ d"
  shows "tr_inv C T s0 (t \<lparr> tr_fs := (tr_fs t)((l, f) := v) \<rparr>)" (is "tr_inv C T s0 ?t")
proof -
  have CT: "(l, f) \<in> C \<union> T" using x inv_sets [OF inv ok] by blast
  then have r: "f \<notin> reserved (tr_journal t) C" using clients_okD(2,3) [OF ok] by blast
  have ne: "f \<noteq> tr_journal t" "f \<noteq> backupjournal (tr_journal t)" using r by auto
  have e: "entry_inv s0 (tr_fs ?t) e" if "e \<in> set (tr_entries t)" for e
    using inv that a by (cases e) (force simp: tr_inv_def entry_inv_def added_files_def image_iff)
  have b: "backup_inv (tr_journal t) (tr_vfsmap t) C T s0 (tr_fs ?t) e" if "e \<in> set (tr_backupentries t)" for e
  proof -
    have "backup_inv (tr_journal t) (tr_vfsmap t) C T s0 (tr_fs t) e" using inv that by (simp add: tr_inv_def)
    moreover have "(l, backupname (tr_journal t) g) \<noteq> (l, f)" if "(l, g) \<in> C" for g
      using r reserved_backup [OF that, of "tr_journal t"] by auto
    ultimately show ?thesis by (cases e) (fastforce simp: backup_inv_def)
  qed
  have u: "untouched s0 ?t"
    using inv x unfolding tr_inv_def untouched_def file_sets by auto
  show ?thesis
    using inv e b u ne unfolding tr_inv_def by (simp add: maps_ok_def file_sets)
qed

lemma addentry_inv:
  assumes inv: "tr_inv C T s0 t" and ok: "clients_ok (tr_journal t) C T s0"
    and x: "([], f) \<in> C" "off = int (length (content s0 [] f))"
  shows "tr_inv C T s0 (addentry (f, off, d) t)"
proof (cases "registered t f")
  case True
  then show ?thesis using inv by (simp add: addentry_def)
next
  case False
  define t' where "t' = addentry (f, off, d) t"
  have t: "tr_entries t' = tr_entries t @ [(f, off, d)]" "tr_map t' = (tr_map t)(f \<mapsto> length (tr_entries t))"
    "tr_fs t' = fs_append [] (tr_journal t) (jline f off) (tr_fs t)" "tr_backupentries t' = tr_backupentries t"
    "tr_backupmap t' = tr_backupmap t" "tr_queue t' = tr_queue t" "tr_journal t' = tr_journal t"
    "tr_vfsmap t' = tr_vfsmap t"
    using False by (simp_all add: t'_def addentry_def)
  have sets: "added_files t' = insert ([], f) (added_files t)" "saved_files t' = saved_files t"
    "tmp_files t' = tmp_files t" "backups t' = backups t"
    by (auto simp: file_sets t)
  have new: "([], f) \<notin> added_files t" "(l, f) \<notin> saved_files t" for l
    using False registered_iff [OF inv] by blast+
  have m: "maps_ok t'"
    using inv new(1) by (auto simp: tr_inv_def maps_ok_def t added_files_def)
  have same: "content (tr_fs t) [] f = content s0 [] f"
    by (rule content_cong) (rule unregistered_same [OF inv ok x(1) False])
  have nj: "g \<noteq> tr_journal t" if "([], g) \<in> C" for g
    using clients_okD(2) [OF ok that] by auto
  have e: "entry_inv s0 (tr_fs t') e" if "e \<in> set (tr_entries t')" for e
  proof (cases "e = (f, off, d)")
    case True
    show ?thesis unfolding True entry_inv_def t(3) using same nj [OF x(1)] x(2) by simp
  next
    case False
    then have "e \<in> set (tr_entries t)" using that by (simp add: t)
    moreover from this have "([], fst e) \<in> C" using inv_sets(3) [OF inv ok] by (force simp: added_files_def)
    ultimately show ?thesis using inv nj by (cases e) (auto simp: tr_inv_def entry_inv_def t)
  qed
  have b: "backup_inv (tr_journal t) (tr_vfsmap t) C T s0 (tr_fs t') e" if "e \<in> set (tr_backupentries t)" for e
  proof -
    have "backup_inv (tr_journal t) (tr_vfsmap t) C T s0 (tr_fs t) e" using inv that by (simp add: tr_inv_def)
    moreover have "([], backupname (tr_journal t) g) \<noteq> ([], tr_journal t)" if "(l, g) \<in> C" for l g
      using clients_okD(9) [OF ok that] by simp
    ultimately show ?thesis by (cases e) (fastforce simp: backup_inv_def t fs_append_def)
  qed
  have u: "untouched s0 t'"
    using inv unfolding tr_inv_def untouched_def sets by (simp add: t fs_append_def)
  show ?thesis
    unfolding t'_def [symmetric] tr_inv_def sets t(4,6,7,8)
    by (intro conjI ballI m e b u) (use inv new x in \<open>auto simp: tr_inv_def t fs_append_def content_def\<close>)
qed

lemma addbackupentry_inv:
  assumes inv: "tr_inv C T s0 t" and ok: "clients_ok (tr_journal t) C T s0" and l: "l \<in> set (tr_vfsmap t)"
    and x: "if f = [] then (l, b) \<in> T
            else (l, f) \<in> C \<and> \<not> registered t f \<and> (if b = [] then s0 (l, f) = None
              else b = backupname (tr_journal t) f \<and> s0 (l, f) \<noteq> None)"
    and s1: "s1 = (if f = [] \<or> b = [] then tr_fs t else (tr_fs t)((l, b) := s0 (l, f)))"
  shows "tr_inv C T s0 (addbackupentry (l, f, b, c) (t \<lparr> tr_fs := s1 \<rparr>))"
proof -
  define bj where "bj = backupjournal (tr_journal t)"
  define t' where "t' = addbackupentry (l, f, b, c) (t \<lparr> tr_fs := s1 \<rparr>)"
  have t: "tr_entries t' = tr_entries t" "tr_map t' = tr_map t"
    "tr_fs t' = fs_append [] bj (bline (l, f, b, c)) s1" "tr_backupentries t' = tr_backupentries t @ [(l, f, b, c)]"
    "tr_backupmap t' = (tr_backupmap t)(f \<mapsto> length (tr_backupentries t))" "tr_queue t' = tr_queue t"
    "tr_journal t' = tr_journal t" "tr_vfsmap t' = tr_vfsmap t"
    by (simp_all add: t'_def addbackupentry_def bj_def)
  have sets: "added_files t' = added_files t"
    "saved_files t' = (if f = [] then {} else {(l, f)}) \<union> saved_files t"
    "tmp_files t' = (if f = [] then {(l, b)} else {}) \<union> tmp_files t"
    "backups t' = (if f = [] \<or> b = [] then {} else {(l, b)}) \<union> backups t"
    by (auto simp: file_sets t)
  have bres: "f \<noteq> [] \<Longrightarrow> b \<noteq> [] \<Longrightarrow> b \<in> reserved (tr_journal t) C \<and> b \<noteq> tr_journal t \<and> b \<noteq> bj"
    using x reserved_backup clients_okD(9,10) [OF ok] by (auto simp: bj_def)
  have fs: "tr_fs t' (l', g) = tr_fs t (l', g)" if "(l', g) \<noteq> ([], bj)" "f \<noteq> [] \<Longrightarrow> b \<noteq> [] \<Longrightarrow> (l', g) \<noteq> (l, b)" for l' g
    using that by (auto simp: t fs_append_def s1)
  have fsC: "tr_fs t' (l', g) = tr_fs t (l', g)" if "(l', g) \<in> C" for l' g
    using clients_okD(2) [OF ok that] bres by (intro fs) (auto simp: bj_def)
  have m: "maps_ok t'"
    using inv by (auto simp: tr_inv_def maps_ok_def t)
  have new: "f \<noteq> [] \<Longrightarrow> (\<forall>l. (l, f) \<notin> added_files t) \<and> (\<forall>l. (l, f) \<notin> saved_files t)"
    using x registered_iff [OF inv, of f] by (simp add: added_files_def split: if_splits)
  have e: "entry_inv s0 (tr_fs t') e" if "e \<in> set (tr_entries t)" for e
  proof -
    obtain g off d where eg: "e = (g, off, d)" by (cases e)
    then have "([], g) \<in> C" using that inv_sets(3) [OF inv ok] by (force simp: added_files_def)
    then have "content (tr_fs t') [] g = content (tr_fs t) [] g" by (intro content_cong fsC)
    then show ?thesis using inv that eg by (auto simp: tr_inv_def entry_inv_def)
  qed
  have b: "backup_inv (tr_journal t) (tr_vfsmap t) C T s0 (tr_fs t') e" if "e \<in> set (tr_backupentries t')" for e
  proof (cases "e \<in> set (tr_backupentries t)")
    case True
    obtain l' g b' c' where eg: "e = (l', g, b', c')" by (cases e)
    have bi: "backup_inv (tr_journal t) (tr_vfsmap t) C T s0 (tr_fs t) e" using inv True by (simp add: tr_inv_def)
    have "tr_fs t' (l', b') = tr_fs t (l', b')" if g: "g \<noteq> []" "b' \<noteq> []"
    proof (rule fs)
      have g': "(l', g) \<in> C" "b' = backupname (tr_journal t) g" using bi g by (auto simp: backup_inv_def eg)
      then show "(l', b') \<noteq> ([], bj)" using clients_okD(10) [OF ok] by (auto simp: bj_def)
      have "(l', g) \<in> saved_files t" using True g by (auto simp: saved_files_def eg)
      then have "g \<noteq> f" if "f \<noteq> []" using new that by auto
      then show "(l', b') \<noteq> (l, b)" if "f \<noteq> []" "b \<noteq> []"
        using that x clients_ok_inj [OF ok g'(1), of l f] g' by auto
    qed
    then show ?thesis using bi by (auto simp: backup_inv_def eg)
  next
    case False
    then have "e = (l, f, b, c)" using that by (simp add: t)
    moreover have "tr_fs t' (l, b) = s0 (l, f)" if "f \<noteq> []" "b \<noteq> []"
      using that bres by (simp add: t fs_append_def s1)
    ultimately show ?thesis using x l by (auto simp: backup_inv_def)
  qed
  have u: "untouched s0 t'"
    using inv unfolding tr_inv_def untouched_def sets t(7) by (auto simp: fs bj_def)
  have j: "tr_fs t' ([], tr_journal t) = tr_fs t ([], tr_journal t)"
    by (rule fs) (use bres in \<open>auto simp: bj_def\<close>)
  have "s1 ([], bj) = tr_fs t ([], bj)" using bres by (auto simp: s1)
  then have bj: "tr_fs t' ([], bj) = Some (dec 2 @ [NL] @ concat (map bline (tr_backupentries t')))"
    using inv by (simp add: t fs_append_def content_def tr_inv_def bj_def)
  show ?thesis
    unfolding t'_def [symmetric] tr_inv_def t(1,6,7,8)
    by (intro conjI ballI m e b u bj [unfolded bj_def])
       (use inv new sets j in \<open>auto simp: tr_inv_def split: if_splits\<close>)
qed

lemma addbackup_inv:
  assumes inv: "tr_inv C T s0 t" and ok: "clients_ok (tr_journal t) C T s0"
    and x: "(l, f) \<in> C" and r: "addbackup f l t = Inr t'"
  shows "tr_inv C T s0 t' \<and> tr_journal t' = tr_journal t \<and> tr_vfsmap t' = tr_vfsmap t"
proof (cases "registered t f")
  case True
  then show ?thesis using r inv by (auto simp: addbackup_def active_def split: if_splits)
next
  case False
  define b where "b = backupname (tr_journal t) f"
  have l: "l \<in> set (tr_vfsmap t)" using r False by (auto simp: addbackup_def active_def split: if_splits)
  have f: "f \<noteq> []" using clients_okD(1) [OF ok x] .
  have same: "tr_fs t (l, f) = s0 (l, f)" using unregistered_same [OF inv ok x False] .
  show ?thesis
  proof (cases "s0 (l, f)")
    case None
    then have "t' = addbackupentry (l, f, [], False) (t \<lparr> tr_fs := tr_fs t \<rparr>)"
      using r False same by (auto simp: addbackup_def active_def split: if_splits)
    then show ?thesis
      using addbackupentry_inv [OF inv ok l, of f "[]" "tr_fs t"] x False f None
      by (simp add: addbackupentry_def)
  next
    case (Some d)
    have "b \<noteq> f" using clients_okD(2) [OF ok x] reserved_backup [OF x] by (metis b_def)
    then have "fst (copyfile l f b (tr_fs t)) = (tr_fs t)((l, b) := s0 (l, f))"
      using same Some by (simp add: copyfile_def fs_remove_def fs_write_def)
    then have "t' = addbackupentry (l, f, b, False) (t \<lparr> tr_fs := (tr_fs t)((l, b) := s0 (l, f)) \<rparr>)"
      using r False same Some by (auto simp: addbackup_def active_def b_def Let_def split: if_splits)
    then show ?thesis
      using addbackupentry_inv [OF inv ok l, of f b "(tr_fs t)((l, b) := s0 (l, f))" False] x False f Some
        clients_okD(4) [OF ok x]
      by (simp add: b_def addbackupentry_def)
  qed
qed

lemma addentry_same [simp]:
  "tr_journal (addentry e t) = tr_journal t" "tr_vfsmap (addentry e t) = tr_vfsmap t"
  "tr_abortcallback (addentry e t) = tr_abortcallback t"
  by (simp_all add: addentry_def split: prod.splits)

lemma fold_addentry_inv:
  assumes "tr_inv C T s0 t" "clients_ok (tr_journal t) C T s0"
    and "queued_ok C s0 q"
  shows "tr_inv C T s0 (fold addentry q t) \<and> tr_journal (fold addentry q t) = tr_journal t
    \<and> tr_vfsmap (fold addentry q t) = tr_vfsmap t"
  using assms
proof (induction q arbitrary: t)
  case (Cons e q)
  have "tr_inv C T s0 (addentry e t)"
    using Cons.prems by (cases e) (auto simp: queued_ok_def intro: addentry_inv)
  then show ?case using Cons by (auto simp: queued_ok_def)
qed simp

lemma queue_upd_inv:
  assumes "tr_inv C T s0 t"
    and "\<forall>qq \<in> set q. queued_ok C s0 qq"
  shows "tr_inv C T s0 (t \<lparr> tr_queue := q \<rparr>)"
  using assms by (simp add: tr_inv_def maps_ok_def file_sets untouched_def)

lemma tr_step_inv:
  assumes "tr_step C T t t'" "tr_inv C T s0 t" "clients_ok (tr_journal t) C T s0"
  shows "tr_inv C T s0 t' \<and> tr_journal t' = tr_journal t \<and> tr_vfsmap t' = tr_vfsmap t"
  using assms
proof (induction rule: tr_step.induct)
  case (step_add f t d t')
  show ?case
  proof (cases "registered t f")
    case True
    then show ?thesis using step_add by (auto simp: tr_add_def active_def split: if_splits)
  next
    case False
    have same: "content (tr_fs t) [] f = content s0 [] f"
      using step_add False by (intro content_cong unregistered_same) auto
    have q: "\<forall>qq \<in> set (tr_queue t). queued_ok C s0 qq"
      using step_add.prems(1) by (simp add: tr_inv_def)
    show ?thesis
    proof (cases "tr_queue t = []")
      case True
      then have "t' = addentry (f, int (length (content s0 [] f)), d) t"
        using step_add.hyps(2) False same by (auto simp: tr_add_def active_def split: if_splits)
      then show ?thesis using addentry_inv [of C T s0 t f] step_add by simp
    next
      case False
      then have "queued_ok C s0 (List.last (tr_queue t) @ [(f, int (length (content s0 [] f)), d)])"
        using q step_add.hyps(1) last_in_set [OF False] by (fastforce simp: queued_ok_def)
      moreover have "t' = t \<lparr> tr_queue := butlast (tr_queue t) @
          [List.last (tr_queue t) @ [(f, int (length (content s0 [] f)), d)]] \<rparr>"
        using step_add.hyps(2) \<open>\<not> registered t f\<close> False same by (auto simp: tr_add_def active_def split: if_splits)
      moreover have "\<forall>qq \<in> set (butlast (tr_queue t)). queued_ok C s0 qq"
        using q by (blast dest: in_set_butlastD)
      ultimately show ?thesis
        by (auto intro!: queue_upd_inv [OF step_add.prems(1)])
    qed
  qed
next
  case (step_startgroup t t')
  then have "t' = t \<lparr> tr_queue := tr_queue t @ [[]] \<rparr>"
    by (auto simp: startgroup_def active_def split: if_splits)
  moreover have "\<forall>qq \<in> set (tr_queue t @ [[]]). queued_ok C s0 qq"
    using step_startgroup.prems(1) by (auto simp: tr_inv_def queued_ok_def)
  ultimately show ?case using queue_upd_inv [OF step_startgroup.prems(1)] by simp
next
  case (step_endgroup t t')
  then have ne: "tr_queue t \<noteq> []" and t': "t' = fold addentry (List.last (tr_queue t)) (t \<lparr> tr_queue := butlast (tr_queue t) \<rparr>)"
    by (auto simp: endgroup_def active_def split: if_splits)
  have q: "\<forall>qq \<in> set (tr_queue t). queued_ok C s0 qq"
    using step_endgroup.prems(1) by (simp add: tr_inv_def)
  have "tr_inv C T s0 (t \<lparr> tr_queue := butlast (tr_queue t) \<rparr>)"
    using q by (intro queue_upd_inv step_endgroup.prems(1)) (auto dest: in_set_butlastD)
  then show ?case
    using fold_addentry_inv [of C T s0 "t \<lparr> tr_queue := butlast (tr_queue t) \<rparr>" "List.last (tr_queue t)"]
      step_endgroup.prems(2) q ne t' by simp
next
  case (step_append t f d)
  have "f \<in> fst ` set (tr_entries t)"
    using step_append.hyps step_append.prems(1) unfolding tr_inv_def maps_ok_def by blast
  then have "([], f) \<in> added_files t" by (auto simp: added_files_def)
  moreover from this have "\<exists>e. content (tr_fs t) [] f = content s0 [] f @ e"
  proof -
    obtain e where "e \<in> set (tr_entries t)" "fst e = f"
      using \<open>([], f) \<in> added_files t\<close> by (auto simp: added_files_def)
    then show ?thesis using step_append.prems(1) by (cases e) (auto simp: tr_inv_def entry_inv_def)
  qed
  ultimately show ?case
    using write_inv [OF step_append.prems, of "[]" f "Some (content (tr_fs t) [] f @ d)"]
    by (auto simp: fs_append_def)
next
  case (step_backup l f t t')
  then show ?case by (intro addbackup_inv)
next
  case (step_rewrite l f t d)
  then have "(l, f) \<notin> added_files t" unfolding tr_inv_def by blast
  then have "tr_inv C T s0 (t \<lparr> tr_fs := (tr_fs t)((l, f) := d) \<rparr>)"
    using step_rewrite.hyps by (intro write_inv [OF step_rewrite.prems]) auto
  then show ?case by simp
next
  case (step_tmp l f t t')
  then have "t' = addbackupentry (l, [], f, False) (t \<lparr> tr_fs := tr_fs t \<rparr>)"
    by (auto simp: registertmp_def active_def split: if_splits)
  then show ?case
    using addbackupentry_inv [OF step_tmp.prems step_tmp.hyps(2), of "[]" f "tr_fs t" False] step_tmp
    by (simp add: addbackupentry_def)
next
  case (step_writetmp l f t d)
  then have "(l, f) \<notin> added_files t"
    using inv_sets(1,3) [OF step_writetmp.prems] clients_okD(5) [OF step_writetmp.prems(2)] by blast
  then have "tr_inv C T s0 (t \<lparr> tr_fs := (tr_fs t)((l, f) := d) \<rparr>)"
    using step_writetmp.hyps by (intro write_inv [OF step_writetmp.prems]) auto
  then show ?case by simp
next
  case (step_nest t t')
  then have "t' = t \<lparr> tr_count := tr_count t + 1, tr_usages := tr_usages t + 1 \<rparr>"
    by (auto simp: nest_def active_def split: if_splits)
  then show ?case using step_nest.prems(1) by (simp add: tr_inv_def maps_ok_def file_sets untouched_def)
qed

lemma tr_steps_inv:
  assumes "(tr_step C T)\<^sup>*\<^sup>* (tr_init vfsmap j u s0) t" "clients_ok j C T s0"
  shows "tr_inv C T s0 t \<and> tr_journal t = j \<and> tr_vfsmap t = [] # vfsmap"
  using assms(1)
proof (induction rule: rtranclp_induct)
  case base
  then show ?case using tr_init_inv [OF assms(2)] by (simp add: tr_init_def)
next
  case (step t t')
  then show ?case using tr_step_inv [OF step.hyps(2), of s0] assms(2) by auto
qed

section \<open>Aborting restores the files\<close>

text \<open>Truncation puts the registered files back; without \<open>unlink\<close> a new file stays, empty.\<close>

lemma truncate_entries_spec:
  assumes "distinct (map fst es)" "\<forall>e \<in> set es. entry_inv s0 s e"
  shows "truncate_entries ul es s = ((\<lambda>(l, f). if l = [] \<and> f \<in> fst ` set es
      then (if ul \<and> content s0 [] f = [] then None else Some (content s0 [] f)) else s (l, f)), None)"
  using assms
proof (induction ul es s rule: truncate_entries.induct)
  case (2 ul f off d es s)
  define s' where "s' = s(([], f) := (if ul \<and> content s0 [] f = [] then None else Some (content s0 [] f)))"
  have off: "off = int (length (content s0 [] f))" "\<exists>d. content s [] f = content s0 [] f @ d"
    using "2.prems"(2) by (auto simp: entry_inv_def)
  have inv': "\<forall>e \<in> set es. entry_inv s0 s' e"
    using "2.prems" by (force simp: entry_inv_def s'_def)
  have "truncate_entries ul ((f, off, d) # es) s = truncate_entries ul es s'"
    using off by (auto simp: fs_truncate_def s'_def fs_remove_def)
  moreover have "truncate_entries ul es s' = ((\<lambda>(l, g). if l = [] \<and> g \<in> fst ` set es
      then (if ul \<and> content s0 [] g = [] then None else Some (content s0 [] g)) else s' (l, g)), None)"
  proof (cases "off \<noteq> 0 \<or> \<not> ul")
    case True
    then have "fs_truncate [] f off s = Inr s'" using off by (auto simp: fs_truncate_def s'_def)
    then show ?thesis using "2.IH"(1) [OF True] "2.prems"(1) inv' by auto
  next
    case False
    then have "fs_remove [] f s = s'" using off by (simp add: fs_remove_def s'_def)
    then show ?thesis using "2.IH"(2) [OF False] "2.prems"(1) inv' by auto
  qed
  ultimately show ?case by (auto simp: s'_def fun_eq_iff)
qed auto

text \<open>The files that were rewritten get their old contents back, the temporary files disappear.\<close>

definition target :: "bentry \<Rightarrow> loc \<times> fname" where
  "target e = (case e of (l, f, b, c) \<Rightarrow> (l, if f \<noteq> [] then f else b))"

lemma restore_backups_spec:
  assumes "\<forall>(l, f, b, c) \<in> set es. l \<in> set vfsmap \<and>
      (if f = [] then s0 (l, b) = None else if b = [] then s0 (l, f) = None
       else s (l, b) = s0 (l, f) \<and> s0 (l, f) \<noteq> None \<and> (l, b) \<notin> target ` set es)"
  shows "restore_backups vfsmap es bs s = (((\<lambda>x. if x \<in> target ` set es then s0 x else s x),
      bs @ map (\<lambda>(l, f, b, c). b) (filter (\<lambda>(l, f, b, c). f \<noteq> [] \<and> b \<noteq> []) es)), None)"
  using assms
proof (induction es arbitrary: bs s)
  case (Cons e es)
  obtain l f b c where e: "e = (l, f, b, c)" by (cases e)
  define s' where "s' = s(target (l, f, b, c) := s0 (target (l, f, b, c)))"
  define bs' where "bs' = (if f \<noteq> [] \<and> b \<noteq> [] then bs @ [b] else bs)"
  have hd: "l \<in> set vfsmap" "f = [] \<Longrightarrow> s0 (l, b) = None" "f \<noteq> [] \<Longrightarrow> b = [] \<Longrightarrow> s0 (l, f) = None"
    "f \<noteq> [] \<Longrightarrow> b \<noteq> [] \<Longrightarrow> s (l, b) = s0 (l, f) \<and> s0 (l, f) \<noteq> None \<and> (l, b) \<noteq> (l, f)"
    using Cons.prems [unfolded e] by (auto simp: target_def split: if_splits)
  have inv': "\<forall>(l, f, b, c) \<in> set es. l \<in> set vfsmap \<and>
      (if f = [] then s0 (l, b) = None else if b = [] then s0 (l, f) = None
       else s' (l, b) = s0 (l, f) \<and> s0 (l, f) \<noteq> None \<and> (l, b) \<notin> target ` set es)"
    using Cons.prems [unfolded e] by (fastforce simp: s'_def split: if_splits)
  have "restore_backups vfsmap ((l, f, b, c) # es) bs s = restore_backups vfsmap es bs' s'"
  proof (cases "f \<noteq> [] \<and> b \<noteq> []")
    case True
    then obtain d where "s (l, b) = Some d" "s0 (l, f) = Some d" "(l, b) \<noteq> (l, f)" using hd(4) by auto
    then have "copyfile l b f s = (s', True)"
      using True by (auto simp: copyfile_def fs_remove_def fs_write_def s'_def target_def)
    then show ?thesis using True hd(1) by (simp add: bs'_def)
  next
    case False
    then have "fs_remove l (if f \<noteq> [] then f else b) s = s'"
      using hd(2,3) by (auto simp: fs_remove_def s'_def target_def)
    then show ?thesis using False hd(1) by (auto simp: bs'_def)
  qed
  moreover have "restore_backups vfsmap es bs' s' = (((\<lambda>x. if x \<in> target ` set es then s0 x else s' x),
      bs' @ map (\<lambda>(l, f, b, c). b) (filter (\<lambda>(l, f, b, c). f \<noteq> [] \<and> b \<noteq> []) es)), None)"
    by (rule Cons.IH [OF inv'])
  ultimately show ?case by (auto simp: s'_def bs'_def e fun_eq_iff)
qed simp

lemma fold_fs_remove: "fold (fs_remove l) bs s = (\<lambda>(l', f). if l' = l \<and> f \<in> set bs then None else s (l', f))"
  by (induction bs arbitrary: s) (auto simp: fs_remove_def fun_eq_iff)

abbreviation jkey :: "jentry \<Rightarrow> fname \<times> int" where
  "jkey e \<equiv> (fst e, fst (snd e))"

abbreviation bkey :: "bentry \<Rightarrow> loc \<times> fname \<times> fname" where
  "bkey e \<equiv> (fst e, fst (snd e), fst (snd (snd e)))"

lemma target_bkey: "target e = (case bkey e of (l, f, b) \<Rightarrow> (l, if f \<noteq> [] then f else b))"
  by (cases e) (simp add: target_def)

lemma targets:
  assumes "map bkey bes = map bkey (tr_backupentries t)"
  shows "target ` set bes = saved_files t \<union> tmp_files t"
proof -
  have k: "target ` set es = (\<lambda>(l, f, b). (l, if f \<noteq> [] then f else b)) ` set (map bkey es)" for es
    by (auto simp: target_bkey image_image)
  have "target ` set bes = target ` set (tr_backupentries t)" by (simp only: k assms)
  also have "\<dots> = saved_files t \<union> tmp_files t"
  proof (intro set_eqI iffI)
    fix x assume "x \<in> target ` set (tr_backupentries t)"
    then obtain l f b c where "(l, f, b, c) \<in> set (tr_backupentries t)" "x = (l, if f \<noteq> [] then f else b)"
      by (auto simp: target_def)
    then show "x \<in> saved_files t \<union> tmp_files t" by (cases "f = []") (auto simp: file_sets)
  next
    fix x assume "x \<in> saved_files t \<union> tmp_files t"
    then obtain l f b c where "(l, f, b, c) \<in> set (tr_backupentries t)" "x = (l, if f \<noteq> [] then f else b)"
      by (fastforce simp: file_sets)
    then show "x \<in> target ` set (tr_backupentries t)" by (auto simp: target_def image_iff intro!: bexI)
  qed
  finally show ?thesis .
qed

text \<open>The backups have names of their own.\<close>

lemma backups_fresh:
  assumes inv: "tr_inv C T s0 t" and ok: "clients_ok (tr_journal t) C T s0" and b: "(l', b) \<in> backups t"
  shows "([], b) \<notin> added_files t \<and> (l, b) \<notin> saved_files t \<union> tmp_files t"
proof -
  have "b \<in> reserved (tr_journal t) C" using backups_reserved [OF inv ok b] .
  then have "(l, b) \<notin> C \<union> T" for l using clients_okD(2,3) [OF ok] by auto
  then show ?thesis using inv_sets(1-3) [OF inv ok] by auto
qed

text \<open>The entries may come from the journal on disk, which has the names and the offsets.\<close>

lemma entries_by_key:
  assumes inv: "tr_inv C T s0 t" and es: "map jkey es = map jkey (tr_entries t)"
  shows "fst ` set es = fst ` set (tr_entries t)" "distinct (map fst es)" "\<forall>e \<in> set es. entry_inv s0 (tr_fs t) e"
proof -
  have names: "map fst es = map fst (tr_entries t)" using arg_cong [OF es, of "map fst"] by (simp add: comp_def)
  then show "fst ` set es = fst ` set (tr_entries t)" by (metis set_map)
  show "distinct (map fst es)" using inv by (simp add: names tr_inv_def maps_ok_def)
  show "\<forall>e \<in> set es. entry_inv s0 (tr_fs t) e"
  proof
    fix e assume "e \<in> set es"
    then have "jkey e \<in> set (map jkey (tr_entries t))" unfolding es [symmetric] by auto
    then obtain e' where "e' \<in> set (tr_entries t)" "jkey e = jkey e'" by auto
    then show "entry_inv s0 (tr_fs t) e"
      using inv by (cases e; cases e') (auto simp: tr_inv_def entry_inv_def)
  qed
qed

lemma backups_by_key:
  assumes inv: "tr_inv C T s0 t" and ok: "clients_ok (tr_journal t) C T s0"
    and bes: "map bkey bes = map bkey (tr_backupentries t)" and e: "(l, f, b, c) \<in> set bes"
    and s1: "\<And>b. (l, b) \<in> backups t \<Longrightarrow> s1 (l, b) = tr_fs t (l, b)"
  shows "l \<in> set (tr_vfsmap t) \<and> (if f = [] then s0 (l, b) = None else if b = [] then s0 (l, f) = None
       else s1 (l, b) = s0 (l, f) \<and> s0 (l, f) \<noteq> None \<and> (l, b) \<notin> target ` set bes)"
proof -
  have "(l, f, b) \<in> set (map bkey (tr_backupentries t))" unfolding bes [symmetric] using e by force
  then obtain c' where c': "(l, f, b, c') \<in> set (tr_backupentries t)" by auto
  then have bi: "backup_inv (tr_journal t) (tr_vfsmap t) C T s0 (tr_fs t) (l, f, b, c')"
    using inv by (simp add: tr_inv_def)
  show ?thesis
  proof (cases "f = [] \<or> b = []")
    case True
    then show ?thesis using bi clients_okD(8) [OF ok] by (auto simp: backup_inv_def split: if_splits)
  next
    case False
    then have "(l, b) \<in> backups t" using c' by (auto simp: backups_def)
    then show ?thesis
      using bi False backups_fresh [OF inv ok] s1 by (auto simp: backup_inv_def targets [OF bes])
  qed
qed

definition backup_names :: "bentry list \<Rightarrow> fname list" where
  "backup_names bes = map (\<lambda>(l, f, b, c). b) (filter (\<lambda>(l, f, b, c). f \<noteq> [] \<and> b \<noteq> []) bes)"

lemma backup_names_iff:
  assumes bes: "map bkey bes = map bkey (tr_backupentries t)"
  shows "f \<in> set (backup_names bes) \<longleftrightarrow> (\<exists>l. (l, f) \<in> backups t)"
proof -
  have k: "backup_names es = map (\<lambda>(l, f, b). b) (filter (\<lambda>(l, f, b). f \<noteq> [] \<and> b \<noteq> []) (map bkey es))" for es
    by (induction es) (auto simp: backup_names_def)
  have "backup_names bes = backup_names (tr_backupentries t)" by (simp only: k bes)
  moreover have "f \<in> set (backup_names (tr_backupentries t)) \<longleftrightarrow> (\<exists>l. (l, f) \<in> backups t)"
    unfolding backups_def backup_names_def by (force simp: image_iff)
  ultimately show ?thesis by simp
qed

lemma playback_restores:
  assumes inv: "tr_inv C T s0 t" and ok: "clients_ok (tr_journal t) C T s0"
    and es: "map jkey es = map jkey (tr_entries t)" and bes: "map bkey bes = map bkey (tr_backupentries t)"
  shows "\<exists>s'. playback (tr_journal t) (tr_vfsmap t) es bes ul (tr_fs t) = (s', None) \<and>
    (\<forall>l f. (l, f) \<notin> backups t \<or> l = [] \<longrightarrow> s' (l, f) = (if (l, f) \<in> added_files t
        then (if ul \<and> content s0 [] f = [] then None else Some (content s0 [] f)) else s0 (l, f)))"
proof -
  define j where "j = tr_journal t"
  define s1 where "s1 = (\<lambda>(l, f). if l = [] \<and> f \<in> fst ` set es
      then (if ul \<and> content s0 [] f = [] then None else Some (content s0 [] f)) else tr_fs t (l, f))"
  define s2 where "s2 = (\<lambda>x. if x \<in> target ` set bes then s0 x else s1 x)"
  have p1: "truncate_entries ul es (tr_fs t) = (s1, None)"
    unfolding s1_def by (rule truncate_entries_spec) (use entries_by_key [OF inv es] in auto)
  have add: "l = [] \<and> f \<in> fst ` set es \<longleftrightarrow> (l, f) \<in> added_files t" for l f
    by (auto simp: entries_by_key(1) [OF inv es] added_files_def)
  have "s1 (l, b) = tr_fs t (l, b)" if "(l, b) \<in> backups t" for l b
    using backups_fresh [OF inv ok that] add [of l b] by (auto simp: s1_def)
  then have "\<forall>(l, f, b, c) \<in> set bes. l \<in> set (tr_vfsmap t) \<and>
      (if f = [] then s0 (l, b) = None else if b = [] then s0 (l, f) = None
       else s1 (l, b) = s0 (l, f) \<and> s0 (l, f) \<noteq> None \<and> (l, b) \<notin> target ` set bes)"
    using backups_by_key [OF inv ok bes] by blast
  then have p2: "restore_backups (tr_vfsmap t) bes [] s1 = ((s2, backup_names bes), None)"
    using restore_backups_spec [of bes "tr_vfsmap t" s0 s1 "[]"] by (simp add: s2_def backup_names_def)
  have jC: "(l, j) \<notin> C \<union> T" for l
    using clients_okD(2,3) [OF ok] reserved_simps unfolding j_def by blast
  have "s2 ([], j) \<noteq> None"
    using inv inv_sets(1-3) [OF inv ok] jC add by (auto simp: s2_def targets [OF bes] s1_def tr_inv_def j_def)
  then have "playback j (tr_vfsmap t) es bes ul (tr_fs t) = (fold (fs_remove []) (backup_names bes)
      ((s2(([], backupjournal j) := None))(([], j) := None)), None)" (is "_ = (?s', _)")
    using p1 p2 by (auto simp: playback_def fs_unlink_def fs_remove_def split: option.splits)
  moreover have "?s' (l, f) = (if (l, f) \<in> added_files t
        then (if ul \<and> content s0 [] f = [] then None else Some (content s0 [] f)) else s0 (l, f))"
    if lf: "(l, f) \<notin> backups t \<or> l = []" for l f
  proof (cases "l = [] \<and> f \<in> insert j (insert (backupjournal j) (set (backup_names bes)))")
    case True
    then have "f \<in> reserved j C"
      using backup_names_iff [OF bes] backups_reserved [OF inv ok] by (auto simp: j_def)
    then have "s0 (l, f) = None" "(l, f) \<notin> C"
      using clients_okD(7) [OF ok] clients_okD(2) [OF ok] by (auto simp: j_def)
    then show ?thesis using True inv_sets(3) [OF inv ok] by (auto simp: fold_fs_remove)
  next
    case False
    then have s': "?s' (l, f) = s2 (l, f)" by (auto simp: fold_fs_remove)
    have "(l, f) \<notin> backups t" using False lf backup_names_iff [OF bes] by auto
    then have "(l, f) \<notin> added_files t \<union> saved_files t \<union> tmp_files t \<Longrightarrow> tr_fs t (l, f) = s0 (l, f)"
      using inv False by (auto simp: tr_inv_def untouched_def j_def)
    moreover have "(l, f) \<in> added_files t \<Longrightarrow> (l, f) \<notin> saved_files t \<union> tmp_files t"
      using inv inv_sets(1,3) [OF inv ok] clients_okD(5) [OF ok] by (auto simp: tr_inv_def)
    ultimately show ?thesis
      using s' add by (auto simp: s2_def s1_def targets [OF bes] added_files_def)
  qed
  ultimately show ?thesis unfolding j_def by blast
qed

lemma run_callbacks_id: "\<forall>c t. cb c t = Inr t \<Longrightarrow> run_callbacks cb cs t = Inr t"
  by (induction cs) auto

text \<open>
  (C1) Aborting a transaction undoes it. Start a transaction and let clients register files
  and append to them, back files up and rewrite or delete them, and use
  temporary files, in any order and nesting, with delayed registration or
  without. Then \<open>_abort\<close> ends the transaction and restores the contents of every file:
  what was rewritten or deleted is back, what was appended is gone, the temporary files and the
  journals are gone. Every file is as it was, except that a registered file
  that did not exist stays behind, empty, and that the backups at locations other than the store stay.
\<close>

theorem abort_restores:
  assumes "clients_ok j C T s0" "(tr_step C T)\<^sup>*\<^sup>* (tr_init vfsmap j u s0) t" "\<forall>c t. abortcb c t = Inr t"
  shows "\<exists>t'. do_abort abortcb t = Inr t' \<and> \<not> running t' \<and>
    (\<forall>l f. (l, f) \<notin> backups t \<or> l = [] \<longrightarrow> content (tr_fs t') l f = content s0 l f \<and>
      ((l, f) \<in> added_files t \<longrightarrow> s0 (l, f) \<noteq> None \<longrightarrow> tr_fs t' (l, f) = s0 (l, f)) \<and>
      ((l, f) \<notin> added_files t \<longrightarrow> tr_fs t' (l, f) = s0 (l, f)))"
proof -
  have inv: "tr_inv C T s0 t" and j: "tr_journal t = j"
    using tr_steps_inv [OF assms(2,1)] by auto
  have ok: "clients_ok (tr_journal t) C T s0" using assms(1) j by simp
  obtain s' where s': "playback (tr_journal t) (tr_vfsmap t) (tr_entries t) (tr_backupentries t) False (tr_fs t) = (s', None)"
      "\<And>l f. (l, f) \<notin> backups t \<or> l = [] \<Longrightarrow>
        s' (l, f) = (if (l, f) \<in> added_files t then Some (content s0 [] f) else s0 (l, f))"
    using playback_restores [OF inv ok, of "tr_entries t" "tr_backupentries t" False] by auto
  have "\<exists>t'. do_abort abortcb t = Inr t' \<and> \<not> running t' \<and> tr_fs t' = s'"
  proof (cases "tr_entries t = [] \<and> tr_backupentries t = []")
    case True
    have "tr_fs t ([], backupjournal (tr_journal t)) \<noteq> None" "tr_fs t ([], tr_journal t) \<noteq> None"
      using inv by (auto simp: tr_inv_def)
    then show ?thesis
      using s'(1) True
      by (auto simp: do_abort_def playback_def fs_unlink_def fs_remove_def running_def Let_def)
  next
    case False
    then show ?thesis
      using s'(1) by (auto simp: do_abort_def abort_undo_def run_callbacks_id [OF assms(3)] running_def Let_def)
  qed
  then obtain t' where t': "do_abort abortcb t = Inr t'" "\<not> running t'" "tr_fs t' = s'" by blast
  have "content s' l f = content s0 l f \<and> ((l, f) \<in> added_files t \<longrightarrow> s0 (l, f) \<noteq> None \<longrightarrow> s' (l, f) = s0 (l, f)) \<and>
      ((l, f) \<notin> added_files t \<longrightarrow> s' (l, f) = s0 (l, f))" if "(l, f) \<notin> backups t \<or> l = []" for l f
    using s'(2) [OF that] by (auto simp: content_def added_files_def)
  then show ?thesis using t' by auto
qed

definition ex_fs :: fs where
  "ex_fs = Map.empty(([], ''data'') := Some ''abc'', ([], ''bookmarks'') := Some ''old'')"

definition ex_files :: "(loc \<times> fname) set" where
  "ex_files = {([], ''data''), ([], ''bookmarks'')}"

lemma ex_backupnames:
  "backupname ''journal'' ''data'' = ''journal.backup.data''"
  "backupname ''journal'' ''bookmarks'' = ''journal.backup.bookmarks''"
  by (simp_all add: backupname_def path_split_def path_join_def)

lemma ex_clients_ok: "clients_ok ''journal'' ex_files {} ex_fs"
  by (auto simp: clients_ok_def reserved_def ex_files_def ex_fs_def ex_backupnames backupjournal_def)

text \<open>Append to one file, rewrite the other.\<close>

definition ex_transaction :: transaction where
  "ex_transaction =
     (let t1 = addentry (''data'', 3, None) (tr_init [] ''journal'' None ex_fs);
          t2 = t1 \<lparr> tr_fs := fs_append [] ''data'' ''def'' (tr_fs t1) \<rparr>;
          t3 = addbackupentry ([], ''bookmarks'', ''journal.backup.bookmarks'', False)
                 (t2 \<lparr> tr_fs := fst (copyfile [] ''bookmarks'' ''journal.backup.bookmarks'' (tr_fs t2)) \<rparr>)
      in t3 \<lparr> tr_fs := (tr_fs t3)(([], ''bookmarks'') := Some ''new'') \<rparr>)"

lemma ex_transaction_steps: "(tr_step ex_files {})\<^sup>*\<^sup>* (tr_init [] ''journal'' None ex_fs) ex_transaction"
proof -
  define t0 where "t0 = tr_init [] ''journal'' None ex_fs"
  define t1 where "t1 = addentry (''data'', 3, None) t0"
  define t2 where "t2 = t1 \<lparr> tr_fs := fs_append [] ''data'' ''def'' (tr_fs t1) \<rparr>"
  define t3 where "t3 = addbackupentry ([], ''bookmarks'', ''journal.backup.bookmarks'', False)
                 (t2 \<lparr> tr_fs := fst (copyfile [] ''bookmarks'' ''journal.backup.bookmarks'' (tr_fs t2)) \<rparr>)"
  note defs = t0_def t1_def t2_def t3_def tr_init_def addentry_def registered_def addbackupentry_def
  have "tr_step ex_files {} t0 t1"
    by (rule step_add [of "''data''" _ _ None])
       (simp_all add: ex_files_def ex_fs_def tr_add_def active_def defs content_def fs_write_def backupjournal_def)
  moreover have "tr_step ex_files {} t1 t2"
    unfolding t2_def by (rule step_append) (simp add: defs)
  moreover have "tr_step ex_files {} t2 t3"
    by (rule step_backup [of "[]" "''bookmarks''"])
       (simp_all add: ex_files_def ex_fs_def addbackup_def active_def ex_backupnames defs fs_append_def
         fs_write_def backupjournal_def Let_def)
  moreover have "tr_step ex_files {} t3 ex_transaction"
    unfolding ex_transaction_def Let_def t0_def [symmetric] t1_def [symmetric] t2_def [symmetric] t3_def [symmetric]
    by (rule step_rewrite) (simp add: saved_files_def t3_def addbackupentry_def, blast)
  ultimately show ?thesis
    unfolding t0_def [symmetric] by (elim converse_rtranclp_into_rtranclp) (rule rtranclp.rtrancl_refl)
qed

theorem abort_restores_witness:
  "content (tr_fs ex_transaction) [] ''data'' = ''abcdef'' \<and> content (tr_fs ex_transaction) [] ''bookmarks'' = ''new'' \<and>
   (\<exists>t'. do_abort (\<lambda>c t. Inr t) ex_transaction = Inr t' \<and>
      content (tr_fs t') [] ''data'' = ''abc'' \<and> content (tr_fs t') [] ''bookmarks'' = ''old'')"
  using abort_restores [OF ex_clients_ok ex_transaction_steps, of "\<lambda>c t. Inr t"]
  by (auto simp: ex_fs_def content_def ex_transaction_def Let_def tr_init_def addentry_def registered_def
      addbackupentry_def fs_write_def fs_append_def copyfile_def fs_remove_def backupjournal_def)

section \<open>Recovery from the journal on disk\<close>

definition sane :: "bytes \<Rightarrow> bool" where
  "sane s \<longleftrightarrow> CHR 0x00 \<notin> set s \<and> NL \<notin> set s"

lemma digits_dec_nat: "c \<in> set (dec_nat n) \<Longrightarrow> is_digit c"
proof (induction n rule: dec_nat.induct)
  case (1 n)
  have "is_digit (digit_char d)" if "d < 10" for d
    using that by (simp add: is_digit_def of_digit_char)
  then show ?case using 1 by (subst (asm) (2) dec_nat.simps) (auto split: if_splits)
qed

lemma digit_plain: "is_digit c \<Longrightarrow> c \<noteq> NL \<and> c \<noteq> CHR 0x00 \<and> c \<noteq> CHR ''-'' \<and> c \<noteq> CHR ''+'' \<and> \<not> is_space c"
  by (auto simp: is_digit_def is_space_def)

lemma sane_dec_nat: "sane (dec_nat n)"
  using digits_dec_nat digit_plain by (force simp: sane_def)

lemma strip_nat: "strip_if is_space (dec_nat n @ [NL]) = dec_nat n"
  using digits_dec_nat digit_plain by (intro strip_line) blast

lemma py_int_nat: "py_int (dec_nat n @ [NL]) = Inr (int n)"
proof -
  obtain c cs where c: "dec_nat n = c # cs" by (cases "dec_nat n") auto
  have "is_digit c" using digits_dec_nat [of c n] c by simp
  then have "c \<noteq> CHR ''-''" "c \<noteq> CHR ''+''" using digit_plain by auto
  moreover have "list_all is_digit (dec_nat n)" using digits_dec_nat by (auto simp: list_all_iff)
  ultimately show ?thesis unfolding py_int_def strip_nat Let_def by (simp add: c undec_dec_nat [of n, unfolded c])
qed

lemma dec_int: "dec (int n) = dec_nat n"
  by (simp add: dec_def)

lemma parse_jline: "sane f \<Longrightarrow> parse_jline (jline f (int n)) = [(f, int n, None)]"
proof -
  assume f: "sane f"
  have "CHR 0x00 \<notin> set (dec_nat n @ [NL])" using sane_dec_nat by (auto simp: sane_def)
  then have "py_split (CHR 0x00) (jline f (int n)) = [f, dec_nat n @ [NL]]"
    using f by (simp only: jline_def dec_int append_Cons append_Nil append_assoc)
      (simp add: py_split_sep py_split_none sane_def)
  then show ?thesis by (simp add: parse_jline_def py_int_nat)
qed

lemma butlast_bline: "butlast (bline (l, f, b, c)) =
    l @ [CHR 0x00] @ f @ [CHR 0x00] @ b @ [CHR 0x00] @ dec (if c then 1 else 0)"
  by (simp add: bline_def butlast_append)

lemma sane_flag: "sane (dec (if c then 1 else 0))"
  using sane_dec_nat [of 0] sane_dec_nat [of 1] by (simp add: dec_def)

lemma parse_bline:
  assumes "sane l" "sane f" "sane b"
  shows "py_split (CHR 0x00) (butlast (bline (l, f, b, c))) = [l, f, b, dec (if c then 1 else 0)]"
  using assms sane_flag [of c] unfolding butlast_bline
  by (simp add: py_split_sep py_split_none sane_def del: split_paired_All)

lemma parse_blines:
  assumes "\<forall>(l, f, b, c) \<in> set bes. sane l \<and> sane f \<and> sane b"
  shows "parse_blines (map bline bes) = Inr (map (\<lambda>(l, f, b, c). (l, f, b, True)) bes)"
  using assms
proof (induction bes)
  case (Cons e bes)
  obtain l f b c where e: "e = (l, f, b, c)" by (cases e)
  have "dec (if c then 1 else 0) \<noteq> []" by (simp add: dec_def)
  moreover have "bline e \<noteq> []" by (simp add: bline_def e)
  ultimately show ?case using Cons parse_bline [of l f b c] by (auto simp: e)
qed simp

text \<open>\<open>bool(c)\<close> of the text that \<open>%d\<close> writes is true also for 0: the flag of a backup is lost.\<close>

lemma rollback_flag_lost:
  "sane l \<Longrightarrow> sane f \<Longrightarrow> sane b \<Longrightarrow> parse_blines [bline (l, f, b, False)] = Inr [(l, f, b, True)]"
  using parse_blines [of "[(l, f, b, False)]"] by simp

text \<open>What is on disk determines the entries in memory, up to the data and the flags.\<close>

lemma journal_parsed:
  assumes "tr_inv C T s0 t" "\<forall>(l, f) \<in> C. sane f"
  shows "\<exists>d es. tr_fs t ([], tr_journal t) = Some d \<and> es = concat (map parse_jline (readlines d))
    \<and> map jkey es = map jkey (tr_entries t)"
proof -
  have e: "\<exists>f n. fst e = f \<and> fst (snd e) = int n \<and> sane f" if "e \<in> set (tr_entries t)" for e
  proof -
    obtain f off d where ef: "e = (f, off, d)" by (cases e)
    have "entry_inv s0 (tr_fs t) e" using assms(1) that by (simp add: tr_inv_def)
    then have "off = int (length (content s0 [] f))" by (simp add: entry_inv_def ef)
    moreover have "([], f) \<in> added_files t" using that unfolding added_files_def by (force simp: ef)
    then have "([], f) \<in> C" using assms(1) unfolding tr_inv_def by blast
    ultimately show ?thesis using assms(2) by (auto simp: ef)
  qed
  define g where "g = (\<lambda>e :: jentry. fst e @ [CHR 0x00] @ dec (fst (snd e)))"
  have j: "(\<lambda>(f, off, _). jline f off) = (\<lambda>e. g e @ [NL])" by (auto simp: g_def jline_def fun_eq_iff)
  have "NL \<notin> set (g e)" if "e \<in> set (tr_entries t)" for e
    using e [OF that] sane_dec_nat by (auto simp: g_def dec_int sane_def)
  then have "readlines (concat (map (\<lambda>e. g e @ [NL]) (tr_entries t))) = map (\<lambda>e. g e @ [NL]) (tr_entries t)"
    by (intro readlines_lines) blast
  moreover have "map jkey (concat (map parse_jline (map (\<lambda>e. g e @ [NL]) es))) = map jkey es"
    if "set es \<subseteq> set (tr_entries t)" for es
    using that
  proof (induction es)
    case (Cons a es)
    then obtain f n where "fst a = f" "fst (snd a) = int n" "sane f" using e [of a] by auto
    then show ?case using Cons parse_jline [of f n] by (simp add: g_def jline_def)
  qed simp
  ultimately show ?thesis using assms(1) by (auto simp: tr_inv_def j)
qed

lemma backups_parsed:
  assumes "tr_inv C T s0 t" "\<forall>(l, f) \<in> C \<union> T. sane l \<and> sane f \<and> sane (backupname (tr_journal t) f)"
  shows "\<exists>bes. rollback_backups (tr_journal t) (tr_fs t) = Inr bes \<and> map bkey bes = map bkey (tr_backupentries t)"
proof -
  have e: "sane l \<and> sane f \<and> sane b" if "(l, f, b, c) \<in> set (tr_backupentries t)" for l f b c
  proof -
    have "backup_inv (tr_journal t) (tr_vfsmap t) C T s0 (tr_fs t) (l, f, b, c)"
      using assms(1) that by (simp add: tr_inv_def)
    then have "l \<in> fst ` C \<union> fst ` T" "f = [] \<longrightarrow> (l, b) \<in> T" "f \<noteq> [] \<longrightarrow> (l, f) \<in> C"
        "f \<noteq> [] \<longrightarrow> b = [] \<or> b = backupname (tr_journal t) f"
      by (auto simp: backup_inv_def image_iff split: if_splits intro: bexI [of _ "(l, b)"] bexI [of _ "(l, f)"])
    moreover have "sane []" by (simp add: sane_def)
    ultimately show ?thesis using assms(2) by (cases "f = []") blast+
  qed
  define g where "g = (\<lambda>e. butlast (bline e))"
  have b: "bline = (\<lambda>e. g e @ [NL])" by (auto simp: g_def bline_def fun_eq_iff butlast_append)
  have n: "NL \<notin> set (g e)" if "e \<in> set (tr_backupentries t)" for e
  proof -
    obtain l f b c where eq: "e = (l, f, b, c)" by (cases e)
    then show ?thesis
      using e [of l f b c] that sane_flag [of c] unfolding g_def eq butlast_bline by (simp add: sane_def)
  qed
  have "NL \<notin> set (dec 2)" using sane_dec_nat [of 2] by (simp add: dec_def sane_def)
  then have "readlines (dec 2 @ [NL] @ concat (map bline (tr_backupentries t)))
      = (dec 2 @ [NL]) # map bline (tr_backupentries t)"
    using readlines_lines [of "tr_backupentries t" g] n by (simp add: readlines_def readlines_aux_line b)
  moreover have "parse_blines (map bline (tr_backupentries t)) = Inr (map (\<lambda>(l, f, b, c). (l, f, b, True)) (tr_backupentries t))"
    using e by (intro parse_blines) blast
  moreover have "map bkey (map (\<lambda>(l, f, b, c). (l, f, b, True)) es) = map bkey es" for es
    by (induction es) auto
  ultimately show ?thesis using assms(1) by (auto simp: rollback_backups_def tr_inv_def)
qed



section \<open>Files of the same path at two locations\<close>

text \<open>
  The maps of the transaction have no location: once a path is registered, a backup of the
  file of the same path at another location is silently not made.
\<close>

lemma backup_location_ignored:
  assumes "addbackup f l t = Inr t'"
  shows "addbackup f l' t' = Inr t'"
proof -
  have t: "tr_count t \<noteq> 0" "tr_queue t = []" using assms by (auto simp: addbackup_def active_def split: if_splits)
  have "t' = t \<and> registered t f \<or> (\<exists>b s. t' = addbackupentry (l, f, b, False) (t \<lparr> tr_fs := s \<rparr>))"
  proof (cases "registered t f")
    case False
    have "t' = addbackupentry (l, f, backupname (tr_journal t) f, False)
          (t \<lparr> tr_fs := fst (copyfile l f (backupname (tr_journal t) f) (tr_fs t)) \<rparr>)
        \<or> t' = addbackupentry (l, f, [], False) (t \<lparr> tr_fs := tr_fs t \<rparr>)"
      using assms t False by (simp add: addbackup_def active_def Let_def split: if_splits)
    then show ?thesis by blast
  qed (use assms t in \<open>simp add: addbackup_def active_def\<close>)
  then have "registered t' f" "tr_count t' \<noteq> 0" "tr_queue t' = []"
    using t by (auto simp: registered_def addbackupentry_def)
  then show ?thesis by (simp add: addbackup_def active_def)
qed

text \<open>An entry of an unknown location makes the playback fail, also when it is marked as a cache.\<close>

lemma restore_unknown_location:
  "l \<notin> set vfsmap \<Longrightarrow> restore_backups vfsmap [(l, f, b, True)] bs s = ((s, bs), Some KeyError)"
  by simp

end
