(* ===== verification/Lru.thy ===== *)
theory Lru
  imports Pydict
begin

text \<open>
  \<open>util.lrucachedict\<close>: a dictionary that keeps its most recently used entries. The code
  has a backing dictionary and a circular doubly linked list of nodes that it relinks
  in place, so the model has an explicit store: a node is an index into the list of
  all nodes. The main result is that the linked structure implements a
  plain list of entries, newest first, with the oldest dropped at capacity.
\<close>

section \<open>The linked structure\<close>

text \<open>A key \<open>None\<close> is the marker \<open>_notset\<close> of an empty node.\<close>

record ('k, 'v) lnode =
  ln_next :: nat
  ln_prev :: nat
  ln_key :: "'k option"
  ln_value :: "'v option"

record ('k, 'v) lrucachedict =
  lc_cache :: "('k option, nat) dict"
  lc_head :: nat
  lc_nodes :: "('k, 'v) lnode list"
  lc_size :: nat
  lc_capacity :: nat

definition set_next :: "nat \<Rightarrow> nat \<Rightarrow> ('k, 'v) lnode list \<Rightarrow> ('k, 'v) lnode list" where
  "set_next a v ns = ns[a := (ns ! a) \<lparr> ln_next := v \<rparr>]"

definition set_prev :: "nat \<Rightarrow> nat \<Rightarrow> ('k, 'v) lnode list \<Rightarrow> ('k, 'v) lnode list" where
  "set_prev a v ns = ns[a := (ns ! a) \<lparr> ln_prev := v \<rparr>]"

definition lrucachenode :: "('k, 'v) lnode" where
  "lrucachenode = \<lparr> ln_next = 0, ln_prev = 0, ln_key = None, ln_value = None \<rparr>"

definition markempty :: "nat \<Rightarrow> ('k, 'v) lrucachedict \<Rightarrow> ('k, 'v) lrucachedict" where
  "markempty n c = c \<lparr> lc_nodes := (lc_nodes c)[n := (lc_nodes c ! n) \<lparr> ln_key := None \<rparr>] \<rparr>"

definition lru_init :: "nat \<Rightarrow> ('k, 'v) lrucachedict" where
  "lru_init mx = \<lparr> lc_cache = [], lc_head = 0, lc_nodes = [lrucachenode], lc_size = 1, lc_capacity = mx \<rparr>"

definition lru_len :: "('k, 'v) lrucachedict \<Rightarrow> nat" where
  "lru_len c = length (lc_cache c)"

definition lru_contains :: "'k option \<Rightarrow> ('k, 'v) lrucachedict \<Rightarrow> bool" where
  "lru_contains k c = dict_has (lc_cache c) k"

definition movetohead :: "nat \<Rightarrow> ('k, 'v) lrucachedict \<Rightarrow> ('k, 'v) lrucachedict" where
  "movetohead n c =
     (let h = lc_head c;
          ns = lc_nodes c;
          ns = set_next (ln_prev (ns ! n)) (ln_next (ns ! n)) ns;
          ns = set_prev (ln_next (ns ! n)) (ln_prev (ns ! n)) ns;
          ns = set_prev n (ln_prev (ns ! h)) ns;
          ns = set_next n (ln_next (ns ! (ln_prev (ns ! h)))) ns;
          ns = set_prev (ln_next (ns ! n)) n ns;
          ns = set_next (ln_prev (ns ! n)) n ns
      in c \<lparr> lc_nodes := ns, lc_head := n \<rparr>)"

definition addcapacity :: "('k, 'v) lrucachedict \<Rightarrow> nat \<times> ('k, 'v) lrucachedict" where
  "addcapacity c =
     (let h = lc_head c;
          n = length (lc_nodes c);
          ns = lc_nodes c @ [lrucachenode];
          ns = set_next (ln_prev (ns ! h)) n ns;
          ns = set_prev n (ln_prev (ns ! h)) ns;
          ns = set_next n h ns;
          ns = set_prev h n ns
      in (n, c \<lparr> lc_nodes := ns, lc_size := lc_size c + 1 \<rparr>))"

definition lru_getitem :: "'k option \<Rightarrow> ('k, 'v) lrucachedict \<Rightarrow> ('v option \<times> ('k, 'v) lrucachedict) res" where
  "lru_getitem k c =
     bindE (dict_get (lc_cache c) k) (\<lambda>n.
       let c' = movetohead n c in Inr (ln_value (lc_nodes c' ! n), c'))"

definition set_value :: "nat \<Rightarrow> 'v option \<Rightarrow> ('k, 'v) lrucachedict \<Rightarrow> ('k, 'v) lrucachedict" where
  "set_value n v c = c \<lparr> lc_nodes := (lc_nodes c)[n := (lc_nodes c ! n) \<lparr> ln_value := v \<rparr>] \<rparr>"

definition fill_node :: "nat \<Rightarrow> 'k option \<Rightarrow> 'v option \<Rightarrow> ('k, 'v) lrucachedict \<Rightarrow> ('k, 'v) lrucachedict res" where
  "fill_node n k v c =
     (let old = ln_key (lc_nodes c ! n)
      in bindE (if old \<noteq> None then bindE (dict_get (lc_cache c) old) (\<lambda>_. Inr (dict_del old (lc_cache c)))
                else Inr (lc_cache c)) (\<lambda>d.
           Inr (c \<lparr> lc_nodes := (lc_nodes c)[n := (lc_nodes c ! n) \<lparr> ln_key := k, ln_value := v \<rparr>],
                    lc_cache := dict_set k n d, lc_head := n \<rparr>)))"

definition lru_setitem :: "'k option \<Rightarrow> 'v option \<Rightarrow> ('k, 'v) lrucachedict \<Rightarrow> ('k, 'v) lrucachedict res" where
  "lru_setitem k v c =
     (case map_of (lc_cache c) k of
        Some n \<Rightarrow> Inr (movetohead n (set_value n v c))
      | None \<Rightarrow>
          if lc_size c < lc_capacity c
          then (case addcapacity c of (n, c') \<Rightarrow> fill_node n k v c')
          else fill_node (ln_prev (lc_nodes c ! lc_head c)) k v c)"

definition lru_delitem :: "'k option \<Rightarrow> ('k, 'v) lrucachedict \<Rightarrow> ('k, 'v) lrucachedict res" where
  "lru_delitem k c =
     bindE (dict_get (lc_cache c) k) (\<lambda>n.
       let c' = movetohead n (markempty n (c \<lparr> lc_cache := dict_del k (lc_cache c) \<rparr>))
       in Inr (c' \<lparr> lc_head := ln_next (lc_nodes c' ! n) \<rparr>))"

definition lru_get :: "'k option \<Rightarrow> 'v option \<Rightarrow> ('k, 'v) lrucachedict \<Rightarrow> 'v option" where
  "lru_get k dflt c = (case map_of (lc_cache c) k of None \<Rightarrow> dflt | Some n \<Rightarrow> ln_value (lc_nodes c ! n))"

lemma filter_update_less:
  "i < length xs \<Longrightarrow> P (xs ! i) \<Longrightarrow> \<not> P y \<Longrightarrow> length (filter P (xs[i := y])) < length (filter P xs)"
proof (induction xs arbitrary: i)
  case (Cons x xs)
  then show ?case by (cases i) auto
qed simp

text \<open>\<open>clear\<close>: every turn of the loop empties a node that was not empty.\<close>

function clear_loop :: "nat \<Rightarrow> ('k, 'v) lrucachedict \<Rightarrow> ('k, 'v) lrucachedict" where
  "clear_loop n c =
     (if n < length (lc_nodes c) \<and> ln_key (lc_nodes c ! n) \<noteq> None
      then let c' = markempty n c in clear_loop (ln_next (lc_nodes c' ! n)) c'
      else c)"
  by auto

termination
  by (relation "measure (\<lambda>(n, c). length (filter (\<lambda>x. ln_key x \<noteq> None) (lc_nodes c)))")
     (auto simp: markempty_def intro!: filter_update_less)

declare clear_loop.simps [simp del]

definition lru_clear :: "('k, 'v) lrucachedict \<Rightarrow> ('k, 'v) lrucachedict" where
  "lru_clear c = (clear_loop (lc_head c) c) \<lparr> lc_cache := [] \<rparr>"

fun iter_keys :: "nat \<Rightarrow> nat \<Rightarrow> ('k, 'v) lrucachedict \<Rightarrow> 'k option list" where
  "iter_keys 0 n c = []"
| "iter_keys (Suc i) n c = ln_key (lc_nodes c ! n) # iter_keys i (ln_next (lc_nodes c ! n)) c"

definition lru_iter :: "('k, 'v) lrucachedict \<Rightarrow> 'k option list" where
  "lru_iter c = iter_keys (length (lc_cache c)) (lc_head c) c"

fun copy_loop :: "nat \<Rightarrow> nat \<Rightarrow> ('k, 'v) lrucachedict \<Rightarrow> ('k, 'v) lrucachedict \<Rightarrow> ('k, 'v) lrucachedict res" where
  "copy_loop 0 n c result = Inr result"
| "copy_loop (Suc i) n c result =
     bindE (lru_setitem (ln_key (lc_nodes c ! n)) (ln_value (lc_nodes c ! n)) result)
       (copy_loop i (ln_prev (lc_nodes c ! n)) c)"

definition lru_copy :: "('k, 'v) lrucachedict \<Rightarrow> ('k, 'v) lrucachedict res" where
  "lru_copy c = copy_loop (length (lc_cache c)) (ln_prev (lc_nodes c ! lc_head c)) c (lru_init (lc_capacity c))"

section \<open>The ring\<close>

text \<open>The links of a walk from \<open>a\<close> through \<open>xs\<close> to \<open>b\<close>.\<close>

fun pairs :: "nat \<Rightarrow> nat list \<Rightarrow> nat \<Rightarrow> (nat \<times> nat) list" where
  "pairs a [] b = [(a, b)]"
| "pairs a (x # xs) b = (a, x) # pairs x xs b"

definition linked :: "('k, 'v) lnode list \<Rightarrow> (nat \<times> nat) list \<Rightarrow> bool" where
  "linked ns ps \<longleftrightarrow> (\<forall>(x, y) \<in> set ps. ln_next (ns ! x) = y \<and> ln_prev (ns ! y) = x)"

definition ring :: "('k, 'v) lnode list \<Rightarrow> nat \<Rightarrow> nat list \<Rightarrow> bool" where
  "ring ns h xs \<longleftrightarrow> linked ns (pairs h xs h) \<and> distinct (h # xs) \<and> set (h # xs) \<subseteq> {..<length ns}"

lemma pairs_append: "pairs a (xs @ y # ys) b = pairs a xs y @ pairs y ys b"
  by (induction xs arbitrary: a) auto

lemma pairs_last: "pairs a xs b = zip (butlast (a # xs)) xs @ [(List.last (a # xs), b)]"
  by (induction xs arbitrary: a) auto

lemma pairs_hd: "pairs a ys b = (a, hd (ys @ [b])) # zip ys (tl (ys @ [b]))"
proof (induction ys arbitrary: a)
  case (Cons y ys)
  then show ?case by (cases ys) auto
qed simp

lemma pairs_join: "pairs a (xs @ ys) b =
    zip (butlast (a # xs)) xs @ [(List.last (a # xs), hd (ys @ [b]))] @ zip ys (tl (ys @ [b]))"
proof (induction xs arbitrary: a)
  case Nil
  then show ?case by (simp add: pairs_hd)
next
  case (Cons x xs)
  then show ?case by (cases xs) auto
qed

lemma linked_append [simp]: "linked ns (ps @ qs) \<longleftrightarrow> linked ns ps \<and> linked ns qs"
  by (simp add: linked_def ball_Un)

lemma linked_cong:
  assumes "linked ns ps" "\<And>x. x \<in> fst ` set ps \<Longrightarrow> ln_next (ns' ! x) = ln_next (ns ! x)"
    "\<And>y. y \<in> snd ` set ps \<Longrightarrow> ln_prev (ns' ! y) = ln_prev (ns ! y)"
  shows "linked ns' ps"
  using assms by (force simp: linked_def)

lemma linked_Cons [simp]: "linked ns ((x, y) # ps) \<longleftrightarrow> ln_next (ns ! x) = y \<and> ln_prev (ns ! y) = x \<and> linked ns ps"
  by (auto simp: linked_def)

lemma linked_Nil [simp]: "linked ns []"
  by (simp add: linked_def)

lemma ring_rotate: "ring ns h (xs @ [e]) \<Longrightarrow> ring ns e (h # xs)"
  by (auto simp: ring_def pairs_append)

lemma ring_rotate': "ring ns n (h # xs) \<Longrightarrow> ring ns h (xs @ [n])"
  by (auto simp: ring_def pairs_append)

lemma ring_last: "ring ns h xs \<Longrightarrow> ln_prev (ns ! h) = List.last (h # xs)"
  by (simp add: ring_def pairs_last)

lemma ring_next: "ring ns h xs \<Longrightarrow> ln_next (ns ! h) = hd (xs @ [h])"
  by (simp add: ring_def pairs_hd)

text \<open>Taking a node out of the ring.\<close>

lemma ring_unlink:
  assumes r: "ring ns h (xs @ n # ys)" and len: "length ns' = length ns"
    and p: "p = List.last (h # xs)" "q = hd (ys @ [h])"
    and up: "ln_next (ns' ! p) = q" "ln_prev (ns' ! q) = p"
    and nx: "\<And>x. x \<noteq> p \<Longrightarrow> ln_next (ns' ! x) = ln_next (ns ! x)"
    and pv: "\<And>x. x \<noteq> q \<Longrightarrow> ln_prev (ns' ! x) = ln_prev (ns ! x)"
  shows "ring ns' h (xs @ ys)"
proof -
  have d: "distinct (h # xs @ n # ys)" and l: "linked ns (pairs h xs n)" "linked ns (pairs n ys h)"
    using r by (auto simp: ring_def pairs_append)
  have l1: "linked ns (zip (butlast (h # xs)) xs)" using l(1) by (simp only: pairs_last linked_append)
  have l2: "linked ns (zip ys (tl (ys @ [h])))" using l(2) by (simp add: pairs_hd)
  have "p \<notin> set (butlast (h # xs))"
    using d unfolding p by (metis append_Cons append_butlast_last_id distinct_append disjoint_iff list.discI list.set_intros(1))
  moreover have "q \<notin> set xs" using d unfolding p by (cases ys) auto
  ultimately have "linked ns' (zip (butlast (h # xs)) xs)"
    by (intro linked_cong [OF l1] nx pv) (auto dest: set_zip_leftD set_zip_rightD)
  moreover have "p \<notin> set ys" using d unfolding p by (cases xs rule: rev_cases) auto
  moreover have "q \<notin> set (tl (ys @ [h]))" using d unfolding p by (cases ys) auto
  ultimately have "linked ns' (zip (butlast (h # xs)) xs)" "linked ns' (zip ys (tl (ys @ [h])))"
    by (auto intro!: linked_cong [OF l2] nx pv dest: set_zip_leftD set_zip_rightD)
  then have "linked ns' (pairs h (xs @ ys) h)" using up by (simp add: pairs_join p)
  then show ?thesis using r d len by (auto simp: ring_def)
qed

text \<open>Putting a node before the head.\<close>

lemma ring_insert:
  assumes r: "ring ns h xs" and n: "n \<notin> set (h # xs)" "n < length ns'" and len: "length ns \<le> length ns'"
    and e: "e = List.last (h # xs)"
    and up: "ln_next (ns' ! n) = h" "ln_prev (ns' ! n) = e" "ln_next (ns' ! e) = n" "ln_prev (ns' ! h) = n"
    and nx: "\<And>x. x \<in> set (h # xs) \<Longrightarrow> x \<noteq> e \<Longrightarrow> ln_next (ns' ! x) = ln_next (ns ! x)"
    and pv: "\<And>x. x \<in> set (h # xs) \<Longrightarrow> x \<noteq> h \<Longrightarrow> ln_prev (ns' ! x) = ln_prev (ns ! x)"
  shows "ring ns' n (h # xs)"
proof -
  have d: "distinct (h # xs)" and l: "linked ns (pairs h xs h)" using r by (auto simp: ring_def)
  have l1: "linked ns (zip (butlast (h # xs)) xs)" using l by (simp only: pairs_last linked_append)
  have "e \<notin> set (butlast (h # xs))"
    using d unfolding e by (metis append_butlast_last_id distinct_append disjoint_iff list.discI list.set_intros(1))
  moreover have "h \<notin> set xs" using d by simp
  moreover have "fst ` set (zip (butlast (h # xs)) xs) \<subseteq> set (butlast (h # xs))"
      "snd ` set (zip (butlast (h # xs)) xs) \<subseteq> set xs"
    by (auto dest: set_zip_leftD set_zip_rightD)
  ultimately have "linked ns' (zip (butlast (h # xs)) xs)"
    using in_set_butlastD [of _ "h # xs"] by (intro linked_cong [OF l1] nx pv) auto
  then have "linked ns' (pairs h xs n)" using up by (simp add: pairs_last e)
  then show ?thesis using up r n len by (auto simp: ring_def)
qed

lemma nth_update_field: "(\<And>y. g (f y) = g y) \<Longrightarrow> g (ns[a := f (ns ! a)] ! x) = g (ns ! x)"
  by (cases "a < length ns"; cases "x = a") (simp_all add: list_update_beyond)

lemma set_link_simps [simp]:
  "length (set_next a v ns) = length ns" "length (set_prev a v ns) = length ns"
  "ln_prev (set_next a v ns ! x) = ln_prev (ns ! x)" "ln_next (set_prev a v ns ! x) = ln_next (ns ! x)"
  "ln_key (set_next a v ns ! x) = ln_key (ns ! x)" "ln_key (set_prev a v ns ! x) = ln_key (ns ! x)"
  "ln_value (set_next a v ns ! x) = ln_value (ns ! x)" "ln_value (set_prev a v ns ! x) = ln_value (ns ! x)"
  unfolding set_next_def set_prev_def by (simp_all, (rule nth_update_field, simp)+)

lemma next_set_next: "a < length ns \<Longrightarrow> ln_next (set_next a v ns ! x) = (if x = a then v else ln_next (ns ! x))"
  by (simp add: set_next_def)

lemma prev_set_prev: "a < length ns \<Longrightarrow> ln_prev (set_prev a v ns ! x) = (if x = a then v else ln_prev (ns ! x))"
  by (simp add: set_prev_def)

lemmas link_simps = next_set_next prev_set_prev

lemma ring_prev_in: "ring ns h xs \<Longrightarrow> ln_prev (ns ! h) < length ns"
  using ring_last [of ns h xs] last_in_set [of "h # xs"] unfolding ring_def by auto

lemma ring_next_in: "ring ns h xs \<Longrightarrow> ln_next (ns ! h) < length ns"
  using ring_next [of ns h xs] by (cases xs) (auto simp: ring_def)

lemma ring_of_node:
  assumes "ring ns h (us @ n # ys)"
  shows "ln_prev (ns ! n) = List.last (h # us)" "ln_next (ns ! n) = hd (ys @ [h])"
  using assms by (simp_all add: ring_def pairs_append pairs_last [of h us n] pairs_hd [of n ys h])

lemma movetohead_same [simp]:
  "length (lc_nodes (movetohead n c)) = length (lc_nodes c)" "lc_head (movetohead n c) = n"
  "ln_key (lc_nodes (movetohead n c) ! x) = ln_key (lc_nodes c ! x)"
  "ln_value (lc_nodes (movetohead n c) ! x) = ln_value (lc_nodes c ! x)"
  "lc_cache (movetohead n c) = lc_cache c" "lc_size (movetohead n c) = lc_size c"
  "lc_capacity (movetohead n c) = lc_capacity c"
  by (simp_all add: movetohead_def Let_def)

lemma movetohead_head:
  assumes r: "ring (lc_nodes c) h xs" and h: "lc_head c = h"
  shows "ring (lc_nodes (movetohead h c)) h xs"
proof -
  define ns where "ns = lc_nodes c"
  define e q where "e = ln_prev (ns ! h)" and "q = ln_next (ns ! h)"
  have b: "e < length ns" "q < length ns" "h < length ns"
    using ring_prev_in [OF r] ring_next_in [OF r] r by (auto simp: ns_def e_def q_def ring_def)
  have "linked ns (pairs h xs h)" using r by (simp add: ring_def ns_def)
  then have "ln_next (ns ! List.last (h # xs)) = h" "ln_prev (ns ! hd (xs @ [h])) = h"
    unfolding pairs_last by (simp, unfold pairs_last [symmetric] pairs_hd) simp
  then have el: "ln_next (ns ! e) = h" "ln_prev (ns ! q) = h"
    unfolding e_def q_def ns_def ring_last [OF r] ring_next [OF r] .
  have eq: "e = h \<longleftrightarrow> q = h" using el by (auto simp: e_def q_def)
  have "ln_next (lc_nodes (movetohead h c) ! x) = ln_next (ns ! x)"
       "ln_prev (lc_nodes (movetohead h c) ! x) = ln_prev (ns ! x)" for x
    using b el eq unfolding movetohead_def h Let_def ns_def [symmetric]
    by (auto simp: link_simps e_def [symmetric] q_def [symmetric])
  then show ?thesis
    using r unfolding ring_def ns_def by (auto intro: linked_cong)
qed

lemma movetohead_other:
  assumes r: "ring (lc_nodes c) h (us @ n # ys)" and h: "lc_head c = h"
  shows "ring (lc_nodes (movetohead n c)) n (h # us @ ys)"
proof -
  define ns where "ns = lc_nodes c"
  define p q where "p = List.last (h # us)" and "q = hd (ys @ [h])"
  have pq: "ln_prev (ns ! n) = p" "ln_next (ns ! n) = q"
    using ring_of_node [OF r] by (simp_all add: ns_def p_def q_def)
  have d: "distinct (h # us @ n # ys)" and s: "set (h # us @ n # ys) \<subseteq> {..<length ns}"
    using r by (auto simp: ring_def ns_def)
  have "p \<in> set (h # us)" unfolding p_def by (rule last_in_set) simp
  moreover have "q \<in> insert h (set ys)" unfolding q_def by (cases ys) auto
  ultimately have pin: "p \<in> set (h # us)" "q \<in> insert h (set ys)" .
  have b: "p < length ns" "q < length ns" "n < length ns" "h < length ns" "p \<noteq> n" "q \<noteq> n" "h \<noteq> n"
    using pin s d by auto
  define ns2 where "ns2 = set_prev q p (set_next p q ns)"
  have r2: "ring ns2 h (us @ ys)"
    by (rule ring_unlink [OF r [folded ns_def] _ p_def q_def]) (use b in \<open>auto simp: ns2_def link_simps\<close>)
  define e where "e = List.last (h # us @ ys)"
  have e: "ln_prev (ns2 ! h) = e" "ln_next (ns2 ! e) = h"
    using r2 by (simp_all add: ring_def pairs_last e_def)
  have "e \<in> set (h # us @ ys)" unfolding e_def by (rule last_in_set) simp
  then have be: "e < length ns2" "e \<noteq> n" using s d by (auto simp: ns2_def)
  have l2: "length ns2 = length ns" by (simp add: ns2_def)
  define ns6 where "ns6 = set_next e n (set_prev h n (set_next n h (set_prev n e ns2)))"
  have "lc_nodes (movetohead n c) = ns6"
    using b e be l2 pq unfolding movetohead_def h Let_def ns_def [symmetric] ns6_def
    by (simp add: link_simps ns2_def [symmetric])
  moreover have "ring ns6 n (h # us @ ys)"
    by (rule ring_insert [OF r2 _ _ _ e_def]) (use b be l2 d in \<open>auto simp: ns6_def link_simps\<close>)
  ultimately show ?thesis by simp
qed

section \<open>The cache as a list of entries\<close>

text \<open>The nodes from the head on: first those in use, newest first, then the empty ones.\<close>

definition in_ring :: "('k, 'v) lrucachedict \<Rightarrow> nat list \<Rightarrow> bool" where
  "in_ring c ys \<longleftrightarrow> ys \<noteq> [] \<and> lc_head c = hd ys \<and> ring (lc_nodes c) (hd ys) (tl ys)"

abbreviation key_of :: "('k, 'v) lrucachedict \<Rightarrow> nat \<Rightarrow> 'k option" where
  "key_of c n \<equiv> ln_key (lc_nodes c ! n)"

definition lru_inv :: "('k, 'v) lrucachedict \<Rightarrow> nat list \<Rightarrow> nat list \<Rightarrow> bool" where
  "lru_inv c us zs \<longleftrightarrow>
     in_ring c (us @ zs) \<and> set (us @ zs) = {..<length (lc_nodes c)} \<and> lc_size c = length (lc_nodes c) \<and>
     lc_size c \<le> max 1 (lc_capacity c) \<and> (\<forall>n \<in> set us. key_of c n \<noteq> None) \<and>
     (\<forall>n \<in> set zs. key_of c n = None) \<and> inj_on (key_of c) (set us) \<and> dict_ok (lc_cache c) \<and>
     (\<forall>k n. map_of (lc_cache c) k = Some n \<longleftrightarrow> n \<in> set us \<and> key_of c n = k)"

type_synonym ('k, 'v) entries = "('k option \<times> 'v option) list"

definition entries :: "('k, 'v) lrucachedict \<Rightarrow> nat list \<Rightarrow> ('k, 'v) entries" where
  "entries c us = map (\<lambda>n. (key_of c n, ln_value (lc_nodes c ! n))) us"

definition lru_rep :: "('k, 'v) lrucachedict \<Rightarrow> ('k, 'v) entries \<Rightarrow> bool" where
  "lru_rep c es \<longleftrightarrow> (\<exists>us zs. lru_inv c us zs \<and> es = entries c us)"

lemma lru_repI: "lru_inv c us zs \<Longrightarrow> entries c us = es \<Longrightarrow> lru_rep c es"
  by (auto simp: lru_rep_def)

lemma in_ring_distinct: "in_ring c ys \<Longrightarrow> distinct ys"
  by (cases ys) (auto simp: in_ring_def ring_def)

lemma in_ring_last: "in_ring c ys \<Longrightarrow> ln_prev (lc_nodes c ! lc_head c) = List.last ys"
  using ring_last [of "lc_nodes c" "hd ys" "tl ys"] by (cases ys) (auto simp: in_ring_def)

lemma in_ring_movetohead:
  assumes "in_ring c (as @ n # bs)"
  shows "in_ring (movetohead n c) (n # as @ bs)"
proof (cases as)
  case Nil
  then show ?thesis using assms movetohead_head [of c n bs] by (simp add: in_ring_def)
next
  case (Cons h us)
  then show ?thesis using assms movetohead_other [of c h us n bs] by (simp add: in_ring_def)
qed

lemma lru_inv_length: "lru_inv c us zs \<Longrightarrow> length us + length zs = lc_size c"
  using in_ring_distinct [of c "us @ zs"] distinct_card [of "us @ zs"]
  by (simp add: lru_inv_def)

lemma lru_inv_movetohead:
  assumes "lru_inv c (as @ n # bs) zs"
  shows "lru_inv (movetohead n c) (n # as @ bs) zs" "entries (movetohead n c) us = entries c us"
  using assms in_ring_movetohead [of c as n "bs @ zs"]
  by (auto simp: lru_inv_def entries_def)

lemma lookup_cases:
  assumes "lru_inv c us zs"
  shows "case map_of (lc_cache c) k of
      None \<Rightarrow> k \<notin> fst ` set (entries c us)
    | Some n \<Rightarrow> \<exists>as bs. us = as @ n # bs \<and> key_of c n = k \<and> k \<noteq> None"
proof (cases "map_of (lc_cache c) k")
  case None
  moreover have "map_of (lc_cache c) k = Some n" if "n \<in> set us" "key_of c n = k" for n
    using assms that unfolding lru_inv_def by blast
  ultimately have "\<forall>n \<in> set us. key_of c n \<noteq> k" by force
  then show ?thesis using None by (force simp: entries_def)
next
  case (Some n)
  then have "n \<in> set us" "key_of c n = k" using assms by (auto simp: lru_inv_def)
  moreover from this have "k \<noteq> None" using assms by (auto simp: lru_inv_def)
  ultimately show ?thesis using Some by (auto dest: split_list)
qed

lemma entries_keys_distinct: "lru_inv c us zs \<Longrightarrow> distinct (map fst (entries c us))"
  using in_ring_distinct [of c "us @ zs"]
  by (simp add: lru_inv_def entries_def comp_def distinct_map)

text \<open>An entry without its predecessor: what is left of the list when the key \<open>k\<close> is taken out.\<close>

definition drop_key :: "'k option \<Rightarrow> ('k, 'v) entries \<Rightarrow> ('k, 'v) entries" where
  "drop_key k es = filter (\<lambda>e. fst e \<noteq> k) es"

lemma drop_key_split:
  assumes "distinct (map fst (as @ (k, v) # bs))"
  shows "drop_key k (as @ (k, v) # bs) = as @ bs" "map_of (as @ (k, v) # bs) k = Some v"
proof -
  have "e \<in> set as \<union> set bs \<Longrightarrow> fst e \<noteq> k" for e using assms by auto
  then show "drop_key k (as @ (k, v) # bs) = as @ bs" by (auto simp: drop_key_def filter_id_conv)
  show "map_of (as @ (k, v) # bs) k = Some v" using assms by (intro map_of_is_SomeI) auto
qed

lemma entries_split:
  assumes "lru_inv c (as @ n # bs) zs" "key_of c n = k"
  shows "drop_key k (entries c (as @ n # bs)) = entries c (as @ bs)"
    "map_of (entries c (as @ n # bs)) k = Some (ln_value (lc_nodes c ! n))"
  using drop_key_split [of "entries c as" k "ln_value (lc_nodes c ! n)" "entries c bs"]
    entries_keys_distinct [OF assms(1)] assms(2) by (simp_all add: entries_def)

section \<open>What each operation does to the list\<close>

lemma rep_init: "lru_rep (lru_init mx) []"
proof -
  have "lru_inv (lru_init mx) [] [0]"
    by (auto simp: lru_inv_def in_ring_def ring_def lru_init_def lrucachenode_def)
  then show ?thesis by (auto simp: lru_rep_def entries_def)
qed

lemma rep_getitem:
  assumes "lru_rep c es"
  shows "case map_of es k of
      None \<Rightarrow> lru_getitem k c = Inl KeyError
    | Some v \<Rightarrow> \<exists>c'. lru_getitem k c = Inr (v, c') \<and> lru_rep c' ((k, v) # drop_key k es) \<and> lc_capacity c' = lc_capacity c"
proof -
  obtain us zs where i: "lru_inv c us zs" and es: "es = entries c us" using assms by (auto simp: lru_rep_def)
  show ?thesis
  proof (cases "map_of (lc_cache c) k")
    case None
    then show ?thesis
      using lookup_cases [OF i, of k] es by (simp add: lru_getitem_def dict_get_def map_of_eq_None_iff [symmetric] del: map_of_eq_None_iff)
  next
    case (Some n)
    then obtain as bs where us: "us = as @ n # bs" "key_of c n = k" using lookup_cases [OF i, of k] by auto
    note j = lru_inv_movetohead [OF i [unfolded us]]
    have "entries (movetohead n c) (n # as @ bs) = (k, ln_value (lc_nodes c ! n)) # drop_key k es"
      using entries_split [OF i [unfolded us] us(2)] us es by (simp add: j(2)) (simp add: entries_def)
    then show ?thesis
      using Some entries_split(2) [OF i [unfolded us] us(2)] us es j(1)
      by (auto simp: lru_getitem_def lru_rep_def Let_def intro!: exI)
  qed
qed

lemma in_ring_rotate: "in_ring c (ys @ [n]) \<Longrightarrow> ring (lc_nodes c) n ys"
  using ring_rotate [of "lc_nodes c" "hd ys" "tl ys" n] by (cases ys) (auto simp: in_ring_def)

lemma ring_nodes_cong:
  assumes "ring ns h xs" "length ns' = length ns" "\<And>x. ln_next (ns' ! x) = ln_next (ns ! x)"
    "\<And>x. ln_prev (ns' ! x) = ln_prev (ns ! x)"
  shows "ring ns' h xs"
  using assms by (auto simp: ring_def intro: linked_cong)

text \<open>The last node of the ring is given a new entry and becomes the head.\<close>

lemma fill_last:
  assumes i: "lru_inv c us zs" and l: "us @ zs = ys @ [n]" and k: "k \<noteq> None" "map_of (lc_cache c) k = None"
  defines "us' \<equiv> if zs = [] then butlast us else us"
  shows "\<exists>c'. fill_node n k v c = Inr c' \<and> lru_inv c' (n # us') (butlast zs) \<and>
    entries c' (n # us') = (k, v) # entries c us' \<and> lc_capacity c' = lc_capacity c"
proof -
  have d: "distinct (ys @ [n])" using i in_ring_distinct l by (metis lru_inv_def)
  have ys: "us' @ butlast zs = ys"
    using l by (cases zs rule: rev_cases) (auto simp: us'_def)
  have n: "n < length (lc_nodes c)" "n \<notin> set us'" "n \<notin> set (butlast zs)" "set us' \<subseteq> set us"
    using i l d ys by (auto simp: lru_inv_def us'_def dest: in_set_butlastD)
  have old: "if key_of c n = None then us' = us else set us = insert n (set us')"
  proof (cases "zs = []")
    case True
    then have "us = us' @ [n]" using l by (simp add: us'_def)
    then show ?thesis using i by (auto simp: lru_inv_def)
  next
    case False
    then have "n \<in> set zs" using l by (metis last_appendR last_in_set last_snoc)
    then show ?thesis using i False by (auto simp: lru_inv_def us'_def)
  qed
  define d' where "d' = (if key_of c n \<noteq> None then dict_del (key_of c n) (lc_cache c) else lc_cache c)"
  define c' where "c' = c \<lparr> lc_nodes := (lc_nodes c)[n := (lc_nodes c ! n) \<lparr> ln_key := k, ln_value := v \<rparr>],
                            lc_cache := dict_set k n d', lc_head := n \<rparr>"
  have lk: "map_of (lc_cache c) k' = Some m \<longleftrightarrow> m \<in> set us \<and> key_of c m = k'" for k' m
    using i by (simp add: lru_inv_def)
  have inj: "inj_on (key_of c) (set us)" using i by (simp add: lru_inv_def)
  have "fill_node n k v c = Inr c'"
    using old lk [of "key_of c n" n] by (auto simp: fill_node_def c'_def d'_def Let_def split: if_splits)
  moreover have keys: "key_of c' x = (if x = n then k else key_of c x)"
      "ln_value (lc_nodes c' ! x) = (if x = n then v else ln_value (lc_nodes c ! x))" for x
    using n(1) by (simp_all add: c'_def)
  have d'lk: "map_of d' k' = Some m \<longleftrightarrow> m \<in> set us' \<and> key_of c m = k'" for k' m
    using old lk [of k' m] n(2) inj by (auto simp: d'_def dict_simps inj_on_def split: if_splits)
  have new: "x \<in> set us' \<Longrightarrow> key_of c x \<noteq> k" for x using lk [of k x] k(2) n(4) by auto
  have "in_ring c' (n # ys)"
    using in_ring_rotate [of c ys n] i l n(1)
    by (auto simp: in_ring_def c'_def lru_inv_def nth_list_update intro: ring_nodes_cong)
  moreover have "set (n # ys) = {..<length (lc_nodes c')}"
    using i l by (auto simp: lru_inv_def c'_def)
  moreover have "inj_on (key_of c') (set (n # us'))"
    using new n(2) inj_on_subset [OF inj n(4)] by (auto simp: inj_on_def keys)
  moreover have "\<forall>x \<in> set (n # us'). key_of c' x \<noteq> None" "\<forall>x \<in> set (butlast zs). key_of c' x = None"
    using i n k(1) by (auto simp: lru_inv_def keys dest: in_set_butlastD)
  moreover have "map_of (lc_cache c') k' = Some m \<longleftrightarrow> m \<in> set (n # us') \<and> key_of c' m = k'" for k' m
    using d'lk [of k' m] new [of m] n(2) by (auto simp: c'_def dict_simps keys [unfolded c'_def, simplified])
  moreover have "dict_ok (lc_cache c')" using i by (simp add: lru_inv_def c'_def d'_def)
  ultimately have "lru_inv c' (n # us') (butlast zs)"
    unfolding lru_inv_def append_Cons ys using i by (simp add: lru_inv_def c'_def)
  moreover have "entries c' (n # us') = (k, v) # entries c us'"
    using n(2) keys by (auto simp: entries_def)
  ultimately show ?thesis using \<open>fill_node n k v c = Inr c'\<close> by (auto simp: c'_def)
qed

lemma addcapacity_inv:
  assumes i: "lru_inv c us zs" and sz: "lc_size c < lc_capacity c" and a: "addcapacity c = (n, c')"
  shows "lru_inv c' us (zs @ [n])" "entries c' us = entries c us" "lc_cache c' = lc_cache c"
    "lc_capacity c' = lc_capacity c"
proof -
  define h xs where "h = hd (us @ zs)" and "xs = tl (us @ zs)"
  define ns where "ns = lc_nodes c"
  define e where "e = List.last (h # xs)"
  have r: "ring ns h xs" "lc_head c = h" "us @ zs = h # xs"
    using i by (auto simp: lru_inv_def in_ring_def h_def xs_def ns_def)
  have n: "n = length ns" using a by (simp add: addcapacity_def Let_def ns_def)
  have b: "h < length ns" "e < length ns" "set (h # xs) = {..<length ns}"
    using i r ring_prev_in [OF r(1)] ring_last [OF r(1)] by (auto simp: lru_inv_def ns_def e_def)
  define ns1 where "ns1 = ns @ [lrucachenode :: ('a, 'b) lnode]"
  have ns1: "x < length ns \<Longrightarrow> ns1 ! x = ns ! x" for x by (simp add: ns1_def nth_append)
  have c': "lc_nodes c' = set_prev h n (set_next n h (set_prev n e (set_next e n ns1)))"
    using a r(2) b ring_last [OF r(1)] ns1
    by (auto simp: addcapacity_def Let_def ns_def [symmetric] ns1_def [symmetric] e_def n)
  have l: "length ns1 = Suc (length ns)" by (simp add: ns1_def)
  have ne: "h \<noteq> n" "e \<noteq> n" "n < length ns1" "h < length ns1" "e < length ns1" using b l n by auto
  have in_ns: "x < length ns \<and> x \<noteq> n" if "x \<in> set (h # xs)" for x using that b(3) n by auto
  have "ring (lc_nodes c') n (h # xs)"
  proof (rule ring_insert [OF r(1) _ _ _ e_def])
    show "n \<notin> set (h # xs)" using in_ns by blast
    show "ln_next (lc_nodes c' ! x) = ln_next (ns ! x)" if "x \<in> set (h # xs)" "x \<noteq> e" for x
      using in_ns [OF that(1)] that(2) ne by (simp add: c' link_simps ns1)
    show "ln_prev (lc_nodes c' ! x) = ln_prev (ns ! x)" if "x \<in> set (h # xs)" "x \<noteq> h" for x
      using in_ns [OF that(1)] that(2) ne by (simp add: c' link_simps ns1)
  qed (use ne l in \<open>simp_all add: c' link_simps\<close>)
  then have "ring (lc_nodes c') h (xs @ [n])" by (rule ring_rotate')
  then have ri: "in_ring c' (us @ zs @ [n])"
    using r a by (auto simp: in_ring_def addcapacity_def Let_def simp flip: append_assoc)
  have kv: "key_of c' x = key_of c x" "ln_value (lc_nodes c' ! x) = ln_value (lc_nodes c ! x)" if "x < length ns" for x
    using that by (simp_all add: c' ns1 ns_def [symmetric])
  have kn: "key_of c' n = None" by (simp add: c' ns1_def n lrucachenode_def)
  have rest: "lc_cache c' = lc_cache c" "lc_capacity c' = lc_capacity c" "lc_size c' = Suc (lc_size c)"
    using a by (auto simp: addcapacity_def Let_def)
  have s: "set us \<union> set zs = {..<length ns}" "set us \<subseteq> {..<length ns}" "set zs \<subseteq> {..<length ns}"
    using i by (auto simp: lru_inv_def ns_def)
  have "\<forall>x \<in> set us. key_of c' x = key_of c x" "\<forall>x \<in> set zs. key_of c' x = key_of c x" using kv s by auto
  moreover have "length (lc_nodes c') = Suc (length ns)" by (simp add: c' l)
  ultimately show "lru_inv c' us (zs @ [n])"
    using i ri rest sz kn s by (auto simp: lru_inv_def ns_def [symmetric] n lessThan_Suc inj_on_def)
  show "entries c' us = entries c us" using kv s by (auto simp: entries_def)
  show "lc_cache c' = lc_cache c" "lc_capacity c' = lc_capacity c" using rest by simp_all
qed

text \<open>Storing a new key at capacity drops the oldest entry.\<close>

definition put :: "nat \<Rightarrow> 'k option \<Rightarrow> 'v option \<Rightarrow> ('k, 'v) entries \<Rightarrow> ('k, 'v) entries" where
  "put mx k v es = (k, v) # (if k \<in> fst ` set es then drop_key k es else take (max 1 mx - 1) es)"

lemma length_entries [simp]: "length (entries c us) = length us"
  by (simp add: entries_def)

lemma lru_inv_size: "lru_inv c us zs \<Longrightarrow> length us + length zs = lc_size c \<and> lc_size c \<le> max 1 (lc_capacity c)"
  by (rule conjI, erule lru_inv_length) (simp add: lru_inv_def)

lemma rep_length: "lru_rep c es \<Longrightarrow> length es \<le> max 1 (lc_capacity c)"
  by (auto simp: lru_rep_def dest!: lru_inv_size)

lemma set_value_inv:
  assumes "lru_inv c us zs"
  shows "lru_inv (set_value n v c) us zs" "lc_capacity (set_value n v c) = lc_capacity c"
proof -
  define c' where "c' = set_value n v c"
  have s: "length (lc_nodes c') = length (lc_nodes c)" "key_of c' x = key_of c x"
    "ln_next (lc_nodes c' ! x) = ln_next (lc_nodes c ! x)" "ln_prev (lc_nodes c' ! x) = ln_prev (lc_nodes c ! x)" for x
    unfolding c'_def set_value_def by (simp, simp_all, (rule nth_update_field, simp)+)
  have f: "key_of c' = key_of c" using s by auto
  have "in_ring c' (us @ zs)"
    using assms s by (auto simp: lru_inv_def in_ring_def c'_def set_value_def intro: ring_nodes_cong)
  then show "lru_inv (set_value n v c) us zs"
    using assms s f unfolding c'_def [symmetric] by (simp add: lru_inv_def) (simp add: c'_def set_value_def)
  show "lc_capacity (set_value n v c) = lc_capacity c" by (simp add: set_value_def)
qed

lemma rep_setitem:
  assumes "lru_rep c es" "k \<noteq> None"
  shows "\<exists>c'. lru_setitem k v c = Inr c' \<and> lru_rep c' (put (lc_capacity c) k v es) \<and> lc_capacity c' = lc_capacity c"
proof -
  obtain us zs where i: "lru_inv c us zs" and es: "es = entries c us" using assms by (auto simp: lru_rep_def)
  have ne: "us @ zs \<noteq> []" using i by (simp add: lru_inv_def in_ring_def)
  show ?thesis
  proof (cases "map_of (lc_cache c) k")
    case (Some n)
    then obtain as bs where us: "us = as @ n # bs" "key_of c n = k" using lookup_cases [OF i, of k] by auto
    have "n \<notin> set (as @ bs)" "n < length (lc_nodes c)"
      using i in_ring_distinct [of c "us @ zs"] us by (auto simp: lru_inv_def)
    then have "entries (movetohead n (set_value n v c)) (n # as @ bs) = (k, v) # entries c (as @ bs)"
      using us by (auto simp: entries_def set_value_def nth_list_update)
    moreover have "k \<in> fst ` set es" using us es by (force simp: entries_def)
    ultimately show ?thesis
      using lru_inv_movetohead(1) [OF set_value_inv(1) [OF i [unfolded us(1)]], of n v]
        entries_split(1) [OF i [unfolded us(1)] us(2)] us es set_value_inv(2) [OF i] Some
      by (auto simp: lru_setitem_def lru_rep_def put_def intro!: exI)
  next
    case None
    then have nin: "k \<notin> fst ` set es" using lookup_cases [OF i, of k] es by simp
    have len: "length us + length zs = lc_size c" "lc_size c \<le> max 1 (lc_capacity c)"
      using lru_inv_length [OF i] i by (auto simp: lru_inv_def)
    show ?thesis
    proof (cases "lc_size c < lc_capacity c")
      case True
      obtain n c1 where a: "addcapacity c = (n, c1)" by fastforce
      note ai = addcapacity_inv [OF i True a]
      obtain c' where "fill_node n k v c1 = Inr c'" "lru_inv c' (n # us) zs"
          "entries c' (n # us) = (k, v) # entries c1 us" "lc_capacity c' = lc_capacity c1"
        using fill_last [OF ai(1), of "us @ zs" n k v] None assms(2) ai(3) by auto
      moreover have "take (max 1 (lc_capacity c) - 1) es = es" using True len es by simp
      ultimately show ?thesis
        using None True a ai nin es by (auto simp: lru_setitem_def lru_rep_def put_def intro!: exI)
    next
      case False
      define n where "n = List.last (us @ zs)"
      have n: "us @ zs = butlast (us @ zs) @ [n]" using ne by (simp add: n_def)
      have hp: "ln_prev (lc_nodes c ! lc_head c) = n"
        using i by (simp add: n_def lru_inv_def in_ring_last)
      have "0 < length (us @ zs)" using ne by blast
      then have "0 < lc_size c" using len(1) by simp
      then have "max 1 (lc_capacity c) = lc_size c" using False len(2) by simp
      moreover have "take (lc_size c - 1) us = (if zs = [] then butlast us else us)"
        using len(1) by (cases zs) (simp_all add: butlast_conv_take)
      ultimately have "take (max 1 (lc_capacity c) - 1) es = entries c (if zs = [] then butlast us else us)"
        by (simp add: es entries_def take_map)
      then show ?thesis
        using fill_last [OF i n assms(2) None, of v] None False hp nin
        by (auto simp: lru_setitem_def put_def intro: lru_repI)
    qed
  qed
qed

lemma in_ring_next: "in_ring c (as @ n # bs) \<Longrightarrow> ln_next (lc_nodes c ! n) = hd (bs @ as @ [n])"
  using ring_next [of "lc_nodes c" n bs] ring_of_node(2) [of "lc_nodes c" "hd as" "tl as" n bs]
  by (cases as; cases bs) (auto simp: in_ring_def)

lemma in_ring_prev: "in_ring c (as @ n # bs) \<Longrightarrow> ln_prev (lc_nodes c ! n) = List.last (n # bs @ as)"
  using ring_last [of "lc_nodes c" n bs] ring_of_node(1) [of "lc_nodes c" "hd as" "tl as" n bs]
  by (cases as) (auto simp: in_ring_def)

lemma rep_delitem:
  assumes "lru_rep c es"
  shows "if k \<in> fst ` set es
    then \<exists>c'. lru_delitem k c = Inr c' \<and> lru_rep c' (drop_key k es) \<and> lc_capacity c' = lc_capacity c
    else lru_delitem k c = Inl KeyError"
proof -
  obtain us zs where i: "lru_inv c us zs" and es: "es = entries c us" using assms by (auto simp: lru_rep_def)
  show ?thesis
  proof (cases "map_of (lc_cache c) k")
    case None
    then show ?thesis using lookup_cases [OF i, of k] es by (simp add: lru_delitem_def dict_get_def)
  next
    case (Some n)
    then obtain as bs where us: "us = as @ n # bs" "key_of c n = k" "k \<noteq> None" using lookup_cases [OF i, of k] by auto
    have "n < length (lc_nodes c)" using i us by (auto simp: lru_inv_def)
    have nn: "n \<notin> set (as @ bs)" "n \<notin> set zs" using i in_ring_distinct [of c "us @ zs"] us by (auto simp: lru_inv_def)
    define c1 where "c1 = markempty n (c \<lparr> lc_cache := dict_del k (lc_cache c) \<rparr>)"
    define c2 where "c2 = movetohead n c1"
    define c' where "c' = c2 \<lparr> lc_head := ln_next (lc_nodes c2 ! n) \<rparr>"
    have c1: "length (lc_nodes c1) = length (lc_nodes c)" "key_of c1 x = (if x = n then None else key_of c x)"
      "ln_value (lc_nodes c1 ! x) = ln_value (lc_nodes c ! x)" for x
      using \<open>n < length (lc_nodes c)\<close> by (auto simp: c1_def markempty_def nth_list_update)
    have "in_ring c1 (as @ n # bs @ zs)"
      using i us \<open>n < length (lc_nodes c)\<close>
      by (auto simp: lru_inv_def in_ring_def c1_def markempty_def nth_list_update intro: ring_nodes_cong)
    then have "in_ring c2 (n # as @ bs @ zs)" unfolding c2_def by (rule in_ring_movetohead)
    then have r: "ring (lc_nodes c2) n (as @ bs @ zs)" by (simp add: in_ring_def)
    have "in_ring c' ((as @ bs @ zs) @ [n])"
    proof (cases "as @ bs @ zs")
      case Nil
      then show ?thesis using r ring_next [OF r] by (simp add: in_ring_def c'_def)
    next
      case (Cons y ys)
      then show ?thesis
        using ring_rotate' [of "lc_nodes c2" n y ys] r ring_next [OF r] unfolding Cons
        by (simp add: in_ring_def c'_def)
    qed
    then have ring': "in_ring c' (as @ bs @ zs @ [n])" by simp
    have kc: "key_of c' x = (if x = n then None else key_of c x)" "ln_value (lc_nodes c' ! x) = ln_value (lc_nodes c ! x)"
        "length (lc_nodes c') = length (lc_nodes c)" for x
      by (simp_all add: c'_def c2_def c1)
    have rest: "lc_cache c' = dict_del k (lc_cache c)" "lc_size c' = lc_size c" "lc_capacity c' = lc_capacity c"
      by (simp_all add: c'_def c2_def c1_def markempty_def)
    have lk: "map_of (lc_cache c) k' = Some m \<longleftrightarrow> m \<in> set us \<and> key_of c m = k'" for k' m
      using i by (simp add: lru_inv_def)
    have inj: "inj_on (key_of c) (set us)" using i by (simp add: lru_inv_def)
    have lk': "map_of (lc_cache c') k' = Some m \<longleftrightarrow> m \<in> set (as @ bs) \<and> key_of c' m = k'" for k' m
    proof (cases "m = n")
      case True
      then show ?thesis using nn(1) lk [of k' n] us(2) by (auto simp: rest dict_simps)
    next
      case False
      have "\<not> (m \<in> set us \<and> key_of c m = k)" using lk [of k m] Some False by simp
      then show ?thesis using lk [of k' m] False us(1) by (auto simp: rest dict_simps kc)
    qed
    have "inj_on (key_of c) (set (as @ bs))" by (rule inj_on_subset [OF inj]) (auto simp: us(1))
    moreover have "key_of c' x = key_of c x" if "x \<in> set (as @ bs)" for x
      using that nn(1) kc(1) [of x] by (metis (full_types))
    ultimately have inj': "inj_on (key_of c') (set (as @ bs))" by (metis (no_types, lifting) inj_on_cong)
    have "lru_inv c' (as @ bs) (zs @ [n])"
    proof -
      have "set (as @ bs @ zs @ [n]) = {..<length (lc_nodes c')}" using i us by (auto simp: lru_inv_def kc)
      moreover have "\<forall>x \<in> set (as @ bs). key_of c' x \<noteq> None" "\<forall>x \<in> set (zs @ [n]). key_of c' x = None"
        using i us(1) nn by (auto simp: lru_inv_def kc)
      moreover have "lc_size c' = length (lc_nodes c')" "lc_size c' \<le> max 1 (lc_capacity c')" "dict_ok (lc_cache c')"
        using i by (simp_all add: lru_inv_def kc rest)
      ultimately show ?thesis
        using ring' lk' inj' by (simp add: lru_inv_def)
    qed
    moreover have "entries c' (as @ bs) = drop_key k es"
      using entries_split(1) [OF i [unfolded us(1)] us(2)] nn es us by (auto simp: entries_def kc)
    moreover have "lru_delitem k c = Inr c'"
      using Some by (simp add: lru_delitem_def Let_def c'_def c2_def c1_def)
    moreover have "k \<in> fst ` set es" using us es by (force simp: entries_def)
    ultimately show ?thesis using rest by (auto simp: lru_rep_def intro!: exI)
  qed
qed

lemma rep_get: "lru_rep c es \<Longrightarrow> lru_get k dflt c = (case map_of es k of None \<Rightarrow> dflt | Some v \<Rightarrow> v)"
proof -
  assume "lru_rep c es"
  then obtain us zs where i: "lru_inv c us zs" and es: "es = entries c us" by (auto simp: lru_rep_def)
  show ?thesis
  proof (cases "map_of (lc_cache c) k")
    case None
    have "map_of es k = None" using lookup_cases [OF i, of k, unfolded None] es by (simp add: map_of_eq_None_iff)
    then show ?thesis using None by (simp add: lru_get_def)
  next
    case (Some n)
    then obtain as bs where us: "us = as @ n # bs" "key_of c n = k" using lookup_cases [OF i, of k] by auto
    then show ?thesis using Some entries_split(2) [OF i [unfolded us(1)] us(2)] es by (simp add: lru_get_def)
  qed
qed

lemma rep_contains: "lru_rep c es \<Longrightarrow> lru_contains k c \<longleftrightarrow> k \<in> fst ` set es"
proof -
  assume "lru_rep c es"
  then obtain us zs where i: "lru_inv c us zs" and es: "es = entries c us" by (auto simp: lru_rep_def)
  show ?thesis
    using lookup_cases [OF i, of k] es by (auto simp: lru_contains_def dict_has_def entries_def split: option.splits)
qed

lemma lru_inv_cache_length:
  assumes i: "lru_inv c us zs"
  shows "length (lc_cache c) = length us"
proof -
  have ok: "distinct (map fst (lc_cache c))" using i by (simp add: lru_inv_def dict_ok_def)
  have "fst ` set (lc_cache c) = key_of c ` set us"
  proof (intro set_eqI iffI)
    fix k assume "k \<in> fst ` set (lc_cache c)"
    then obtain n where "map_of (lc_cache c) k = Some n" using weak_map_of_SomeI by fastforce
    then show "k \<in> key_of c ` set us" using i by (auto simp: lru_inv_def)
  next
    fix k assume "k \<in> key_of c ` set us"
    then obtain n where "map_of (lc_cache c) k = Some n" using i unfolding lru_inv_def by blast
    then show "k \<in> fst ` set (lc_cache c)" by (force dest: map_of_SomeD)
  qed
  then have "card (set (map fst (lc_cache c))) = card (key_of c ` set us)" by simp
  also have "\<dots> = card (set us)" using i by (intro card_image) (simp add: lru_inv_def)
  also have "\<dots> = length us" using in_ring_distinct [of c "us @ zs"] i by (intro distinct_card) (simp add: lru_inv_def)
  finally show ?thesis using distinct_card [OF ok] by simp
qed

lemma rep_len: "lru_rep c es \<Longrightarrow> lru_len c = length es"
  by (auto simp: lru_rep_def lru_len_def lru_inv_cache_length)

lemma iter_keys_walk:
  "in_ring c (pre @ us @ zs) \<Longrightarrow> us \<noteq> [] \<longrightarrow> n = hd us \<Longrightarrow> iter_keys (length us) n c = map (key_of c) us"
proof (induction us arbitrary: pre n)
  case (Cons u us)
  have "us \<noteq> [] \<longrightarrow> ln_next (lc_nodes c ! u) = hd us"
    using in_ring_next [of c pre u "us @ zs"] Cons.prems(1) by simp
  then show ?case using Cons.IH [of "pre @ [u]"] Cons.prems by simp
qed simp

lemma rep_iter: "lru_rep c es \<Longrightarrow> lru_iter c = map fst es"
proof -
  assume "lru_rep c es"
  then obtain us zs where i: "lru_inv c us zs" and es: "es = entries c us" by (auto simp: lru_rep_def)
  have "us \<noteq> [] \<longrightarrow> lc_head c = hd us" using i by (auto simp: lru_inv_def in_ring_def)
  then have "iter_keys (length us) (lc_head c) c = map (key_of c) us"
    using i by (intro iter_keys_walk [of c "[]" us zs]) (auto simp: lru_inv_def)
  then show ?thesis by (simp add: lru_iter_def lru_inv_cache_length [OF i] es entries_def)
qed

lemma markempty_same:
  assumes "n < length (lc_nodes c)"
  shows "key_of (markempty n c) x = (if x = n then None else key_of c x)"
    "length (lc_nodes (markempty n c)) = length (lc_nodes c)" "lc_head (markempty n c) = lc_head c"
    "lc_size (markempty n c) = lc_size c" "lc_capacity (markempty n c) = lc_capacity c"
    "in_ring (markempty n c) ys \<longleftrightarrow> in_ring c ys"
proof -
  have l: "ln_next (lc_nodes (markempty n c) ! x) = ln_next (lc_nodes c ! x)"
    "ln_prev (lc_nodes (markempty n c) ! x) = ln_prev (lc_nodes c ! x)" for x
    using assms by (auto simp: markempty_def nth_list_update)
  show "key_of (markempty n c) x = (if x = n then None else key_of c x)"
    "length (lc_nodes (markempty n c)) = length (lc_nodes c)" "lc_head (markempty n c) = lc_head c"
    "lc_size (markempty n c) = lc_size c" "lc_capacity (markempty n c) = lc_capacity c"
    using assms by (auto simp: markempty_def nth_list_update)
  then show "in_ring (markempty n c) ys \<longleftrightarrow> in_ring c ys"
    using l by (auto simp: in_ring_def intro: ring_nodes_cong)
qed

lemma clear_loop_spec:
  assumes "in_ring c (pre @ us @ zs)" "\<forall>n \<in> set pre \<union> set zs. key_of c n = None" "\<forall>n \<in> set us. key_of c n \<noteq> None"
    and "n = hd (us @ zs @ pre)"
  shows "\<exists>c'. clear_loop n c = c' \<and> in_ring c' (pre @ us @ zs) \<and> (\<forall>n \<in> set (pre @ us @ zs). key_of c' n = None) \<and>
    length (lc_nodes c') = length (lc_nodes c) \<and> lc_size c' = lc_size c \<and> lc_capacity c' = lc_capacity c"
  using assms
proof (induction us arbitrary: pre c n)
  case Nil
  have "pre @ zs \<noteq> []" using Nil.prems(1) by (simp add: in_ring_def)
  then have "n \<in> set (zs @ pre)" using Nil.prems(4) hd_in_set [of "zs @ pre"] by auto
  then have "clear_loop n c = c" using Nil.prems(2) by (subst clear_loop.simps) auto
  then show ?case using Nil.prems by auto
next
  case (Cons u us)
  have r: "in_ring c (pre @ u # us @ zs)" using Cons.prems(1) by simp
  have u: "n = u" "u < length (lc_nodes c)" "key_of c u \<noteq> None"
    using Cons.prems r by (cases pre; auto simp: in_ring_def ring_def)+
  have d: "u \<notin> set us" using in_ring_distinct [OF r] by simp
  let ?c = "markempty u c"
  note me = markempty_same [OF u(2)]
  have nx: "ln_next (lc_nodes ?c ! u) = hd (us @ zs @ pre @ [u])"
    using in_ring_next [of ?c pre u "us @ zs"] r me(6) by simp
  have "clear_loop n c = clear_loop (ln_next (lc_nodes ?c ! u)) ?c"
    using u by (subst clear_loop.simps) (simp add: Let_def)
  moreover have "in_ring ?c ((pre @ [u]) @ us @ zs)" using r me(6) by simp
  moreover have "\<forall>n \<in> set (pre @ [u]) \<union> set zs. key_of ?c n = None" "\<forall>n \<in> set us. key_of ?c n \<noteq> None"
    using Cons.prems(2,3) d by (auto simp: me(1))
  ultimately show ?case
    using Cons.IH [of ?c "pre @ [u]" "ln_next (lc_nodes ?c ! u)"] nx me(2,4,5) by simp
qed

lemma rep_clear:
  assumes "lru_rep c es"
  shows "lru_rep (lru_clear c) []" "lc_capacity (lru_clear c) = lc_capacity c"
proof -
  obtain us zs where i: "lru_inv c us zs" using assms by (auto simp: lru_rep_def)
  have h: "lc_head c = hd (us @ zs)" using i by (simp add: lru_inv_def in_ring_def)
  have pre: "in_ring c ([] @ us @ zs)" "\<forall>n \<in> set [] \<union> set zs. key_of c n = None" "\<forall>n \<in> set us. key_of c n \<noteq> None"
    using i by (auto simp: lru_inv_def)
  obtain c' where c': "clear_loop (lc_head c) c = c'" "in_ring c' (us @ zs)" "\<forall>n \<in> set (us @ zs). key_of c' n = None"
      "length (lc_nodes c') = length (lc_nodes c)" "lc_size c' = lc_size c" "lc_capacity c' = lc_capacity c"
    using clear_loop_spec [OF pre, of "lc_head c"] h by auto
  have "lru_inv (lru_clear c) [] (us @ zs)"
    using i c' by (auto simp: lru_inv_def lru_clear_def in_ring_def)
  then show "lru_rep (lru_clear c) []" by (rule lru_repI) (simp add: entries_def)
  show "lc_capacity (lru_clear c) = lc_capacity c" using c' by (simp add: lru_clear_def)
qed

text \<open>\<open>copy\<close> of a cache whose nodes are all in use: the entries are stored again, oldest first.\<close>

lemma copy_loop_spec:
  assumes i: "lru_inv c (us @ vs) []" and cap: "lc_capacity r = lc_capacity c" and rep: "lru_rep r (entries c vs)"
    and n: "us \<noteq> [] \<longrightarrow> n = List.last us"
  shows "\<exists>r'. copy_loop (length us) n c r = Inr r' \<and> lru_rep r' (entries c (us @ vs)) \<and> lc_capacity r' = lc_capacity c"
  using assms
proof (induction us arbitrary: vs r n rule: rev_induct)
  case (snoc u us)
  have nu: "n = u" using snoc.prems(4) by simp
  have inv: "lru_inv c (us @ u # vs) []" using snoc.prems(1) by simp
  have k: "key_of c u \<noteq> None" using inv by (simp add: lru_inv_def)
  have "distinct (map fst (entries c (us @ u # vs)))" by (rule entries_keys_distinct [OF inv])
  then have new: "key_of c u \<notin> fst ` set (entries c vs)" by (auto simp: entries_def)
  have "length (us @ u # vs) \<le> max 1 (lc_capacity c)" using lru_inv_size [OF inv] by simp
  then have "put (lc_capacity c) (key_of c u) (ln_value (lc_nodes c ! u)) (entries c vs) = entries c (u # vs)"
    using new by (simp add: put_def entries_def)
  then obtain r1 where r1: "lru_setitem (key_of c u) (ln_value (lc_nodes c ! u)) r = Inr r1"
      "lru_rep r1 (entries c (u # vs))" "lc_capacity r1 = lc_capacity c"
    using rep_setitem [OF snoc.prems(3) k, of "ln_value (lc_nodes c ! u)"] snoc.prems(2) by auto
  have "us \<noteq> [] \<longrightarrow> ln_prev (lc_nodes c ! u) = List.last us"
    using in_ring_prev [of c us u vs] inv by (simp add: lru_inv_def)
  then show ?case
    using snoc.IH [OF inv r1(3,2), of "ln_prev (lc_nodes c ! u)"] r1(1) nu by simp
qed simp

lemma rep_copy:
  assumes "lru_rep c es" "length es = lc_size c"
  shows "\<exists>c'. lru_copy c = Inr c' \<and> lru_rep c' es \<and> lc_capacity c' = lc_capacity c"
proof -
  obtain us zs where i: "lru_inv c us zs" and es: "es = entries c us" using assms(1) by (auto simp: lru_rep_def)
  have z: "zs = []" using lru_inv_size [OF i] assms(2) es by simp
  have "ln_prev (lc_nodes c ! lc_head c) = List.last us" using i z by (simp add: lru_inv_def in_ring_last)
  moreover have "lru_rep (lru_init (lc_capacity c)) (entries c [])" using rep_init by (simp add: entries_def)
  ultimately show ?thesis
    using copy_loop_spec [of c us "[]" "lru_init (lc_capacity c)" "List.last us"] i z es
    by (simp add: lru_copy_def lru_inv_cache_length [OF i]) (simp add: lru_init_def)
qed

section \<open>The cache implements its specification\<close>

text \<open>
  A stepwise simulation between two machines with the same observations; the
  sequences of observations are then the same.
\<close>

fun outputs :: "('i \<Rightarrow> 's \<Rightarrow> 'o \<times> 's) \<Rightarrow> 'i list \<Rightarrow> 's \<Rightarrow> 'o list" where
  "outputs step [] s = []"
| "outputs step (i # ins) s = (case step i s of (out, s') \<Rightarrow> out # outputs step ins s')"

locale simulation =
  fixes rel :: "'c \<Rightarrow> 'a \<Rightarrow> bool"
    and cstep :: "'i \<Rightarrow> 'c \<Rightarrow> 'o \<times> 'c"
    and astep :: "'i \<Rightarrow> 'a \<Rightarrow> 'o \<times> 'a"
  assumes simulates: "rel c a \<Longrightarrow> fst (cstep i c) = fst (astep i a) \<and> rel (snd (cstep i c)) (snd (astep i a))"
begin

lemma same_outputs: "rel c a \<Longrightarrow> outputs cstep ins c = outputs astep ins a"
proof (induction ins arbitrary: c a)
  case (Cons i ins)
  then show ?case using simulates [OF Cons.prems, of i] by (auto split: prod.splits)
qed simp

end

datatype ('k, 'v) lru_op =
    GetItem 'k
  | SetItem 'k "'v option"
  | DelItem 'k
  | Get 'k "'v option"
  | Clear
  | Iter
  | Len
  | Contains 'k

datatype ('k, 'v) lru_out =
    Raised pyerror
  | Value "'v option"
  | Keys "'k option list"
  | Number nat
  | Truth bool
  | Done

definition finished :: "'c \<Rightarrow> 'c res \<Rightarrow> ('k, 'v) lru_out \<times> 'c" where
  "finished c r = (case r of Inl e \<Rightarrow> (Raised e, c) | Inr c' \<Rightarrow> (Done, c'))"

fun lru_step :: "('k, 'v) lru_op \<Rightarrow> ('k, 'v) lrucachedict \<Rightarrow> ('k, 'v) lru_out \<times> ('k, 'v) lrucachedict" where
  "lru_step (GetItem k) c = (case lru_getitem (Some k) c of Inl e \<Rightarrow> (Raised e, c) | Inr (v, c') \<Rightarrow> (Value v, c'))"
| "lru_step (SetItem k v) c = finished c (lru_setitem (Some k) v c)"
| "lru_step (DelItem k) c = finished c (lru_delitem (Some k) c)"
| "lru_step (Get k dflt) c = (Value (lru_get (Some k) dflt c), c)"
| "lru_step Clear c = (Done, lru_clear c)"
| "lru_step Iter c = (Keys (lru_iter c), c)"
| "lru_step Len c = (Number (lru_len c), c)"
| "lru_step (Contains k) c = (Truth (lru_contains (Some k) c), c)"

text \<open>The same on a list of entries, newest first, of at most \<open>max 1 mx\<close> entries.\<close>

fun spec_step :: "nat \<Rightarrow> ('k, 'v) lru_op \<Rightarrow> ('k, 'v) entries \<Rightarrow> ('k, 'v) lru_out \<times> ('k, 'v) entries" where
  "spec_step mx (GetItem k) es = (case map_of es (Some k) of
     None \<Rightarrow> (Raised KeyError, es) | Some v \<Rightarrow> (Value v, (Some k, v) # drop_key (Some k) es))"
| "spec_step mx (SetItem k v) es = (Done, put mx (Some k) v es)"
| "spec_step mx (DelItem k) es =
     (if Some k \<in> fst ` set es then (Done, drop_key (Some k) es) else (Raised KeyError, es))"
| "spec_step mx (Get k dflt) es = (Value (case map_of es (Some k) of None \<Rightarrow> dflt | Some v \<Rightarrow> v), es)"
| "spec_step mx Clear es = (Done, [])"
| "spec_step mx Iter es = (Keys (map fst es), es)"
| "spec_step mx Len es = (Number (length es), es)"
| "spec_step mx (Contains k) es = (Truth (Some k \<in> fst ` set es), es)"

definition lru_sim :: "('k, 'v) lrucachedict \<Rightarrow> nat \<times> ('k, 'v) entries \<Rightarrow> bool" where
  "lru_sim c a \<longleftrightarrow> lru_rep c (snd a) \<and> lc_capacity c = fst a"

definition spec_machine :: "('k, 'v) lru_op \<Rightarrow> nat \<times> ('k, 'v) entries \<Rightarrow> ('k, 'v) lru_out \<times> (nat \<times> ('k, 'v) entries)" where
  "spec_machine i a = (case spec_step (fst a) i (snd a) of (out, es) \<Rightarrow> (out, (fst a, es)))"

interpretation lru: simulation lru_sim lru_step spec_machine
proof
  fix c :: "('k, 'v) lrucachedict" and a :: "nat \<times> ('k, 'v) entries" and i :: "('k, 'v) lru_op"
  assume sim: "lru_sim c a"
  obtain mx es where a: "a = (mx, es)" by (cases a)
  have rep: "lru_rep c es" and cap: "lc_capacity c = mx" using sim by (simp_all add: lru_sim_def a)
  show "fst (lru_step i c) = fst (spec_machine i a) \<and> lru_sim (snd (lru_step i c)) (snd (spec_machine i a))"
  proof (cases i)
    case (GetItem k)
    then show ?thesis using rep_getitem [OF rep, of "Some k"] rep cap
      by (auto simp: a spec_machine_def lru_sim_def split: option.splits)
  next
    case (SetItem k v)
    then show ?thesis using rep_setitem [OF rep, of "Some k" v] cap
      by (auto simp: a spec_machine_def lru_sim_def finished_def)
  next
    case (DelItem k)
    then show ?thesis using rep_delitem [OF rep, of "Some k"] rep cap
      by (auto simp: a spec_machine_def lru_sim_def finished_def split: if_splits)
  qed (use rep cap rep_clear [OF rep] in
      \<open>simp_all add: a spec_machine_def lru_sim_def rep_get rep_iter rep_len rep_contains\<close>)
qed

text \<open>
  (C11) \<open>lrucachedict\<close> implements a bounded dictionary: for every sequence of lookups,
  stores, deletions, clearings and queries on a new cache, the relinked nodes give the same answers as a
  list of entries in which a lookup or a store moves the entry to the front, and a
  store of a new key in a full cache drops the last entry. Missing keys raise
  \<open>KeyError\<close>, and nothing else is raised.
\<close>

theorem lrucachedict_refines:
  "outputs lru_step ops (lru_init mx) = outputs spec_machine ops (mx, [])"
  by (rule lru.same_outputs) (simp add: lru_sim_def rep_init, simp add: lru_init_def)



end
