(* ===== verification/Dirstate.thy ===== *)
theory Dirstate
  imports Pybytes Pydict
begin

text \<open>
  The dirstate file of \<open>pure/parsers.py\<close>: \<open>pack_dirstate\<close> and \<open>parse_dirstate\<close>. The file
  is the two parents, then for each tracked file a record of the format \<open>>cllll\<close> (state,
  mode, size, modification time, length of the name) and the name, with the copy source after a
  zero byte.
\<close>

section \<open>Records\<close>

text \<open>\<open>dirstatetuple(state, mode, size, mtime)\<close>\<close>

record dirstatetuple =
  ds_state :: char
  ds_mode :: int
  ds_size :: int
  ds_mtime :: int

definition pack_cllll :: "char \<Rightarrow> int \<Rightarrow> int \<Rightarrow> int \<Rightarrow> int \<Rightarrow> bytes res" where
  "pack_cllll c w x y z =
     (if int32 w \<and> int32 x \<and> int32 y \<and> int32 z then Inr (c # be4 w @ be4 x @ be4 y @ be4 z)
      else Inl StructError)"

definition unpack_cllll :: "bytes \<Rightarrow> (dirstatetuple \<times> int) res" where
  "unpack_cllll s =
     (if length s = 17
      then Inr (\<lparr> ds_state = hd s, ds_mode = unbe4 (slice s 1 5), ds_size = unbe4 (slice s 5 9),
                  ds_mtime = unbe4 (slice s 9 13) \<rparr>, unbe4 (slice s 13 17))
      else Inl StructError)"

type_synonym dmap = "(bytes, dirstatetuple) dict"
type_synonym copymap = "(bytes, bytes) dict"

section \<open>Reading\<close>

text \<open>\<open>f, c = f.split("\0")\<close> fails when there is more than one zero byte.\<close>

definition parse_name :: "bytes \<Rightarrow> copymap \<Rightarrow> (bytes \<times> copymap) res" where
  "parse_name f copymap =
     (if CHR 0x00 \<in> set f
      then (case py_split (CHR 0x00) f of
              [g, c] \<Rightarrow> Inr (g, dict_set g c copymap)
            | _ \<Rightarrow> Inl ValueError)
      else Inr (f, copymap))"

partial_function (option) parse_loop :: "bytes \<Rightarrow> int \<Rightarrow> dmap \<Rightarrow> copymap \<Rightarrow> (dmap \<times> copymap) res option" where
  "parse_loop st pos1 dm cm =
     (if pos1 < int (length st)
      then (let pos2 = pos1 + 17 in
            case unpack_cllll (py_slice st pos1 pos2) of
              Inl e \<Rightarrow> Some (Inl e)
            | Inr (e, flen) \<Rightarrow>
                (case parse_name (py_slice st pos2 (pos2 + flen)) cm of
                   Inl err \<Rightarrow> Some (Inl err)
                 | Inr (f, cm') \<Rightarrow> parse_loop st (pos2 + flen) (dict_set f e dm) cm'))
      else Some (Inr (dm, cm)))"

definition parse_dirstate :: "dmap \<Rightarrow> copymap \<Rightarrow> bytes \<Rightarrow> (bytes list \<times> dmap \<times> copymap) res option" where
  "parse_dirstate dm cm st =
     map_option (\<lambda>r. bindE r (\<lambda>(dm', cm'). Inr ([slice st 0 20, slice st 20 40], dm', cm')))
       (parse_loop st 40 dm cm)"

section \<open>Writing\<close>

text \<open>A file modified in the second of the write gets the time \<open>-1\<close>.\<close>

definition invalidate :: "int \<Rightarrow> dirstatetuple \<Rightarrow> dirstatetuple" where
  "invalidate now e = (if ds_state e = CHR ''n'' \<and> ds_mtime e = now then e \<lparr> ds_mtime := - 1 \<rparr> else e)"

definition name_field :: "copymap \<Rightarrow> bytes \<Rightarrow> bytes" where
  "name_field cm f = (case map_of cm f of None \<Rightarrow> f | Some c \<Rightarrow> f @ [CHR 0x00] @ c)"

fun pack_loop :: "copymap \<Rightarrow> int \<Rightarrow> dmap \<Rightarrow> (bytes \<times> dmap) res" where
  "pack_loop cm now [] = Inr ([], [])"
| "pack_loop cm now ((f, e) # dm) =
     (let e' = invalidate now e;
          g = name_field cm f
      in bindE (pack_cllll (ds_state e') (ds_mode e') (ds_size e') (ds_mtime e') (int (length g))) (\<lambda>h.
           bindE (pack_loop cm now dm) (\<lambda>(rest, dm'). Inr (h @ g @ rest, (f, e') # dm'))))"

definition pack_dirstate :: "dmap \<Rightarrow> copymap \<Rightarrow> bytes list \<Rightarrow> int \<Rightarrow> (bytes \<times> dmap) res" where
  "pack_dirstate dm cm pl now =
     bindE (pack_loop cm now dm) (\<lambda>(body, dm'). Inr (concat pl @ body, dm'))"

section \<open>Reading back\<close>

definition tuple_ok :: "dirstatetuple \<Rightarrow> bool" where
  "tuple_ok e \<longleftrightarrow> int32 (ds_mode e) \<and> int32 (ds_size e) \<and> int32 (ds_mtime e)"

definition names_ok :: "dmap \<Rightarrow> copymap \<Rightarrow> bool" where
  "names_ok dm cm \<longleftrightarrow> (\<forall>(f, e) \<in> set dm. tuple_ok e \<and> CHR 0x00 \<notin> set f \<and> length (name_field cm f) < 2147483648 \<and>
     (\<forall>c. map_of cm f = Some c \<longrightarrow> CHR 0x00 \<notin> set c))"

lemma unpack_pack_cllll:
  assumes "pack_cllll (ds_state e) (ds_mode e) (ds_size e) (ds_mtime e) n = Inr h"
  shows "length h = 17" "unpack_cllll h = Inr (e, n)"
  using assms
  by (auto simp: pack_cllll_def unpack_cllll_def slice_def unbe4_be4 split: if_splits)

lemma split_at_zero: "CHR 0x00 \<notin> set f \<Longrightarrow> CHR 0x00 \<notin> set c \<Longrightarrow> py_split (CHR 0x00) (f @ CHR 0x00 # c) = [f, c]"
proof -
  have one: "CHR 0x00 \<notin> set c \<Longrightarrow> py_split (CHR 0x00) c = [c]" for c by (induction c) auto
  show "CHR 0x00 \<notin> set f \<Longrightarrow> CHR 0x00 \<notin> set c \<Longrightarrow> ?thesis" by (induction f) (auto simp: one)
qed

lemma parse_name_field:
  assumes "CHR 0x00 \<notin> set f" "\<And>c. map_of cm f = Some c \<Longrightarrow> CHR 0x00 \<notin> set c"
  shows "parse_name (name_field cm f) cm' =
    Inr (f, case map_of cm f of None \<Rightarrow> cm' | Some c \<Rightarrow> dict_set f c cm')"
  using assms by (auto simp: parse_name_def name_field_def split_at_zero split: option.splits)

lemma slice_at: "py_slice (pre @ h @ post) (int (length pre)) (int (length pre) + int (length h)) = h"
  by (simp add: py_slice_nonneg slice_def nat_add_distrib)

definition store_copies :: "copymap \<Rightarrow> dmap \<Rightarrow> copymap \<Rightarrow> copymap" where
  "store_copies cm dm cm' =
     foldl (\<lambda>cm' (f, e). case map_of cm f of None \<Rightarrow> cm' | Some c \<Rightarrow> dict_set f c cm') cm' dm"

lemma parse_loop_packed:
  assumes "pack_loop cm now dm = Inr (body, dm')" "names_ok dm cm" "st = pre @ body"
  shows "parse_loop st (int (length pre)) dm0 cm0
    = Some (Inr (foldl (\<lambda>d (f, e). dict_set f e d) dm0 dm', store_copies cm dm cm0))"
  using assms
proof (induction dm arbitrary: body dm' pre dm0 cm0)
  case Nil
  then show ?case by (subst parse_loop.simps) (simp add: store_copies_def)
next
  case (Cons x dm)
  obtain f e where x: "x = (f, e)" by (cases x)
  define e' g where "e' = invalidate now e" and "g = name_field cm f"
  obtain h rest dm1 where h: "pack_cllll (ds_state e') (ds_mode e') (ds_size e') (ds_mtime e') (int (length g)) = Inr h"
    and rest: "pack_loop cm now dm = Inr (rest, dm1)" and out: "body = h @ g @ rest" "dm' = (f, e') # dm1"
    using Cons.prems(1) by (auto simp: x bindE_Inr_iff Let_def e'_def g_def)
  note u = unpack_pack_cllll [OF h]
  define cm1 where "cm1 = (case map_of cm f of None \<Rightarrow> cm0 | Some c \<Rightarrow> dict_set f c cm0)"
  have n: "parse_name g cm0 = Inr (f, cm1)"
    using Cons.prems(2) unfolding g_def cm1_def by (intro parse_name_field) (auto simp: x names_ok_def)
  have s1: "py_slice st (int (length pre)) (int (length pre) + 17) = h"
    using slice_at [of pre h "g @ rest"] Cons.prems(3) out u(1) by simp
  have s2: "py_slice st (int (length pre) + 17) (int (length pre) + 17 + int (length g)) = g"
    using slice_at [of "pre @ h" g rest] Cons.prems(3) out u(1) by simp
  have "parse_loop st (int (length pre)) dm0 cm0
      = parse_loop st (int (length pre) + 17 + int (length g)) (dict_set f e' dm0) cm1"
    using s1 s2 n u Cons.prems(3) out by (subst parse_loop.simps) (simp add: Let_def)
  also have "\<dots> = parse_loop st (int (length (pre @ h @ g))) (dict_set f e' dm0) cm1"
    using u(1) by (simp add: algebra_simps)
  also have "\<dots> = Some (Inr (foldl (\<lambda>d (f, e). dict_set f e d) (dict_set f e' dm0) dm1, store_copies cm dm cm1))"
    using Cons.prems out by (intro Cons.IH [OF rest]) (auto simp: names_ok_def)
  finally show ?case by (simp add: out x store_copies_def cm1_def)
qed

lemma pack_loop_total:
  assumes "names_ok dm cm" "int32 (- 1)"
  shows "\<exists>body. pack_loop cm now dm = Inr (body, map (\<lambda>(f, e). (f, invalidate now e)) dm)"
  using assms(1)
proof (induction dm)
  case (Cons x dm)
  obtain f e where x: "x = (f, e)" by (cases x)
  have "names_ok dm cm" using Cons.prems by (auto simp: names_ok_def)
  moreover have "int32 (ds_mode (invalidate now e))" "int32 (ds_size (invalidate now e))"
      "int32 (ds_mtime (invalidate now e))" "int32 (int (length (name_field cm f)))"
    using Cons.prems by (auto simp: names_ok_def x tuple_ok_def invalidate_def int32_def)
  ultimately show ?case using Cons.IH by (auto simp: x Let_def pack_cllll_def)
qed simp

lemma dict_set_new: "k \<notin> fst ` set d \<Longrightarrow> dict_set k v d = d @ [(k, v)]"
  by (induction d) (auto simp: dict_set_def)

lemma foldl_dict_set: "distinct (map fst (d @ es)) \<Longrightarrow> foldl (\<lambda>d (f, e). dict_set f e d) d es = d @ es"
  by (induction es arbitrary: d) (auto simp: dict_set_new)

lemma store_copies_lookup:
  "map_of (store_copies cm dm cm0) f
    = (if f \<in> fst ` set dm \<and> map_of cm f \<noteq> None then map_of cm f else map_of cm0 f)"
  unfolding store_copies_def
  by (induction dm arbitrary: cm0) (auto simp: dict_simps split: option.splits)

text \<open>
  (C21) The dirstate file. Packing returns when the numbers fit into 32 bits; a tracked file in
  state \<open>n\<close> whose time is the time of the write is stored, and left in memory, with the
  time \<open>-1\<close>, so that no such file looks clean. Parsing what was written gives the parents, the
  tracked files with what was stored, and the copy sources of the tracked files.
\<close>

theorem dirstate_roundtrip:
  assumes "dict_ok dm" "names_ok dm cm" "length p1 = 20" "length p2 = 20"
  shows "\<exists>st cm'. pack_dirstate dm cm [p1, p2] now = Inr (st, map (\<lambda>(f, e). (f, invalidate now e)) dm)
    \<and> parse_dirstate [] [] st = Some (Inr ([p1, p2], map (\<lambda>(f, e). (f, invalidate now e)) dm, cm'))
    \<and> (\<forall>f. map_of cm' f = (if dict_has dm f then map_of cm f else None))
    \<and> (now \<noteq> - 1 \<longrightarrow> (\<forall>(f, e) \<in> set dm. \<not> (ds_state (invalidate now e) = CHR ''n'' \<and> ds_mtime (invalidate now e) = now)))"
proof -
  define dm' where "dm' = map (\<lambda>(f, e). (f, invalidate now e)) dm"
  obtain body where body: "pack_loop cm now dm = Inr (body, dm')"
    using pack_loop_total [OF assms(2), of now] by (auto simp: dm'_def int32_def)
  have keys: "map fst dm' = map fst dm" by (simp add: dm'_def comp_def split_beta)
  have "parse_loop (p1 @ p2 @ body) 40 [] [] = Some (Inr (foldl (\<lambda>d (f, e). dict_set f e d) [] dm', store_copies cm dm []))"
    using parse_loop_packed [OF body assms(2), of _ "p1 @ p2"] assms(3,4) by simp
  moreover have "foldl (\<lambda>d (f, e). dict_set f e d) [] dm' = dm'"
    using foldl_dict_set [of "[]" dm'] keys assms(1) by (simp add: dict_ok_def)
  moreover have "slice (p1 @ p2 @ body) 0 20 = p1" "slice (p1 @ p2 @ body) 20 40 = p2"
    using assms(3,4) by (simp_all add: slice_def)
  ultimately have "parse_dirstate [] [] (p1 @ p2 @ body) = Some (Inr ([p1, p2], dm', store_copies cm dm []))"
    by (simp add: parse_dirstate_def)
  moreover have "map_of (store_copies cm dm []) f = (if dict_has dm f then map_of cm f else None)" for f
    using map_of_eq_None_iff [of dm f] by (auto simp: store_copies_lookup dict_has_def simp del: map_of_eq_None_iff)
  moreover have "now \<noteq> - 1 \<longrightarrow> (\<forall>(f, e) \<in> set dm. \<not> (ds_state (invalidate now e) = CHR ''n'' \<and> ds_mtime (invalidate now e) = now))"
    by (auto simp: invalidate_def)
  ultimately show ?thesis
    using body unfolding dm'_def [symmetric] by (auto simp: pack_dirstate_def)
qed

definition ex_dmap :: dmap where
  "ex_dmap = [(''a'', \<lparr> ds_state = CHR ''n'', ds_mode = 33188, ds_size = 3, ds_mtime = 1000 \<rparr>),
              (''b'', \<lparr> ds_state = CHR ''a'', ds_mode = 0, ds_size = - 1, ds_mtime = - 1 \<rparr>)]"

theorem dirstate_roundtrip_witness:
  "\<exists>st cm' dm'. pack_dirstate ex_dmap [(''b'', ''a'')] [replicate 20 (CHR ''x''), replicate 20 (CHR 0x00)] 1000 = Inr (st, dm')
    \<and> parse_dirstate [] [] st = Some (Inr ([replicate 20 (CHR ''x''), replicate 20 (CHR 0x00)], dm', cm'))
    \<and> map_of cm' ''b'' = Some ''a'' \<and> map_option ds_mtime (map_of dm' ''a'') = Some (- 1)"
proof -
  have "dict_ok ex_dmap" by (simp add: ex_dmap_def dict_ok_def)
  moreover have "names_ok ex_dmap [(''b'', ''a'')]"
    by (simp add: ex_dmap_def names_ok_def tuple_ok_def name_field_def int32_def)
  ultimately obtain st cm' where
    "pack_dirstate ex_dmap [(''b'', ''a'')] [replicate 20 (CHR ''x''), replicate 20 (CHR 0x00)] 1000
       = Inr (st, map (\<lambda>(f, e). (f, invalidate 1000 e)) ex_dmap)"
    "parse_dirstate [] [] st = Some (Inr ([replicate 20 (CHR ''x''), replicate 20 (CHR 0x00)],
       map (\<lambda>(f, e). (f, invalidate 1000 e)) ex_dmap, cm'))"
    "\<forall>f. map_of cm' f = (if dict_has ex_dmap f then map_of [(''b'', ''a'')] f else None)"
    using dirstate_roundtrip [of ex_dmap "[(''b'', ''a'')]" "replicate 20 (CHR ''x'')" "replicate 20 (CHR 0x00)" 1000]
    by auto
  then show ?thesis by (auto simp: ex_dmap_def dict_has_def invalidate_def)
qed

section \<open>A file whose parse does not end\<close>

definition parse_stuck :: "bytes \<Rightarrow> int \<Rightarrow> bool" where
  "parse_stuck st pos \<longleftrightarrow> pos = 40 \<and> 57 \<le> length st \<and> slice st 53 57 = be4 (- 17)"

lemma parse_stuck_step:
  assumes "parse_stuck st pos"
  shows "pos < int (length st)" "\<exists>e. unpack_cllll (py_slice st pos (pos + 17)) = Inr (e, - 17)"
    "py_slice st (pos + 17) (pos + 17 + - 17) = []" "parse_stuck st (pos + 17 + - 17)"
proof -
  have s: "slice (slice st 40 57) 13 17 = slice st 53 57" if "57 \<le> length st"
    using that by (intro slice_eqI) simp_all
  show "\<exists>e. unpack_cllll (py_slice st pos (pos + 17)) = Inr (e, - 17)"
  proof -
    have st: "pos = 40" "57 \<le> length st" "slice st 53 57 = be4 (- 17)" using assms by (auto simp: parse_stuck_def)
    then have "length (slice st 40 57) = 17" by simp
    then show ?thesis using st s by (simp add: py_slice_nonneg unpack_cllll_def unbe4_be4 int32_def)
  qed
qed (use assms in \<open>auto simp: parse_stuck_def py_slice_nonneg slice_def\<close>)

lemma parse_loop_stuck: "parse_loop st pos dm cm = Some y \<Longrightarrow> \<not> parse_stuck st pos"
proof (erule parse_loop.raw_induct [where P = "\<lambda>st pos dm cm y. \<not> parse_stuck st pos", rotated], rule notI)
  fix loop st pos dm cm y
  assume ih: "\<And>st pos dm cm y. loop st pos dm cm = Some y \<Longrightarrow> \<not> parse_stuck st pos" and s: "parse_stuck st pos"
    and eq: "(if pos < int (length st)
      then (let pos2 = pos + 17 in
            case unpack_cllll (py_slice st pos pos2) of
              Inl e \<Rightarrow> Some (Inl e)
            | Inr (e, flen) \<Rightarrow>
                (case parse_name (py_slice st pos2 (pos2 + flen)) cm of
                   Inl err \<Rightarrow> Some (Inl err)
                 | Inr (f, cm') \<Rightarrow> loop st (pos2 + flen) (dict_set f e dm) cm'))
      else Some (Inr (dm, cm))) = Some y"
  obtain e where "unpack_cllll (py_slice st pos (pos + 17)) = Inr (e, - 17)" using parse_stuck_step(2) [OF s] by blast
  then have "loop st (pos + 17 + - 17) (dict_set [] e dm) cm = Some y"
    using eq parse_stuck_step(1,3) [OF s] by (simp add: Let_def parse_name_def)
  then show False using ih parse_stuck_step(4) [OF s] by blast
qed

text \<open>A name length of \<open>-17\<close> in the first record takes the parser back to that record.\<close>

lemma dirstate_length_diverges:
  "57 \<le> length st \<Longrightarrow> slice st 53 57 = be4 (- 17) \<Longrightarrow> parse_dirstate dm cm st = None"
  using parse_loop_stuck [of st 40 dm cm] by (cases "parse_loop st 40 dm cm") (auto simp: parse_dirstate_def parse_stuck_def)

end
