(* ===== verification/Index.thy ===== *)
theory Index
  imports Pybytes
begin

text \<open>
  The revlog index of \<open>pure/parsers.py\<close>: the 64-byte records of the format
  \<open>>Qiiiiii20s12x\<close>, the classes \<open>IndexObject\<close> (records back to back) and
  \<open>InlinedIndexObject\<close> (each record followed by the data of its revision), and
  \<open>revlogio\<close> of \<open>revlog.py\<close>, which writes the records. The main results: what
  is written is read back, entry by entry, for both layouts; insertion and
  deletion act on the index as on a list; the scan of an inline index does not
  end on some data with a negative length.
\<close>

unbundle bit_operations_syntax

section \<open>Nodes\<close>

type_synonym node = bytes

definition nullid :: node where
  "nullid = replicate 20 (CHR 0x00)"

definition wdirid :: node where
  "wdirid = replicate 20 (CHR 0xFF)"

definition wdirrev :: rev where
  "wdirrev = 2147483647"

section \<open>Packed 64-bit integers\<close>

definition be8 :: "int \<Rightarrow> bytes" where
  "be8 x = be4 (x div 4294967296) @ be4 x"

definition unbe :: "bytes \<Rightarrow> int" where
  "unbe s = foldl (\<lambda>v c. v * 256 + of_char c) 0 s"

definition unpack_i :: "bytes \<Rightarrow> int res" where
  "unpack_i s = (if length s = 4 then Inr (unbe4 s) else Inl StructError)"

lemma length_be8 [simp]: "length (be8 x) = 8"
  by (simp add: be8_def)

lemma foldl_be4: "foldl (\<lambda>v c. v * 256 + of_char c) v (be4 x) = v * 4294967296 + (x :: int) mod 4294967296"
proof -
  have "foldl (\<lambda>v c. v * 256 + of_char c) v (be4 x) = v * 4294967296 +
     (((x div 16777216 mod 256 * 256 + x div 65536 mod 256) * 256 + x div 256 mod 256) * 256 + x mod 256)"
    by (simp only: be4_def foldl.simps of_char_of) simp
  then show ?thesis by (simp only: base256_split)
qed

lemma unbe_be4s: "unbe (be4 x @ be4 y) = (x mod 4294967296) * 4294967296 + y mod 4294967296"
  by (simp add: unbe_def foldl_be4)

lemma div_mod_recombine:
  assumes "0 \<le> x" "x < 18446744073709551616"
  shows "(x div 4294967296 mod 4294967296) * 4294967296 + x mod 4294967296 = (x :: int)"
proof -
  have "x div 4294967296 < 4294967296"
    using assms(2) zdiv_mono1 [of x 18446744073709551615 4294967296] by simp
  moreover have "0 \<le> x div 4294967296" using assms(1) by simp
  ultimately have "x div 4294967296 mod 4294967296 = x div 4294967296"
    by (rule mod_pos_pos_trivial [rotated])
  then show ?thesis using div_mult_mod_eq [of x 4294967296] by simp
qed

lemma unbe_be8: "0 \<le> x \<Longrightarrow> x < 18446744073709551616 \<Longrightarrow> unbe (be8 x) = x"
  by (simp only: be8_def unbe_be4s div_mod_recombine)

section \<open>Index records\<close>

record ientry =
  e_offset_type :: int
  e_complen :: int
  e_rawlen :: int
  e_base :: rev
  e_link :: rev
  e_p1 :: rev
  e_p2 :: rev
  e_node :: node

definition indexsize :: nat where
  "indexsize = 64"

definition gettype :: "int \<Rightarrow> int" where
  "gettype q = q AND 0xFFFF"

definition offset_type :: "int \<Rightarrow> int \<Rightarrow> int" where
  "offset_type offset tp = push_bit 16 offset OR tp"

text \<open>\<open>struct.pack(">Qiiiiii20s12x", *e)\<close>; \<open>20s\<close> truncates and pads with zero bytes.\<close>

definition pack_20s :: "bytes \<Rightarrow> bytes" where
  "pack_20s s = take 20 s @ replicate (20 - length s) (CHR 0x00)"

definition indexformatng_pack :: "ientry \<Rightarrow> bytes res" where
  "indexformatng_pack e =
     (if 0 \<le> e_offset_type e \<and> e_offset_type e < 18446744073709551616 \<and> int32 (e_complen e)
         \<and> int32 (e_rawlen e) \<and> int32 (e_base e) \<and> int32 (e_link e) \<and> int32 (e_p1 e) \<and> int32 (e_p2 e)
      then Inr (be8 (e_offset_type e) @ be4 (e_complen e) @ be4 (e_rawlen e) @ be4 (e_base e)
                @ be4 (e_link e) @ be4 (e_p1 e) @ be4 (e_p2 e) @ pack_20s (e_node e)
                @ replicate 12 (CHR 0x00))
      else Inl StructError)"

definition unpack_entry :: "bytes \<Rightarrow> ientry res" where
  "unpack_entry s =
     (if length s = indexsize
      then Inr \<lparr> e_offset_type = unbe (slice s 0 8), e_complen = unbe4 (slice s 8 12),
                 e_rawlen = unbe4 (slice s 12 16), e_base = unbe4 (slice s 16 20),
                 e_link = unbe4 (slice s 20 24), e_p1 = unbe4 (slice s 24 28),
                 e_p2 = unbe4 (slice s 28 32), e_node = slice s 32 52 \<rparr>
      else Inl StructError)"

section \<open>revlogio\<close>

definition versionformat_pack :: "int \<Rightarrow> bytes res" where
  "versionformat_pack v = (if 0 \<le> v \<and> v < 4294967296 then Inr (be4 v) else Inl StructError)"

definition packentry :: "ientry \<Rightarrow> int \<Rightarrow> rev \<Rightarrow> bytes res" where
  "packentry e version r =
     bindE (indexformatng_pack e) (\<lambda>p.
       if r = 0 then bindE (versionformat_pack version) (\<lambda>v. Inr (v @ drop 4 p)) else Inr p)"

section \<open>Index objects\<close>

text \<open>
  \<open>io_offsets\<close> is \<open>None\<close> for an \<open>IndexObject\<close>, whose \<open>_calculate_index\<close> multiplies,
  and the list \<open>_offsets\<close> for an \<open>InlinedIndexObject\<close>.
\<close>

record index_object =
  io_data :: bytes
  io_lgt :: nat
  io_extra :: "ientry list"
  io_offsets :: "int list option"

definition null_entry :: ientry where
  "null_entry = \<lparr> e_offset_type = 0, e_complen = 0, e_rawlen = 0, e_base = nullrev, e_link = nullrev,
     e_p1 = nullrev, e_p2 = nullrev, e_node = nullid \<rparr>"

definition index_len :: "index_object \<Rightarrow> nat" where
  "index_len x = io_lgt x + length (io_extra x) + 1"

definition index_insert :: "int \<Rightarrow> ientry \<Rightarrow> index_object \<Rightarrow> index_object res" where
  "index_insert i tup x =
     (if i = - 1 then Inr (x \<lparr> io_extra := io_extra x @ [tup] \<rparr>) else Inl AssertionError)"

definition fix_index :: "index_object \<Rightarrow> int \<Rightarrow> nat res" where
  "fix_index x i =
     (let i = (if i < 0 then int (index_len x) + i else i)
      in if i < 0 \<or> int (index_len x) \<le> i then Inl IndexError else Inr (nat i))"

definition plain_calculate_index :: "nat \<Rightarrow> int res" where [simp]:
  "plain_calculate_index i = Inr (int i * int indexsize)"

definition inlined_calculate_index :: "int list \<Rightarrow> nat \<Rightarrow> int res" where [simp]:
  "inlined_calculate_index offs i = py_index offs i"

definition calculate_index :: "index_object \<Rightarrow> nat \<Rightarrow> int res" where
  "calculate_index x i =
     (case io_offsets x of None \<Rightarrow> plain_calculate_index i | Some offs \<Rightarrow> inlined_calculate_index offs i)"

definition index_getitem :: "index_object \<Rightarrow> int \<Rightarrow> ientry res" where
  "index_getitem x i =
     bindE (fix_index x i) (\<lambda>i.
       if i = index_len x - 1 then Inr null_entry
       else if io_lgt x \<le> i then py_index (io_extra x) (i - io_lgt x)
       else bindE (calculate_index x i) (\<lambda>index.
         bindE (unpack_entry (py_slice (io_data x) index (index + int indexsize))) (\<lambda>r.
           if i = 0 then Inr (r \<lparr> e_offset_type := offset_type 0 (gettype (e_offset_type r)) \<rparr>)
           else Inr r)))"

text \<open>\<open>del index[i:-1]\<close> of the two classes.\<close>

definition plain_delitem :: "int \<Rightarrow> index_object \<Rightarrow> index_object res" where [simp]:
  "plain_delitem start x =
     bindE (fix_index x start) (\<lambda>i.
       if i < io_lgt x
       then Inr (x \<lparr> io_data := take (i * indexsize) (io_data x), io_lgt := i, io_extra := [] \<rparr>)
       else Inr (x \<lparr> io_extra := take (i - io_lgt x) (io_extra x) \<rparr>))"

definition inlined_delitem :: "int list \<Rightarrow> int \<Rightarrow> index_object \<Rightarrow> index_object res" where [simp]:
  "inlined_delitem offs start x =
     bindE (fix_index x start) (\<lambda>i.
       if i < io_lgt x
       then Inr (x \<lparr> io_offsets := Some (take i offs), io_lgt := i, io_extra := [] \<rparr>)
       else Inr (x \<lparr> io_extra := take (i - io_lgt x) (io_extra x) \<rparr>))"

definition index_delitem :: "int \<Rightarrow> index_object \<Rightarrow> index_object res" where
  "index_delitem start x =
     (case io_offsets x of None \<Rightarrow> plain_delitem start x | Some offs \<Rightarrow> inlined_delitem offs start x)"

definition IndexObject :: "bytes \<Rightarrow> index_object res" where
  "IndexObject data =
     (if length data mod indexsize = 0
      then Inr \<lparr> io_data = data, io_lgt = length data div indexsize, io_extra = [], io_offsets = None \<rparr>
      else Inl AssertionError)"

text \<open>
  \<open>_inline_scan\<close>: without \<open>lgt\<close> it counts the records, with it it also stores
  their offsets. A stored length may be negative, so the loop need not end.
\<close>

definition store_offset :: "int list option \<Rightarrow> nat \<Rightarrow> int \<Rightarrow> int list option res" where
  "store_offset offs count off =
     (case offs of
        None \<Rightarrow> Inr None
      | Some os \<Rightarrow> if count < length os then Inr (Some (os[count := off])) else Inl IndexError)"

partial_function (option) scan_loop ::
    "bytes \<Rightarrow> int \<Rightarrow> nat \<Rightarrow> int list option \<Rightarrow> (nat \<times> int list option) res option" where
  "scan_loop data off count offs =
     (if off \<le> int (length data) - int indexsize
      then (case unpack_i (py_slice data (off + 8) (off + 12)) of
              Inl e \<Rightarrow> Some (Inl e)
            | Inr s \<Rightarrow>
                (case store_offset offs count off of
                   Inl e \<Rightarrow> Some (Inl e)
                 | Inr offs' \<Rightarrow> scan_loop data (off + int indexsize + s) (count + 1) offs'))
      else if off \<noteq> int (length data) then Some (Inl ValueError)
      else Some (Inr (count, offs)))"

definition inline_scan :: "bytes \<Rightarrow> nat option \<Rightarrow> (nat \<times> int list option) res option" where
  "inline_scan data lgt =
     scan_loop data 0 0 (case lgt of None \<Rightarrow> None | Some n \<Rightarrow> Some (replicate n 0))"

definition InlinedIndexObject :: "bytes \<Rightarrow> index_object res option" where
  "InlinedIndexObject data =
     (case inline_scan data None of
        None \<Rightarrow> None
      | Some (Inl e) \<Rightarrow> Some (Inl e)
      | Some (Inr (lgt, _)) \<Rightarrow>
          (case inline_scan data (Some lgt) of
             None \<Rightarrow> None
           | Some (Inl e) \<Rightarrow> Some (Inl e)
           | Some (Inr (_, offs)) \<Rightarrow>
               Some (Inr \<lparr> io_data = data, io_lgt = lgt, io_extra = [], io_offsets = offs \<rparr>)))"

definition parse_index2 :: "bytes \<Rightarrow> bool \<Rightarrow> (index_object \<times> (int \<times> bytes) option) res option" where
  "parse_index2 data inline =
     (if \<not> inline then Some (bindE (IndexObject data) (\<lambda>x. Inr (x, None)))
      else map_option (\<lambda>r. bindE r (\<lambda>x. Inr (x, Some (0, data)))) (InlinedIndexObject data))"

section \<open>Reading back a record\<close>

definition entry_ok :: "ientry \<Rightarrow> bool" where
  "entry_ok e \<longleftrightarrow> 0 \<le> e_offset_type e \<and> e_offset_type e < 18446744073709551616 \<and> int32 (e_complen e)
     \<and> int32 (e_rawlen e) \<and> int32 (e_base e) \<and> int32 (e_link e) \<and> int32 (e_p1 e) \<and> int32 (e_p2 e)
     \<and> length (e_node e) = 20"

text \<open>What is stored after the first four bytes, which the version of the revlog may overwrite.\<close>

definition entry_tail :: "ientry \<Rightarrow> bytes" where
  "entry_tail e = be4 (e_offset_type e) @ be4 (e_complen e) @ be4 (e_rawlen e) @ be4 (e_base e)
     @ be4 (e_link e) @ be4 (e_p1 e) @ be4 (e_p2 e) @ e_node e @ replicate 12 (CHR 0x00)"

lemma slice_append_left: "j \<le> length xs \<Longrightarrow> slice (xs @ ys) i j = slice xs i j"
  by (simp add: slice_def)

lemma slice_append_right:
  "length xs \<le> i \<Longrightarrow> slice (xs @ ys) i j = slice ys (i - length xs) (j - length xs)"
  by (simp add: slice_def)

lemmas slice_appends = slice_append_left slice_append_right slice_all

lemma unpack_entry_tail:
  assumes "entry_ok e" "length h = 4"
  shows "unpack_entry (h @ entry_tail e) = Inr (e \<lparr> e_offset_type := unbe (h @ be4 (e_offset_type e)) \<rparr>)"
proof -
  have l: "length (h @ entry_tail e) = 64"
    using assms by (simp add: entry_tail_def entry_ok_def)
  have s: "slice (h @ entry_tail e) 0 8 = h @ be4 (e_offset_type e)"
    using assms by (simp add: entry_tail_def slice_def)
  show ?thesis
    using assms l s
    by (simp add: unpack_entry_def indexsize_def entry_tail_def entry_ok_def slice_appends unbe4_be4)
qed

lemma pack_entry_tail:
  "entry_ok e \<Longrightarrow> indexformatng_pack e = Inr (be4 (e_offset_type e div 4294967296) @ entry_tail e)"
  by (simp add: indexformatng_pack_def entry_ok_def entry_tail_def be8_def pack_20s_def)

lemma length_entry_tail: "entry_ok e \<Longrightarrow> length (entry_tail e) = 60"
  by (simp add: entry_tail_def entry_ok_def)

lemma unpack_pack_entry: "entry_ok e \<Longrightarrow> indexformatng_pack e = Inr p \<Longrightarrow> unpack_entry p = Inr e"
proof -
  assume e: "entry_ok e" and p: "indexformatng_pack e = Inr p"
  have "unbe (be4 (e_offset_type e div 4294967296) @ be4 (e_offset_type e)) = e_offset_type e"
    using e unbe_be8 [of "e_offset_type e"] by (simp add: entry_ok_def be8_def)
  then show ?thesis
    using p unpack_entry_tail [OF e, of "be4 (e_offset_type e div 4294967296)"]
    by (simp add: pack_entry_tail [OF e])
qed

lemma gettype_mod: "gettype q = q mod 65536"
  using take_bit_eq_mask [of 16 q] by (simp add: gettype_def take_bit_eq_mod mask_eq_exp_minus_1)

lemma offset_type_0 [simp]: "offset_type 0 t = t"
  by (simp add: offset_type_def)

lemma mod_high: "(a * 4294967296 + y mod 4294967296) mod 65536 = (y :: int) mod 65536"
proof -
  have "(a * 4294967296 + y mod 4294967296) mod 65536 = (y mod 4294967296) mod 65536"
    using mod_mult_self1 [of "y mod 4294967296" "a * 65536" 65536] by (simp add: algebra_simps)
  also have "\<dots> = y mod 65536" by (simp add: mod_mod_cancel)
  finally show ?thesis .
qed

text \<open>The first record, whose first four bytes hold the version.\<close>

lemma unpack_first_entry:
  assumes "entry_ok e" "e_offset_type e < 65536" "versionformat_pack version = Inr v"
  shows "\<exists>r. unpack_entry (v @ entry_tail e) = Inr r \<and>
    r \<lparr> e_offset_type := offset_type 0 (gettype (e_offset_type r)) \<rparr> = e"
proof -
  have v: "v = be4 version" using assms(3) by (simp add: versionformat_pack_def split: if_splits)
  have "gettype (unbe (v @ be4 (e_offset_type e))) = e_offset_type e"
    using assms(1,2) unfolding v gettype_mod unbe_be4s mod_high by (simp add: entry_ok_def)
  then show ?thesis
    using unpack_entry_tail [OF assms(1), of v] v by auto
qed

lemma packentry_form:
  assumes "entry_ok e" "packentry e version r = Inr p"
  shows "\<exists>h. length h = 4 \<and> p = h @ entry_tail e \<and>
    (if r = 0 then versionformat_pack version = Inr h else h = be4 (e_offset_type e div 4294967296))"
  using assms
  by (auto simp: packentry_def pack_entry_tail versionformat_pack_def bindE_Inr_iff split: if_splits)

lemma length_packentry: "entry_ok e \<Longrightarrow> packentry e version r = Inr p \<Longrightarrow> length p = 64"
  by (frule (1) packentry_form) (auto simp: length_entry_tail)

lemma packentry_complen:
  assumes "entry_ok e" "packentry e version r = Inr p"
  shows "slice p 8 12 = be4 (e_complen e)"
  using packentry_form [OF assms] by (auto simp: entry_tail_def slice_appends)

text \<open>What \<open>__getitem__\<close> makes of a packed record.\<close>

lemma unpack_packentry:
  assumes "entry_ok e" "packentry e version r = Inr p" "r = 0 \<Longrightarrow> e_offset_type e < 65536"
  shows "bindE (unpack_entry p) (\<lambda>r'. if r = 0
      then Inr (r' \<lparr> e_offset_type := offset_type 0 (gettype (e_offset_type r')) \<rparr>) else Inr r') = Inr e"
proof (cases "r = 0")
  case True
  then obtain h where h: "p = h @ entry_tail e" "versionformat_pack version = Inr h"
    using packentry_form [OF assms(1,2)] by auto
  then show ?thesis using unpack_first_entry [OF assms(1) assms(3) [OF True] h(2)] True by auto
next
  case False
  then have "indexformatng_pack e = Inr p"
    using assms(2) by (auto simp: packentry_def bindE_Inr_iff)
  then show ?thesis using unpack_pack_entry [OF assms(1)] False by simp
qed

section \<open>Reading back an index\<close>

text \<open>
  An index file with the revisions \<open>xs\<close>: each record as \<open>revlogio.packentry\<close> writes
  it, followed by the data that is stored with it (none when the data has a file of its own).
\<close>

fun index_image :: "int \<Rightarrow> rev \<Rightarrow> (ientry \<times> bytes) list \<Rightarrow> bytes res" where
  "index_image version r [] = Inr []"
| "index_image version r ((e, c) # xs) =
     bindE (packentry e version r) (\<lambda>p.
       bindE (index_image version (r + 1) xs) (\<lambda>rest. Inr (p @ c @ rest)))"

fun offsets_from :: "int \<Rightarrow> (ientry \<times> bytes) list \<Rightarrow> int list" where
  "offsets_from off [] = []"
| "offsets_from off ((e, c) # xs) = off # offsets_from (off + int indexsize + int (length c)) xs"

lemma length_offsets_from [simp]: "length (offsets_from off xs) = length xs"
  by (induction off xs rule: offsets_from.induct) auto

lemma index_image_nth:
  assumes "index_image version r xs = Inr img" "\<forall>(e, c) \<in> set xs. entry_ok e" "i < length xs"
  shows "\<exists>p pre post. packentry (fst (xs ! i)) version (r + int i) = Inr p \<and> img = pre @ p @ post
    \<and> off + int (length pre) = offsets_from off xs ! i"
  using assms
proof (induction version r xs arbitrary: img i off rule: index_image.induct)
  case (2 version r e c xs)
  then obtain p rest where p: "packentry e version r = Inr p"
    and rest: "index_image version (r + 1) xs = Inr rest" and img: "img = p @ c @ rest"
    by (auto simp: bindE_Inr_iff)
  show ?case
  proof (cases i)
    case 0
    then show ?thesis using p img by (auto intro!: exI [of _ p] exI [of _ "[]"])
  next
    case (Suc j)
    with "2.IH" [OF rest, of j "off + int indexsize + int (length c)"] "2.prems" obtain q pre post where
      q: "packentry (fst (xs ! j)) version (r + 1 + int j) = Inr q" "rest = pre @ q @ post"
         "off + int indexsize + int (length c) + int (length pre)
            = offsets_from (off + int indexsize + int (length c)) xs ! j"
      by auto
    have "length p = 64" using length_packentry p "2.prems"(2) by auto
    then show ?thesis using q img Suc
      by (intro exI [of _ q] exI [of _ "p @ c @ pre"] exI [of _ post])
         (simp add: algebra_simps indexsize_def)
  qed
qed simp

lemma py_slice_mid:
  "length p = n \<Longrightarrow> py_slice (pre @ p @ post) (int (length pre)) (int (length pre) + int n) = p"
  by (simp add: py_slice_nonneg slice_def nat_add_distrib)

lemma slice_mid_sub:
  assumes "j \<le> length p" "i \<le> j"
  shows "py_slice (pre @ p @ post) (int (length pre) + int i) (int (length pre) + int j) = slice p i j"
  using assms by (simp add: py_slice_nonneg slice_append_left slice_append_right nat_add_distrib)

lemma scan_loop_step:
  assumes "data = pre @ p @ post" "length p = 64" "slice p 8 12 = be4 n" "int32 n"
    and "store_offset offs count (int (length pre)) = Inr offs'"
  shows "scan_loop data (int (length pre)) count offs
    = scan_loop data (int (length pre) + 64 + n) (count + 1) offs'"
proof -
  have "py_slice data (int (length pre) + 8) (int (length pre) + 12) = be4 n"
    using slice_mid_sub [of 12 p 8 pre post] assms(1-3) by simp
  then show ?thesis
    using assms by (subst scan_loop.simps) (simp add: unpack_i_def unbe4_be4 indexsize_def)
qed

lemma scan_loop_image:
  assumes "index_image version r xs = Inr img" "data = pre @ img"
    and "\<forall>(e, c) \<in> set xs. entry_ok e \<and> e_complen e = int (length c)"
    and "case offs of None \<Rightarrow> True | Some os \<Rightarrow> length os = count + length xs"
  shows "scan_loop data (int (length pre)) count offs = Some (Inr (count + length xs,
    map_option (\<lambda>os. take count os @ offsets_from (int (length pre)) xs) offs))"
  using assms
proof (induction version r xs arbitrary: img pre count offs rule: index_image.induct)
  case (1 version r)
  then show ?case
    by (subst scan_loop.simps) (simp add: indexsize_def option.map_ident split: option.splits)
next
  case (2 version r e c xs)
  then obtain p rest where p: "packentry e version r = Inr p"
    and rest: "index_image version (r + 1) xs = Inr rest" and img: "img = p @ c @ rest"
    by (auto simp: bindE_Inr_iff)
  have e: "entry_ok e" "e_complen e = int (length c)" using "2.prems"(3) by auto
  have lp: "length p = 64" using length_packentry e p by auto
  define offs' where "offs' = map_option (\<lambda>os. os[count := int (length pre)]) offs"
  have "store_offset offs count (int (length pre)) = Inr offs'"
    using "2.prems"(4) by (auto simp: store_offset_def offs'_def split: option.splits)
  then have "scan_loop data (int (length pre)) count offs
      = scan_loop data (int (length pre) + 64 + int (length c)) (count + 1) offs'"
    using scan_loop_step [of data pre p "c @ rest" "int (length c)" offs count offs'] lp
      packentry_complen [OF e(1) p] e img "2.prems"(2) by (simp add: entry_ok_def)
  moreover have "scan_loop data (int (length (pre @ p @ c))) (count + 1) offs' = Some (Inr (count + 1 + length xs,
      map_option (\<lambda>os. take (count + 1) os @ offsets_from (int (length (pre @ p @ c))) xs) offs'))"
    using "2.prems" img by (intro "2.IH" [OF rest]) (auto simp: offs'_def split: option.splits)
  moreover have "take (count + 1) (os[count := x]) = take count os @ [x]" if "offs = Some os" for os x
    using that "2.prems"(4) by (simp add: take_Suc_conv_app_nth)
  ultimately show ?case
    using lp by (cases offs) (auto simp: offs'_def indexsize_def algebra_simps)
qed

text \<open>An index object that was parsed from an image, with revisions inserted since.\<close>

definition index_entries :: "index_object \<Rightarrow> ientry list \<Rightarrow> bool" where
  "index_entries x es \<longleftrightarrow> index_len x = length es + 1 \<and> (\<forall>i < length es. index_getitem x (int i) = Inr (es ! i))"

definition image_ok :: "(ientry \<times> bytes) list \<Rightarrow> bool" where
  "image_ok xs \<longleftrightarrow> (\<forall>(e, c) \<in> set xs. entry_ok e) \<and> (xs \<noteq> [] \<longrightarrow> e_offset_type (fst (hd xs)) < 65536)"

lemma getitem_image:
  assumes "index_image version 0 xs = Inr img" "image_ok xs" "i < length xs"
    and x: "io_data x = img" "io_lgt x = length xs" "io_extra x = []"
    and c: "calculate_index x i = Inr (offsets_from 0 xs ! i)"
  shows "index_getitem x (int i) = Inr (fst (xs ! i))"
proof -
  have ok: "\<forall>(e, c) \<in> set xs. entry_ok e" using assms(2) by (simp add: image_ok_def)
  obtain p pre post where p: "packentry (fst (xs ! i)) version (int i) = Inr p"
    and img: "img = pre @ p @ post" and off: "int (length pre) = offsets_from 0 xs ! i"
    using index_image_nth [OF assms(1) ok assms(3), of 0] by auto
  have e: "entry_ok (fst (xs ! i))" using ok nth_mem [OF assms(3)] by force
  have z: "e_offset_type (fst (xs ! i)) < 65536" if "int i = 0"
    using assms(2,3) that by (auto simp: image_ok_def hd_conv_nth)
  have "py_slice img (offsets_from 0 xs ! i) (offsets_from 0 xs ! i + int indexsize) = p"
    using py_slice_mid [of p 64 pre post] length_packentry [OF e p] off img by (simp add: indexsize_def)
  then show ?thesis
    using unpack_packentry [OF e p z] assms(3) x c
    by (simp add: index_getitem_def fix_index_def index_len_def Let_def)
qed

lemma parse_inline:
  assumes "index_image version 0 xs = Inr img" "image_ok xs"
    and "\<forall>(e, c) \<in> set xs. e_complen e = int (length c)"
  shows "parse_index2 img True = Some (Inr (\<lparr> io_data = img, io_lgt = length xs, io_extra = [],
    io_offsets = Some (offsets_from 0 xs) \<rparr>, Some (0, img)))"
proof -
  have ok: "\<forall>(e, c) \<in> set xs. entry_ok e \<and> e_complen e = int (length c)"
    using assms(2,3) by (auto simp: image_ok_def)
  have "inline_scan img None = Some (Inr (length xs, None))"
    using scan_loop_image [of version 0 xs img img "[]" 0 None] assms(1) ok by (simp add: inline_scan_def)
  moreover have "inline_scan img (Some (length xs)) = Some (Inr (length xs, Some (offsets_from 0 xs)))"
    using scan_loop_image [of version 0 xs img img "[]" 0 "Some (replicate (length xs) 0)"] assms(1) ok
    by (simp add: inline_scan_def)
  ultimately show ?thesis by (simp add: parse_index2_def InlinedIndexObject_def)
qed

lemma image_plain:
  assumes "index_image version r (map (\<lambda>e. (e, [])) es) = Inr img" "\<forall>e \<in> set es. entry_ok e"
  shows "length img = indexsize * length es"
  using assms
proof (induction es arbitrary: r img)
  case (Cons e es)
  then show ?case
    by (auto simp: bindE_Inr_iff indexsize_def dest: length_packentry)
qed simp

lemma offsets_plain: "i < length es \<Longrightarrow>
    offsets_from off (map (\<lambda>e. (e, [])) es) ! i = off + int i * int indexsize"
proof (induction es arbitrary: i off)
  case (Cons e es)
  then show ?case by (cases i) (auto simp: algebra_simps)
qed simp

lemma parse_plain:
  assumes "index_image version 0 (map (\<lambda>e. (e, [])) es) = Inr img" "\<forall>e \<in> set es. entry_ok e"
  shows "parse_index2 img False = Some (Inr (\<lparr> io_data = img, io_lgt = length es, io_extra = [],
    io_offsets = None \<rparr>, None))"
  using image_plain [OF assms] by (simp add: parse_index2_def IndexObject_def indexsize_def)

text \<open>
  (C34) Reading an index back. Write the records of the revisions \<open>xs\<close> with
  \<open>packentry\<close> (the version in the first four bytes of the first one), each followed by the
  data stored with it, and parse the file: as an inline index when the data lengths
  are the stored ones, as a plain index when there is no data in between.
  \<open>parse_index2\<close> returns an index object, its length is the number of revisions
  plus one, looking up \<open>i\<close> gives the record of revision \<open>i\<close>, and \<open>-1\<close> the null record.
\<close>

theorem index_roundtrip:
  assumes "index_image version 0 xs = Inr img" "image_ok xs"
    and "if inline then \<forall>(e, c) \<in> set xs. e_complen e = int (length c) else \<forall>(e, c) \<in> set xs. c = []"
  shows "\<exists>x cache. parse_index2 img inline = Some (Inr (x, cache)) \<and> index_entries x (map fst xs)
    \<and> index_getitem x nullrev = Inr null_entry"
proof (cases inline)
  case True
  with assms show ?thesis
    by (auto simp: parse_inline index_entries_def index_len_def calculate_index_def
        intro!: getitem_image) (simp add: index_getitem_def fix_index_def index_len_def)
next
  case False
  have xs: "xs = map (\<lambda>e. (e, [])) (map fst xs)"
    using assms(3) False by (auto intro!: nth_equalityI simp: split_beta) (metis nth_mem prod.collapse)
  have e: "\<forall>e \<in> set (map fst xs). entry_ok e" using assms(2) by (auto simp: image_ok_def)
  have off: "offsets_from 0 xs ! i = int i * int indexsize" if "i < length xs" for i
    using offsets_plain [of i "map fst xs" 0] that xs by simp
  have p: "parse_index2 img False = Some (Inr (\<lparr> io_data = img, io_lgt = length xs, io_extra = [],
      io_offsets = None \<rparr>, None))"
    using parse_plain [of version "map fst xs" img] assms(1) xs e by simp
  with False show ?thesis
    using assms(1,2) by (auto simp: index_entries_def index_len_def calculate_index_def off
        intro!: getitem_image) (simp add: index_getitem_def fix_index_def index_len_def)
qed

definition ex_entries :: "(ientry \<times> bytes) list" where
  "ex_entries =
     [(\<lparr> e_offset_type = 0, e_complen = 2, e_rawlen = 2, e_base = 0, e_link = 0, e_p1 = nullrev,
         e_p2 = nullrev, e_node = replicate 20 (CHR ''a'') \<rparr>, ''ux''),
      (\<lparr> e_offset_type = 131072, e_complen = 3, e_rawlen = 3, e_base = 1, e_link = 1, e_p1 = 0,
         e_p2 = nullrev, e_node = replicate 20 (CHR ''b'') \<rparr>, ''uyz'')]"

theorem index_roundtrip_witness:
  "\<exists>img x cache. index_image 65537 0 ex_entries = Inr img
    \<and> parse_index2 img True = Some (Inr (x, cache)) \<and> index_entries x (map fst ex_entries)
    \<and> index_getitem x nullrev = Inr null_entry"
proof -
  have "\<exists>img. index_image 65537 0 ex_entries = Inr img"
    by (simp add: ex_entries_def packentry_def indexformatng_pack_def versionformat_pack_def int32_def)
  moreover have "image_ok ex_entries"
    by (simp add: ex_entries_def image_ok_def entry_ok_def int32_def)
  moreover have "if True then \<forall>(e, c) \<in> set ex_entries. e_complen e = int (length c)
      else \<forall>(e, c) \<in> set ex_entries. c = []"
    by (simp add: ex_entries_def)
  ultimately show ?thesis using index_roundtrip [of 65537 ex_entries _ True] by metis
qed

section \<open>The index as a list of records\<close>

lemma index_entries_null: "index_getitem x nullrev = Inr null_entry"
  by (simp add: index_getitem_def fix_index_def index_len_def nat_add_distrib)

lemma index_entries_insert:
  assumes "index_entries x es"
  shows "\<exists>x'. index_insert (- 1) e x = Inr x' \<and> index_entries x' (es @ [e])"
proof -
  define x' where "x' = x \<lparr> io_extra := io_extra x @ [e] \<rparr>"
  have len: "index_len x' = Suc (index_len x)" "index_len x = length es + 1"
    using assms by (auto simp: x'_def index_len_def index_entries_def)
  have "index_getitem x' (int i) = Inr ((es @ [e]) ! i)" if i: "i < length es + 1" for i
  proof (cases "i = length es")
    case True
    have "io_lgt x \<le> i" "i - io_lgt x = length (io_extra x)"
      using True len(2) by (auto simp: index_len_def)
    then show ?thesis
      using True len by (simp add: index_getitem_def fix_index_def Let_def x'_def)
  next
    case False
    then have "i < length es" using i by simp
    moreover have "index_getitem x' (int i) = index_getitem x (int i)"
      using len \<open>i < length es\<close>
      by (auto simp: index_getitem_def fix_index_def Let_def x'_def calculate_index_def py_index_def
          nth_append index_len_def)
    ultimately show ?thesis using assms by (simp add: index_entries_def nth_append)
  qed
  then show ?thesis
    using len by (auto simp: index_insert_def index_entries_def x'_def)
qed

lemma slice_take: "j \<le> n \<Longrightarrow> slice (take n xs) i j = slice xs i j"
  by (simp add: slice_def drop_take min_absorb1)

lemma index_entries_delete:
  assumes "index_entries x es" "n \<le> length es"
  shows "\<exists>x'. index_delitem (int n) x = Inr x' \<and> index_entries x' (take n es)"
proof -
  have len: "index_len x = length es + 1" using assms(1) by (simp add: index_entries_def)
  then have fi: "fix_index x (int n) = Inr n" using assms(2) by (simp add: fix_index_def Let_def)
  then obtain x' where x': "index_delitem (int n) x = Inr x'"
    by (cases "n < io_lgt x"; cases "io_offsets x") (auto simp: index_delitem_def)
  have len': "index_len x' = Suc n"
    using x' fi len assms(2) by (auto simp: index_delitem_def index_len_def split: if_splits option.splits)
  have "index_getitem x' (int i) = index_getitem x (int i)" if i: "i < n" for i
  proof -
    have fi': "fix_index x' (int i) = Inr i" "fix_index x (int i) = Inr i"
      using i len len' assms(2) by (simp_all add: fix_index_def Let_def)
    have i64: "i * indexsize + indexsize \<le> n * indexsize"
      using i mult_le_mono1 [of "Suc i" n indexsize] by simp
    then have "py_slice (take (n * indexsize) d) (int i * int indexsize) (int i * int indexsize + int indexsize)
        = py_slice d (int i * int indexsize) (int i * int indexsize + int indexsize)" for d :: bytes
      by (simp add: py_slice_nonneg nat_add_distrib nat_mult_distrib slice_take)
    then show ?thesis
      using x' fi fi' i len len' assms(2)
      by (auto simp: index_delitem_def index_getitem_def calculate_index_def py_index_def
          split: if_splits option.splits)
  qed
  then show ?thesis
    using x' len' assms by (auto simp: index_entries_def)
qed

section \<open>An inline index whose scan does not end\<close>

definition stuck :: "bytes \<Rightarrow> int \<Rightarrow> int list option \<Rightarrow> bool" where
  "stuck data off offs \<longleftrightarrow> 64 \<le> length data \<and> slice data 8 12 = be4 (- 64) \<and> off = 0 \<and> offs = None"

lemma stuck_step:
  assumes "stuck data off offs"
  shows "off \<le> int (length data) - int indexsize" "store_offset offs count off = Inr offs"
    "unpack_i (py_slice data (off + 8) (off + 12)) = Inr (- 64)" "off + int indexsize - 64 = off"
  using assms
  by (simp_all add: stuck_def indexsize_def py_slice_nonneg unpack_i_def store_offset_def unbe4_be4 int32_def)

lemma scan_loop_stuck: "scan_loop data off count offs = Some y \<Longrightarrow> \<not> stuck data off offs"
  by (erule scan_loop.raw_induct [where P = "\<lambda>data off count offs y. \<not> stuck data off offs", rotated])
     (auto simp: stuck_step)

text \<open>A stored length of \<open>-64\<close> in the first record takes the scan back to where it was.\<close>

lemma negative_length_diverges:
  "64 \<le> length d \<Longrightarrow> slice d 8 12 = be4 (- 64) \<Longrightarrow> parse_index2 d True = None"
  using scan_loop_stuck [of d 0 0 None]
  by (cases "scan_loop d 0 0 None")
     (auto simp: stuck_def parse_index2_def InlinedIndexObject_def inline_scan_def)

end
