(* ===== verification/Dagutil.thy ===== *)
theory Dagutil
  imports Ancestor Pydict Index
begin

text \<open>
  The graph interface of \<open>dagutil.py\<close>: \<open>revlogdag\<close>, the graph of a revlog, with its walks and
  \<open>linearize\<close>, and \<open>inverserevlogdag\<close>, the same graph with children in place of parents, which
  it collects lazily while it is asked. A revlog is seen through its length, the parents
  of a revision (columns 5 and 6 of the index), its nodes, its node map and its
  heads. Methods that update their object return it.
\<close>

section \<open>A revlog as the graph sees it\<close>

record revlog =
  rl_len :: nat
  rl_parents :: "rev \<Rightarrow> rev \<times> rev"
  rl_node :: "rev \<Rightarrow> node"
  rl_nodemap :: "node \<Rightarrow> rev option"
  rl_filtered :: "rev set"
  rl_headrevs :: "rev list"

text \<open>\<open>revlog.parentrevs\<close>\<close>

definition parentrevs :: "revlog \<Rightarrow> pfunc" where
  "parentrevs rl r = [fst (rl_parents rl r), snd (rl_parents rl r)]"

text \<open>\<open>idx[-1]\<close> is the null entry; parents have smaller numbers; nodes are unique.\<close>

definition revlog_ok :: "revlog \<Rightarrow> bool" where
  "revlog_ok rl \<longleftrightarrow> topo (parentrevs rl) \<and> rl_parents rl nullrev = (nullrev, nullrev) \<and>
     rl_node rl nullrev = nullid \<and> rl_nodemap rl nullid = Some nullrev \<and>
     (\<forall>r. 0 \<le> r \<longrightarrow> r < int (rl_len rl) \<longrightarrow> rl_nodemap rl (rl_node rl r) = Some r) \<and>
     (\<forall>n r. rl_nodemap rl n = Some r \<longrightarrow> rl_node rl r = n \<and> nullrev \<le> r \<and> r < int (rl_len rl))"

section \<open>Nodes and revisions\<close>

definition externalize :: "revlog \<Rightarrow> rev \<Rightarrow> node" where
  "externalize rl ix = rl_node rl ix"

definition externalizeall :: "revlog \<Rightarrow> rev list \<Rightarrow> node list" where
  "externalizeall rl ixs = map (rl_node rl) ixs"

definition revlog_rev :: "revlog \<Rightarrow> node \<Rightarrow> rev res" where
  "revlog_rev rl n = (case rl_nodemap rl n of Some r \<Rightarrow> Inr r | None \<Rightarrow>
     if n = wdirid then Inl WdirUnsupported else Inl (LookupError ''no node''))"

definition internalize :: "revlog \<Rightarrow> node \<Rightarrow> rev res" where
  "internalize rl n = bindE (revlog_rev rl n) (\<lambda>ix. if ix = nullrev then Inl (LookupError ''nullid'') else Inr ix)"

fun internalize_each :: "revlog \<Rightarrow> node list \<Rightarrow> rev list res" where
  "internalize_each rl [] = Inr []"
| "internalize_each rl (n # ns) = bindE (internalize rl n) (\<lambda>r. bindE (internalize_each rl ns) (\<lambda>rs. Inr (r # rs)))"

definition known_rev :: "revlog \<Rightarrow> node \<Rightarrow> rev list" where
  "known_rev rl n = (case rl_nodemap rl n of None \<Rightarrow> [] | Some r \<Rightarrow> if r \<noteq> nullrev \<and> r \<notin> rl_filtered rl then [r] else [])"

definition internalizeall :: "revlog \<Rightarrow> node list \<Rightarrow> bool \<Rightarrow> rev list res" where
  "internalizeall rl ns filterunknown =
     (if filterunknown then Inr (concat (map (known_rev rl) ns)) else internalize_each rl ns)"

section \<open>revlogdag\<close>

definition dag_parents :: "revlog \<Rightarrow> rev \<Rightarrow> rev list" where
  "dag_parents rl ix =
     (case rl_parents rl ix of (prev, prev2) \<Rightarrow>
        if prev \<noteq> nullrev then (if prev2 = nullrev then [prev] else [prev, prev2])
        else if prev2 \<noteq> nullrev then [prev2] else [])"

definition getheads :: "revlog \<Rightarrow> rev list" where
  "getheads rl = filter (\<lambda>r. r \<noteq> nullrev) (rl_headrevs rl)"

text \<open>\<open>heads()\<close> with the given local subset, or the heads of the revlog.\<close>

definition dag_heads :: "revlog \<Rightarrow> rev list option \<Rightarrow> rev list" where
  "dag_heads rl localsubset = (case localsubset of None \<Rightarrow> getheads rl | Some hs \<Rightarrow> hs)"

partial_function (option) ancestor_loop :: "revlog \<Rightarrow> rev set \<Rightarrow> rev list \<Rightarrow> rev set \<Rightarrow> rev set option" where
  "ancestor_loop rl stops pending seen =
     (if pending = [] then Some seen
      else let r = List.last pending; pending = butlast pending
           in if r \<notin> seen \<and> r \<notin> stops
              then ancestor_loop rl stops
                     (pending @ filter (\<lambda>p. p \<noteq> nullrev) [fst (rl_parents rl r), snd (rl_parents rl r)]) (insert r seen)
              else ancestor_loop rl stops pending seen)"

definition ancestorset :: "revlog \<Rightarrow> rev list \<Rightarrow> rev set \<Rightarrow> rev set option" where
  "ancestorset rl starts stops = ancestor_loop rl stops starts {}"

fun discard_parents :: "revlog \<Rightarrow> rev list \<Rightarrow> rev set \<Rightarrow> rev set" where
  "discard_parents rl [] hs = hs"
| "discard_parents rl (r # rs) hs =
     discard_parents rl rs (hs - {p. p \<noteq> nullrev \<and> (p = fst (rl_parents rl r) \<or> p = snd (rl_parents rl r))})"

definition headsetofconnecteds :: "revlog \<Rightarrow> rev list \<Rightarrow> rev set res" where
  "headsetofconnecteds rl ixs =
     (if ixs = [] then Inr {}
      else let hs = discard_parents rl ixs (set ixs)
           in if hs = {} then Inl AssertionError else Inr hs)"

text \<open>
  \<open>linearize\<close> of a set, given in some order of iteration. A revision on the stack whose
  ancestors have been visited is stored as \<open>-cur - 1\<close>.
\<close>

partial_function (option) linearize_loop ::
    "revlog \<Rightarrow> rev set \<Rightarrow> rev list \<Rightarrow> rev list \<Rightarrow> rev set \<Rightarrow> rev list option" where
  "linearize_loop rl ixs visit out finished =
     (if visit = [] then Some out
      else let cur = List.last visit; visit = butlast visit
           in if cur < 0
              then (if - cur - 1 \<notin> finished
                    then linearize_loop rl ixs visit (out @ [- cur - 1]) (insert (- cur - 1) finished)
                    else linearize_loop rl ixs visit out finished)
              else linearize_loop rl ixs
                     (visit @ [- cur - 1] @ filter (\<lambda>p. p \<in> ixs \<and> p \<notin> finished) (dag_parents rl cur)) out finished)"

definition linearize :: "revlog \<Rightarrow> rev list \<Rightarrow> rev list res option" where
  "linearize rl ixs =
     (case headsetofconnecteds rl ixs of
        Inl e \<Rightarrow> Some (Inl e)
      | Inr hs \<Rightarrow>
          map_option (\<lambda>out. if length out = length ixs then Inr out else Inl AssertionError)
            (linearize_loop rl (set ixs) (List.rev (sorted_list_of_set hs)) [] {}))"

section \<open>inverserevlogdag\<close>

record inversedag =
  inv_children :: "(rev, rev list) dict"
  inv_roots :: "rev list"
  inv_walkfrom :: rev

definition inverse :: "revlog \<Rightarrow> inversedag" where
  "inverse rl = \<lparr> inv_children = [], inv_roots = [], inv_walkfrom = int (rl_len rl) - 1 \<rparr>"

definition add_child :: "rev \<Rightarrow> (rev, rev list) dict \<Rightarrow> rev \<Rightarrow> (rev, rev list) dict" where
  "add_child r cs prev = (if prev \<noteq> nullrev then dict_set prev (dict_getd cs prev [] @ [r]) cs else cs)"

function walk_loop :: "revlog \<Rightarrow> rev \<Rightarrow> rev \<Rightarrow> inversedag \<Rightarrow> inversedag" where
  "walk_loop rl walkto r d =
     (if walkto \<le> r
      then (case rl_parents rl r of (p1, p2) \<Rightarrow>
              walk_loop rl walkto (r - 1)
                (d \<lparr> inv_children := foldl (add_child r) (inv_children d) [p1, p2],
                     inv_roots := (if p1 = nullrev \<and> p2 = nullrev then inv_roots d @ [r] else inv_roots d) \<rparr>))
      else d \<lparr> inv_walkfrom := r \<rparr>)"
  by auto

termination
  by (relation "measure (\<lambda>(rl, walkto, r, d). nat (r - walkto + 1))") auto

declare walk_loop.simps [simp del]

definition walkto :: "revlog \<Rightarrow> rev \<Rightarrow> inversedag \<Rightarrow> inversedag" where
  "walkto rl to d = walk_loop rl to (inv_walkfrom d) d"

definition inv_getheads :: "revlog \<Rightarrow> inversedag \<Rightarrow> rev list \<times> inversedag" where
  "inv_getheads rl d = (let d' = walkto rl nullrev d in (inv_roots d', d'))"

definition inv_parents :: "revlog \<Rightarrow> rev \<Rightarrow> inversedag \<Rightarrow> rev list \<times> inversedag" where
  "inv_parents rl ix d =
     (let d' = (if ix \<le> inv_walkfrom d then walkto rl ix d else d) in (dict_getd (inv_children d') ix [], d'))"

text \<open>\<open>genericdag.ancestorset\<close> and \<open>genericdag.headsetofconnecteds\<close> on the inverse graph.\<close>

partial_function (option) inv_ancestor_loop ::
    "revlog \<Rightarrow> rev set \<Rightarrow> rev list \<Rightarrow> rev set \<Rightarrow> inversedag \<Rightarrow> (rev set \<times> inversedag) option" where
  "inv_ancestor_loop rl stops pending seen d =
     (if pending = [] then Some (seen, d)
      else let n = List.last pending; pending = butlast pending
           in if n \<notin> seen \<and> n \<notin> stops
              then (case inv_parents rl n d of (ps, d') \<Rightarrow>
                      inv_ancestor_loop rl stops (pending @ ps) (insert n seen) d')
              else inv_ancestor_loop rl stops pending seen d)"

definition inv_ancestorset :: "revlog \<Rightarrow> rev list \<Rightarrow> rev set \<Rightarrow> inversedag \<Rightarrow> (rev set \<times> inversedag) option" where
  "inv_ancestorset rl starts stops d = inv_ancestor_loop rl stops starts {} d"

fun inv_discard_parents :: "revlog \<Rightarrow> rev list \<Rightarrow> rev set \<Rightarrow> inversedag \<Rightarrow> rev set \<times> inversedag" where
  "inv_discard_parents rl [] hs d = (hs, d)"
| "inv_discard_parents rl (n # ns) hs d =
     (case inv_parents rl n d of (ps, d') \<Rightarrow> inv_discard_parents rl ns (hs - set ps) d')"

definition inv_headsetofconnecteds :: "revlog \<Rightarrow> rev list \<Rightarrow> inversedag \<Rightarrow> (rev set \<times> inversedag) res" where
  "inv_headsetofconnecteds rl ixs d =
     (if ixs = [] then Inr ({}, d)
      else (case inv_discard_parents rl ixs (set ixs) d of (hs, d') \<Rightarrow>
              if hs = {} then Inl AssertionError else Inr (hs, d')))"

text \<open>\<open>descendantset\<close> is the ancestor walk of the inverse graph.\<close>

definition descendantset :: "revlog \<Rightarrow> rev list \<Rightarrow> rev set \<Rightarrow> inversedag \<Rightarrow> (rev set \<times> inversedag) option" where
  "descendantset rl starts stops d = inv_ancestorset rl starts stops d"

section \<open>Parents and heads\<close>

lemma set_dag_parents: "set (dag_parents rl r) = set (parentrevs rl r) - {nullrev}"
  by (cases "rl_parents rl r") (simp add: dag_parents_def parentrevs_def, blast)

lemma parrel_dag_parents: "parrel (parentrevs rl) = {(v, p). p \<in> set (dag_parents rl v)}"
  by (auto simp: parrel_def set_dag_parents)

lemma revlog_okD: "revlog_ok rl \<Longrightarrow> topo (parentrevs rl)"
  by (simp add: revlog_ok_def)

lemma dag_parents_null: "revlog_ok rl \<Longrightarrow> dag_parents rl nullrev = []"
  by (simp add: revlog_ok_def dag_parents_def)

lemma dag_parents_bounds:
  assumes "revlog_ok rl" "nullrev \<le> r" "p \<in> set (dag_parents rl r)"
  shows "0 \<le> r \<and> 0 \<le> p \<and> p < r"
proof -
  have r: "0 \<le> r" using assms dag_parents_null [of rl] by (cases "r = nullrev") auto
  then show ?thesis
    using pf.parent_bounds [OF revlog_okD [OF assms(1)] r, of p] assms(3) by (auto simp: set_dag_parents)
qed

lemma discard_parents_eq: "discard_parents rl rs hs = {h \<in> hs. \<forall>r \<in> set rs. h \<notin> set (dag_parents rl r)}"
proof (induction rs arbitrary: hs)
  case (Cons r rs)
  have "{p. p \<noteq> nullrev \<and> (p = fst (rl_parents rl r) \<or> p = snd (rl_parents rl r))} = set (dag_parents rl r)"
    unfolding set_dag_parents parentrevs_def by auto
  then show ?case by (auto simp: Cons.IH)
qed simp

definition top_revs :: "revlog \<Rightarrow> rev set \<Rightarrow> rev set" where
  "top_revs rl S = {h \<in> S. \<forall>r \<in> S. h \<notin> set (dag_parents rl r)}"

lemma top_revs_above:
  assumes "revlog_ok rl" "finite S" "S \<subseteq> {nullrev..}" "x \<in> S"
  shows "\<exists>h \<in> top_revs rl S. x = h \<or> x \<in> ancs (parentrevs rl) {h}"
  using assms(4)
proof (induction "card {y \<in> S. x < y}" arbitrary: x rule: less_induct)
  case less
  show ?case
  proof (cases "x \<in> top_revs rl S")
    case False
    then obtain r where r: "r \<in> S" "x \<in> set (dag_parents rl r)" using less.prems by (auto simp: top_revs_def)
    have b: "0 \<le> r" "0 \<le> x" "x < r" using dag_parents_bounds [OF assms(1) _ r(2)] r(1) assms(3) by auto
    have "{y \<in> S. r < y} \<subset> {y \<in> S. x < y}" using r(1) b by auto
    then have "card {y \<in> S. r < y} < card {y \<in> S. x < y}" using assms(2) by (intro psubset_card_mono) auto
    then obtain h where h: "h \<in> top_revs rl S" "r = h \<or> r \<in> ancs (parentrevs rl) {h}"
      using less.hyps [OF _ r(1)] by blast
    have "x \<in> ancs (parentrevs rl) {r}"
      using r(2) b by (intro ancs_of_parent) (auto simp: set_dag_parents)
    then show ?thesis using h ancs_single_trans by blast
  qed auto
qed

lemma headset_spec:
  assumes "revlog_ok rl" "set ixs \<subseteq> {nullrev..}"
  shows "headsetofconnecteds rl ixs = Inr (top_revs rl (set ixs))"
    "ancs (parentrevs rl) (top_revs rl (set ixs)) = ancs (parentrevs rl) (set ixs)"
proof -
  have "ixs \<noteq> [] \<Longrightarrow> top_revs rl (set ixs) \<noteq> {}"
    using top_revs_above [OF assms(1) _ assms(2), of "hd ixs"] by auto
  then show "headsetofconnecteds rl ixs = Inr (top_revs rl (set ixs))"
    by (auto simp: headsetofconnecteds_def discard_parents_eq top_revs_def Let_def)
  have "set ixs \<subseteq> insert nullrev (ancs (parentrevs rl) (top_revs rl (set ixs)))"
  proof
    fix x assume "x \<in> set ixs"
    then obtain h where h: "h \<in> top_revs rl (set ixs)" "x = h \<or> x \<in> ancs (parentrevs rl) {h}"
      using top_revs_above [OF assms(1) _ assms(2)] by auto
    then show "x \<in> insert nullrev (ancs (parentrevs rl) (top_revs rl (set ixs)))"
      using ancs_mono [of "{h}" "top_revs rl (set ixs)"] by (auto intro: ancs_start)
  qed
  then show "ancs (parentrevs rl) (top_revs rl (set ixs)) = ancs (parentrevs rl) (set ixs)"
    by (intro ancs_between [symmetric]) (auto simp: top_revs_def)
qed

section \<open>Linearization\<close>

text \<open>A list of distinct revisions of \<open>S\<close> in which the parents of every revision come before it.\<close>

definition topological :: "revlog \<Rightarrow> rev set \<Rightarrow> rev list \<Rightarrow> bool" where
  "topological rl S out \<longleftrightarrow> distinct out \<and> set out \<subseteq> S \<and>
     (\<forall>a x b. out = a @ x # b \<longrightarrow> set (dag_parents rl x) \<inter> S \<subseteq> set a)"

lemma topological_snoc:
  assumes "topological rl S out" "x \<in> S" "x \<notin> set out" "set (dag_parents rl x) \<inter> S \<subseteq> set out"
  shows "topological rl S (out @ [x])"
  unfolding topological_def
proof (intro conjI allI impI)
  fix a y b assume eq: "out @ [x] = a @ y # b"
  show "set (dag_parents rl y) \<inter> S \<subseteq> set a"
  proof (cases b rule: rev_cases)
    case Nil
    then show ?thesis using eq assms(4) by auto
  next
    case (snoc b' z)
    then have "out = a @ y # b'" using eq by simp
    then show ?thesis using assms(1) by (auto simp: topological_def)
  qed
qed (use assms in \<open>auto simp: topological_def\<close>)

lemma topological_closed:
  "topological rl S out \<Longrightarrow> x \<in> set out \<Longrightarrow> p \<in> set (dag_parents rl x) \<Longrightarrow> p \<in> S \<Longrightarrow> p \<in> set out"
  by (fastforce simp: topological_def dest: split_list)

text \<open>Visiting \<open>cur\<close> ends and adds what is missing of its ancestors in \<open>S\<close>, then \<open>cur\<close>.\<close>

definition visited :: "revlog \<Rightarrow> rev set \<Rightarrow> rev list \<Rightarrow> bool" where
  "visited rl S revs \<longleftrightarrow> (\<forall>visit out. topological rl S out \<longrightarrow> (\<exists>out'. topological rl S (out @ out') \<and>
     set revs \<subseteq> set (out @ out') \<and>
     linearize_loop rl S (visit @ revs) out (set out) = linearize_loop rl S visit (out @ out') (set (out @ out'))))"

lemma visited_append: "visited rl S xs \<Longrightarrow> visited rl S ys \<Longrightarrow> visited rl S (xs @ ys)"
  unfolding visited_def
proof (intro allI impI, goal_cases)
  case (1 visit out)
  obtain o1 where o1: "topological rl S (out @ o1)" "set ys \<subseteq> set (out @ o1)"
      "linearize_loop rl S ((visit @ xs) @ ys) out (set out) = linearize_loop rl S (visit @ xs) (out @ o1) (set (out @ o1))"
    using 1(2,3) by blast
  obtain o2 where o2: "topological rl S ((out @ o1) @ o2)" "set xs \<subseteq> set ((out @ o1) @ o2)"
      "linearize_loop rl S (visit @ xs) (out @ o1) (set (out @ o1)) = linearize_loop rl S visit ((out @ o1) @ o2) (set ((out @ o1) @ o2))"
    using 1(1) o1(1) by blast
  show ?case using o1 o2 by (intro exI [of _ "o1 @ o2"]) auto
qed

lemma visited_list: "\<forall>x \<in> set xs. visited rl S [x] \<Longrightarrow> visited rl S xs"
proof (induction xs)
  case Nil
  then show ?case unfolding visited_def by (auto intro!: exI [of _ "[]"])
next
  case (Cons x xs)
  then show ?case using visited_append [of rl S "[x]" xs] by auto
qed

lemma visited_rev:
  assumes ok: "revlog_ok rl" and S: "S \<subseteq> {0..}"
  shows "cur \<in> S \<Longrightarrow> visited rl S [cur]"
proof (induction "nat cur" arbitrary: cur rule: less_induct)
  case less
  have c0: "0 \<le> cur" using less.prems S by auto
  show ?case unfolding visited_def
  proof (intro allI impI)
    fix visit out assume t: "topological rl S out"
    define ps where "ps = filter (\<lambda>p. p \<in> S \<and> p \<notin> set out) (dag_parents rl cur)"
    have "visited rl S [p]" if "p \<in> set ps" for p
      using that dag_parents_bounds [OF ok, of cur p] c0 by (intro less.hyps) (auto simp: ps_def)
    then have "visited rl S ps" by (intro visited_list) blast
    then obtain o1 where o1: "topological rl S (out @ o1)" "set ps \<subseteq> set (out @ o1)"
        "linearize_loop rl S ((visit @ [- cur - 1]) @ ps) out (set out)
          = linearize_loop rl S (visit @ [- cur - 1]) (out @ o1) (set (out @ o1))"
      using t unfolding visited_def by blast
    have s1: "linearize_loop rl S (visit @ [cur]) out (set out)
        = linearize_loop rl S ((visit @ [- cur - 1]) @ ps) out (set out)"
      using c0 by (subst linearize_loop.simps) (simp add: Let_def ps_def)
    have par: "set (dag_parents rl cur) \<inter> S \<subseteq> set (out @ o1)" using o1(2) by (auto simp: ps_def)
    show "\<exists>out'. topological rl S (out @ out') \<and> set [cur] \<subseteq> set (out @ out') \<and>
        linearize_loop rl S (visit @ [cur]) out (set out) = linearize_loop rl S visit (out @ out') (set (out @ out'))"
    proof (cases "cur \<in> set (out @ o1)")
      case True
      then have "linearize_loop rl S (visit @ [- cur - 1]) (out @ o1) (set (out @ o1))
          = linearize_loop rl S visit (out @ o1) (set (out @ o1))"
        using c0 by (subst linearize_loop.simps) (simp add: Let_def)
      then show ?thesis using True o1 s1 by (intro exI [of _ o1]) simp
    next
      case False
      then have "linearize_loop rl S (visit @ [- cur - 1]) (out @ o1) (set (out @ o1))
          = linearize_loop rl S visit (out @ o1 @ [cur]) (set (out @ o1 @ [cur]))"
        using c0 by (subst linearize_loop.simps) (simp add: Let_def)
      then show ?thesis
        using topological_snoc [OF o1(1) less.prems False par] o1(3) s1 by (intro exI [of _ "o1 @ [cur]"]) simp
    qed
  qed
qed

lemma topological_all:
  assumes ok: "revlog_ok rl" and S: "finite S" "S \<subseteq> {0..}" and t: "topological rl S out" "top_revs rl S \<subseteq> set out"
  shows "set out = S"
proof (rule ccontr)
  assume "set out \<noteq> S"
  then have ne: "S - set out \<noteq> {}" using t(1) by (auto simp: topological_def)
  define x where "x = Max (S - set out)"
  have x: "x \<in> S" "x \<notin> set out" using Max_in [of "S - set out"] ne S(1) by (auto simp: x_def)
  then obtain r where r: "r \<in> S" "x \<in> set (dag_parents rl r)" using t(2) by (auto simp: top_revs_def)
  have "x < r" using dag_parents_bounds [OF ok, of r x] r S(2) by auto
  then have "r \<in> set out" using Max_ge [of "S - set out" r] S(1) r(1) unfolding x_def by (meson DiffI finite_Diff leD)
  then show False using topological_closed [OF t(1) _ r(2) x(1)] x(2) by blast
qed

text \<open>
  (C17) \<open>linearize\<close> returns for every set of revisions, whether connected or not: the
  result has exactly the given revisions, once each, and every revision comes after
  those of its parents that are among them. In particular its two assertions hold.
\<close>

theorem linearize_topological:
  assumes "revlog_ok rl" "distinct ixs" "set ixs \<subseteq> {0..}"
  shows "\<exists>out. linearize rl ixs = Some (Inr out) \<and> set out = set ixs \<and> topological rl (set ixs) out"
proof -
  define S where "S = set ixs"
  have S: "finite S" "S \<subseteq> {0..}" using assms(3) by (auto simp: S_def)
  have h: "headsetofconnecteds rl ixs = Inr (top_revs rl S)"
    unfolding S_def by (rule headset_spec(1) [OF assms(1)]) (use assms(3) in force)
  define hs where "hs = List.rev (sorted_list_of_set (top_revs rl S))"
  have hs: "set hs = top_revs rl S" "top_revs rl S \<subseteq> S" using S(1) by (auto simp: hs_def top_revs_def)
  have "visited rl S hs" using visited_rev [OF assms(1) S(2)] hs by (intro visited_list) auto
  moreover have "topological rl S []" by (simp add: topological_def)
  ultimately obtain out where out: "topological rl S out" "set hs \<subseteq> set out"
      "linearize_loop rl S ([] @ hs) [] {} = linearize_loop rl S [] out (set out)"
    unfolding visited_def by (metis append_Nil list.set(1))
  then have "linearize_loop rl S hs [] {} = Some out" by (subst (asm) (2) linearize_loop.simps) simp
  moreover have so: "set out = S" using topological_all [OF assms(1) S out(1)] out(2) hs(1) by simp
  moreover have "length out = length ixs"
    using out(1) so assms(2) by (metis S_def distinct_card topological_def)
  ultimately show ?thesis
    using h out(1) by (auto simp: linearize_def S_def [symmetric] hs_def)
qed

definition crossed_log :: revlog where
  "crossed_log = \<lparr> rl_len = 5, rl_parents = (\<lambda>r. (crisscross r ! 0, crisscross r ! 1)),
     rl_node = (\<lambda>r. if r = nullrev then nullid else replicate 19 (CHR ''n'') @ [char_of (nat r + 48)]),
     rl_nodemap = (\<lambda>n. if n = nullid then Some nullrev
       else find (\<lambda>r. n = replicate 19 (CHR ''n'') @ [char_of (nat r + 48)]) [0, 1, 2, 3, 4]),
     rl_filtered = {}, rl_headrevs = [4, 3] \<rparr>"

lemma parentrevs_crossed: "parentrevs crossed_log = crisscross"
  by (auto simp: parentrevs_def crossed_log_def crisscross_def fun_eq_iff)

lemma crossed_log_ok: "revlog_ok crossed_log"
proof -
  have n: "replicate 19 (CHR ''n'') @ [c] \<noteq> nullid" for c by (simp add: nullid_def numeral_eq_Suc)
  have r: "r \<in> {0, 1, 2, 3, 4}" if "0 \<le> r" "r < 5" for r :: int using that by auto
  have "\<forall>r. 0 \<le> r \<longrightarrow> r < 5 \<longrightarrow> rl_nodemap crossed_log (rl_node crossed_log r) = Some r"
    by (auto dest!: r simp: crossed_log_def n)
  moreover have "rl_node crossed_log r = m \<and> nullrev \<le> r \<and> r < 5" if "rl_nodemap crossed_log m = Some r" for m r
    using that by (auto simp: crossed_log_def split: if_splits)
  ultimately show ?thesis
    using topo_crisscross by (auto simp: revlog_ok_def parentrevs_crossed) (auto simp: crossed_log_def crisscross_def)
qed

theorem linearize_topological_witness:
  "\<exists>out. linearize crossed_log [0, 3, 4, 1, 2] = Some (Inr out) \<and> set out = {0, 1, 2, 3, 4}
    \<and> topological crossed_log {0, 1, 2, 3, 4} out"
  using linearize_topological [OF crossed_log_ok, of "[0, 3, 4, 1, 2]"] by (simp add: insert_commute)

section \<open>Walks\<close>

text \<open>What a work list knows on the way through the graph of \<open>succ\<close> from \<open>starts\<close>, avoiding \<open>stops\<close>.\<close>

definition reach :: "(rev \<Rightarrow> rev set) \<Rightarrow> rev set \<Rightarrow> rev set" where
  "reach succ S = {(a, b). b \<in> succ a}\<^sup>* `` S"

definition walk_inv :: "(rev \<Rightarrow> rev set) \<Rightarrow> rev set \<Rightarrow> rev set \<Rightarrow> rev set \<Rightarrow> rev set \<Rightarrow> bool" where
  "walk_inv succ stops starts pending seen \<longleftrightarrow> seen \<inter> stops = {} \<and> starts \<subseteq> seen \<union> pending \<union> stops \<and>
     (\<forall>n \<in> seen. succ n \<subseteq> seen \<union> pending \<union> stops) \<and> seen \<union> pending \<subseteq> reach succ starts"

lemma reach_step: "a \<in> reach succ S \<Longrightarrow> b \<in> succ a \<Longrightarrow> b \<in> reach succ S"
  by (auto simp: reach_def intro: rtrancl_into_rtrancl)

lemma walk_start: "walk_inv succ stops S S {}"
  by (auto simp: walk_inv_def reach_def)

lemma walk_skip: "walk_inv succ stops S (insert n pending) seen \<Longrightarrow> n \<in> seen \<union> stops \<Longrightarrow> walk_inv succ stops S pending seen"
  by (auto simp: walk_inv_def)

lemma walk_visit:
  "walk_inv succ stops S (insert n pending) seen \<Longrightarrow> n \<notin> stops \<Longrightarrow>
    walk_inv succ stops S (pending \<union> succ n) (insert n seen)"
  unfolding walk_inv_def using reach_step [of n succ S] by auto

lemma walk_end:
  assumes "walk_inv succ stops S {} seen" "\<forall>n \<in> stops. succ n \<subseteq> stops"
  shows "seen = reach succ S - stops"
proof
  show "seen \<subseteq> reach succ S - stops" using assms(1) by (auto simp: walk_inv_def)
  have "x \<in> seen \<union> stops" if "(s, x) \<in> {(a, b). b \<in> succ a}\<^sup>*" "s \<in> S" for s x
    using that(1)
  proof (induction rule: rtrancl_induct)
    case base
    then show ?case using assms(1) that(2) by (auto simp: walk_inv_def)
  next
    case (step y z)
    then show ?case using assms by (auto simp: walk_inv_def)
  qed
  then show "reach succ S - stops \<subseteq> seen" by (auto simp: reach_def)
qed

lemma card_insert_unseen: "finite U \<Longrightarrow> n \<in> U \<Longrightarrow> n \<notin> seen \<Longrightarrow> card (U - insert n seen) < card (U - seen)"
  by (intro psubset_card_mono) auto

lemmas worklist_induct = wf_induct_rule [OF wf_lex_prod [OF wf_less_than wf_less_than]]

lemma ancestor_loop_spec:
  assumes "walk_inv (\<lambda>r. set (dag_parents rl r)) stops S (set pending) seen"
    and fin: "finite (reach (\<lambda>r. set (dag_parents rl r)) S)"
  shows "\<exists>out. ancestor_loop rl stops pending seen = Some out \<and> walk_inv (\<lambda>r. set (dag_parents rl r)) stops S {} out"
  using assms(1)
proof (induction "(card (reach (\<lambda>r. set (dag_parents rl r)) S - seen), length pending)" arbitrary: pending seen
    rule: worklist_induct)
  case 1
  let ?p = "\<lambda>r. set (dag_parents rl r)"
  show ?case
  proof (cases pending rule: rev_cases)
    case Nil
    then show ?thesis using 1 by (subst ancestor_loop.simps) auto
  next
    case (snoc pend n)
    have par: "set (filter (\<lambda>p. p \<noteq> nullrev) [fst (rl_parents rl n), snd (rl_parents rl n)]) = ?p n"
      by (auto simp: set_dag_parents parentrevs_def)
    have inv: "walk_inv ?p stops S (insert n (set pend)) seen" using 1(2) snoc by simp
    show ?thesis
    proof (cases "n \<notin> seen \<and> n \<notin> stops")
      case True
      let ?pend = "pend @ filter (\<lambda>p. p \<noteq> nullrev) [fst (rl_parents rl n), snd (rl_parents rl n)]"
      have "n \<in> reach ?p S" using inv by (auto simp: walk_inv_def)
      then have "card (reach ?p S - insert n seen) < card (reach ?p S - seen)"
        using True fin by (intro card_insert_unseen) auto
      moreover have "walk_inv ?p stops S (set ?pend) (insert n seen)"
        using walk_visit [OF inv] True par by simp
      moreover have "ancestor_loop rl stops pending seen = ancestor_loop rl stops ?pend (insert n seen)"
        using True snoc by (subst ancestor_loop.simps) (simp add: Let_def)
      ultimately show ?thesis using 1(1) [of "insert n seen" ?pend] by simp
    next
      case False
      then have "ancestor_loop rl stops pending seen = ancestor_loop rl stops pend seen"
        using snoc by (subst ancestor_loop.simps) (auto simp: Let_def)
      moreover have "walk_inv ?p stops S (set pend) seen" using walk_skip [OF inv] False by blast
      ultimately show ?thesis using 1(1) [of seen pend] snoc by simp
    qed
  qed
qed

text \<open>The lazily built inverse: above \<open>r\<close> all children have been entered at their parents.\<close>

definition children :: "revlog \<Rightarrow> rev \<Rightarrow> rev set" where
  "children rl p = {c. 0 \<le> c \<and> c < int (rl_len rl) \<and> p \<in> set (dag_parents rl c)}"

definition inv_upto :: "revlog \<Rightarrow> rev \<Rightarrow> inversedag \<Rightarrow> bool" where
  "inv_upto rl r d \<longleftrightarrow> (\<forall>p. set (dict_getd (inv_children d) p []) = {c \<in> children rl p. r < c})"

definition inv_ok :: "revlog \<Rightarrow> inversedag \<Rightarrow> bool" where
  "inv_ok rl d \<longleftrightarrow> inv_upto rl (inv_walkfrom d) d \<and> inv_walkfrom d < int (rl_len rl)"

lemma inverse_ok: "inv_ok rl (inverse rl)"
  by (auto simp: inv_ok_def inv_upto_def inverse_def dict_getd_def children_def)

lemma add_child_lookup:
  "dict_getd (add_child r cs q) p [] = dict_getd cs p [] @ (if p = q \<and> p \<noteq> nullrev then [r] else [])"
  by (simp add: add_child_def dict_getd_def dict_simps)

lemma add_children:
  "dict_getd (foldl (add_child r) cs [p1, p2]) p [] =
    dict_getd cs p [] @ (if p = p1 \<and> p \<noteq> nullrev then [r] else []) @ (if p = p2 \<and> p \<noteq> nullrev then [r] else [])"
  by (simp add: add_child_lookup)

lemma walk_loop_spec:
  assumes "revlog_ok rl" "inv_upto rl r d" "r < int (rl_len rl)" "nullrev \<le> to"
  shows "inv_upto rl (min r (to - 1)) (walk_loop rl to r d) \<and> inv_walkfrom (walk_loop rl to r d) = min r (to - 1)"
  using assms
proof (induction rl to r d rule: walk_loop.induct [case_names step])
  case (step rl to r d)
  show ?case
  proof (cases "to \<le> r")
    case False
    then have "walk_loop rl to r d = d \<lparr> inv_walkfrom := r \<rparr>" by (subst walk_loop.simps) simp
    then show ?thesis using step.prems(2) False by (simp add: inv_upto_def)
  next
    case True
    obtain p1 p2 where p: "rl_parents rl r = (p1, p2)" by fastforce
    define d' where "d' = d \<lparr> inv_children := foldl (add_child r) (inv_children d) [p1, p2],
                     inv_roots := (if p1 = nullrev \<and> p2 = nullrev then inv_roots d @ [r] else inv_roots d) \<rparr>"
    have "walk_loop rl to r d = walk_loop rl to (r - 1) d'"
      using True p by (subst walk_loop.simps) (simp add: d'_def)
    moreover have "inv_upto rl (r - 1) d'"
      unfolding inv_upto_def
    proof
      fix q
      have nn: "0 \<le> r \<or> p1 = nullrev \<and> p2 = nullrev"
        using step.prems(1,4) True p by (cases "r = nullrev") (auto simp: revlog_ok_def)
      have "r - 1 < c \<longleftrightarrow> r < c \<or> c = r" for c :: int by auto
      then have "{c \<in> children rl q. r - 1 < c} = {c \<in> children rl q. r < c} \<union> (if r \<in> children rl q then {r} else {})"
        by auto
      moreover have "r \<in> children rl q \<longleftrightarrow> q \<noteq> nullrev \<and> (q = p1 \<or> q = p2)"
        using nn step.prems(3) p by (auto simp: children_def set_dag_parents parentrevs_def)
      moreover have "set (dict_getd (inv_children d) q []) = {c \<in> children rl q. r < c}"
        using step.prems(2) by (simp add: inv_upto_def)
      ultimately show "set (dict_getd (inv_children d') q []) = {c \<in> children rl q. r - 1 < c}"
        using add_children [of r "inv_children d" p1 p2 q] by (auto simp: d'_def)
    qed
    moreover have "min (r - 1) (to - 1) = min r (to - 1)" using True by simp
    ultimately show ?thesis
      using step.IH [OF True p [symmetric], folded d'_def] step.prems by simp
  qed
qed

lemma children_above: "revlog_ok rl \<Longrightarrow> c \<in> children rl p \<Longrightarrow> p < c"
  using dag_parents_bounds [of rl c p] by (auto simp: children_def)

text \<open>Whatever has been walked before, \<open>parents\<close> of the inverse graph gives the children.\<close>

lemma inv_parents_spec:
  assumes "revlog_ok rl" "inv_ok rl d" "0 \<le> ix"
  shows "\<exists>ps d'. inv_parents rl ix d = (ps, d') \<and> set ps = children rl ix \<and> inv_ok rl d'"
proof -
  define d' where "d' = (if ix \<le> inv_walkfrom d then walkto rl ix d else d)"
  have i: "inv_upto rl (inv_walkfrom d) d" "inv_walkfrom d < int (rl_len rl)" using assms(2) by (auto simp: inv_ok_def)
  have d': "inv_ok rl d' \<and> inv_walkfrom d' < ix"
  proof (cases "ix \<le> inv_walkfrom d")
    case True
    then show ?thesis
      using walk_loop_spec [OF assms(1) i, of ix] i(2) assms(3) by (auto simp: d'_def walkto_def inv_ok_def)
  qed (use assms(2) in \<open>simp add: d'_def\<close>)
  then have "set (dict_getd (inv_children d') ix []) = {c \<in> children rl ix. inv_walkfrom d' < c}"
    by (simp add: inv_ok_def inv_upto_def)
  also have "\<dots> = children rl ix" using d' children_above [OF assms(1), of _ ix] by fastforce
  finally show ?thesis using d' by (auto simp: inv_parents_def d'_def [symmetric] Let_def)
qed

lemma finite_children: "finite (children rl p)"
  by (rule finite_subset [of _ "{0..<int (rl_len rl)}"]) (auto simp: children_def)

lemma reach_children_bounds:
  assumes "S \<subseteq> {0..<int (rl_len rl)}"
  shows "reach (children rl) S \<subseteq> {0..<int (rl_len rl)}"
proof
  fix x assume "x \<in> reach (children rl) S"
  then obtain s where "s \<in> S" "(s, x) \<in> {(a, b). b \<in> children rl a}\<^sup>*" by (auto simp: reach_def)
  from this(2,1) show "x \<in> {0..<int (rl_len rl)}"
    by (induction rule: rtrancl_induct) (use assms in \<open>auto simp: children_def\<close>)
qed

lemma inv_ancestor_loop_spec:
  assumes ok: "revlog_ok rl" and S: "S \<subseteq> {0..<int (rl_len rl)}"
    and "walk_inv (children rl) stops S (set pending) seen" "inv_ok rl d"
  shows "\<exists>out d'. inv_ancestor_loop rl stops pending seen d = Some (out, d') \<and>
    walk_inv (children rl) stops S {} out \<and> inv_ok rl d'"
  using assms(3,4)
proof (induction "(card (reach (children rl) S - seen), length pending)" arbitrary: pending seen d
    rule: worklist_induct)
  case 1
  have fin: "finite (reach (children rl) S)" using reach_children_bounds [OF S] by (rule finite_subset) simp
  show ?case
  proof (cases pending rule: rev_cases)
    case Nil
    then show ?thesis using 1 by (subst inv_ancestor_loop.simps) auto
  next
    case (snoc pend n)
    have inv: "walk_inv (children rl) stops S (insert n (set pend)) seen" using 1(2) snoc by simp
    show ?thesis
    proof (cases "n \<notin> seen \<and> n \<notin> stops")
      case True
      have n: "n \<in> reach (children rl) S" using inv by (auto simp: walk_inv_def)
      then have "0 \<le> n" using reach_children_bounds [OF S] by auto
      then obtain ps d' where ps: "inv_parents rl n d = (ps, d')" "set ps = children rl n" "inv_ok rl d'"
        using inv_parents_spec [OF ok 1(3)] by blast
      have "card (reach (children rl) S - insert n seen) < card (reach (children rl) S - seen)"
        using True fin n by (intro card_insert_unseen) auto
      moreover have "walk_inv (children rl) stops S (set (pend @ ps)) (insert n seen)"
        using walk_visit [OF inv] True ps(2) by simp
      moreover have "inv_ancestor_loop rl stops pending seen d = inv_ancestor_loop rl stops (pend @ ps) (insert n seen) d'"
        using True snoc ps(1) by (subst inv_ancestor_loop.simps) (simp add: Let_def)
      ultimately show ?thesis using 1(1) [of "insert n seen" "pend @ ps" d'] ps(3) by simp
    next
      case False
      then have "inv_ancestor_loop rl stops pending seen d = inv_ancestor_loop rl stops pend seen d"
        using snoc by (subst inv_ancestor_loop.simps) (auto simp: Let_def)
      moreover have "walk_inv (children rl) stops S (set pend) seen" using walk_skip [OF inv] False by blast
      ultimately show ?thesis using 1(1) [of seen pend d] 1(3) snoc by simp
    qed
  qed
qed

text \<open>The descendants of \<open>S\<close>, themselves included.\<close>

definition descs :: "revlog \<Rightarrow> rev set \<Rightarrow> rev set" where
  "descs rl S = {x. 0 \<le> x \<and> x < int (rl_len rl) \<and> ancs (parentrevs rl) {x} \<inter> S \<noteq> {}}"

lemma reach_children:
  assumes "revlog_ok rl" "S \<subseteq> {0..<int (rl_len rl)}"
  shows "reach (children rl) S = descs rl S"
proof (intro set_eqI iffI)
  fix x assume x: "x \<in> reach (children rl) S"
  then obtain s where s: "s \<in> S" "(s, x) \<in> {(a, b). b \<in> children rl a}\<^sup>*" by (auto simp: reach_def)
  from s(2) have "s \<in> ancs (parentrevs rl) {x}"
  proof (induction rule: converse_rtrancl_induct)
    case base
    then show ?case using reach_children_bounds [OF assms(2)] x by (auto intro!: ancs_start)
  next
    case (step a b)
    then have "a \<in> set (parentrevs rl b)" "a \<noteq> nullrev" by (auto simp: children_def set_dag_parents)
    then show ?case using step.IH by (rule ancs_parent [rotated 1])
  qed
  then show "x \<in> descs rl S" using s(1) reach_children_bounds [OF assms(2)] x by (auto simp: descs_def)
next
  fix x assume "x \<in> descs rl S"
  then obtain s where s: "s \<in> S" "s \<in> ancs (parentrevs rl) {x}" and x: "0 \<le> x" "x < int (rl_len rl)"
    by (auto simp: descs_def)
  from s(2) have "(s, x) \<in> {(a, b). b \<in> children rl a}\<^sup>* \<and> 0 \<le> s \<and> s \<le> x"
  proof (induction rule: ancs_induct)
    case (start v)
    then show ?case using x by simp
  next
    case (parent v p)
    then have p: "p \<in> set (dag_parents rl v)" by (simp add: set_dag_parents)
    then have "v \<in> children rl p" using parent x by (auto simp: children_def)
    then show ?case
      using parent dag_parents_bounds [OF assms(1) _ p] by (auto intro: converse_rtrancl_into_rtrancl)
  qed
  then show "x \<in> reach (children rl) S" using s(1) by (auto simp: reach_def)
qed

lemma descs_children_closed: "n \<in> descs rl S \<Longrightarrow> children rl n \<subseteq> descs rl S"
proof
  fix c assume n: "n \<in> descs rl S" and c: "c \<in> children rl n"
  then obtain s where s: "s \<in> S" "s \<in> ancs (parentrevs rl) {n}" by (auto simp: descs_def)
  have "n \<in> ancs (parentrevs rl) {c}"
    using c by (intro ancs_of_parent) (auto simp: children_def set_dag_parents)
  then show "c \<in> descs rl S" using ancs_single_trans [OF s(2)] s(1) c by (auto simp: descs_def children_def)
qed

lemma descendantset_spec:
  assumes "revlog_ok rl" "inv_ok rl d" "set starts \<subseteq> {0..<int (rl_len rl)}" "\<forall>n \<in> stops. children rl n \<subseteq> stops"
  shows "\<exists>d'. descendantset rl starts stops d = Some (descs rl (set starts) - stops, d') \<and> inv_ok rl d'"
proof -
  obtain out d' where "inv_ancestor_loop rl stops starts {} d = Some (out, d')"
      "walk_inv (children rl) stops (set starts) {} out" "inv_ok rl d'"
    using inv_ancestor_loop_spec [OF assms(1,3) walk_start assms(2)] by blast
  then show ?thesis
    using walk_end [of "children rl" stops "set starts" out] assms(4) reach_children [OF assms(1,3)]
    by (auto simp: descendantset_def inv_ancestorset_def)
qed

lemma reach_parents: "nullrev \<notin> S \<Longrightarrow> reach (\<lambda>r. set (dag_parents rl r)) S = ancs (parentrevs rl) S"
  by (simp add: reach_def ancs_def parrel_dag_parents)

text \<open>
  (C18) The walks return, and they return what they document. \<open>ancestorset\<close> gives the
  ancestors of the start revisions without those at or below the stops; \<open>descendantset\<close>,
  which is the same walk of the inverse graph, gives the descendants without those at or above the
  stops, no matter how much of the inverse graph had been collected before. The stops are a set that is
  closed in the direction of the walk, as the callers have it.
\<close>

theorem dag_walks_correct:
  assumes "revlog_ok rl" "inv_ok rl d" "set starts \<subseteq> {0..<int (rl_len rl)}"
  shows "((\<forall>n \<in> stops. set (dag_parents rl n) \<subseteq> stops) \<longrightarrow>
      ancestorset rl starts stops = Some (ancs (parentrevs rl) (set starts) - stops)) \<and>
    ((\<forall>n \<in> stops. children rl n \<subseteq> stops) \<longrightarrow>
      (\<exists>d'. descendantset rl starts stops d = Some (descs rl (set starts) - stops, d') \<and> inv_ok rl d'))"
proof (intro conjI impI)
  assume st: "\<forall>n \<in> stops. set (dag_parents rl n) \<subseteq> stops"
  have nn: "nullrev \<notin> set starts" "set starts \<subseteq> {nullrev..}" using assms(3) by auto
  have "finite (ancs (parentrevs rl) (set starts))"
    using pf.finite_ancs [OF revlog_okD [OF assms(1)] _ nn(2)] by simp
  then obtain out where out: "ancestor_loop rl stops starts {} = Some out"
      "walk_inv (\<lambda>r. set (dag_parents rl r)) stops (set starts) {} out"
    using ancestor_loop_spec [OF walk_start] reach_parents [OF nn(1)] by metis
  then show "ancestorset rl starts stops = Some (ancs (parentrevs rl) (set starts) - stops)"
    using walk_end [OF out(2) st] reach_parents [OF nn(1), of rl] by (simp add: ancestorset_def)
qed (rule descendantset_spec [OF assms])

theorem dag_walks_correct_witness:
  "ancestorset crossed_log [3] {} = Some (ancs crisscross {3}) \<and>
   (\<exists>d'. descendantset crossed_log [1] {} (inverse crossed_log) = Some (descs crossed_log {1}, d'))"
  using dag_walks_correct [OF crossed_log_ok inverse_ok, of "[3]" "{}"]
    dag_walks_correct [OF crossed_log_ok inverse_ok, of "[1]" "{}"]
  by (auto simp: parentrevs_crossed) (auto simp: crossed_log_def)

end
