(* ===== verification/Setdiscovery.thy ===== *)
theory Setdiscovery
  imports Dagutil "HOL-Library.List_Lexorder" "HOL-Library.Char_ord"
begin

text \<open>
  Discovery of what two repositories have in common (\<open>setdiscovery.py\<close>): the samples of undecided
  revisions, the rounds of questions of \<open>findcommonheads\<close>, and the shortcut
  \<open>fastdiscovery\<close>. The local changelog is a revlog; the remote repository answers
  \<open>heads\<close> and \<open>known\<close>. The iteration order of sets and the choices of \<open>random.sample\<close> are arguments.
\<close>

section \<open>What discovery runs in\<close>

record environment =
  env_order :: "rev set \<Rightarrow> rev list"
  env_nodeorder :: "node set \<Rightarrow> node list"
  env_choice :: "nat \<Rightarrow> rev list \<Rightarrow> nat \<Rightarrow> rev list"
  env_heads :: "node list"
  env_known :: "node list \<Rightarrow> bool list"

text \<open>\<open>random.sample\<close>; the number counts its calls.\<close>

definition random_sample :: "environment \<Rightarrow> nat \<Rightarrow> rev list \<Rightarrow> int \<Rightarrow> (rev list \<times> nat) res" where
  "random_sample e i xs k =
     (if 0 \<le> k \<and> k \<le> int (length xs) then Inr (env_choice e i xs (nat k), Suc i) else Inl ValueError)"

text \<open>\<open>[n for i, n in enumerate(sample) if yesno[i]]\<close>, or with \<open>not yesno[i]\<close>.\<close>

fun answered :: "bool \<Rightarrow> 'a list \<Rightarrow> bool list \<Rightarrow> 'a list res" where
  "answered b [] ys = Inr []"
| "answered b (n # ns) [] = Inl IndexError"
| "answered b (n # ns) (y # ys) = bindE (answered b ns ys) (\<lambda>r. Inr (if y = b then n # r else r))"

text \<open>\<open>changelog.tip\<close>, \<open>changelog.rev\<close> and \<open>revlog.incrementalmissingrevs\<close>\<close>

definition cl_tip :: "revlog \<Rightarrow> node option" where
  "cl_tip rl = map_option (rl_node rl) (List.find (\<lambda>i. i \<notin> rl_filtered rl) (range_desc (int (rl_len rl) - 1) (- 2)))"

definition cl_rev :: "revlog \<Rightarrow> node \<Rightarrow> rev res" where
  "cl_rev rl n = bindE (revlog_rev rl n) (\<lambda>r. if r \<in> rl_filtered rl then Inl (LookupError ''filtered node'') else Inr r)"

definition incrementalmissingrevs :: "revlog \<Rightarrow> rev list option \<Rightarrow> incrementalmissingancestors" where
  "incrementalmissingrevs rl common =
     ima_init (parentrevs rl) (case common of None \<Rightarrow> [nullrev] | Some c \<Rightarrow> c)"

text \<open>
  \<open>changelog.__contains__\<close> of any value. Python 2 orders every number before every
  string.
\<close>

datatype pyvalue = PyInt int | PyStr bytes

fun py2_less :: "pyvalue \<Rightarrow> pyvalue \<Rightarrow> bool" where
  "py2_less (PyInt a) (PyInt b) = (a < b)"
| "py2_less (PyInt a) (PyStr s) = True"
| "py2_less (PyStr s) (PyInt a) = False"
| "py2_less (PyStr s) (PyStr t) = ord_class.lexordp (map of_char s :: nat list) (map of_char t)"

definition cl_contains :: "revlog \<Rightarrow> pyvalue \<Rightarrow> bool" where
  "cl_contains rl v \<longleftrightarrow> \<not> py2_less v (PyInt 0) \<and> py2_less v (PyInt (int (rl_len rl))) \<and>
     (case v of PyInt r \<Rightarrow> r \<notin> rl_filtered rl | PyStr _ \<Rightarrow> True)"

section \<open>Samples\<close>

text \<open>The graph and its inverse answer the same questions; the inverse changes as it is asked.\<close>

datatype direction = Forward | Inverse

definition any_parents :: "revlog \<Rightarrow> direction \<Rightarrow> rev \<Rightarrow> inversedag \<Rightarrow> rev list \<times> inversedag" where
  "any_parents rl k r d = (case k of Forward \<Rightarrow> (dag_parents rl r, d) | Inverse \<Rightarrow> inv_parents rl r d)"

definition any_headset :: "revlog \<Rightarrow> direction \<Rightarrow> rev list \<Rightarrow> inversedag \<Rightarrow> (rev set \<times> inversedag) res" where
  "any_headset rl k ixs d =
     (case k of Forward \<Rightarrow> bindE (headsetofconnecteds rl ixs) (\<lambda>h. Inr (h, d)) | Inverse \<Rightarrow> inv_headsetofconnecteds rl ixs d)"

definition any_heads :: "revlog \<Rightarrow> rev list option \<Rightarrow> direction \<Rightarrow> inversedag \<Rightarrow> rev list \<times> inversedag" where
  "any_heads rl localsubset k d = (case k of Forward \<Rightarrow> (dag_heads rl localsubset, d) | Inverse \<Rightarrow> inv_getheads rl d)"

text \<open>
  The loop of \<open>_updatesample\<close>. The set \<open>nodes\<close> is empty for the whole graph; \<open>sz\<close> is 0 without a
  target.
\<close>

partial_function (option) update_loop ::
    "revlog \<Rightarrow> direction \<Rightarrow> rev set \<Rightarrow> int \<Rightarrow> rev list \<Rightarrow> (rev, int) dict \<Rightarrow> rev set \<Rightarrow> int \<Rightarrow> rev set \<Rightarrow> inversedag
      \<Rightarrow> (rev set \<times> inversedag) option" where
  "update_loop rl k nodes sz visit dist seen factor sample d =
     (if visit = [] then Some (sample, d)
      else let curr = hd visit; visit = tl visit
           in if curr \<in> seen then update_loop rl k nodes sz visit dist seen factor sample d
              else let dist = dict_setdefault curr 1 dist;
                       n = dict_getd dist curr 1;
                       factor = (if n > factor then factor * 2 else factor);
                       sample = (if n = factor then insert curr sample else sample)
                   in if n = factor \<and> sz \<noteq> 0 \<and> sz \<le> int (card sample) then Some (sample, d)
                      else (case any_parents rl k curr d of (ps, d) \<Rightarrow>
                              let ps = filter (\<lambda>p. nodes = {} \<or> p \<in> nodes) ps
                              in update_loop rl k nodes sz (visit @ ps)
                                   (foldl (\<lambda>dist p. dict_setdefault p (n + 1) dist) dist ps)
                                   (insert curr seen) factor sample d))"

definition updatesample ::
    "environment \<Rightarrow> revlog \<Rightarrow> rev list option \<Rightarrow> direction \<Rightarrow> rev set \<Rightarrow> rev set \<Rightarrow> int \<Rightarrow> inversedag
      \<Rightarrow> (rev set \<times> inversedag) res option" where
  "updatesample e rl localsubset k nodes sample quicksamplesize d =
     (case (if nodes \<noteq> {}
            then bindE (any_headset rl k (env_order e nodes) d) (\<lambda>(h, d). Inr (env_order e h, d))
            else Inr (any_heads rl localsubset k d)) of
        Inl err \<Rightarrow> Some (Inl err)
      | Inr (heads, d) \<Rightarrow> map_option Inr (update_loop rl k nodes quicksamplesize heads [] {} 1 sample d))"

definition limitsample :: "environment \<Rightarrow> rev set \<Rightarrow> int \<Rightarrow> nat \<Rightarrow> (rev set \<times> nat) res" where
  "limitsample e sample desiredlen i =
     (if desiredlen < int (card sample)
      then bindE (random_sample e i (env_order e sample) desiredlen) (\<lambda>(r, i). Inr (set r, i))
      else Inr (sample, i))"

definition takequicksample ::
    "environment \<Rightarrow> revlog \<Rightarrow> rev list option \<Rightarrow> rev set \<Rightarrow> int \<Rightarrow> inversedag \<Rightarrow> nat
      \<Rightarrow> (rev set \<times> inversedag \<times> nat) res option" where
  "takequicksample e rl localsubset nodes sz d i =
     (case headsetofconnecteds rl (env_order e nodes) of
        Inl err \<Rightarrow> Some (Inl err)
      | Inr sample \<Rightarrow>
          if sz \<le> int (card sample)
          then Some (bindE (limitsample e sample sz i) (\<lambda>(s, i). Inr (s, d, i)))
          else map_option (\<lambda>r. bindE r (\<lambda>(s, d). Inr (s, d, i))) (updatesample e rl localsubset Forward {} sample sz d))"

text \<open>The end of \<open>_takefullsample\<close>, when both directions have been sampled.\<close>

definition fill_sample :: "environment \<Rightarrow> rev set \<Rightarrow> rev set \<Rightarrow> int \<Rightarrow> nat \<Rightarrow> (rev set \<times> nat) res" where
  "fill_sample e nodes sample sz i =
     (if sample = {} then Inl AssertionError
      else bindE (limitsample e sample sz i) (\<lambda>(sample, i).
        if int (card sample) < sz
        then bindE (random_sample e i (env_order e (nodes - sample)) (sz - int (card sample))) (\<lambda>(r, i).
               Inr (sample \<union> set r, i))
        else Inr (sample, i)))"

definition takefullsample ::
    "environment \<Rightarrow> revlog \<Rightarrow> rev list option \<Rightarrow> rev set \<Rightarrow> int \<Rightarrow> inversedag \<Rightarrow> nat
      \<Rightarrow> (rev set \<times> inversedag \<times> nat) res option" where
  "takefullsample e rl localsubset nodes sz d i =
     (case headsetofconnecteds rl (env_order e nodes) of
        Inl err \<Rightarrow> Some (Inl err)
      | Inr sample \<Rightarrow>
          (case updatesample e rl localsubset Forward nodes sample 0 d of
             None \<Rightarrow> None
           | Some (Inl err) \<Rightarrow> Some (Inl err)
           | Some (Inr (sample, d)) \<Rightarrow>
               (case updatesample e rl localsubset Inverse nodes sample 0 d of
                  None \<Rightarrow> None
                | Some (Inl err) \<Rightarrow> Some (Inl err)
                | Some (Inr (sample, d)) \<Rightarrow> Some (bindE (fill_sample e nodes sample sz i) (\<lambda>(s, i). Inr (s, d, i))))))"

section \<open>Rounds of questions\<close>

record discovery =
  d_common :: incrementalmissingancestors
  d_undecided :: "rev set"
  d_missing :: "rev set"
  d_sample :: "rev list"
  d_yesno :: "bool list"
  d_full :: bool
  d_inverse :: inversedag
  d_random :: nat

definition mark_missing :: "revlog \<Rightarrow> discovery \<Rightarrow> discovery res option" where
  "mark_missing rl st =
     (if d_sample st = [] then Some (Inr st)
      else (case answered False (d_sample st) (d_yesno st) of
              Inl err \<Rightarrow> Some (Inl err)
            | Inr missinginsample \<Rightarrow>
                map_option
                  (\<lambda>(ds, d). let missing = d_missing st \<union> ds
                    in Inr (st \<lparr> d_missing := missing, d_undecided := d_undecided st - missing, d_inverse := d \<rparr>))
                  (descendantset rl missinginsample (d_missing st) (d_inverse st))))"

text \<open>The next sample, as a list.\<close>

definition next_sample :: "environment \<Rightarrow> revlog \<Rightarrow> rev list option \<Rightarrow> int \<Rightarrow> int \<Rightarrow> discovery \<Rightarrow> discovery res option" where
  "next_sample e rl localsubset initialsamplesize fullsamplesize st =
     (let full = d_full st \<or> hasbases (d_common st);
          targetsize = (if full then fullsamplesize else initialsamplesize);
          undecided = d_undecided st
      in if int (card undecided) < targetsize then Some (Inr (st \<lparr> d_sample := env_order e undecided \<rparr>))
         else map_option
                (\<lambda>r. bindE r (\<lambda>(s, d, i). bindE (limitsample e s targetsize i) (\<lambda>(s, i).
                   Inr (st \<lparr> d_sample := env_order e s, d_inverse := d, d_random := i \<rparr>))))
                ((if full then takefullsample else takequicksample)
                   e rl localsubset undecided targetsize (d_inverse st) (d_random st)))"

text \<open>Asking the remote repository about the sample.\<close>

definition query :: "environment \<Rightarrow> revlog \<Rightarrow> discovery \<Rightarrow> discovery res" where
  "query e rl st =
     (let yesno = env_known e (externalizeall rl (d_sample st));
          st = st \<lparr> d_yesno := yesno, d_full := True \<rparr>
      in if d_sample st = [] then Inr st
         else bindE (answered True (d_sample st) yesno) (\<lambda>commoninsample.
              bindE (removeancestorsfrom (addbases (set commoninsample) (d_common st)) (d_undecided st))
                (\<lambda>(common, undecided). Inr (st \<lparr> d_common := common, d_undecided := undecided \<rparr>))))"

partial_function (option) discover ::
    "environment \<Rightarrow> revlog \<Rightarrow> rev list option \<Rightarrow> int \<Rightarrow> int \<Rightarrow> discovery \<Rightarrow> discovery res option" where
  "discover e rl localsubset initialsamplesize fullsamplesize st =
     (if d_undecided st = {} then Some (Inr st)
      else (case mark_missing rl st of
              None \<Rightarrow> None
            | Some (Inl err) \<Rightarrow> Some (Inl err)
            | Some (Inr st) \<Rightarrow>
                if d_undecided st = {} then Some (Inr st)
                else (case next_sample e rl localsubset initialsamplesize fullsamplesize st of
                        None \<Rightarrow> None
                      | Some (Inl err) \<Rightarrow> Some (Inl err)
                      | Some (Inr st) \<Rightarrow>
                          (case query e rl st of
                             Inl err \<Rightarrow> Some (Inl err)
                           | Inr st \<Rightarrow> discover e rl localsubset initialsamplesize fullsamplesize st))))"

section \<open>findcommonheads and fastdiscovery\<close>

text \<open>
  What the local repository and its configuration contribute to \<open>fastdiscovery\<close>: the revisions of its
  query, the configured bookmark names and the nodes of the names the repository has.
\<close>

record localview =
  lv_fastdiscovery :: bool
  lv_publicrevs :: "rev list"
  lv_knownserverbookmarks :: "string list"
  lv_lookup :: "string \<Rightarrow> node option"

definition bookmark_values :: "localview \<Rightarrow> node list" where
  "bookmark_values lv = List.map_filter (lv_lookup lv) (lv_knownserverbookmarks lv)"

definition fastdiscovery :: "environment \<Rightarrow> revlog \<Rightarrow> localview \<Rightarrow> (node set \<times> bool \<times> node list) option res" where
  "fastdiscovery e rl lv =
     (let publicheads = map (rl_node rl) (lv_publicrevs lv);
          knownbookmarksvalues = bookmark_values lv
      in if publicheads = [] then Inr None
         else
           let publicheads = env_nodeorder e (set publicheads);
               srvheadhashes = env_heads e;
               yesnoknownbookmarks = env_known e knownbookmarksvalues;
               yesnopublicheads = env_known e publicheads
           in if knownbookmarksvalues \<noteq> [] \<and> True \<notin> set yesnoknownbookmarks then Inr None
              else
                bindE (answered True publicheads yesnopublicheads) (\<lambda>common.
                bindE (answered True knownbookmarksvalues yesnoknownbookmarks) (\<lambda>more.
                let common = common @ more
                in if common = [] then Inr None
                   else if cl_tip rl = Some nullid
                   then (if srvheadhashes \<noteq> [nullid] then Inr (Some ({nullid}, True, srvheadhashes))
                         else Inr (Some ({nullid}, False, [])))
                   else
                     let srvheads = filter (\<lambda>n. cl_contains rl (PyStr n)) srvheadhashes
                     in if length srvheads = length srvheadhashes
                        then Inr (Some (set srvheadhashes, False, srvheadhashes))
                        else Inr (Some (set common, True, srvheadhashes)))))"

fun revs_of :: "revlog \<Rightarrow> node list \<Rightarrow> rev list res" where
  "revs_of rl [] = Inr []"
| "revs_of rl (n # ns) = bindE (cl_rev rl n) (\<lambda>r. bindE (revs_of rl ns) (\<lambda>rs. Inr (r # rs)))"

text \<open>\<open>list(_limitsample(ownheads, initialsamplesize))\<close>, where \<open>ownheads\<close> is a list.\<close>

definition first_sample :: "environment \<Rightarrow> rev list \<Rightarrow> int \<Rightarrow> (rev list \<times> nat) res" where
  "first_sample e ownheads sz =
     (if sz < int (length ownheads)
      then bindE (random_sample e 0 ownheads sz) (\<lambda>(r, i). Inr (env_order e (set r), i))
      else Inr (ownheads, 0))"

text \<open>The state before the first round, from the answers to the first query.\<close>

definition start_discovery ::
    "revlog \<Rightarrow> rev list \<Rightarrow> rev list \<Rightarrow> rev list \<Rightarrow> bool list \<Rightarrow> nat \<Rightarrow> discovery res" where
  "start_discovery rl srvheads ownheads sample yesno i =
     bindE (answered True sample yesno) (\<lambda>commoninsample.
     bindE (missingancestors (addbases (set commoninsample) (incrementalmissingrevs rl (Some srvheads))) (set ownheads))
       (\<lambda>(common, undecided).
          Inr \<lparr> d_common = common, d_undecided = set undecided, d_missing = {}, d_sample = sample, d_yesno = yesno,
                d_full = False, d_inverse = inverse rl, d_random = i \<rparr>))"

definition finish :: "environment \<Rightarrow> revlog \<Rightarrow> bool \<Rightarrow> discovery \<Rightarrow> (node set \<times> bool \<times> node list) res" where
  "finish e rl abortwhenunrelated st =
     bindE (headsetofconnecteds rl (env_order e (bases (d_common st)))) (\<lambda>result.
       let result = result - {nullrev}; srvheadhashes = env_heads e
       in if result = {} \<and> srvheadhashes \<noteq> [nullid]
          then (if abortwhenunrelated then Inl (Abort ''repository is unrelated'') else Inr ({nullid}, True, srvheadhashes))
          else Inr (set (externalizeall rl (env_order e result)), srvheadhashes \<noteq> [nullid], srvheadhashes))"

text \<open>\<open>findcommonheads\<close> from line 238 on, with the local subset.\<close>

definition findcommon ::
    "environment \<Rightarrow> revlog \<Rightarrow> int \<Rightarrow> int \<Rightarrow> bool \<Rightarrow> rev list option \<Rightarrow> (node set \<times> bool \<times> node list) res option" where
  "findcommon e rl initialsamplesize fullsamplesize abortwhenunrelated localsubset =
     (let ownheads = dag_heads rl localsubset; srvheadhashes = env_heads e
      in case first_sample e ownheads initialsamplesize of
           Inl err \<Rightarrow> Some (Inl err)
         | Inr (sample, i) \<Rightarrow>
             let yesno = env_known e (externalizeall rl sample)
             in if cl_tip rl = Some nullid
                then Some (Inr (if srvheadhashes \<noteq> [nullid] then ({nullid}, True, srvheadhashes) else ({nullid}, False, [])))
                else
                  (case internalizeall rl srvheadhashes True of
                     Inl err \<Rightarrow> Some (Inl err)
                   | Inr srvheads \<Rightarrow>
                       if length srvheads = length srvheadhashes
                       then Some (Inr (set srvheadhashes, False, srvheadhashes))
                       else if sample \<noteq> [] \<and> int (length ownheads) \<le> initialsamplesize \<and> False \<notin> set yesno
                       then Some (Inr (set (externalizeall rl ownheads), True, srvheadhashes))
                       else
                         (case start_discovery rl srvheads ownheads sample yesno i of
                            Inl err \<Rightarrow> Some (Inl err)
                          | Inr st \<Rightarrow>
                              map_option (\<lambda>r. bindE r (finish e rl abortwhenunrelated))
                                (discover e rl localsubset initialsamplesize fullsamplesize st))))"

definition findcommonheads ::
    "environment \<Rightarrow> revlog \<Rightarrow> localview \<Rightarrow> int \<Rightarrow> int \<Rightarrow> bool \<Rightarrow> node list option \<Rightarrow> bool
      \<Rightarrow> (node set \<times> bool \<times> node list) res option" where
  "findcommonheads e rl lv initialsamplesize fullsamplesize abortwhenunrelated ancestorsof needlargestcommonset =
     (case (if lv_fastdiscovery lv \<and> \<not> needlargestcommonset then fastdiscovery e rl lv else Inr None) of
        Inl err \<Rightarrow> Some (Inl err)
      | Inr (Some res) \<Rightarrow> Some (Inr res)
      | Inr None \<Rightarrow>
          (case (case ancestorsof of None \<Rightarrow> Inr None | Some ns \<Rightarrow> bindE (revs_of rl ns) (\<lambda>rs. Inr (Some rs))) of
             Inl err \<Rightarrow> Some (Inl err)
           | Inr localsubset \<Rightarrow> findcommon e rl initialsamplesize fullsamplesize abortwhenunrelated localsubset))"

section \<open>What discovery relies on\<close>

text \<open>Sets are iterated completely and without repetition; \<open>random.sample\<close> chooses distinct elements.\<close>

definition environment_ok :: "environment \<Rightarrow> bool" where
  "environment_ok e \<longleftrightarrow>
     (\<forall>S. finite S \<longrightarrow> set (env_order e S) = S \<and> distinct (env_order e S)) \<and>
     (\<forall>S. finite S \<longrightarrow> set (env_nodeorder e S) = S \<and> distinct (env_nodeorder e S)) \<and>
     (\<forall>i xs k. distinct xs \<longrightarrow> k \<le> length xs \<longrightarrow>
        distinct (env_choice e i xs k) \<and> length (env_choice e i xs k) = k) \<and>
     (\<forall>i xs k. k \<le> length xs \<longrightarrow> set (env_choice e i xs k) \<subseteq> set xs)"

text \<open>
  The remote repository answers \<open>known\<close> per node (\<open>K\<close>). It has its heads and, with a revision, its
  parents; and if the local repository has all remote heads, everything the remote has
  is an ancestor of them.
\<close>

definition remote_ok :: "environment \<Rightarrow> revlog \<Rightarrow> node set \<Rightarrow> bool" where
  "remote_ok e rl K \<longleftrightarrow>
     (\<forall>ns. env_known e ns = map (\<lambda>n. n \<in> K) ns) \<and> nullid \<in> K \<and> set (env_heads e) \<subseteq> K \<and>
     (\<forall>r p. 0 \<le> r \<longrightarrow> r < int (rl_len rl) \<longrightarrow> rl_node rl r \<in> K \<longrightarrow> p \<in> set (dag_parents rl r) \<longrightarrow> rl_node rl p \<in> K) \<and>
     (\<forall>r. set (env_heads e) \<subseteq> dom (rl_nodemap rl) \<longrightarrow> 0 \<le> r \<longrightarrow> r < int (rl_len rl) \<longrightarrow> rl_node rl r \<in> K \<longrightarrow>
        r \<in> ancs (parentrevs rl) {h. \<exists>n \<in> set (env_heads e). rl_nodemap rl n = Some h})"

text \<open>The revisions the remote repository has, and those a set of nodes stands for.\<close>

definition known_revs :: "revlog \<Rightarrow> node set \<Rightarrow> rev set" where
  "known_revs rl K = {r. 0 \<le> r \<and> r < int (rl_len rl) \<and> rl_node rl r \<in> K}"

definition revs_for :: "revlog \<Rightarrow> node set \<Rightarrow> rev set" where
  "revs_for rl ns = {r. \<exists>n \<in> ns. rl_nodemap rl n = Some r}"

section \<open>Answers and samples\<close>

lemma answered_map [simp]: "answered b ns (map P ns) = Inr (filter (\<lambda>n. P n = b) ns)"
  by (induction ns) auto

lemma environment_order:
  assumes "environment_ok e" "finite S"
  shows "set (env_order e S) = S" "distinct (env_order e S)" "length (env_order e S) = card S"
  using assms distinct_card [of "env_order e S"] by (auto simp: environment_ok_def)

lemma order_Nil: "environment_ok e \<Longrightarrow> finite S \<Longrightarrow> env_order e S = [] \<longleftrightarrow> S = {}"
  using environment_order(1) [of e S] by auto

lemma random_sample_spec:
  assumes "environment_ok e" "distinct xs" "0 \<le> k" "k \<le> int (length xs)"
  shows "\<exists>r. random_sample e i xs k = Inr (r, Suc i) \<and> set r \<subseteq> set xs \<and> int (card (set r)) = k"
proof -
  let ?r = "env_choice e i xs (nat k)"
  have "nat k \<le> length xs" using assms(4) by simp
  then have "distinct ?r" "length ?r = nat k" "set ?r \<subseteq> set xs"
    using assms(1,2) by (auto simp: environment_ok_def)
  then show ?thesis using assms(3,4) distinct_card [of ?r] by (auto simp: random_sample_def)
qed

lemma limitsample_spec:
  assumes "environment_ok e" "finite s" "0 \<le> n"
  shows "\<exists>s' i'. limitsample e s n i = Inr (s', i') \<and> s' \<subseteq> s \<and> int (card s') = min n (int (card s))"
proof (cases "n < int (card s)")
  case True
  obtain r where "random_sample e i (env_order e s) n = Inr (r, Suc i)" "set r \<subseteq> s" "int (card (set r)) = n"
    using random_sample_spec [OF assms(1) environment_order(2) [OF assms(1,2)] assms(3), of i]
      environment_order [OF assms(1,2)] True by auto
  then show ?thesis using True by (auto simp: limitsample_def)
qed (simp add: limitsample_def)

text \<open>The revisions a walk in either direction may meet, and its steps.\<close>

definition universe :: "revlog \<Rightarrow> direction \<Rightarrow> rev set" where
  "universe rl k = (case k of Forward \<Rightarrow> {nullrev..<int (rl_len rl)} | Inverse \<Rightarrow> {0..<int (rl_len rl)})"

lemma finite_universe [simp]: "finite (universe rl k)"
  by (cases k) (simp_all add: universe_def)

lemma any_parents_spec:
  assumes "revlog_ok rl" "inv_ok rl d" "r \<in> universe rl k"
  shows "\<exists>ps d'. any_parents rl k r d = (ps, d') \<and> set ps \<subseteq> universe rl k \<and> inv_ok rl d'"
proof (cases k)
  case Forward
  then have "set (dag_parents rl r) \<subseteq> universe rl k"
    using dag_parents_bounds [OF assms(1), of r] assms(3) by (force simp: universe_def)
  then show ?thesis using Forward assms(2) by (simp add: any_parents_def)
next
  case Inverse
  then obtain ps d' where "inv_parents rl r d = (ps, d')" "set ps = children rl r" "inv_ok rl d'"
    using inv_parents_spec [OF assms(1,2), of r] assms(3) by (auto simp: universe_def)
  moreover have "children rl r \<subseteq> universe rl k" using Inverse by (auto simp: universe_def children_def)
  ultimately show ?thesis using Inverse by (simp add: any_parents_def)
qed

text \<open>
  The loop ends, adds revisions of \<open>V\<close> only, and with a target size it does not exceed it.
\<close>

definition sample_ext :: "rev set \<Rightarrow> int \<Rightarrow> rev set \<Rightarrow> rev set \<Rightarrow> bool" where
  "sample_ext V sz sample s \<longleftrightarrow> sample \<subseteq> s \<and> s \<subseteq> sample \<union> V \<and>
     (0 < sz \<longrightarrow> int (card sample) < sz \<longrightarrow> int (card s) \<le> sz)"

lemma sample_ext_insert:
  assumes "sample_ext V sz (insert c sample) s" "c \<in> V" "finite sample"
    "\<not> (sz \<noteq> 0 \<and> sz \<le> int (card (insert c sample)))"
  shows "sample_ext V sz sample s"
  using assms card_insert_le [of sample c] by (auto simp: sample_ext_def)

lemma update_loop_spec:
  assumes ok: "revlog_ok rl" and V: "V = (if nodes = {} then universe rl k else nodes)" "V \<subseteq> universe rl k"
  shows "set visit \<subseteq> V \<Longrightarrow> finite sample \<Longrightarrow> inv_ok rl d \<Longrightarrow>
    \<exists>s d'. update_loop rl k nodes sz visit dist seen factor sample d = Some (s, d') \<and>
      sample_ext V sz sample s \<and> inv_ok rl d'"
proof (induction "(card (universe rl k - seen), length visit)" arbitrary: visit dist seen factor sample d
    rule: worklist_induct)
  case 1
  note step = update_loop.simps [of rl k nodes sz visit dist seen factor sample d]
  show ?case
  proof (cases visit)
    case Nil
    then show ?thesis using 1(4) by (subst step) (simp add: sample_ext_def)
  next
    case (Cons c vs)
    show ?thesis
    proof (cases "c \<in> seen")
      case True
      then have "update_loop rl k nodes sz visit dist seen factor sample d = update_loop rl k nodes sz vs dist seen factor sample d"
        using Cons by (subst step) simp
      then show ?thesis using 1(1) [of seen vs sample d dist factor] 1(2-4) Cons by simp
    next
      case False
      define dist' where "dist' = dict_setdefault c 1 dist"
      define n where "n = dict_getd dist' c 1"
      define f where "f = (if n > factor then factor * 2 else factor)"
      define s1 where "s1 = (if n = f then insert c sample else sample)"
      have c: "c \<in> V" "c \<in> universe rl k" using 1(2) Cons V(2) by auto
      obtain ps d1 where ps: "any_parents rl k c d = (ps, d1)" "set ps \<subseteq> universe rl k" "inv_ok rl d1"
        using any_parents_spec [OF ok 1(4) c(2)] by blast
      let ?ps = "filter (\<lambda>p. nodes = {} \<or> p \<in> nodes) ps"
      let ?dist = "foldl (\<lambda>dist p. dict_setdefault p (n + 1) dist) dist' ?ps"
      have eq: "update_loop rl k nodes sz visit dist seen factor sample d =
          (if n = f \<and> sz \<noteq> 0 \<and> sz \<le> int (card s1) then Some (s1, d)
           else update_loop rl k nodes sz (vs @ ?ps) ?dist (insert c seen) f s1 d1)"
        using False Cons ps(1) by (subst step) (simp add: Let_def dist'_def n_def f_def s1_def)
      show ?thesis
      proof (cases "n = f \<and> sz \<noteq> 0 \<and> sz \<le> int (card s1)")
        case True
        then have "sample_ext V sz sample s1"
          using c(1) card_insert_if [OF 1(3), of c] by (auto simp: sample_ext_def s1_def split: if_splits)
        then show ?thesis using True 1(4) eq by auto
      next
        case again: False
        have "card (universe rl k - insert c seen) < card (universe rl k - seen)"
          using False c(2) by (intro card_insert_unseen) auto
        moreover have "set (vs @ ?ps) \<subseteq> V" using 1(2) Cons ps(2) V(1) by auto
        moreover have "finite s1" using 1(3) by (simp add: s1_def)
        ultimately obtain s d' where s: "update_loop rl k nodes sz (vs @ ?ps) ?dist (insert c seen) f s1 d1 = Some (s, d')"
            "sample_ext V sz s1 s" "inv_ok rl d'"
          using 1(1) [of "insert c seen" "vs @ ?ps" s1 d1 ?dist f] ps(3) by (simp del: set_append filter.simps) blast
        have "sample_ext V sz sample s"
          using s(2) sample_ext_insert [OF _ c(1) 1(3), of sz s] again by (cases "n = f") (auto simp: s1_def)
        then show ?thesis using s eq again by auto
      qed
    qed
  qed
qed

text \<open>The heads of a set in the inverse graph: its members without a parent in it.\<close>

lemma inv_discard_parents_spec:
  "revlog_ok rl \<Longrightarrow> inv_ok rl d \<Longrightarrow> set ns \<subseteq> {0..} \<Longrightarrow>
    \<exists>d'. inv_discard_parents rl ns hs d = ({h \<in> hs. \<forall>n \<in> set ns. h \<notin> children rl n}, d') \<and> inv_ok rl d'"
proof (induction ns arbitrary: hs d)
  case (Cons n ns)
  obtain ps d1 where ps: "inv_parents rl n d = (ps, d1)" "set ps = children rl n" "inv_ok rl d1"
    using inv_parents_spec [OF Cons.prems(1,2), of n] Cons.prems(3) by auto
  obtain d' where "inv_discard_parents rl ns (hs - children rl n) d1 =
      ({h \<in> hs - children rl n. \<forall>n \<in> set ns. h \<notin> children rl n}, d')" "inv_ok rl d'"
    using Cons.IH [OF Cons.prems(1) ps(3), of "hs - children rl n"] Cons.prems(3) by auto
  moreover have "{h \<in> hs - children rl n. \<forall>n \<in> set ns. h \<notin> children rl n} =
      {h \<in> hs. \<forall>n \<in> set (n # ns). h \<notin> children rl n}" by auto
  ultimately show ?case using ps(1,2) by simp
qed simp

lemma any_headset_spec:
  assumes "revlog_ok rl" "inv_ok rl d" "set ixs \<subseteq> universe rl k" "ixs \<noteq> []"
  shows "\<exists>h d'. any_headset rl k ixs d = Inr (h, d') \<and> h \<subseteq> set ixs \<and> h \<noteq> {} \<and> inv_ok rl d'"
proof (cases k)
  case Forward
  then have sub: "set ixs \<subseteq> {nullrev..}" using assms(3) by (auto simp: universe_def)
  have "top_revs rl (set ixs) \<noteq> {}"
    using top_revs_above [OF assms(1) _ sub, of "hd ixs"] assms(4) by auto
  moreover have "top_revs rl (set ixs) \<subseteq> set ixs" by (auto simp: top_revs_def)
  ultimately show ?thesis using headset_spec(1) [OF assms(1) sub] assms(2) Forward by (simp add: any_headset_def)
next
  case Inverse
  then have sub: "set ixs \<subseteq> {0..}" using assms(3) by (auto simp: universe_def)
  let ?h = "{h \<in> set ixs. \<forall>n \<in> set ixs. h \<notin> children rl n}"
  obtain d' where d': "inv_discard_parents rl ixs (set ixs) d = (?h, d')" "inv_ok rl d'"
    using inv_discard_parents_spec [OF assms(1,2) sub] by blast
  have "Min (set ixs) \<in> set ixs" using assms(4) by simp
  moreover have "Min (set ixs) \<notin> children rl n" if "n \<in> set ixs" for n
    using children_above [OF assms(1), of "Min (set ixs)" n] Min_le [OF _ that] by auto
  ultimately have ne: "?h \<noteq> {}" by blast
  have "inv_headsetofconnecteds rl ixs d = Inr (?h, d')"
    using d'(1) ne assms(4) by (simp add: inv_headsetofconnecteds_def)
  then have "any_headset rl k ixs d = Inr (?h, d')" using Inverse by (simp add: any_headset_def)
  then show ?thesis using d'(2) ne by (intro exI [of _ ?h] exI [of _ d'] conjI) auto
qed

lemma updatesample_nodes:
  assumes e: "environment_ok e" and "revlog_ok rl" "inv_ok rl d"
    and nodes: "nodes \<subseteq> universe rl k" "nodes \<noteq> {}" and "finite sample"
  shows "\<exists>s d'. updatesample e rl ls k nodes sample sz d = Some (Inr (s, d')) \<and>
    sample_ext nodes sz sample s \<and> inv_ok rl d'"
proof -
  have fin: "finite nodes" by (rule finite_subset [OF nodes(1) finite_universe])
  obtain h d1 where h: "any_headset rl k (env_order e nodes) d = Inr (h, d1)" "h \<subseteq> nodes" "inv_ok rl d1"
    using any_headset_spec [OF assms(2,3), of "env_order e nodes" k] environment_order(1) [OF e fin] nodes by fastforce
  have "set (env_order e h) \<subseteq> nodes" using environment_order(1) [OF e finite_subset [OF h(2) fin]] h(2) by simp
  then obtain s d' where "update_loop rl k nodes sz (env_order e h) [] {} 1 sample d1 = Some (s, d')"
      "sample_ext nodes sz sample s" "inv_ok rl d'"
    using update_loop_spec [OF assms(2), of nodes nodes k "env_order e h" sample d1 sz "[]" "{}" 1]
      nodes assms(6) h(3) by auto
  then show ?thesis using h(1) nodes(2) by (simp add: updatesample_def)
qed

lemma updatesample_all:
  assumes "revlog_ok rl" "inv_ok rl d" "set (dag_heads rl ls) \<subseteq> universe rl Forward" "finite sample"
  shows "\<exists>s d'. updatesample e rl ls Forward {} sample sz d = Some (Inr (s, d')) \<and>
    sample_ext (universe rl Forward) sz sample s \<and> inv_ok rl d'"
proof -
  obtain s d' where "update_loop rl Forward {} sz (dag_heads rl ls) [] {} 1 sample d = Some (s, d')"
      "sample_ext (universe rl Forward) sz sample s" "inv_ok rl d'"
    using update_loop_spec [OF assms(1), of "universe rl Forward" "{}" Forward "dag_heads rl ls" sample d sz "[]" "{}" 1]
      assms(2-4) by auto
  then show ?thesis by (simp add: updatesample_def any_heads_def)
qed

text \<open>Both ways of sampling give at most the wanted number of revisions, one of them undecided.\<close>

definition good_sample :: "revlog \<Rightarrow> rev set \<Rightarrow> int \<Rightarrow> rev set \<Rightarrow> bool" where
  "good_sample rl nodes sz s \<longleftrightarrow> s \<inter> nodes \<noteq> {} \<and> s \<subseteq> universe rl Forward \<and> int (card s) \<le> sz"

lemma good_subset:
  assumes "s \<subseteq> nodes" "nodes \<subseteq> universe rl Forward" "int (card s) \<le> sz" "0 < card s"
  shows "good_sample rl nodes sz s"
proof -
  have "s \<noteq> {}" using assms(4) by auto
  then show ?thesis using assms(1-3) by (auto simp: good_sample_def)
qed

lemma takequicksample_spec:
  assumes e: "environment_ok e" and ok: "revlog_ok rl" "inv_ok rl d"
    and nodes: "nodes \<subseteq> universe rl Forward" "nodes \<noteq> {}" and sz: "1 \<le> sz"
    and hd: "set (dag_heads rl ls) \<subseteq> universe rl Forward"
  shows "\<exists>s d' i'. takequicksample e rl ls nodes sz d i = Some (Inr (s, d', i')) \<and>
    good_sample rl nodes sz s \<and> inv_ok rl d'"
proof -
  have fin: "finite nodes" by (rule finite_subset [OF nodes(1) finite_universe])
  have order: "set (env_order e nodes) = nodes" by (rule environment_order(1) [OF e fin])
  obtain h d1 where "any_headset rl Forward (env_order e nodes) d = Inr (h, d1)" and h: "h \<subseteq> nodes" "h \<noteq> {}"
    using any_headset_spec [OF ok, of "env_order e nodes" Forward] order nodes by fastforce
  then have hs: "headsetofconnecteds rl (env_order e nodes) = Inr h"
    by (simp add: any_headset_def bindE_Inr_iff)
  have finh: "finite h" using h(1) fin by (rule finite_subset)
  show ?thesis
  proof (cases "sz \<le> int (card h)")
    case True
    obtain s i' where "limitsample e h sz i = Inr (s, i')" "s \<subseteq> h" "int (card s) = sz"
      using limitsample_spec [OF e finh, of sz i] sz True by auto
    moreover have "good_sample rl nodes sz s" if "s \<subseteq> h" "int (card s) = sz"
      using that h(1) nodes(1) sz by (intro good_subset) auto
    ultimately show ?thesis using True hs ok(2) by (simp add: takequicksample_def)
  next
    case False
    obtain s d' where s: "updatesample e rl ls Forward {} h sz d = Some (Inr (s, d'))"
        "sample_ext (universe rl Forward) sz h s" "inv_ok rl d'"
      using updatesample_all [OF ok hd finh] by blast
    then have "good_sample rl nodes sz s"
      using h nodes(1) sz False by (auto simp: good_sample_def sample_ext_def)
    then show ?thesis using False hs s by (simp add: takequicksample_def)
  qed
qed

lemma fill_sample_spec:
  assumes e: "environment_ok e" and "finite nodes" "s \<subseteq> nodes" "s \<noteq> {}" "1 \<le> sz" "sz \<le> int (card nodes)"
  shows "\<exists>s' i'. fill_sample e nodes s sz i = Inr (s', i') \<and> s' \<subseteq> nodes \<and> int (card s') \<le> sz \<and> 0 < card s'"
proof -
  have fin: "finite s" using assms(3,2) by (rule finite_subset)
  obtain s1 i1 where s1: "limitsample e s sz i = Inr (s1, i1)" "s1 \<subseteq> s" "int (card s1) = min sz (int (card s))"
    using limitsample_spec [OF e fin, of sz i] assms(5) by auto
  have pos: "0 < card s1" using s1(3) assms(4,5) fin card_gt_0_iff [of s] by auto
  show ?thesis
  proof (cases "int (card s1) < sz")
    case False
    then show ?thesis using s1 pos assms(3,4) by (auto simp: fill_sample_def)
  next
    case True
    let ?rest = "nodes - s1" and ?more = "sz - int (card s1)"
    have sub: "s1 \<subseteq> nodes" using s1(2) assms(3) by blast
    have "card ?rest = card nodes - card s1" using sub assms(2) by (intro card_Diff_subset) (auto intro: finite_subset)
    then have le: "?more \<le> int (card ?rest)" using assms(6) card_mono [OF assms(2) sub] by linarith
    have finr: "finite ?rest" using assms(2) by simp
    obtain r where r: "random_sample e i1 (env_order e ?rest) ?more = Inr (r, Suc i1)" "set r \<subseteq> ?rest" "int (card (set r)) = ?more"
      using random_sample_spec [OF e environment_order(2) [OF e finr], of ?more i1]
        environment_order(1,3) [OF e finr] True le by auto
    have "card (s1 \<union> set r) \<le> card s1 + card (set r)" by (rule card_Un_le)
    then have "int (card (s1 \<union> set r)) \<le> sz" using r(3) by linarith
    moreover have "0 < card (s1 \<union> set r)" using pos card_mono [of "s1 \<union> set r" s1] finite_subset [OF sub assms(2)] by auto
    ultimately show ?thesis using s1(1) r(1,2) True sub assms(4) by (auto simp: fill_sample_def)
  qed
qed

lemma takefullsample_spec:
  assumes e: "environment_ok e" and ok: "revlog_ok rl" "inv_ok rl d"
    and nodes: "nodes \<subseteq> universe rl Inverse" "nodes \<noteq> {}" and sz: "1 \<le> sz" "sz \<le> int (card nodes)"
  shows "\<exists>s d' i'. takefullsample e rl ls nodes sz d i = Some (Inr (s, d', i')) \<and>
    good_sample rl nodes sz s \<and> inv_ok rl d'"
proof -
  have fin: "finite nodes" by (rule finite_subset [OF nodes(1) finite_universe])
  have fwd: "nodes \<subseteq> universe rl Forward" using nodes(1) by (auto simp: universe_def)
  obtain h d0 where "any_headset rl Forward (env_order e nodes) d = Inr (h, d0)" and h: "h \<subseteq> nodes" "h \<noteq> {}"
    using any_headset_spec [OF ok, of "env_order e nodes" Forward] environment_order(1) [OF e fin] fwd nodes(2) by fastforce
  then have hs: "headsetofconnecteds rl (env_order e nodes) = Inr h"
    by (simp add: any_headset_def bindE_Inr_iff)
  have finh: "finite h" using h(1) fin by (rule finite_subset)
  obtain s1 d1 where s1: "updatesample e rl ls Forward nodes h 0 d = Some (Inr (s1, d1))"
      "sample_ext nodes 0 h s1" "inv_ok rl d1"
    using updatesample_nodes [OF e ok fwd nodes(2) finh] by blast
  have sub1: "s1 \<subseteq> nodes" "s1 \<noteq> {}" using s1(2) h by (auto simp: sample_ext_def)
  have fin1: "finite s1" using sub1(1) fin by (rule finite_subset)
  obtain s2 d2 where s2: "updatesample e rl ls Inverse nodes s1 0 d1 = Some (Inr (s2, d2))"
      "sample_ext nodes 0 s1 s2" "inv_ok rl d2"
    using updatesample_nodes [OF e ok(1) s1(3) nodes fin1] by blast
  have sub2: "s2 \<subseteq> nodes" "s2 \<noteq> {}" using s2(2) sub1 by (auto simp: sample_ext_def)
  obtain s i' where s: "fill_sample e nodes s2 sz i = Inr (s, i')" "s \<subseteq> nodes" "int (card s) \<le> sz" "0 < card s"
    using fill_sample_spec [OF e fin sub2 sz] by blast
  have "good_sample rl nodes sz s" using s(2-4) fwd by (intro good_subset)
  then show ?thesis using hs s1(1) s2(1,3) s(1) by (simp add: takefullsample_def)
qed

lemma next_sample_spec:
  assumes e: "environment_ok e" and ok: "revlog_ok rl" "inv_ok rl (d_inverse st)"
    and nodes: "d_undecided st \<subseteq> universe rl Inverse" "d_undecided st \<noteq> {}" and sz: "1 \<le> isz" "1 \<le> fsz"
    and hd: "set (dag_heads rl ls) \<subseteq> universe rl Forward"
  shows "\<exists>xs d i. next_sample e rl ls isz fsz st =
      Some (Inr (st \<lparr> d_sample := xs, d_inverse := d, d_random := i \<rparr>)) \<and>
    set xs \<inter> d_undecided st \<noteq> {} \<and> set xs \<subseteq> universe rl Forward \<and> inv_ok rl d"
proof -
  let ?U = "d_undecided st" and ?full = "d_full st \<or> hasbases (d_common st)"
  let ?sz = "if ?full then fsz else isz"
  have fin: "finite ?U" by (rule finite_subset [OF nodes(1) finite_universe])
  have fwd: "?U \<subseteq> universe rl Forward" using nodes(1) by (auto simp: universe_def)
  show ?thesis
  proof (cases "int (card ?U) < ?sz")
    case True
    then have "next_sample e rl ls isz fsz st = Some (Inr (st \<lparr> d_sample := env_order e ?U \<rparr>))"
      by (simp add: next_sample_def Let_def)
    then show ?thesis using environment_order(1) [OF e fin] nodes(2) fwd ok(2)
      by (intro exI [of _ "env_order e ?U"] exI [of _ "d_inverse st"] exI [of _ "d_random st"]) simp
  next
    case False
    obtain s d i where s: "(if ?full then takefullsample else takequicksample) e rl ls ?U ?sz (d_inverse st) (d_random st) =
        Some (Inr (s, d, i))" "good_sample rl ?U ?sz s" "inv_ok rl d"
      using takefullsample_spec [OF e ok nodes sz(2), of ls "d_random st"] False
        takequicksample_spec [OF e ok fwd nodes(2) sz(1) hd, of "d_random st"] by (cases ?full) auto
    have "next_sample e rl ls isz fsz st = Some (Inr (st \<lparr> d_sample := env_order e s, d_inverse := d, d_random := i \<rparr>))"
      using False s(1,2) by (simp add: next_sample_def Let_def limitsample_def good_sample_def split: if_splits)
    moreover have "finite s" using s(2) finite_subset [of s "universe rl Forward"] by (auto simp: good_sample_def)
    ultimately show ?thesis using s(2,3) environment_order(1) [OF e, of s]
      by (intro exI [of _ "env_order e s"] exI [of _ d] exI [of _ i]) (simp add: good_sample_def)
  qed
qed

section \<open>The rounds\<close>

lemma known_parents:
  assumes "remote_ok e rl K" "r \<in> known_revs rl K" "p \<in> set (dag_parents rl r)" "revlog_ok rl"
  shows "p \<in> known_revs rl K"
proof -
  have r: "0 \<le> r" "r < int (rl_len rl)" "rl_node rl r \<in> K" using assms(2) by (simp_all add: known_revs_def)
  have "0 \<le> p" "p < r" using dag_parents_bounds [OF assms(4) _ assms(3)] r(1) by auto
  moreover have "rl_node rl p \<in> K" using assms(1,3) r unfolding remote_ok_def by blast
  ultimately show ?thesis using r(2) by (simp add: known_revs_def)
qed

lemma known_ancs:
  assumes "revlog_ok rl" "remote_ok e rl K" "S \<subseteq> insert nullrev (known_revs rl K)"
  shows "ancs (parentrevs rl) S \<subseteq> known_revs rl K"
proof
  fix a assume "a \<in> ancs (parentrevs rl) S"
  then show "a \<in> known_revs rl K"
  proof (induction rule: ancs_induct)
    case (start v)
    then show ?case using assms(3) by auto
  next
    case (parent v p)
    then have "p \<in> set (dag_parents rl v)" by (simp add: set_dag_parents)
    then show ?case using known_parents [OF assms(2) parent.IH _ assms(1)] by simp
  qed
qed

lemma unknown_descs:
  assumes "revlog_ok rl" "remote_ok e rl K" "S \<inter> known_revs rl K = {}"
  shows "descs rl S \<inter> known_revs rl K = {}"
proof -
  have "x \<notin> known_revs rl K" if "x \<in> descs rl S" for x
  proof
    assume "x \<in> known_revs rl K"
    then have "ancs (parentrevs rl) {x} \<subseteq> known_revs rl K" by (intro known_ancs [OF assms(1,2)]) simp
    then show False using that assms(3) by (auto simp: descs_def)
  qed
  then show ?thesis by blast
qed

text \<open>
  The revisions the remote lacks according to the last answers, and the invariant of the rounds:
  the bases are known to the remote, the missing revisions are not, and every revision
  of interest (\<open>A\<close>) is an ancestor of the bases, missing, or undecided.
\<close>

definition lacking :: "discovery \<Rightarrow> rev set" where
  "lacking st = {r. (r, False) \<in> set (zip (d_sample st) (d_yesno st))}"

definition discovery_inv :: "revlog \<Rightarrow> node set \<Rightarrow> rev set \<Rightarrow> discovery \<Rightarrow> bool" where
  "discovery_inv rl K A st \<longleftrightarrow>
     ima_ok (d_common st) \<and> ima_pfunc (d_common st) = parentrevs rl \<and>
     bases (d_common st) \<subseteq> insert nullrev (known_revs rl K) \<and>
     d_missing st \<subseteq> {0..<int (rl_len rl)} - known_revs rl K \<and> (\<forall>n \<in> d_missing st. children rl n \<subseteq> d_missing st) \<and>
     d_undecided st \<subseteq> A - d_missing st \<and> A \<subseteq> d_undecided st \<union> ima_common (d_common st) \<union> d_missing st \<and>
     set (d_sample st) \<subseteq> universe rl Forward \<and> d_yesno st = map (\<lambda>r. rl_node rl r \<in> K) (d_sample st) \<and>
     inv_ok rl (d_inverse st)"

lemma lacking_eq:
  assumes "d_yesno st = map (\<lambda>r. rl_node rl r \<in> K) (d_sample st)"
  shows "lacking st = {r \<in> set (d_sample st). rl_node rl r \<notin> K}"
proof -
  have "zip xs (map P xs) = map (\<lambda>x. (x, P x)) xs" for xs :: "rev list" and P :: "rev \<Rightarrow> bool"
    by (induction xs) auto
  then show ?thesis using assms by (auto simp: lacking_def)
qed

lemma lacking_bounds:
  assumes "discovery_inv rl K A st" "revlog_ok rl" "remote_ok e rl K"
  shows "lacking st \<subseteq> {0..<int (rl_len rl)} - known_revs rl K"
proof -
  have yn: "d_yesno st = map (\<lambda>r. rl_node rl r \<in> K) (d_sample st)" and sub: "set (d_sample st) \<subseteq> universe rl Forward"
    using assms(1) unfolding discovery_inv_def by blast+
  have "rl_node rl nullrev \<in> K" using assms(2,3) by (simp add: revlog_ok_def remote_ok_def)
  then have "r \<noteq> nullrev" if "rl_node rl r \<notin> K" for r using that by auto
  then show ?thesis using sub unfolding lacking_eq [OF yn] by (force simp: known_revs_def universe_def)
qed

lemma mark_missing_spec:
  assumes inv: "discovery_inv rl K A st" and ok: "revlog_ok rl" and K: "remote_ok e rl K"
  shows "\<exists>st'. mark_missing rl st = Some (Inr st') \<and> discovery_inv rl K A st' \<and>
    d_undecided st' = d_undecided st - descs rl (lacking st)"
proof (cases "d_sample st = []")
  case True
  then show ?thesis using inv by (auto simp: mark_missing_def lacking_def descs_def)
next
  case False
  let ?M = "d_missing st" and ?D = "descs rl (lacking st)"
  note I = inv [unfolded discovery_inv_def]
  have yn: "d_yesno st = map (\<lambda>r. rl_node rl r \<in> K) (d_sample st)" using I by blast
  let ?no = "filter (\<lambda>r. (rl_node rl r \<in> K) = False) (d_sample st)"
  have no: "answered False (d_sample st) (d_yesno st) = Inr ?no" "set ?no = lacking st"
    unfolding yn lacking_eq [OF yn] by auto
  note b = lacking_bounds [OF inv ok K]
  obtain d where d: "descendantset rl ?no ?M (d_inverse st) = Some (?D - ?M, d)" "inv_ok rl d"
    using descendantset_spec [OF ok, of "d_inverse st" ?no ?M] b I no(2) by auto
  let ?st = "st \<lparr> d_missing := ?M \<union> ?D, d_undecided := d_undecided st - (?M \<union> ?D), d_inverse := d \<rparr>"
  have "mark_missing rl st = Some (Inr ?st)" using False no(1) d(1) by (simp add: mark_missing_def Let_def)
  moreover have "?D \<inter> known_revs rl K = {}" using unknown_descs [OF ok K] b by blast
  then have "discovery_inv rl K A ?st"
    using I d(2) descs_children_closed [of _ rl "lacking st"]
    unfolding discovery_inv_def by (auto simp: descs_def)
  moreover have "d_undecided st - (?M \<union> ?D) = d_undecided st - ?D" using I by blast
  ultimately show ?thesis by auto
qed

lemma known_answers: "remote_ok e rl K \<Longrightarrow> env_known e (externalizeall rl rs) = map (\<lambda>r. rl_node rl r \<in> K) rs"
  by (simp add: remote_ok_def externalizeall_def)

lemma yes_known:
  "set rs \<subseteq> universe rl Forward \<Longrightarrow> set (filter (\<lambda>r. (rl_node rl r \<in> K) = True) rs) \<subseteq> insert nullrev (known_revs rl K)"
  by (force simp: universe_def known_revs_def)

lemma addbases_ok:
  assumes "ima_ok c" "ima_pfunc c = parentrevs rl" "bases c \<subseteq> insert nullrev (known_revs rl K)"
    "S \<subseteq> insert nullrev (known_revs rl K)"
  shows "ima_ok (addbases S c)" "ima_pfunc (addbases S c) = parentrevs rl"
    "bases (addbases S c) \<subseteq> insert nullrev (known_revs rl K)"
proof -
  have "known_revs rl K \<subseteq> {0..<int (rl_len rl)}" by (auto simp: known_revs_def)
  then have "insert nullrev (known_revs rl K) \<subseteq> {nullrev..<int (rl_len rl)}" by auto
  then have "S \<subseteq> {nullrev..<int (rl_len rl)}" using assms(4) by blast
  then have "finite S" "S \<subseteq> {nullrev..}" by (auto intro: finite_subset)
  then show "ima_ok (addbases S c)" using assms(1) by (auto simp: ima_ok_def addbases_def)
qed (use assms in \<open>auto simp: addbases_def\<close>)

lemma query_spec:
  assumes inv: "discovery_inv rl K A st" and ok: "revlog_ok rl" and K: "remote_ok e rl K"
    and A: "A \<subseteq> {0..<int (rl_len rl)}" and xs: "xs \<noteq> []" "set xs \<subseteq> universe rl Forward" and d: "inv_ok rl d"
    and st1: "st1 = st \<lparr> d_sample := xs, d_inverse := d, d_random := i \<rparr>"
  shows "\<exists>st'. query e rl st1 = Inr st' \<and> discovery_inv rl K A st' \<and>
    d_undecided st' \<subseteq> d_undecided st \<and> set xs \<inter> d_undecided st' \<subseteq> lacking st'"
proof -
  note I = inv [unfolded discovery_inv_def]
  let ?P = "\<lambda>r. rl_node rl r \<in> K" and ?U = "d_undecided st"
  let ?yes = "filter (\<lambda>r. (rl_node rl r \<in> K) = True) xs"
  define c where "c = addbases (set ?yes) (d_common st)"
  have cok: "ima_ok c" "ima_pfunc c = parentrevs rl" "bases c \<subseteq> insert nullrev (known_revs rl K)"
    unfolding c_def using addbases_ok [of "d_common st" rl K "set ?yes"] yes_known [OF xs(2)] I by blast+
  have U: "?U \<subseteq> {0..<int (rl_len rl)}" using I A by blast
  then have fin: "finite ?U" "?U \<subseteq> {nullrev..}" by (auto intro: finite_subset)
  obtain c' where c': "removeancestorsfrom c ?U = Inr (c', ?U - {nullrev} - ancs (parentrevs rl) (bases c))"
      "ima_pfunc c' = ima_pfunc c" "ancs (parentrevs rl) (bases c') = ancs (parentrevs rl) (bases c)"
      "bases c \<subseteq> bases c'" "bases c' \<subseteq> insert nullrev (ancs (parentrevs rl) (bases c))"
    using pf.removeancestorsfrom_spec [OF revlog_okD [OF ok] cok(2) _ _ _ fin] cok(1) by (auto simp: ima_ok_def)
  have com: "ima_common c' = ancs (parentrevs rl) (bases c)" "ima_common c = ancs (parentrevs rl) (bases c)"
    using c'(2,3) cok(2) by (simp_all add: ima_common_def)
  have c'ok: "ima_ok c'" using ima_okI [OF cok(1) c'(2,4)] c'(5) com by simp
  have base: "bases c' \<subseteq> insert nullrev (known_revs rl K)" using c'(5) known_ancs [OF ok K cok(3)] by blast
  have "ima_common (d_common st) = ancs (parentrevs rl) (bases (d_common st))" using I by (simp add: ima_common_def)
  then have grow: "ima_common (d_common st) \<subseteq> ima_common c'" by (simp add: com(1) c_def addbases_def ancs_Un)
  define U' where "U' = ?U - {nullrev} - ima_common c'"
  let ?st = "st1 \<lparr> d_yesno := map ?P xs, d_full := True, d_common := c', d_undecided := U' \<rparr>"
  have "addbases {x \<in> set xs. rl_node rl x \<in> K} (d_common st) = c" by (simp add: c_def)
  then have "query e rl st1 = Inr ?st"
    using c'(1) xs(1) by (simp add: query_def st1 Let_def known_answers [OF K] U'_def com)
  moreover have "A \<subseteq> U' \<union> ima_common c' \<union> d_missing st"
  proof
    fix x assume x: "x \<in> A"
    then have "x \<noteq> nullrev" using A by auto
    then show "x \<in> U' \<union> ima_common c' \<union> d_missing st" using x I grow unfolding U'_def by blast
  qed
  then have "discovery_inv rl K A ?st"
    using I c'ok base cok(2) c'(2) xs(2) d unfolding discovery_inv_def by (auto simp: st1 U'_def)
  moreover have "set xs \<inter> U' \<subseteq> lacking ?st"
  proof -
    have "r \<in> ima_common c'" if "r \<in> set ?yes" "r \<noteq> nullrev" for r
      unfolding com using that by (intro ancs_start) (auto simp: c_def addbases_def)
    then have "set xs \<inter> U' \<subseteq> {r \<in> set xs. rl_node rl r \<notin> K}" by (auto simp: U'_def)
    then show ?thesis by (subst lacking_eq [of _ rl K]) (simp_all add: st1)
  qed
  ultimately show ?thesis by (auto simp: U'_def)
qed

lemma discover_spec:
  assumes e: "environment_ok e" and ok: "revlog_ok rl" and K: "remote_ok e rl K"
    and A: "A \<subseteq> {0..<int (rl_len rl)}" and sz: "1 \<le> isz" "1 \<le> fsz" and hd: "set (dag_heads rl ls) \<subseteq> universe rl Forward"
  shows "discovery_inv rl K A st \<Longrightarrow>
    \<exists>st'. discover e rl ls isz fsz st = Some (Inr st') \<and> discovery_inv rl K A st' \<and> d_undecided st' = {}"
proof (induction "card (d_undecided st - descs rl (lacking st))" arbitrary: st rule: less_induct)
  case less
  note step = discover.simps [of e rl ls isz fsz st]
  show ?case
  proof (cases "d_undecided st = {}")
    case True
    then show ?thesis using less.prems by (subst step) simp
  next
    case False
    obtain s1 where s1: "mark_missing rl st = Some (Inr s1)" "discovery_inv rl K A s1"
        "d_undecided s1 = d_undecided st - descs rl (lacking st)"
      using mark_missing_spec [OF less.prems ok K] by blast
    show ?thesis
    proof (cases "d_undecided s1 = {}")
      case True
      then show ?thesis using False s1 by (subst step) simp
    next
      case und: False
      have U: "d_undecided s1 \<subseteq> universe rl Inverse" "inv_ok rl (d_inverse s1)"
        using s1(2) A unfolding discovery_inv_def universe_def by auto
      obtain xs d i where n: "next_sample e rl ls isz fsz s1 = Some (Inr (s1 \<lparr> d_sample := xs, d_inverse := d, d_random := i \<rparr>))"
          "set xs \<inter> d_undecided s1 \<noteq> {}" "set xs \<subseteq> universe rl Forward" "inv_ok rl d"
        using next_sample_spec [OF e ok U(2,1) und sz hd] by blast
      then have xs: "xs \<noteq> []" by auto
      obtain s2 where q: "query e rl (s1 \<lparr> d_sample := xs, d_inverse := d, d_random := i \<rparr>) = Inr s2"
          "discovery_inv rl K A s2" "d_undecided s2 \<subseteq> d_undecided s1" "set xs \<inter> d_undecided s2 \<subseteq> lacking s2"
        using query_spec [OF s1(2) ok K A xs n(3,4) refl] by blast
      have "lacking s2 \<subseteq> descs rl (lacking s2)"
        using lacking_bounds [OF q(2) ok K] by (fastforce simp: descs_def intro: ancs_start)
      then have "d_undecided s2 - descs rl (lacking s2) \<subset> d_undecided s1" using n(2) q(3,4) by blast
      then have "card (d_undecided s2 - descs rl (lacking s2)) < card (d_undecided st - descs rl (lacking st))"
        unfolding s1(3) [symmetric] using finite_subset [OF U(1)] by (intro psubset_card_mono) auto
      then obtain st' where "discover e rl ls isz fsz s2 = Some (Inr st')" "discovery_inv rl K A st'" "d_undecided st' = {}"
        using less.hyps [OF _ q(2)] by blast
      moreover have "discover e rl ls isz fsz st = discover e rl ls isz fsz s2"
        using False und s1(1) n(1) q(1) by (subst step) simp
      ultimately show ?thesis by simp
    qed
  qed
qed

section \<open>The whole discovery\<close>

lemma start_discovery_spec:
  assumes ok: "revlog_ok rl" and "set srvheads \<subseteq> known_revs rl K" and K: "remote_ok e rl K"
    and own: "set ownheads \<subseteq> universe rl Forward" and sample: "set sample \<subseteq> universe rl Forward"
  shows "\<exists>st. start_discovery rl srvheads ownheads sample (map (\<lambda>r. rl_node rl r \<in> K) sample) i = Inr st \<and>
    discovery_inv rl K (ancs (parentrevs rl) (set ownheads)) st"
proof -
  let ?pf = "parentrevs rl" and ?yes = "filter (\<lambda>r. (rl_node rl r \<in> K) = True) sample"
  let ?c0 = "incrementalmissingrevs rl (Some srvheads)"
  have sub: "known_revs rl K \<subseteq> {0..<int (rl_len rl)}" by (auto simp: known_revs_def)
  have "ima_ok ?c0" "ima_pfunc ?c0 = ?pf" "bases ?c0 \<subseteq> insert nullrev (known_revs rl K)"
    using assms(2) sub revlog_okD [OF ok] by (auto simp: incrementalmissingrevs_def ima_init_def ima_ok_def Let_def)
  note c = addbases_ok [OF this yes_known [OF sample]]
  define c where "c = addbases (set ?yes) ?c0"
  have own': "finite (set ownheads)" "set ownheads \<subseteq> {nullrev..}" using own by (auto simp: universe_def)
  obtain c' where c': "missingancestors c (set ownheads) = Inr (c', sorted_list_of_set (ancs ?pf (set ownheads) - ancs ?pf (bases c)))"
      "ima_pfunc c' = ima_pfunc c" "ancs ?pf (bases c') = ancs ?pf (bases c)" "bases c \<subseteq> bases c'"
      "bases c' \<subseteq> insert nullrev (ancs ?pf (bases c))"
    using pf.missingancestors_spec [OF revlog_okD [OF ok] c(2) _ _ _ own'] c(1) by (auto simp: ima_ok_def c_def)
  have com: "ima_common c = ancs ?pf (bases c)" "ima_common c' = ancs ?pf (bases c)"
    using c'(2,3) c(2) by (simp_all add: ima_common_def c_def)
  have "ima_ok c'" using ima_okI [OF c(1)] c'(2,4,5) com by (simp add: c_def)
  moreover have fin: "finite (ancs ?pf (set ownheads))" using pf.finite_ancs [OF revlog_okD [OF ok] own'] .
  moreover have "bases c' \<subseteq> insert nullrev (known_revs rl K)"
    using c'(5) known_ancs [OF ok K c(3)] unfolding c_def by blast
  ultimately have "discovery_inv rl K (ancs ?pf (set ownheads))
      \<lparr> d_common = c', d_undecided = ancs ?pf (set ownheads) - ancs ?pf (bases c), d_missing = {}, d_sample = sample,
        d_yesno = map (\<lambda>r. rl_node rl r \<in> K) sample, d_full = False, d_inverse = inverse rl, d_random = i \<rparr>"
    using c'(2) c(2) sample inverse_ok [of rl] unfolding discovery_inv_def by (auto simp: com c_def)
  then show ?thesis using c'(1) fin by (simp add: start_discovery_def c_def)
qed

text \<open>
  What a result promises: the common nodes are known to the remote, everything of interest that the
  remote has is an ancestor of them, and without incoming changes all remote heads are local.
\<close>

definition discovered :: "environment \<Rightarrow> revlog \<Rightarrow> node set \<Rightarrow> rev set \<Rightarrow> node set \<times> bool \<times> node list \<Rightarrow> bool" where
  "discovered e rl K A = (\<lambda>(common, anyincoming, srvheads).
     common \<subseteq> K \<and> known_revs rl K \<inter> A \<subseteq> ancs (parentrevs rl) (revs_for rl common) \<and>
     (anyincoming \<longrightarrow> srvheads = env_heads e) \<and> (\<not> anyincoming \<longrightarrow> set (env_heads e) \<subseteq> dom (rl_nodemap rl)))"

lemma revs_for_nodes:
  assumes "revlog_ok rl" "S \<subseteq> universe rl Forward"
  shows "revs_for rl (rl_node rl ` S) = S"
proof -
  have "rl_nodemap rl (rl_node rl r) = Some r" if "r \<in> S" for r
  proof (cases "r = nullrev")
    case True
    then show ?thesis using assms(1) by (simp add: revlog_ok_def)
  next
    case False
    then have "0 \<le> r" "r < int (rl_len rl)" using that assms(2) by (auto simp: universe_def)
    then show ?thesis using assms(1) by (simp add: revlog_ok_def)
  qed
  then show ?thesis by (auto simp: revs_for_def)
qed

lemma revs_for_null: "revlog_ok rl \<Longrightarrow> revs_for rl {nullid} = {nullrev}"
  by (auto simp: revs_for_def revlog_ok_def)

lemma ancs_minus_null: "ancs pf (S - {nullrev}) = ancs pf S"
  by (simp add: ancs_def)

lemma finish_spec:
  assumes e: "environment_ok e" and ok: "revlog_ok rl" and K: "remote_ok e rl K"
    and inv: "discovery_inv rl K A st" and "d_undecided st = {}"
  shows "(\<exists>r. finish e rl ab st = Inr r \<and> discovered e rl K A r) \<or>
    finish e rl ab st = Inl (Abort ''repository is unrelated'') \<and> ab \<and> known_revs rl K \<inter> A = {} \<and> env_heads e \<noteq> [nullid]"
proof -
  note I = inv [unfolded discovery_inv_def]
  let ?pf = "parentrevs rl" and ?B = "bases (d_common st)"
  have B: "finite ?B" "?B \<subseteq> {nullrev..}" "?B \<subseteq> insert nullrev (known_revs rl K)" using I by (auto simp: ima_ok_def)
  have com: "ima_common (d_common st) = ancs ?pf ?B" using I by (simp add: ima_common_def)
  have order: "set (env_order e ?B) = ?B" by (rule environment_order(1) [OF e B(1)])
  define R where "R = top_revs rl ?B - {nullrev}"
  have hs: "headsetofconnecteds rl (env_order e ?B) = Inr (top_revs rl ?B)"
    and anc: "ancs ?pf R = ancs ?pf ?B"
    using headset_spec [OF ok, of "env_order e ?B"] order B(2) by (simp_all add: R_def ancs_minus_null)
  have cover: "known_revs rl K \<inter> A \<subseteq> ancs ?pf ?B" using I assms(5) com by blast
  have RK: "R \<subseteq> known_revs rl K" using B(3) by (auto simp: R_def top_revs_def)
  then have RU: "R \<subseteq> universe rl Forward" by (auto simp: known_revs_def universe_def)
  have setR: "set (externalizeall rl (env_order e R)) = rl_node rl ` R"
    using environment_order(1) [OF e finite_subset [OF RU finite_universe]] by (simp add: externalizeall_def)
  have fin: "finish e rl ab st =
      (if R = {} \<and> env_heads e \<noteq> [nullid]
       then (if ab then Inl (Abort ''repository is unrelated'') else Inr ({nullid}, True, env_heads e))
       else Inr (rl_node rl ` R, env_heads e \<noteq> [nullid], env_heads e))"
    by (simp only: finish_def hs bindE_simps Let_def R_def [symmetric] setR)
  have null: "nullid \<in> K" "nullid \<in> dom (rl_nodemap rl)"
    using K ok by (auto simp: remote_ok_def revlog_ok_def)
  show ?thesis
  proof (cases "R = {} \<and> env_heads e \<noteq> [nullid]")
    case True
    then have "known_revs rl K \<inter> A = {}" using cover anc by auto
    then show ?thesis using True null(1) fin by (cases ab) (simp_all add: discovered_def)
  next
    case False
    have "rl_node rl ` R \<subseteq> K" using RK by (auto simp: known_revs_def)
    then have "discovered e rl K A (rl_node rl ` R, env_heads e \<noteq> [nullid], env_heads e)"
      using null(2) cover anc revs_for_nodes [OF ok RU] by (auto simp: discovered_def)
    then show ?thesis unfolding fin if_not_P [OF False] by blast
  qed
qed

lemma length_concat_single:
  "\<forall>x \<in> set xs. length (f x) \<le> 1 \<Longrightarrow> length (concat (map f xs)) \<le> length xs \<and>
    (length (concat (map f xs)) = length xs \<longrightarrow> (\<forall>x \<in> set xs. f x \<noteq> []))"
  by (induction xs) (auto simp: le_Suc_eq)

lemma known_rev_length: "length (known_rev rl n) \<le> 1"
  by (auto simp: known_rev_def split: option.splits)

lemma srvheads_known:
  assumes "revlog_ok rl" "remote_ok e rl K"
  shows "set (concat (map (known_rev rl) (env_heads e))) \<subseteq> known_revs rl K"
proof
  fix r assume "r \<in> set (concat (map (known_rev rl) (env_heads e)))"
  then obtain n where n: "n \<in> set (env_heads e)" "rl_nodemap rl n = Some r" "r \<noteq> nullrev"
    by (auto simp: known_rev_def split: option.splits if_splits)
  then have "rl_node rl r = n" "nullrev \<le> r" "r < int (rl_len rl)" using assms(1) by (auto simp: revlog_ok_def)
  then show "r \<in> known_revs rl K" using n(1,3) assms(2) by (auto simp: known_revs_def remote_ok_def)
qed

lemma find_in_set: "List.find P xs = Some i \<Longrightarrow> i \<in> set xs"
  by (induction xs) (auto split: if_splits)

lemma find_range_desc: "List.find P (range_desc a b) = Some i \<Longrightarrow> i < r \<Longrightarrow> r \<le> a \<Longrightarrow> \<not> P r"
proof (induction a rule: range_desc_induct [where b = b])
  case (Cons a)
  have "List.find P (range_desc a b) = (if P a then Some a else List.find P (range_desc (a - 1) b))"
    using Cons.hyps by (simp add: range_desc_Cons)
  then show ?case using Cons.IH Cons.prems by (cases "r = a") (simp_all split: if_splits)
qed (simp add: range_desc_Nil)

lemma tip_null:
  assumes "revlog_ok rl" "cl_tip rl = Some nullid" "r \<in> universe rl Forward" "r \<notin> rl_filtered rl"
  shows "r = nullrev"
proof -
  obtain i where i: "List.find (\<lambda>i. i \<notin> rl_filtered rl) (range_desc (int (rl_len rl) - 1) (- 2)) = Some i" "rl_node rl i = nullid"
    using assms(2) by (auto simp: cl_tip_def)
  have "i \<in> set (range_desc (int (rl_len rl) - 1) (- 2))" by (rule find_in_set [OF i(1)])
  then have b: "- 1 \<le> i" "i < int (rl_len rl)" by auto
  have "rl_nodemap rl nullid = Some nullrev" "0 \<le> i \<longrightarrow> rl_nodemap rl (rl_node rl i) = Some i"
    using assms(1) b(2) unfolding revlog_ok_def by blast+
  then have "i = nullrev" using i(2) b(1) by (cases "0 \<le> i") simp_all
  then show ?thesis
    using find_range_desc [OF i(1), of r] assms(3,4) by (cases "r = nullrev") (simp_all add: universe_def)
qed

lemma first_sample_spec:
  assumes e: "environment_ok e" and "1 \<le> sz"
  shows "\<exists>s i. first_sample e own sz = Inr (s, i) \<and> set s \<subseteq> set own \<and> (int (length own) \<le> sz \<longrightarrow> s = own)"
proof (cases "sz < int (length own)")
  case True
  let ?r = "env_choice e 0 own (nat sz)"
  have "set ?r \<subseteq> set own" using e True by (simp add: environment_ok_def)
  then show ?thesis using True assms(2) environment_order(1) [OF e, of "set ?r"]
    by (simp add: first_sample_def random_sample_def)
qed (simp add: first_sample_def)

definition own_heads_ok :: "revlog \<Rightarrow> rev list \<Rightarrow> bool" where
  "own_heads_ok rl own \<longleftrightarrow> set own \<subseteq> universe rl Forward - rl_filtered rl"

definition unrelated :: "environment \<Rightarrow> revlog \<Rightarrow> node set \<Rightarrow> rev set \<Rightarrow> bool \<Rightarrow> bool" where
  "unrelated e rl K A ab \<longleftrightarrow> ab \<and> known_revs rl K \<inter> A = {} \<and> env_heads e \<noteq> [nullid]"

lemma discovered_null:
  assumes "remote_ok e rl K" "set own \<subseteq> {nullrev}"
  shows "discovered e rl K (ancs (parentrevs rl) (set own)) ({nullid}, True, env_heads e)"
proof -
  have "ancs (parentrevs rl) (set own) = {}" using ancs_mono [OF assms(2)] by fastforce
  then show ?thesis using assms(1) by (simp add: discovered_def remote_ok_def)
qed

lemma discovered_all_heads:
  assumes "remote_ok e rl K" "length (concat (map (known_rev rl) (env_heads e))) = length (env_heads e)"
  shows "discovered e rl K A (set (env_heads e), False, env_heads e)"
proof -
  have "\<forall>n \<in> set (env_heads e). known_rev rl n \<noteq> []"
    using length_concat_single [of "env_heads e" "known_rev rl"] known_rev_length assms(2) by blast
  then have dom: "set (env_heads e) \<subseteq> dom (rl_nodemap rl)" by (auto simp: known_rev_def split: option.splits)
  have "known_revs rl K \<subseteq> ancs (parentrevs rl) (revs_for rl (set (env_heads e)))"
    using assms(1) dom unfolding remote_ok_def known_revs_def revs_for_def by blast
  then show ?thesis using dom assms(1) by (auto simp: discovered_def remote_ok_def)
qed

lemma findcommon_spec:
  assumes e: "environment_ok e" and ok: "revlog_ok rl" and K: "remote_ok e rl K"
    and sz: "1 \<le> isz" "1 \<le> fsz" and own: "own_heads_ok rl (dag_heads rl ls)"
  shows "(\<exists>r. findcommon e rl isz fsz ab ls = Some (Inr r) \<and>
      discovered e rl K (ancs (parentrevs rl) (set (dag_heads rl ls))) r) \<or>
    findcommon e rl isz fsz ab ls = Some (Inl (Abort ''repository is unrelated'')) \<and>
      unrelated e rl K (ancs (parentrevs rl) (set (dag_heads rl ls))) ab"
proof -
  let ?own = "dag_heads rl ls" and ?hs = "env_heads e" and ?srv = "concat (map (known_rev rl) (env_heads e))"
  let ?A = "ancs (parentrevs rl) (set ?own)"
  have ownU: "set ?own \<subseteq> universe rl Forward" using own by (auto simp: own_heads_ok_def)
  have A: "?A \<subseteq> {0..<int (rl_len rl)}"
    using pf.ancs_bounds [OF revlog_okD [OF ok], of "set ?own"] ownU by (fastforce simp: universe_def)
  obtain s i where s: "first_sample e ?own isz = Inr (s, i)" "set s \<subseteq> set ?own" "int (length ?own) \<le> isz \<longrightarrow> s = ?own"
    using first_sample_spec [OF e sz(1)] by blast
  define yesno where "yesno = map (\<lambda>r. rl_node rl r \<in> K) s"
  have eq: "findcommon e rl isz fsz ab ls =
      (if cl_tip rl = Some nullid
       then Some (Inr (if ?hs \<noteq> [nullid] then ({nullid}, True, ?hs) else ({nullid}, False, [])))
       else if length ?srv = length ?hs then Some (Inr (set ?hs, False, ?hs))
       else if s \<noteq> [] \<and> int (length ?own) \<le> isz \<and> False \<notin> set yesno then Some (Inr (set (externalizeall rl ?own), True, ?hs))
       else (case start_discovery rl ?srv ?own s yesno i of Inl err \<Rightarrow> Some (Inl err)
             | Inr st \<Rightarrow> map_option (\<lambda>r. bindE r (finish e rl ab)) (discover e rl ls isz fsz st)))"
    using s(1) by (simp add: findcommon_def internalizeall_def known_answers [OF K] yesno_def Let_def)
  consider "cl_tip rl = Some nullid" | "cl_tip rl \<noteq> Some nullid" "length ?srv = length ?hs"
    | "cl_tip rl \<noteq> Some nullid" "length ?srv \<noteq> length ?hs" "s \<noteq> [] \<and> int (length ?own) \<le> isz \<and> False \<notin> set yesno"
    | "cl_tip rl \<noteq> Some nullid" "length ?srv \<noteq> length ?hs" "\<not> (s \<noteq> [] \<and> int (length ?own) \<le> isz \<and> False \<notin> set yesno)"
    by blast
  then show ?thesis
  proof cases
    case 1
    have "set ?own \<subseteq> {nullrev}" using tip_null [OF ok 1] own by (auto simp: own_heads_ok_def)
    note null = discovered_null [OF K this]
    moreover have "nullid \<in> dom (rl_nodemap rl)" using ok by (auto simp: revlog_ok_def)
    ultimately show ?thesis using eq 1 by (auto simp: discovered_def)
  next
    case 2
    then show ?thesis using eq discovered_all_heads [OF K 2(2)] by simp
  next
    case 3
    then have "set ?own \<subseteq> {r. rl_node rl r \<in> K}" using s(3) by (auto simp: yesno_def)
    then have "discovered e rl K ?A (set (externalizeall rl ?own), True, ?hs)"
      using revs_for_nodes [OF ok ownU] by (auto simp: discovered_def externalizeall_def)
    then show ?thesis using eq 3 by simp
  next
    case 4
    obtain st where st: "start_discovery rl ?srv ?own s yesno i = Inr st" "discovery_inv rl K ?A st"
      using start_discovery_spec [OF ok srvheads_known [OF ok K] K ownU, of s i] s(2) ownU by (auto simp: yesno_def)
    obtain st' where st': "discover e rl ls isz fsz st = Some (Inr st')" "discovery_inv rl K ?A st'" "d_undecided st' = {}"
      using discover_spec [OF e ok K A sz ownU st(2)] by blast
    have "findcommon e rl isz fsz ab ls = Some (finish e rl ab st')"
      unfolding eq if_not_P [OF 4(1)] if_not_P [OF 4(2)] if_not_P [OF 4(3)] using st(1) st'(1) by simp
    then show ?thesis using finish_spec [OF e ok K st'(2,3), of ab] by (simp add: unrelated_def)
  qed
qed

lemma revs_of_spec:
  assumes "\<forall>n \<in> set ns. \<exists>r. rl_nodemap rl n = Some r \<and> r \<notin> rl_filtered rl"
  shows "\<exists>rs. revs_of rl ns = Inr rs \<and> set rs = revs_for rl (set ns)"
  using assms
proof (induction ns)
  case (Cons n ns)
  then obtain r rs where "rl_nodemap rl n = Some r" "r \<notin> rl_filtered rl" "revs_of rl ns = Inr rs" "set rs = revs_for rl (set ns)"
    by auto
  then show ?case by (auto simp: cl_rev_def revlog_rev_def revs_for_def)
qed (simp add: revs_for_def)

text \<open>
  (C3) Discovery ends with the right answer. Let the remote repository hold the nodes \<open>K\<close>, with every
  revision its ancestors, and let the sample sizes be positive. Whatever \<open>random.sample\<close> chooses and in whatever order sets are
  iterated, \<open>findcommonheads\<close> returns: the common nodes are known to the remote, every ancestor
  of the local heads (or of \<open>ancestorsof\<close>) that the remote has is an ancestor of a common node,
  and if no incoming changes are reported, all remote heads are local. The only error is
  \<open>repository is unrelated\<close>, raised on request when the remote has none of these ancestors.
\<close>

theorem findcommonheads_correct:
  assumes "environment_ok e" "revlog_ok rl" "remote_ok e rl K" "1 \<le> initialsamplesize" "1 \<le> fullsamplesize"
    "own_heads_ok rl (rl_headrevs rl)"
    "\<forall>ns. ancestorsof = Some ns \<longrightarrow> (\<forall>n \<in> set ns. \<exists>r. rl_nodemap rl n = Some r \<and> r \<notin> rl_filtered rl)"
    "needlargestcommonset \<or> \<not> lv_fastdiscovery lv"
    "A = ancs (parentrevs rl) (case ancestorsof of None \<Rightarrow> set (rl_headrevs rl) | Some ns \<Rightarrow> revs_for rl (set ns))"
  shows "(\<exists>common anyincoming srvheads.
      findcommonheads e rl lv initialsamplesize fullsamplesize abortwhenunrelated ancestorsof needlargestcommonset =
        Some (Inr (common, anyincoming, srvheads)) \<and>
      common \<subseteq> K \<and> known_revs rl K \<inter> A \<subseteq> ancs (parentrevs rl) (revs_for rl common) \<and>
      (anyincoming \<longrightarrow> srvheads = env_heads e) \<and> (\<not> anyincoming \<longrightarrow> set (env_heads e) \<subseteq> dom (rl_nodemap rl))) \<or>
    findcommonheads e rl lv initialsamplesize fullsamplesize abortwhenunrelated ancestorsof needlargestcommonset =
        Some (Inl (Abort ''repository is unrelated'')) \<and>
      abortwhenunrelated \<and> known_revs rl K \<inter> A = {} \<and> env_heads e \<noteq> [nullid]"
proof -
  obtain ls where ls: "(case ancestorsof of None \<Rightarrow> Inr None | Some ns \<Rightarrow> bindE (revs_of rl ns) (\<lambda>rs. Inr (Some rs))) = Inr ls"
      "own_heads_ok rl (dag_heads rl ls)" "ancs (parentrevs rl) (set (dag_heads rl ls)) = A"
  proof (cases ancestorsof)
    case None
    have "set (getheads rl) = set (rl_headrevs rl) - {nullrev}" by (auto simp: getheads_def)
    then show ?thesis using that [of None] assms(6,9) None
      by (auto simp: dag_heads_def own_heads_ok_def ancs_minus_null)
  next
    case (Some ns)
    then obtain rs where rs: "revs_of rl ns = Inr rs" "set rs = revs_for rl (set ns)"
      using revs_of_spec [of ns rl] assms(7) by auto
    have "\<forall>n r. rl_nodemap rl n = Some r \<longrightarrow> nullrev \<le> r \<and> r < int (rl_len rl)"
      using assms(2) unfolding revlog_ok_def by blast
    then have "own_heads_ok rl rs" using assms(7) Some rs(2) by (fastforce simp: own_heads_ok_def revs_for_def universe_def)
    then show ?thesis using that [of "Some rs"] rs assms(9) Some by (simp add: dag_heads_def)
  qed
  have "findcommonheads e rl lv initialsamplesize fullsamplesize abortwhenunrelated ancestorsof needlargestcommonset =
      findcommon e rl initialsamplesize fullsamplesize abortwhenunrelated ls"
    using assms(8) ls(1) by (auto simp: findcommonheads_def)
  then show ?thesis
    using findcommon_spec [OF assms(1-5) ls(2), of abortwhenunrelated] unfolding ls(3)
    by (auto simp: discovered_def unrelated_def)
qed

text \<open>
  An example: the remote has the revisions 0 and 1 of the criss-cross history and a head of its own.
\<close>

definition example_nodes :: "node set" where
  "example_nodes = {nullid, rl_node crossed_log 0, rl_node crossed_log 1, wdirid}"

definition example_env :: environment where
  "example_env = \<lparr> env_order = sorted_list_of_set, env_nodeorder = sorted_list_of_set,
     env_choice = (\<lambda>i xs k. take k xs), env_heads = [rl_node crossed_log 1, wdirid],
     env_known = map (\<lambda>n. n \<in> example_nodes) \<rparr>"

definition example_view :: localview where
  "example_view = \<lparr> lv_fastdiscovery = True, lv_publicrevs = [1], lv_knownserverbookmarks = [''master''],
     lv_lookup = (\<lambda>b. Some (rl_node crossed_log 0)) \<rparr>"

lemma example_env_ok: "environment_ok example_env"
  by (auto simp: environment_ok_def example_env_def dest: in_set_takeD)

lemma example_not_local: "wdirid \<notin> dom (rl_nodemap crossed_log)"
proof -
  have "wdirid \<noteq> replicate 19 (CHR ''n'') @ [c]" for c by (simp add: wdirid_def numeral_eq_Suc)
  moreover have "wdirid \<noteq> nullid" by (simp add: wdirid_def nullid_def numeral_eq_Suc)
  ultimately show ?thesis by (auto simp: crossed_log_def)
qed

lemma example_known: "known_revs crossed_log example_nodes = {0, 1}"
proof -
  have len: "rl_len crossed_log = 5" by (simp add: crossed_log_def)
  have map: "rl_nodemap crossed_log (rl_node crossed_log r) = Some r" if "0 \<le> r" "r < 5" for r
    using crossed_log_ok that len by (simp add: revlog_ok_def)
  have "rl_nodemap crossed_log nullid = Some nullrev" using crossed_log_ok by (simp add: revlog_ok_def)
  then have null: "rl_node crossed_log r \<noteq> nullid" if "0 \<le> r" "r < 5" for r using map [OF that] that by auto
  have wdir: "rl_node crossed_log r \<noteq> wdirid" if "0 \<le> r" "r < 5" for r
    using map [OF that] example_not_local by (auto simp: dom_def)
  have inj: "rl_node crossed_log r = rl_node crossed_log s \<Longrightarrow> r = s" if "0 \<le> r" "r < 5" "0 \<le> s" "s < 5" for r s
    using map [OF that(1,2)] map [OF that(3,4)] by (metis option.inject)
  have "rl_node crossed_log r \<in> example_nodes \<longleftrightarrow> r = 0 \<or> r = 1" if "0 \<le> r" "r < 5" for r
    using null [OF that] wdir [OF that] inj [OF that, of 0] inj [OF that, of 1] by (auto simp: example_nodes_def)
  then show ?thesis by (auto simp: known_revs_def len)
qed

lemma example_remote_ok: "remote_ok example_env crossed_log example_nodes"
proof -
  have par: "set (dag_parents crossed_log r) \<subseteq> {0}" if "r \<in> {0, 1}" for r
    using that by (auto simp: set_dag_parents parentrevs_crossed crisscross_def)
  have "rl_node crossed_log p \<in> example_nodes"
    if "0 \<le> r" "r < int (rl_len crossed_log)" "rl_node crossed_log r \<in> example_nodes" "p \<in> set (dag_parents crossed_log r)" for r p
  proof -
    have "r \<in> {0, 1}" using that(1-3) example_known by (auto simp: known_revs_def)
    then have "p = 0" using par that(4) by blast
    then show ?thesis by (simp add: example_nodes_def)
  qed
  moreover have "\<not> set (env_heads example_env) \<subseteq> dom (rl_nodemap crossed_log)"
    using example_not_local by (simp add: example_env_def)
  ultimately show ?thesis by (auto simp: remote_ok_def example_env_def) (auto simp: example_nodes_def)
qed

lemma example_own_heads: "own_heads_ok crossed_log (rl_headrevs crossed_log)"
  by (simp add: own_heads_ok_def universe_def crossed_log_def)

theorem findcommonheads_correct_witness:
  "\<exists>common anyincoming srvheads.
     findcommonheads example_env crossed_log example_view 1 1 True None True = Some (Inr (common, anyincoming, srvheads)) \<and>
     common \<subseteq> example_nodes \<and> {0, 1} \<subseteq> ancs crisscross (revs_for crossed_log common)"
proof -
  have "3 \<in> ancs crisscross {4, 3}" by (rule ancs_start) simp_all
  moreover have "1 \<in> ancs crisscross {3}" "0 \<in> ancs crisscross {1}"
    by (rule ancs_of_parent; simp add: crisscross_def)+
  ultimately have "{0, 1} \<subseteq> ancs crisscross {4, 3}" using ancs_single_trans by blast
  moreover have "set (rl_headrevs crossed_log) = {4, 3}" by (simp add: crossed_log_def)
  ultimately show ?thesis
    using findcommonheads_correct [OF example_env_ok crossed_log_ok example_remote_ok _ _ example_own_heads, of 1 1 None True example_view
        "ancs crisscross {4, 3}" True]
    by (simp add: example_known parentrevs_crossed) blast
qed

text \<open>
  (C27) What \<open>fastdiscovery\<close> guarantees, and what it does not: it never fails, and the nodes it returns are known to the
  remote. But it never notices that all remote heads are known locally: it asks the changelog
  \<open>node in changelog\<close> with a node where a revision number is expected, and gets \<open>False\<close>. So it reports
  incoming changes whenever the remote is not empty.
\<close>

theorem fastdiscovery_result:
  assumes "environment_ok e" "remote_ok e rl K"
  shows "fastdiscovery e rl lv = Inr None \<or>
    (\<exists>common anyincoming srvheads. fastdiscovery e rl lv = Inr (Some (common, anyincoming, srvheads)) \<and> common \<subseteq> K \<and>
      (env_heads e \<noteq> [] \<longrightarrow> env_heads e \<noteq> [nullid] \<longrightarrow> anyincoming \<and> srvheads = env_heads e))"
proof -
  have no: "\<not> cl_contains rl (PyStr n)" for n by (simp add: cl_contains_def)
  have known: "env_known e ns = map (\<lambda>n. n \<in> K) ns" for ns using assms(2) by (simp add: remote_ok_def)
  have "nullid \<in> K" "set (env_heads e) \<subseteq> K" using assms(2) by (auto simp: remote_ok_def)
  then show ?thesis by (auto simp: fastdiscovery_def Let_def known no)
qed

theorem fastdiscovery_result_witness:
  "\<exists>common. fastdiscovery example_env crossed_log example_view = Inr (Some (common, True, env_heads example_env)) \<and>
     common \<subseteq> example_nodes"
proof -
  have "fastdiscovery example_env crossed_log example_view \<noteq> Inr None"
    by (auto simp: fastdiscovery_def Let_def example_env_def example_view_def example_nodes_def bookmark_values_def
        map_filter_simps)
  then show ?thesis using fastdiscovery_result [OF example_env_ok example_remote_ok, of example_view]
    by (auto simp: example_env_def)
qed

text \<open>
  \<open>headsetofconnecteds\<close> is meant for connected sets. The bases of a discovery need not be: the result
  can hold a node beside its descendant.
\<close>

lemma headset_keeps_ancestor: "headsetofconnecteds crossed_log [0, 3] = Inr {0, 3}"
  by (auto simp: headsetofconnecteds_def discard_parents_eq crossed_log_def dag_parents_def crisscross_def Let_def)

text \<open>The heads of the inverse graph hold the null revision, which is no revision of the graph.\<close>

lemma inverse_heads_null: "fst (inv_getheads crossed_log (inverse crossed_log)) = [0, nullrev]"
  by (simp add: inv_getheads_def walkto_def inverse_def crossed_log_def walk_loop.simps crisscross_def Let_def)

end
