(* ===== verification/Storepath.thy ===== *)
theory Storepath
  imports Pyfmt Pydict "HOL-Library.Sublist"
begin

text \<open>
  Names of files in the store (\<open>store.py\<close>): the encodings of repository paths into names that every file
  system accepts, with the fallback to hashed names. Where the code prefers a native version of a
  function (\<open>encodedir\<close>, \<open>lowerencode\<close>, \<open>pathencode\<close>), its Python version is modelled. \<open>hashlib.sha1\<close> is an argument.
\<close>

section \<open>Strings\<close>

abbreviation SLASH :: char where
  "SLASH \<equiv> CHR ''/''"

text \<open>\<open>s.replace(old, new)\<close> for a non-empty \<open>old\<close>, and \<open>sub in s\<close>.\<close>

function py_replace :: "bytes \<Rightarrow> bytes \<Rightarrow> bytes \<Rightarrow> bytes" where
  "py_replace old new [] = []"
| "py_replace old new (c # s) =
     (if old \<noteq> [] \<and> take (length old) (c # s) = old
      then new @ py_replace old new (drop (length old - 1) s)
      else c # py_replace old new s)"
  by pat_completeness auto

termination
  by (relation "measure (\<lambda>(old, new, s). length s)") auto

fun py_in :: "bytes \<Rightarrow> bytes \<Rightarrow> bool" where
  "py_in sub [] \<longleftrightarrow> sub = []"
| "py_in sub (c # s) \<longleftrightarrow> take (length sub) (c # s) = sub \<or> py_in sub s"

text \<open>\<open>"/".join(ws)\<close>\<close>

fun join_path :: "bytes list \<Rightarrow> bytes" where
  "join_path [] = []"
| "join_path [w] = w"
| "join_path (w # ws) = w @ SLASH # join_path ws"

text \<open>\<open>"~%02x" % n\<close> and \<open>c.lower()\<close>\<close>

definition hexdigit :: "nat \<Rightarrow> char" where
  "hexdigit d = char_of (if d < 10 then 48 + d else 87 + d)"

definition tilde :: "char \<Rightarrow> bytes" where
  "tilde c = (let n = of_char c in [CHR ''~'', hexdigit (n div 16), hexdigit (n mod 16)])"

definition lower_char :: "char \<Rightarrow> char" where
  "lower_char c = (let n = of_char c :: nat in if 65 \<le> n \<and> n \<le> 90 then char_of (n + 32) else c)"

text \<open>The extension of \<open>os.path.splitext\<close>, for a name without slash.\<close>

definition splitext :: "bytes \<Rightarrow> bytes" where
  "splitext n =
     (let tail = takeWhile (\<lambda>c. c \<noteq> CHR ''.'') (List.rev n)
      in if length tail = length n then []
         else let root = take (length n - length tail - 1) n
              in if \<forall>c \<in> set root. c = CHR ''.'' then [] else drop (length root) n)"

section \<open>Directories\<close>

definition encodedir :: "bytes \<Rightarrow> bytes" where
  "encodedir path =
     py_replace ''.d/'' ''.d.hg/'' (py_replace ''.i/'' ''.i.hg/'' (py_replace ''.hg/'' ''.hg.hg/'' path))"

definition decodedir :: "bytes \<Rightarrow> bytes" where
  "decodedir path =
     (if \<not> py_in ''.hg/'' path then path
      else py_replace ''.hg.hg/'' ''.hg/'' (py_replace ''.i.hg/'' ''.i/'' (py_replace ''.d.hg/'' ''.d/'' path)))"

section \<open>Characters\<close>

text \<open>\<open>_reserved()\<close> and \<open>capitals\<close>, as characters.\<close>

definition reserved :: "char list" where
  "reserved = map char_of ([0..<32] @ [126..<256]) @ [CHR 0x5C, CHR '':'', CHR ''*'', CHR ''?'', CHR 0x22, CHR ''<'', CHR ''>'', CHR ''|'']"

definition capitals :: "char list" where
  "capitals = map char_of [65..<91]"

text \<open>The tables of \<open>_buildencodefun\<close>.\<close>

definition cmap :: "(char, bytes) dict" where
  "cmap =
     foldl (\<lambda>d c. dict_set c [CHR ''_'', lower_char c] d)
       (foldl (\<lambda>d c. dict_set c (tilde c) d)
         (foldl (\<lambda>d c. dict_set c [c] d) [] (map char_of [0..<127])) reserved)
       (capitals @ [CHR ''_''])"

definition dmap :: "(bytes, char) dict" where
  "dmap = foldl (\<lambda>d (k, v). dict_set v k d) [] cmap"

definition cmaplong :: "(char, bytes) dict" where
  "cmaplong = foldl (\<lambda>d c. dict_set c [c] d) cmap capitals"

definition cmapverylong :: "(char, bytes) dict" where
  "cmapverylong = dict_set (CHR ''_'') '':'' cmaplong"

definition dmaplong :: "(bytes, char) dict res" where
  "dmaplong =
     bindE (foldl (\<lambda>r c. bindE r (\<lambda>d. if dict_has d [c] then Inl AssertionError else Inr (dict_set [c] c d))) (Inr dmap) capitals)
       (\<lambda>d. if dict_has d '':'' then Inl AssertionError else Inr (dict_set '':'' (CHR ''_'') d))"

text \<open>\<open>"".join(m[c] for c in s)\<close>\<close>

fun encode_chars :: "(char, bytes) dict \<Rightarrow> bytes \<Rightarrow> bytes res" where
  "encode_chars m [] = Inr []"
| "encode_chars m (c # s) = bindE (dict_get m c) (\<lambda>e. bindE (encode_chars m s) (\<lambda>r. Inr (e @ r)))"

definition encodecomp :: "bytes \<Rightarrow> bytes res" where
  "encodecomp w =
     bindE (encode_chars cmap w) (\<lambda>encoded.
     bindE (if length encoded > 255 then encode_chars cmaplong w else Inr encoded) (\<lambda>encoded.
     if length encoded > 255 then encode_chars cmapverylong w else Inr encoded))"

fun encode_comps :: "bytes list \<Rightarrow> bytes list res" where
  "encode_comps [] = Inr []"
| "encode_comps (w # ws) = bindE (encodecomp w) (\<lambda>e. bindE (encode_comps ws) (\<lambda>es. Inr (e # es)))"

definition encodemaybelong :: "bytes \<Rightarrow> bytes res" where
  "encodemaybelong path = bindE (encode_comps (py_split SLASH path)) (\<lambda>ws. Inr (join_path ws))"

text \<open>\<open>decode\<close>: the shortest code at the current position.\<close>

function decode :: "(bytes, char) dict \<Rightarrow> bytes \<Rightarrow> bytes res" where
  "decode m s =
     (if s = [] then Inr []
      else (case map_of m (take 1 s) of
              Some k \<Rightarrow> bindE (decode m (drop 1 s)) (\<lambda>r. Inr (k # r))
            | None \<Rightarrow>
                (case map_of m (take 2 s) of
                   Some k \<Rightarrow> bindE (decode m (drop 2 s)) (\<lambda>r. Inr (k # r))
                 | None \<Rightarrow>
                     (case map_of m (take 3 s) of
                        Some k \<Rightarrow> bindE (decode m (drop 3 s)) (\<lambda>r. Inr (k # r))
                      | None \<Rightarrow> Inl KeyError))))"
  by auto

termination
  by (relation "measure (\<lambda>(m, s). length s)") auto

declare decode.simps [simp del]

definition encodefname :: "bytes \<Rightarrow> bytes res" where
  "encodefname s = encode_chars cmap s"

definition decodefname :: "bytes \<Rightarrow> bytes res" where
  "decodefname s = decode dmap s"

definition decodefnamelong :: "bytes \<Rightarrow> bytes res" where
  "decodefnamelong s = bindE dmaplong (\<lambda>m. decode m s)"

definition encodefilename :: "bytes \<Rightarrow> bytes res" where
  "encodefilename s = encodemaybelong (encodedir s)"

definition decodefilename :: "bytes \<Rightarrow> bytes res" where
  "decodefilename s = bindE (decodefnamelong s) (\<lambda>r. Inr (decodedir r))"

definition lowermap :: "(char, bytes) dict" where
  "lowermap =
     foldl (\<lambda>d c. dict_set c [lower_char c] d)
       (foldl (\<lambda>d c. dict_set c (tilde c) d)
         (foldl (\<lambda>d c. dict_set c [c] d) [] (map char_of [0..<127])) reserved)
       capitals"

definition lowerencode :: "bytes \<Rightarrow> bytes res" where
  "lowerencode s = encode_chars lowermap s"

section \<open>Names\<close>

definition winres3 :: "bytes list" where
  "winres3 = [''aux'', ''con'', ''prn'', ''nul'']"

definition winres4 :: "bytes list" where
  "winres4 = [''com'', ''lpt'']"

definition dot_or_space :: "char \<Rightarrow> bool" where
  "dot_or_space c \<longleftrightarrow> c = CHR ''.'' \<or> c = CHR '' ''"

text \<open>One component in \<open>_auxencode\<close>: its beginning, then its end.\<close>

definition aux_begin :: "bool \<Rightarrow> bytes \<Rightarrow> bytes" where
  "aux_begin dotencode n =
     (if dotencode \<and> dot_or_space (hd n) then tilde (hd n) @ tl n
      else let l = length (takeWhile (\<lambda>c. c \<noteq> CHR ''.'') n)
           in if l = 3 \<and> take 3 n \<in> set winres3 \<or>
                 l = 4 \<and> of_char (n ! 3) \<le> (57::nat) \<and> of_char (n ! 3) \<ge> (49::nat) \<and> take 3 n \<in> set winres4
              then take 2 n @ tilde (n ! 2) @ drop 3 n
              else n)"

definition aux_end :: "bytes \<Rightarrow> bytes" where
  "aux_end n = (if dot_or_space (List.last n) then butlast n @ tilde (List.last n) else n)"

definition auxencode :: "bytes list \<Rightarrow> bool \<Rightarrow> bytes list" where
  "auxencode path dotencode = map (\<lambda>n. if n = [] then n else aux_end (aux_begin dotencode n)) path"

definition maxstorepathlen :: nat where
  "maxstorepathlen = 120"

definition dirprefixlen :: nat where
  "dirprefixlen = 8"

definition maxshortdirslen :: nat where
  "maxshortdirslen = 8 * (dirprefixlen + 1) - 4"

fun shortdirs :: "bytes list \<Rightarrow> nat \<Rightarrow> bytes list res" where
  "shortdirs [] sdirslen = Inr []"
| "shortdirs (p # ps) sdirslen =
     (let d = take dirprefixlen p
      in if d = [] then Inl IndexError
         else let d = (if dot_or_space (List.last d) then butlast d @ ''_'' else d);
                  t = (if sdirslen = 0 then length d else sdirslen + 1 + length d)
              in if sdirslen \<noteq> 0 \<and> t > maxshortdirslen then Inr []
                 else bindE (shortdirs ps t) (\<lambda>ds. Inr (d # ds)))"

definition hashencode :: "(bytes \<Rightarrow> bytes) \<Rightarrow> bytes \<Rightarrow> bool \<Rightarrow> bytes res" where
  "hashencode sha1 path dotencode =
     bindE (lowerencode (drop 5 path)) (\<lambda>le.
       let digest = sha1 path;
           parts = auxencode (py_split SLASH le) dotencode;
           basename = List.last parts;
           ext = splitext basename
       in bindE (shortdirs (butlast parts) 0) (\<lambda>sdirs.
            let dirs = join_path sdirs;
                dirs = (if length dirs > 0 then dirs @ ''/'' else dirs);
                res = ''dh/'' @ dirs @ digest @ ext;
                spaceleft = int maxstorepathlen - int (length res)
            in Inr (if spaceleft > 0 then ''dh/'' @ dirs @ take (nat spaceleft) basename @ digest @ ext else res)))"

text \<open>The reversible encoding that \<open>_hybridencode\<close> and \<open>_pathencode\<close> try first, on an encoded directory.\<close>

definition plainencode :: "bytes \<Rightarrow> bool \<Rightarrow> bytes res" where
  "plainencode path dotencode =
     bindE (encodefname path) (\<lambda>e. Inr (join_path (auxencode (py_split SLASH e) dotencode)))"

definition hybridencode :: "(bytes \<Rightarrow> bytes) \<Rightarrow> bytes \<Rightarrow> bool \<Rightarrow> bytes res" where
  "hybridencode sha1 path dotencode =
     (let path = encodedir path
      in bindE (plainencode path dotencode) (\<lambda>res.
           if length res > maxstorepathlen then hashencode sha1 path dotencode else Inr res))"

definition pathencode :: "(bytes \<Rightarrow> bytes) \<Rightarrow> bytes \<Rightarrow> bytes res" where
  "pathencode sha1 path =
     (let de = encodedir path
      in if length path > maxstorepathlen then hashencode sha1 de True
         else bindE (plainencode de True) (\<lambda>res.
                if length res > maxstorepathlen then hashencode sha1 de True else Inr res))"

section \<open>Directory suffixes\<close>

text \<open>A replacement of \<open>a/\<close> by \<open>b/\<close> works component by component.\<close>

definition swap_suffix :: "bytes \<Rightarrow> bytes \<Rightarrow> bytes \<Rightarrow> bytes" where
  "swap_suffix a b w = (if suffix a w then take (length w - length a) w @ b else w)"

lemma swap_suffix_append [simp]: "swap_suffix a b (u @ a) = u @ b"
  by (simp add: swap_suffix_def suffix_def)

lemma swap_suffix_Cons: "a \<noteq> x # w \<Longrightarrow> swap_suffix a b (x # w) = x # swap_suffix a b w"
  by (auto simp: swap_suffix_def suffix_Cons Suc_diff_le dest: suffix_length_le)

lemma before_slash: "SLASH \<notin> set w \<Longrightarrow> takeWhile (\<lambda>c. c \<noteq> SLASH) (w @ SLASH # r) = w"
  by (induction w) auto

lemma first_slash:
  assumes "SLASH \<notin> set a" "SLASH \<notin> set w"
  shows "take (Suc (length a)) (w @ SLASH # r) = a @ ''/'' \<longleftrightarrow> a = w"
proof
  assume eq: "take (Suc (length a)) (w @ SLASH # r) = a @ ''/''"
  obtain r' where "w @ SLASH # r = (a @ ''/'') @ r'" by (metis eq append_take_drop_id)
  then have "w @ SLASH # r = a @ SLASH # r'" by simp
  then show "a = w" using before_slash [OF assms(1), of r'] before_slash [OF assms(2), of r] by simp
qed simp

lemma replace_comp:
  assumes "a \<noteq> []" "SLASH \<notin> set a" "SLASH \<notin> set w"
  shows "py_replace (a @ ''/'') (b @ ''/'') (w @ SLASH # r) = swap_suffix a b w @ SLASH # py_replace (a @ ''/'') (b @ ''/'') r"
  using assms(3)
proof (induction w)
  case Nil
  have "a \<noteq> []" "take (Suc (length a)) (SLASH # r) \<noteq> a @ ''/''" using first_slash [OF assms(2), of "[]" r] assms(1) by auto
  then show ?case using assms(1) by (simp add: swap_suffix_def)
next
  case (Cons x w)
  show ?case
  proof (cases "a = x # w")
    case True
    then have "take (Suc (length a)) (x # w @ SLASH # r) = a @ ''/''" by simp
    then show ?thesis using True by (simp add: swap_suffix_def)
  next
    case False
    then have "take (Suc (length a)) ((x # w) @ SLASH # r) \<noteq> a @ ''/''" using first_slash [OF assms(2) Cons.prems] by blast
    then show ?thesis using Cons False by (simp add: swap_suffix_Cons)
  qed
qed

lemma replace_none: "\<not> py_in old s \<Longrightarrow> py_replace old new s = s"
  by (induction s) auto

lemma py_in_set: "py_in (u @ [c]) s \<Longrightarrow> c \<in> set s"
proof (induction s)
  case (Cons x s)
  show ?case
  proof (cases "take (length (u @ [c])) (x # s) = u @ [c]")
    case True
    then have "c \<in> set (take (length (u @ [c])) (x # s))" by simp
    then show ?thesis by (rule in_set_takeD)
  qed (use Cons in auto)
qed simp

lemma py_in_suffix: "py_in (u @ v) s \<Longrightarrow> py_in v s"
proof (induction s)
  case (Cons x s)
  show ?case
  proof (cases "take (length (u @ v)) (x # s) = u @ v")
    case True
    then show ?thesis
    proof (induction u arbitrary: x s)
      case (Cons y u)
      then show ?case by (cases s) auto
    qed simp
  qed (use Cons in auto)
qed simp

lemma path_induct [case_names last comp]:
  assumes "\<And>w. SLASH \<notin> set w \<Longrightarrow> P w" and "\<And>w r. SLASH \<notin> set w \<Longrightarrow> P r \<Longrightarrow> P (w @ SLASH # r)"
  shows "P s"
proof (induction s rule: length_induct)
  case (1 s)
  show ?case
  proof (cases "SLASH \<in> set s")
    case True
    then obtain w r where s: "s = w @ SLASH # r" "SLASH \<notin> set w" by (meson split_list_first)
    then show ?thesis using assms(2) 1 by simp
  qed (rule assms(1))
qed

text \<open>What \<open>encodedir\<close> and \<open>decodedir\<close> do to a component that is followed by another.\<close>

definition encode_suffix :: "bytes \<Rightarrow> bytes" where
  "encode_suffix w = swap_suffix ''.d'' ''.d.hg'' (swap_suffix ''.i'' ''.i.hg'' (swap_suffix ''.hg'' ''.hg.hg'' w))"

definition decode_suffix :: "bytes \<Rightarrow> bytes" where
  "decode_suffix w = swap_suffix ''.hg.hg'' ''.hg'' (swap_suffix ''.i.hg'' ''.i'' (swap_suffix ''.d.hg'' ''.d'' w))"

lemma swap_suffix_slash: "SLASH \<notin> set b \<Longrightarrow> SLASH \<notin> set w \<Longrightarrow> SLASH \<notin> set (swap_suffix a b w)"
  by (auto simp: swap_suffix_def dest: in_set_takeD)

lemmas replace_comps =
  replace_comp [of "''.hg''" _ "''.hg.hg''", simplified] replace_comp [of "''.i''" _ "''.i.hg''", simplified]
  replace_comp [of "''.d''" _ "''.d.hg''", simplified] replace_comp [of "''.hg.hg''" _ "''.hg''", simplified]
  replace_comp [of "''.i.hg''" _ "''.i''", simplified] replace_comp [of "''.d.hg''" _ "''.d''", simplified]

lemma encodedir_comp: "SLASH \<notin> set w \<Longrightarrow> encodedir (w @ SLASH # r) = encode_suffix w @ SLASH # encodedir r"
  by (simp add: encodedir_def encode_suffix_def replace_comps swap_suffix_slash)

lemma replace_last: "SLASH \<notin> set w \<Longrightarrow> py_replace (u @ ''/'') new w = w"
  by (rule replace_none) (auto dest: py_in_set)

lemma encodedir_last: "SLASH \<notin> set w \<Longrightarrow> encodedir w = w"
  using replace_last [of w "''.hg''"] replace_last [of w "''.i''"] replace_last [of w "''.d''"]
  by (simp add: encodedir_def)

lemma decodedir_eq:
  "decodedir s = py_replace ''.hg.hg/'' ''.hg/'' (py_replace ''.i.hg/'' ''.i/'' (py_replace ''.d.hg/'' ''.d/'' s))"
proof (cases "py_in ''.hg/'' s")
  case False
  then have "\<not> py_in ''.d.hg/'' s" "\<not> py_in ''.i.hg/'' s" "\<not> py_in ''.hg.hg/'' s"
    using py_in_suffix [of "''.d''" "''.hg/''" s] py_in_suffix [of "''.i''" "''.hg/''" s]
      py_in_suffix [of "''.hg''" "''.hg/''" s] by auto
  then show ?thesis using False by (simp add: decodedir_def replace_none)
qed (simp add: decodedir_def)

lemma decodedir_comp: "SLASH \<notin> set w \<Longrightarrow> decodedir (w @ SLASH # r) = decode_suffix w @ SLASH # decodedir r"
  by (simp add: decodedir_eq decode_suffix_def replace_comps swap_suffix_slash)

lemma decodedir_last: "SLASH \<notin> set w \<Longrightarrow> decodedir w = w"
  using replace_last [of w "''.hg.hg''"] replace_last [of w "''.i.hg''"] replace_last [of w "''.d.hg''"]
  by (simp add: decodedir_eq)

lemma swap_suffix_none: "\<not> suffix a w \<Longrightarrow> swap_suffix a b w = w"
  by (simp add: swap_suffix_def)

lemma encode_suffix_slash: "SLASH \<notin> set w \<Longrightarrow> SLASH \<notin> set (encode_suffix w)"
  by (simp add: encode_suffix_def swap_suffix_slash)

lemma suffix_end: "length a \<le> length v \<Longrightarrow> suffix a (u @ v) \<longleftrightarrow> drop (length v - length a) v = a"
proof
  assume "length a \<le> length v" "suffix a (u @ v)"
  then have "suffix a v" by (auto simp: suffix_append)
  then show "drop (length v - length a) v = a" by (auto simp: suffix_def)
next
  assume "drop (length v - length a) v = a"
  then have "suffix a v" by (metis suffix_drop)
  then show "suffix a (u @ v)" by (rule suffix_appendI)
qed

lemma swap_suffix_end:
  "length a \<le> length v \<Longrightarrow> swap_suffix a b (u @ v) =
    (if drop (length v - length a) v = a then u @ take (length v - length a) v @ b else u @ v)"
  by (simp add: swap_suffix_def suffix_end)

lemma swap_suffix_last: "a \<noteq> [] \<Longrightarrow> List.last a \<noteq> List.last w \<Longrightarrow> swap_suffix a b w = w"
  by (auto simp: swap_suffix_def suffix_def)

lemma decode_encode_suffix: "decode_suffix (encode_suffix w) = w"
proof -
  consider u where "w = u @ ''.hg''" | u where "w = u @ ''.i''" | u where "w = u @ ''.d''"
    | "\<not> suffix ''.hg'' w" "\<not> suffix ''.i'' w" "\<not> suffix ''.d'' w"
    by (auto simp: suffix_def)
  then show ?thesis
  proof cases
    case 4
    have "\<not> suffix ''.d.hg'' w" "\<not> suffix ''.i.hg'' w" "\<not> suffix ''.hg.hg'' w"
      using 4(1) suffix_order.trans [of "''.hg''"] by (auto simp: suffix_def)
    then show ?thesis using 4 by (simp add: encode_suffix_def decode_suffix_def swap_suffix_none)
  qed (simp_all add: encode_suffix_def decode_suffix_def swap_suffix_end swap_suffix_last)
qed

lemma decodedir_encodedir: "decodedir (encodedir s) = s"
  by (induction s rule: path_induct)
    (simp_all add: encodedir_last decodedir_last encodedir_comp decodedir_comp encode_suffix_slash decode_encode_suffix)

section \<open>Codes of characters\<close>

definition is_capital :: "char \<Rightarrow> bool" where
  "is_capital c \<longleftrightarrow> (let n = of_char c :: nat in 65 \<le> n \<and> n \<le> 90)"

definition escape :: "char \<Rightarrow> bytes" where
  "escape c = (if is_capital c \<or> c = CHR ''_'' then [CHR ''_'', lower_char c] else if c \<in> set reserved then tilde c else [c])"

lemma char_range:
  fixes c :: char and a b :: nat
  assumes "b \<le> 256"
  shows "c \<in> set (map char_of [a..<b]) \<longleftrightarrow> a \<le> of_char c \<and> of_char c < b"
proof
  assume "c \<in> set (map char_of [a..<b])"
  then obtain n where "n \<in> set [a..<b]" "c = char_of n" by auto
  then show "a \<le> of_char c \<and> of_char c < b" using assms by simp
next
  assume "a \<le> of_char c \<and> of_char c < b"
  then have "c \<in> char_of ` {a..<b}" by (intro image_eqI [of _ _ "of_char c"]) simp_all
  then show "c \<in> set (map char_of [a..<b])" by simp
qed

lemma of_char_less_256: "(of_char c :: nat) < 256"
  using of_char_mod_256 [of c, where 'a = nat] by (metis mod_less_divisor zero_less_numeral)

lemma capitals_iff: "c \<in> set capitals \<longleftrightarrow> is_capital c"
  unfolding capitals_def is_capital_def Let_def by (subst char_range) auto

lemma reserved_iff:
  "c \<in> set reserved \<longleftrightarrow> of_char c < (32::nat) \<or> 126 \<le> (of_char c :: nat) \<or>
    c \<in> {CHR 0x5C, CHR '':'', CHR ''*'', CHR ''?'', CHR 0x22, CHR ''<'', CHR ''>'', CHR ''|''}"
  using char_range [of 32 c 0] char_range [of 256 c 126] of_char_less_256 [of c]
  by (simp add: reserved_def del: upt_rec_numeral) blast

lemma map_of_foldl_set:
  "map_of (foldl (\<lambda>d c. dict_set c (g c) d) d xs) k = (if k \<in> set xs then Some (g k) else map_of d k)"
  by (induction xs arbitrary: d) (auto simp: dict_simps)

lemma dict_ok_foldl_set: "dict_ok d \<Longrightarrow> dict_ok (foldl (\<lambda>d c. dict_set c (g c) d) d xs)"
  by (induction xs arbitrary: d) auto

lemma ascii_or_reserved: "c \<notin> set reserved \<Longrightarrow> c \<in> set (map char_of [0..<127])"
  using char_range [of 127 c 0] by (simp add: reserved_iff del: upt_rec_numeral)

lemma map_of_cmap: "map_of cmap c = Some (escape c)"
  using ascii_or_reserved [of c] capitals_iff [of c]
  by (simp add: cmap_def map_of_foldl_set dict_simps escape_def del: upt_rec_numeral)

definition escape_long :: "char \<Rightarrow> bytes" where
  "escape_long c = (if is_capital c then [c] else escape c)"

definition escape_verylong :: "char \<Rightarrow> bytes" where
  "escape_verylong c = (if c = CHR ''_'' then '':'' else escape_long c)"

lemma map_of_cmaplong: "map_of cmaplong c = Some (escape_long c)"
  by (simp add: cmaplong_def map_of_foldl_set map_of_cmap capitals_iff escape_long_def)

lemma map_of_cmapverylong: "map_of cmapverylong c = Some (escape_verylong c)"
  by (simp add: cmapverylong_def dict_simps map_of_cmaplong escape_verylong_def)

lemma encode_chars_total: "\<forall>c. map_of m c = Some (f c) \<Longrightarrow> encode_chars m s = Inr (concat (map f s))"
  by (induction s) (simp_all add: dict_get_def)

text \<open>The codes are distinct, and none begins another.\<close>

lemma hexdigit_inj: "a < 16 \<Longrightarrow> b < 16 \<Longrightarrow> hexdigit a = hexdigit b \<Longrightarrow> a = b"
  by (auto simp: hexdigit_def split: if_splits)

lemma tilde_inj: "tilde c = tilde d \<Longrightarrow> c = d"
proof -
  let ?m = "of_char c :: nat" and ?n = "of_char d :: nat"
  assume "tilde c = tilde d"
  then have h: "hexdigit (?m div 16) = hexdigit (?n div 16)" "hexdigit (?m mod 16) = hexdigit (?n mod 16)"
    by (simp_all add: tilde_def Let_def)
  have "?m div 16 = ?n div 16" "?m mod 16 = ?n mod 16"
    using hexdigit_inj [OF _ _ h(1)] hexdigit_inj [OF _ _ h(2)] of_char_less_256 [of c] of_char_less_256 [of d]
    by (simp_all add: div_less_iff_less_mult)
  then have "?m = ?n" by (metis div_mult_mod_eq)
  then show "c = d" by (simp add: of_char_eq_iff)
qed

lemma of_lower_char: "(of_char (lower_char x) :: nat) = (if is_capital x then of_char x + 32 else of_char x)"
  by (simp add: lower_char_def is_capital_def Let_def)

lemma lower_inj:
  assumes "is_capital c \<or> c = CHR ''_''" "is_capital d \<or> d = CHR ''_''" "lower_char c = lower_char d"
  shows "c = d"
proof -
  have u: "\<not> is_capital (CHR ''_'')" by (simp add: is_capital_def)
  have l: "(of_char (lower_char c) :: nat) = of_char (lower_char d)" using assms(3) by simp
  from assms(1,2) show ?thesis
  proof (elim disjE)
    assume "is_capital c" "is_capital d"
    then have "(of_char c :: nat) = of_char d" using l by (simp add: of_lower_char)
    then show "c = d" by (simp add: of_char_eq_iff)
  qed (use l u in \<open>simp_all add: of_lower_char is_capital_def Let_def\<close>)
qed

lemma escape_cases:
  obtains (plain) "escape c = [c]" "c \<noteq> CHR ''_''" "c \<noteq> CHR ''~''" "\<not> is_capital c" "c \<notin> set reserved"
  | (under) "escape c = [CHR ''_'', lower_char c]" "is_capital c \<or> c = CHR ''_''"
  | (tilde) "escape c = tilde c" "c \<in> set reserved"
proof -
  assume plain: "escape c = [c] \<Longrightarrow> c \<noteq> CHR ''_'' \<Longrightarrow> c \<noteq> CHR ''~'' \<Longrightarrow> \<not> is_capital c \<Longrightarrow> c \<notin> set reserved \<Longrightarrow> thesis"
    and under: "escape c = [CHR ''_'', lower_char c] \<Longrightarrow> is_capital c \<or> c = CHR ''_'' \<Longrightarrow> thesis"
    and tild: "escape c = tilde c \<Longrightarrow> c \<in> set reserved \<Longrightarrow> thesis"
  have "CHR ''~'' \<in> set reserved" by (simp add: reserved_iff)
  then show thesis
    using plain under tild by (cases "is_capital c \<or> c = CHR ''_''"; cases "c \<in> set reserved") (auto simp: escape_def)
qed

lemma tilde_shape: "\<exists>x y. tilde c = [CHR ''~'', x, y]"
  by (simp add: tilde_def Let_def)

lemma escape_inj: "escape c = escape d \<Longrightarrow> c = d"
  using tilde_shape [of c] tilde_shape [of d]
  by (cases c rule: escape_cases; cases d rule: escape_cases) (auto dest: tilde_inj intro: lower_inj)

lemma map_of_foldl_inverse:
  assumes "\<forall>(k, v) \<in> set kvs. g v = k"
  shows "map_of (foldl (\<lambda>d (k, v). dict_set v k d) d kvs) v = (if v \<in> snd ` set kvs then Some (g v) else map_of d v)"
  using assms by (induction kvs arbitrary: d) (auto simp: dict_simps)

lemma set_cmap: "(k, v) \<in> set cmap \<longleftrightarrow> v = escape k"
proof -
  have "dict_ok cmap" by (simp add: cmap_def dict_ok_foldl_set del: foldl_append foldl_Cons upt_rec_numeral)
  then have "(k, v) \<in> set cmap \<longleftrightarrow> map_of cmap k = Some v" by (simp add: dict_ok_def)
  then show ?thesis by (auto simp: map_of_cmap)
qed

lemma map_of_dmap: "map_of dmap v = (if v \<in> range escape then Some (inv escape v) else None)"
proof -
  have "inj escape" using escape_inj by (auto simp: inj_def)
  then have "\<forall>(k, v) \<in> set cmap. inv escape v = k" by (auto simp: set_cmap)
  moreover have "v \<in> snd ` set cmap \<longleftrightarrow> v \<in> range escape"
    using set_cmap by (auto simp: image_iff) (metis snd_conv)
  ultimately show ?thesis by (simp add: dmap_def map_of_foldl_inverse)
qed

lemma dmap_escape: "map_of dmap (escape c) = Some c"
  using escape_inj by (simp add: map_of_dmap inj_def)

lemma escape_single: "[x] \<in> range escape \<longleftrightarrow> escape x = [x]"
proof
  assume "[x] \<in> range escape"
  then obtain c where "escape c = [x]" by force
  then show "escape x = [x]" using tilde_shape [of c] by (cases c rule: escape_cases) auto
qed (metis rangeI)

text \<open>Where a code is decoded: no shorter piece is in the table.\<close>

definition good_code :: "(bytes, char) dict \<Rightarrow> bytes \<Rightarrow> char \<Rightarrow> bool" where
  "good_code m x c \<longleftrightarrow> map_of m x = Some c \<and> length x \<in> {1, 2, 3} \<and>
     (\<forall>j. 0 < j \<longrightarrow> j < length x \<longrightarrow> map_of m (take j x) = None)"

lemma decode_code:
  assumes "good_code m x c"
  shows "decode m (x @ s) = bindE (decode m s) (\<lambda>r. Inr (c # r))"
proof -
  have j: "map_of m (take j x) = None" if "0 < j" "j < length x" for j using assms that by (simp add: good_code_def)
  have x: "map_of m x = Some c" using assms by (simp add: good_code_def)
  from assms consider "length x = 1" | "length x = 2" | "length x = 3" by (auto simp: good_code_def)
  then show ?thesis
  proof cases
    case 1
    then show ?thesis using x by (subst decode.simps) auto
  next
    case 2
    then show ?thesis using x j [of 1] by (subst decode.simps) auto
  next
    case 3
    then show ?thesis using x j [of 1] j [of 2] by (subst decode.simps) auto
  qed
qed

lemma decode_codes: "\<forall>c. good_code m (f c) c \<Longrightarrow> decode m (concat (map f s) @ t) = bindE (decode m t) (\<lambda>r. Inr (s @ r))"
proof (induction s)
  case Nil
  show ?case by (cases "decode m t") simp_all
next
  case (Cons c s)
  then have "decode m (concat (map f (c # s)) @ t) = bindE (decode m (concat (map f s) @ t)) (\<lambda>r. Inr (c # r))"
    using decode_code [of m "f c" c "concat (map f s) @ t"] Cons.prems by simp
  then show ?case using Cons by (cases "decode m t") simp_all
qed

lemma decode_Nil [simp]: "decode m [] = Inr []"
  by (simp add: decode.simps)

text \<open>A table decodes \<open>escape\<close> if it extends \<open>dmap\<close> and has neither of the introducing characters.\<close>

definition extends_dmap :: "(bytes, char) dict \<Rightarrow> bool" where
  "extends_dmap m \<longleftrightarrow> (\<forall>c. map_of m (escape c) = Some c) \<and>
     map_of m ''_'' = None \<and> map_of m ''~'' = None \<and> (\<forall>x. map_of m [CHR ''~'', x] = None)"

lemma good_tilde: "extends_dmap m \<Longrightarrow> map_of m (tilde c) = Some c \<Longrightarrow> good_code m (tilde c) c"
proof -
  assume m: "extends_dmap m" "map_of m (tilde c) = Some c"
  obtain x y where t: "tilde c = [CHR ''~'', x, y]" using tilde_shape by blast
  have "map_of m (take j (tilde c)) = None" if "0 < j" "j < length (tilde c)" for j
  proof -
    have "j = 1 \<or> j = 2" using that t by auto
    then show ?thesis using m(1) t by (auto simp: extends_dmap_def)
  qed
  then show ?thesis using m(2) t by (simp add: good_code_def)
qed

lemma good_escape:
  assumes "extends_dmap m"
  shows "good_code m (escape c) c"
proof -
  have e: "map_of m (escape c) = Some c" using assms unfolding extends_dmap_def by blast
  show ?thesis
  proof (cases c rule: escape_cases)
    case plain
    then show ?thesis using e by (simp add: good_code_def)
  next
    case under
    have "map_of m (take j (escape c)) = None" if "0 < j" "j < length (escape c)" for j
    proof -
      have "j = 1" using that under(1) by auto
      then show ?thesis using assms under(1) by (simp add: extends_dmap_def)
    qed
    then show ?thesis using e under(1) by (simp add: good_code_def)
  next
    case tilde
    then show ?thesis using good_tilde [OF assms, of c] e by simp
  qed
qed

lemma extends_dmap_dmap: "extends_dmap dmap"
proof -
  have "[CHR ''_''] \<notin> range escape" "[CHR ''~''] \<notin> range escape"
    unfolding escape_single by (simp_all add: escape_def reserved_iff is_capital_def tilde_def Let_def)
  moreover have "[CHR ''~'', x] \<notin> range escape" for x
  proof
    assume "[CHR ''~'', x] \<in> range escape"
    then obtain c where "escape c = [CHR ''~'', x]" by force
    then show False using tilde_shape [of c] by (cases c rule: escape_cases) auto
  qed
  ultimately show ?thesis using dmap_escape by (simp add: extends_dmap_def map_of_dmap)
qed

text \<open>The tables for long names.\<close>

lemma foldl_dmaplong:
  assumes "\<forall>c \<in> set cs. map_of d [c] = None" "distinct cs"
  shows "\<exists>d'. foldl (\<lambda>r c. bindE r (\<lambda>d. if dict_has d [c] then Inl AssertionError else Inr (dict_set [c] c d))) (Inr d) cs = Inr d' \<and>
    (\<forall>v. map_of d' v = (if \<exists>c \<in> set cs. v = [c] then Some (hd v) else map_of d v))"
  using assms
proof (induction cs arbitrary: d)
  case (Cons c cs)
  have d1: "\<forall>x \<in> set cs. map_of (dict_set [c] c d) [x] = None" using Cons.prems by (auto simp: dict_simps)
  show ?case using Cons.IH [OF d1] Cons.prems by (auto simp: dict_has_def dict_simps)
qed simp

lemma dmaplong_ok:
  "\<exists>m. dmaplong = Inr m \<and> (\<forall>v. map_of m v =
    (if v = '':'' then Some (CHR ''_'') else if \<exists>c. is_capital c \<and> v = [c] then Some (hd v) else map_of dmap v))"
proof -
  have plain: "escape c \<noteq> [c]" if "is_capital c \<or> c = CHR '':''" for c
    using that by (auto simp: escape_def reserved_iff tilde_def is_capital_def Let_def)
  have "\<forall>c \<in> set capitals. map_of dmap [c] = None"
    using plain by (auto simp: capitals_iff map_of_dmap escape_single)
  moreover have "distinct capitals" by (simp add: capitals_def distinct_map inj_on_def del: upt_rec_numeral)
  moreover have "(\<exists>c \<in> set capitals. v = [c]) \<longleftrightarrow> (\<exists>c. is_capital c \<and> v = [c])" for v by (auto simp: capitals_iff)
  ultimately obtain d where d: "foldl (\<lambda>r c. bindE r (\<lambda>d. if dict_has d [c] then Inl AssertionError else Inr (dict_set [c] c d))) (Inr dmap) capitals = Inr d"
      "\<forall>v. map_of d v = (if \<exists>c. is_capital c \<and> v = [c] then Some (hd v) else map_of dmap v)"
    using foldl_dmaplong [of capitals dmap] by auto
  have "map_of d '':'' = None"
    using plain [of "CHR '':''"] by (auto simp: d(2) map_of_dmap escape_single is_capital_def)
  then show ?thesis using d by (auto simp: dmaplong_def dict_has_def dict_simps)
qed

lemma good_codes_long:
  assumes m: "\<forall>v. map_of m v =
    (if v = '':'' then Some (CHR ''_'') else if \<exists>c. is_capital c \<and> v = [c] then Some (hd v) else map_of dmap v)"
  shows "good_code m (escape c) c" "good_code m (escape_long c) c" "good_code m (escape_verylong c) c"
proof -
  have single: "escape c \<noteq> '':''" "\<nexists>x. is_capital x \<and> escape c = [x]" for c
    using tilde_shape [of c] by (cases c rule: escape_cases; auto simp: reserved_iff)+
  have "extends_dmap m"
    using extends_dmap_dmap single unfolding extends_dmap_def m [rule_format] by (auto simp: is_capital_def)
  then show e: "good_code m (escape c) c" for c by (rule good_escape)
  have "good_code m [c] c" if "is_capital c" for c
    using that m by (auto simp: good_code_def is_capital_def)
  then show l: "good_code m (escape_long c) c" for c using e by (simp add: escape_long_def)
  have "good_code m '':'' (CHR ''_'')" using m by (simp add: good_code_def)
  then show "good_code m (escape_verylong c) c" using l by (simp add: escape_verylong_def)
qed

section \<open>Round trips\<close>

lemma encodefname_total: "encodefname s = Inr (concat (map escape s))"
  unfolding encodefname_def by (rule encode_chars_total) (simp add: map_of_cmap)

lemma encodecomp_cases: "\<exists>f \<in> {escape, escape_long, escape_verylong}. encodecomp w = Inr (concat (map f w))"
  using encode_chars_total [of cmap escape w] encode_chars_total [of cmaplong escape_long w]
    encode_chars_total [of cmapverylong escape_verylong w]
  by (auto simp: encodecomp_def map_of_cmap map_of_cmaplong map_of_cmapverylong)

lemma join_split: "join_path (py_split SLASH s) = s"
proof (induction s)
  case (Cons c s)
  then show ?case using py_split_neq_Nil [of SLASH s]
    by (cases "py_split SLASH s") (auto, (metis append_Cons join_path.simps(2,3) list.exhaust)+)
qed simp

lemma escape_slash: "escape SLASH = ''/''" "escape_long SLASH = ''/''" "escape_verylong SLASH = ''/''"
  by (simp_all add: escape_def escape_long_def escape_verylong_def reserved_iff is_capital_def)

lemma join_path_Cons: "ws \<noteq> [] \<Longrightarrow> join_path (w # ws) = w @ SLASH # join_path ws"
  by (cases ws) simp_all

lemma decode_comps:
  assumes "\<forall>f \<in> {escape, escape_long, escape_verylong}. \<forall>c. good_code m (f c) c"
  shows "ws \<noteq> [] \<Longrightarrow> \<exists>es. encode_comps ws = Inr es \<and> es \<noteq> [] \<and> decode m (join_path es) = Inr (join_path ws)"
proof (induction ws)
  case (Cons w ws)
  obtain f where f: "f \<in> {escape, escape_long, escape_verylong}" "encodecomp w = Inr (concat (map f w))"
    using encodecomp_cases by blast
  have w: "decode m (concat (map f w) @ t) = bindE (decode m t) (\<lambda>r. Inr (w @ r))" for t
    using decode_codes [of m f w t] assms f(1) by blast
  show ?case
  proof (cases "ws = []")
    case True
    then show ?thesis using f(2) w [of "[]"] by simp
  next
    case False
    then obtain es where es: "encode_comps ws = Inr es" "es \<noteq> []" "decode m (join_path es) = Inr (join_path ws)"
      using Cons.IH by blast
    have "good_code m ''/'' SLASH" using assms unfolding escape_slash(1) [symmetric] by blast
    then have "decode m (SLASH # join_path es) = Inr (SLASH # join_path ws)"
      using decode_code [of m "''/''" SLASH "join_path es"] es(3) by simp
    then show ?thesis using f(2) es w [of "SLASH # join_path es"] False by (simp add: join_path_Cons)
  qed
qed simp

lemma filename_roundtrip: "\<exists>e. encodefilename s = Inr e \<and> decodefilename e = Inr s"
proof -
  obtain m where m: "dmaplong = Inr m" and g: "\<forall>f \<in> {escape, escape_long, escape_verylong}. \<forall>c. good_code m (f c) c"
    using dmaplong_ok good_codes_long by blast
  obtain es where es: "encode_comps (py_split SLASH (encodedir s)) = Inr es"
      "decode m (join_path es) = Inr (join_path (py_split SLASH (encodedir s)))"
    using decode_comps [OF g, of "py_split SLASH (encodedir s)"] by auto
  have "decodefilename (join_path es) = Inr (decodedir (encodedir s))"
    unfolding decodefilename_def decodefnamelong_def m bindE_simps es(2) join_split ..
  then show ?thesis using es(1) by (simp add: encodefilename_def encodemaybelong_def decodedir_encodedir)
qed

lemma fname_roundtrip: "\<exists>e. encodefname s = Inr e \<and> decodefname e = Inr s"
  using decode_codes [of dmap escape s "[]"] good_escape [OF extends_dmap_dmap]
  by (simp add: encodefname_total decodefname_def)

section \<open>Masked names\<close>

text \<open>
  What \<open>_auxencode\<close> leaves: a name in which every character is written as by \<open>escape\<close> or with a tilde. A
  table with all tilde codes decodes it.
\<close>

definition coded :: "bytes \<Rightarrow> bytes \<Rightarrow> bool" where
  "coded w s \<longleftrightarrow> (\<exists>xs. s = concat xs \<and> list_all2 (\<lambda>c x. x = escape c \<or> x = tilde c) w xs)"

definition alltilde :: "(bytes, char) dict" where
  "alltilde = dmap @ map (\<lambda>c. (tilde c, c)) (map char_of [0..<256])"

lemma map_of_tildes: "map_of (map (\<lambda>c. (tilde c, c)) cs) (tilde c) = (if c \<in> set cs then Some c else None)"
  using tilde_inj by (induction cs) auto

lemma map_of_tildes_None: "length v \<noteq> 3 \<Longrightarrow> map_of (map (\<lambda>c. (tilde c, c)) cs) v = None"
  by (induction cs) (auto simp: tilde_def Let_def)

lemma alltilde_ok: "extends_dmap alltilde" "map_of alltilde (tilde c) = Some c"
proof -
  have "map_of alltilde v = map_of dmap v" if "length v \<noteq> 3" for v
    unfolding alltilde_def map_of_append map_add_def map_of_tildes_None [OF that] by (simp split: option.splits)
  moreover have "map_of alltilde (escape c) = Some c" for c
    unfolding alltilde_def map_of_append using dmap_escape [of c] by (simp add: map_add_def)
  ultimately show "extends_dmap alltilde" using extends_dmap_dmap by (simp add: extends_dmap_def)
  have "c \<in> set (map char_of [0..<256])" using char_range [of 256 c 0] of_char_less_256 [of c] by simp
  then have table: "map_of (map (\<lambda>c. (tilde c, c)) (map char_of [0..<256])) (tilde c) = Some c" by (simp only: map_of_tildes if_True)
  have "d = c" if "escape d = tilde c" for d
    using that tilde_shape [of c] by (cases d rule: escape_cases) (auto dest: tilde_inj)
  then have "map_of dmap (tilde c) = None \<or> map_of dmap (tilde c) = Some c"
    by (auto simp: map_of_dmap) (metis escape_inj f_inv_into_f rangeI)
  then show "map_of alltilde (tilde c) = Some c"
    unfolding alltilde_def map_of_append using table by (auto simp: map_add_def)
qed

lemma decode_coded:
  assumes "coded w s"
  shows "decode alltilde (s @ t) = bindE (decode alltilde t) (\<lambda>r. Inr (w @ r))"
proof -
  obtain xs where "s = concat xs" "list_all2 (\<lambda>c x. x = escape c \<or> x = tilde c) w xs" using assms by (auto simp: coded_def)
  moreover have "list_all2 (\<lambda>c x. x = escape c \<or> x = tilde c) w xs \<Longrightarrow>
      decode alltilde (concat xs @ t) = bindE (decode alltilde t) (\<lambda>r. Inr (w @ r))"
  proof (induction rule: list_all2_induct)
    case Nil
    show ?case by (cases "decode alltilde t") simp_all
  next
    case (Cons c w x xs)
    have "good_code alltilde x c"
      using Cons.hyps(1) good_escape [OF alltilde_ok(1)] good_tilde [OF alltilde_ok] by blast
    then have "decode alltilde (concat (x # xs) @ t) = bindE (decode alltilde (concat xs @ t)) (\<lambda>r. Inr (c # r))"
      using decode_code [of alltilde x c "concat xs @ t"] by simp
    then show ?case using Cons.IH by (cases "decode alltilde t") simp_all
  qed
  ultimately show ?thesis by simp
qed

lemma coded_escape: "coded w (concat (map escape w))"
  by (auto simp: coded_def list_all2_conv_all_nth intro!: exI [of _ "map escape w"])

lemma coded_Cons: "coded w s \<Longrightarrow> x = escape c \<or> x = tilde c \<Longrightarrow> coded (c # w) (x @ s)"
proof -
  assume "coded w s" and x: "x = escape c \<or> x = tilde c"
  then obtain xs where "s = concat xs" "list_all2 (\<lambda>c x. x = escape c \<or> x = tilde c) w xs" by (auto simp: coded_def)
  then show "coded (c # w) (x @ s)" unfolding coded_def using x by (intro exI [of _ "x # xs"]) simp
qed

lemma escape_hd:
  assumes "concat (map escape w) = x # n" "x \<noteq> CHR ''_''" "x \<noteq> CHR ''~''"
  shows "\<exists>w'. w = x # w' \<and> n = concat (map escape w') \<and> escape x = [x]"
proof (cases w)
  case (Cons c w')
  then show ?thesis using assms tilde_shape [of c] by (cases c rule: escape_cases) auto
qed (use assms in simp)

lemma coded_snoc: "coded w s \<Longrightarrow> x = escape c \<or> x = tilde c \<Longrightarrow> coded (w @ [c]) (s @ x)"
proof -
  assume "coded w s" and x: "x = escape c \<or> x = tilde c"
  then obtain xs where "s = concat xs" "list_all2 (\<lambda>c x. x = escape c \<or> x = tilde c) w xs" by (auto simp: coded_def)
  then show "coded (w @ [c]) (s @ x)"
    unfolding coded_def using x by (intro exI [of _ "xs @ [x]"]) (simp add: list_all2_appendI)
qed

lemma of_hexdigit: "d < 16 \<Longrightarrow> (of_char (hexdigit d) :: nat) = (if d < 10 then 48 + d else 87 + d)"
  by (simp add: hexdigit_def)

lemma hexdigit_plain: "d < 16 \<Longrightarrow> \<not> dot_or_space (hexdigit d)"
  using of_hexdigit [of d] by (auto simp: dot_or_space_def split: if_splits)

lemma last_code:
  assumes "x = escape c \<or> x = tilde c" "dot_or_space (List.last x)"
  shows "x = [c]"
proof -
  have t: "\<not> dot_or_space (List.last (tilde c))" by (simp add: tilde_def Let_def hexdigit_plain)
  have "\<not> dot_or_space (lower_char c)" if "is_capital c \<or> c = CHR ''_''"
    using that of_lower_char [of c] by (auto simp: dot_or_space_def is_capital_def Let_def)
  then show ?thesis using assms t by (cases c rule: escape_cases) auto
qed

lemma coded_aux_end:
  assumes "coded w n" "n \<noteq> []"
  shows "coded w (aux_end n)"
proof (cases "dot_or_space (List.last n)")
  case True
  obtain xs where xs: "n = concat xs" "list_all2 (\<lambda>c x. x = escape c \<or> x = tilde c) w xs"
    using assms(1) by (auto simp: coded_def)
  have "xs \<noteq> []" using xs(1) assms(2) by auto
  then obtain ys x where ys: "xs = ys @ [x]" by (meson rev_exhaust)
  then obtain w' c where w: "w = w' @ [c]" "list_all2 (\<lambda>c x. x = escape c \<or> x = tilde c) w' ys" "x = escape c \<or> x = tilde c"
    using xs(2) by (auto simp: list_all2_append2 list_all2_Cons2)
  have "x \<noteq> []" using w(3) tilde_shape [of c] by (cases c rule: escape_cases) auto
  then have "dot_or_space (List.last x)" using True xs(1) ys by simp
  then have x: "x = [c]" using last_code w(3) by blast
  have "coded w' (concat ys)" using w(2) by (auto simp: coded_def)
  then have "coded w (concat ys @ tilde c)" using coded_snoc w(1) by blast
  then show ?thesis using True xs(1) ys x by (simp add: aux_end_def)
qed (simp add: aux_end_def assms(1))

lemma coded_aux_begin:
  assumes "n = concat (map escape w)" "n \<noteq> []"
  shows "coded w (aux_begin dotencode n)"
proof -
  consider "dotencode" "dot_or_space (hd n)" | "take 3 n \<in> set winres3 \<union> set winres4" "aux_begin dotencode n = take 2 n @ tilde (n ! 2) @ drop 3 n"
    | "aux_begin dotencode n = n"
    unfolding aux_begin_def Let_def by (metis (no_types, lifting) UnI1 UnI2)
  then show ?thesis
  proof cases
    case 1
    then obtain w' where w: "w = hd n # w'" "tl n = concat (map escape w')"
      using escape_hd [of w "hd n" "tl n"] assms by (auto simp: dot_or_space_def)
    then show ?thesis using 1 coded_Cons [OF coded_escape] by (simp add: aux_begin_def)
  next
    case 2
    then obtain a b c r where n: "n = a # b # c # r" "{a, b, c} \<inter> {CHR ''_'', CHR ''~''} = {}"
      by (cases n; cases "tl n"; cases "tl (tl n)") (auto simp: winres3_def winres4_def numeral_3_eq_3)
    obtain w1 where w1: "w = a # w1" "b # c # r = concat (map escape w1)" "escape a = [a]"
      using escape_hd [of w a "b # c # r"] assms(1) n by auto
    obtain w2 where w2: "w1 = b # w2" "c # r = concat (map escape w2)" "escape b = [b]"
      using escape_hd [of w1 b "c # r"] w1(2) n(2) by auto
    obtain w3 where w3: "w2 = c # w3" "r = concat (map escape w3)"
      using escape_hd [of w2 c r] w2(2) n(2) by auto
    have "coded w ([a] @ [b] @ tilde c @ r)"
      using coded_Cons [of _ _ "[a]" a] coded_Cons [of _ _ "[b]" b] coded_Cons [OF coded_escape, of "tilde c" c w3] w1 w2 w3 by simp
    then show ?thesis using 2(2) n by (simp add: numeral_2_eq_2 numeral_3_eq_3)
  next
    case 3
    then show ?thesis using assms(1) coded_escape by simp
  qed
qed

lemma slash_tilde: "SLASH \<notin> set (tilde c)"
proof -
  have "hexdigit d \<noteq> SLASH" if "d < 16" for d using of_hexdigit [OF that] by (auto split: if_splits)
  moreover have "(of_char c :: nat) div 16 < 16" using of_char_less_256 [of c] by (simp add: div_less_iff_less_mult)
  ultimately show ?thesis by (simp add: tilde_def Let_def) (metis mod_less_divisor zero_less_numeral)
qed

lemma slash_escape: "SLASH \<in> set (escape c) \<longleftrightarrow> c = SLASH"
proof (cases c rule: escape_cases)
  case under
  have "lower_char c \<noteq> SLASH"
  proof
    assume "lower_char c = SLASH"
    then have "(of_char (lower_char c) :: nat) = 47" by simp
    then show False using of_lower_char [of c] under(2) by (auto simp: is_capital_def Let_def)
  qed
  then show ?thesis using under by (auto simp: is_capital_def Let_def)
next
  case tilde
  then show ?thesis using slash_tilde [of c] by (auto simp: reserved_iff)
qed auto

lemma split_escape: "py_split SLASH (concat (map escape p)) = map (\<lambda>w. concat (map escape w)) (py_split SLASH p)"
proof (induction p rule: path_induct)
  case (last w)
  then have "SLASH \<notin> set (concat (map escape w))" using slash_escape by auto
  then show ?case using last by (simp add: py_split_none)
next
  case (comp w r)
  then have "SLASH \<notin> set (concat (map escape w))" using slash_escape by auto
  then show ?case using comp by (simp add: py_split_sep escape_slash(1))
qed

lemma escape_nonempty: "concat (map escape w) = [] \<longleftrightarrow> w = []"
proof (cases w)
  case (Cons c w')
  then show ?thesis using tilde_shape [of c] by (cases c rule: escape_cases) auto
qed simp

lemma aux_begin_nonempty: "n \<noteq> [] \<Longrightarrow> aux_begin de n \<noteq> []"
  using tilde_shape [of "hd n"] tilde_shape [of "n ! 2"] by (auto simp: aux_begin_def Let_def)

lemma coded_auxencode: "list_all2 coded ws (auxencode (map (\<lambda>w. concat (map escape w)) ws) dotencode)"
proof -
  have "coded w (if concat (map escape w) = [] then concat (map escape w)
      else aux_end (aux_begin dotencode (concat (map escape w))))" for w
    using coded_escape [of w] coded_aux_end [OF coded_aux_begin [OF refl]] aux_begin_nonempty by simp
  then show ?thesis by (simp add: auxencode_def list_all2_conv_all_nth)
qed

lemma decode_join:
  "list_all2 coded ws es \<Longrightarrow> decode alltilde (join_path es) = Inr (join_path ws)"
proof (induction rule: list_all2_induct)
  case (Cons w ws e es)
  have d: "decode alltilde (e @ t) = bindE (decode alltilde t) (\<lambda>r. Inr (w @ r))" for t
    using decode_coded [OF Cons.hyps(1)] .
  show ?case
  proof (cases "ws = []")
    case True
    then have "es = []" using Cons.hyps(2) by simp
    then show ?thesis using True d [of "[]"] by simp
  next
    case False
    then have es: "es \<noteq> []" using Cons.hyps(2) by auto
    have "decode alltilde (SLASH # join_path es) = Inr (SLASH # join_path ws)"
      using decode_code [OF good_escape [OF alltilde_ok(1), of SLASH], of "join_path es"] Cons.IH by (simp add: escape_slash(1))
    then show ?thesis using False es d [of "SLASH # join_path es"] by (simp add: join_path_Cons)
  qed
qed simp

lemma plainencode_decodes: "\<exists>e. plainencode p dotencode = Inr e \<and> decode alltilde e = Inr p"
proof -
  let ?ws = "py_split SLASH p"
  have "decode alltilde (join_path (auxencode (map (\<lambda>w. concat (map escape w)) ?ws) dotencode)) = Inr (join_path ?ws)"
    by (rule decode_join [OF coded_auxencode])
  then show ?thesis by (simp add: plainencode_def encodefname_total split_escape join_split)
qed

text \<open>
  (C8) The store names of different paths are different. The encodings \<open>_encodefname\<close> and \<open>encodefilename\<close> never fail,
  and their decodings give every path back, also with directories that end in \<open>.i\<close>, \<open>.d\<close> or \<open>.hg\<close>, with long names of capitals and
  with bytes that are not allowed in names. And the encoding that \<open>_hybridencode\<close> and
  \<open>_pathencode\<close> try before they hash is injective, although it masks reserved names.
\<close>

theorem store_names_reversible:
  "(\<exists>e. encodefname s = Inr e \<and> decodefname e = Inr s) \<and>
   (\<exists>e. encodefilename s = Inr e \<and> decodefilename e = Inr s) \<and>
   (plainencode (encodedir s) d = plainencode (encodedir t) d' \<longrightarrow> s = t)"
proof -
  have "s = t" if eq: "plainencode (encodedir s) d = plainencode (encodedir t) d'"
  proof -
    obtain e where "plainencode (encodedir s) d = Inr e" "decode alltilde e = Inr (encodedir s)"
      using plainencode_decodes by blast
    moreover obtain f where "plainencode (encodedir t) d' = Inr f" "decode alltilde f = Inr (encodedir t)"
      using plainencode_decodes by blast
    ultimately have "encodedir s = encodedir t" using eq by simp
    then show "s = t" using decodedir_encodedir by metis
  qed
  then show ?thesis using fname_roundtrip filename_roundtrip by blast
qed

theorem store_names_reversible_witness:
  "plainencode (encodedir ''data/Aux.i'') True \<noteq> plainencode (encodedir ''data/aux.i'') True"
  using store_names_reversible [of "''data/Aux.i''" True "''data/aux.i''" True] by auto

section \<open>Portable names of bounded length\<close>

text \<open>Characters that every file system accepts: neither reserved nor capital, but the tilde of the codes.\<close>

definition portable :: "char \<Rightarrow> bool" where
  "portable c \<longleftrightarrow> c = CHR ''~'' \<or> c \<notin> set reserved \<and> \<not> is_capital c"

lemma portable_code: "32 \<le> (of_char c :: nat) \<Longrightarrow> of_char c < (126::nat) \<Longrightarrow> \<not> is_capital c \<Longrightarrow>
    c \<notin> {CHR 0x5C, CHR '':'', CHR ''*'', CHR ''?'', CHR 0x22, CHR ''<'', CHR ''>'', CHR ''|''} \<Longrightarrow> portable c"
  by (simp add: portable_def reserved_iff)

lemma not_special: "(of_char c :: nat) \<notin> {92, 58, 42, 63, 34, 60, 62, 124} \<Longrightarrow>
    c \<notin> {CHR 0x5C, CHR '':'', CHR ''*'', CHR ''?'', CHR 0x22, CHR ''<'', CHR ''>'', CHR ''|''}"
  by auto

lemma portable_tilde: "x \<in> set (tilde c) \<Longrightarrow> portable x"
proof -
  have h: "portable (hexdigit d)" if "d < 16" for d
    using of_hexdigit [OF that] that by (intro portable_code not_special) (auto simp: is_capital_def Let_def)
  have "(of_char c :: nat) div 16 < 16" using of_char_less_256 [of c] by (simp add: div_less_iff_less_mult)
  then show "x \<in> set (tilde c) \<Longrightarrow> portable x"
    using h [of "of_char c div 16"] h [of "of_char c mod 16"] by (auto simp: tilde_def Let_def portable_def)
qed

lemma portable_lower: "is_capital c \<or> c = CHR ''_'' \<Longrightarrow> portable (lower_char c)"
  using of_lower_char [of c] by (intro portable_code not_special) (auto simp: is_capital_def Let_def)

lemma portable_escape: "x \<in> set (escape c) \<Longrightarrow> portable x"
proof -
  have u: "portable (CHR ''_'')" by (simp add: portable_def reserved_iff is_capital_def)
  show "x \<in> set (escape c) \<Longrightarrow> portable x"
    using u portable_lower [of c] portable_tilde [of x c]
    by (cases c rule: escape_cases) (auto simp: portable_def)
qed

definition lower_escape :: "char \<Rightarrow> bytes" where
  "lower_escape c = (if is_capital c then [lower_char c] else if c \<in> set reserved then tilde c else [c])"

lemma map_of_lowermap: "map_of lowermap c = Some (lower_escape c)"
  using ascii_or_reserved [of c] capitals_iff [of c]
  by (simp add: lowermap_def map_of_foldl_set lower_escape_def del: upt_rec_numeral)

lemma lowerencode_total: "lowerencode s = Inr (concat (map lower_escape s))"
  unfolding lowerencode_def by (rule encode_chars_total) (simp add: map_of_lowermap)

lemma portable_lower_escape: "x \<in> set (lower_escape c) \<Longrightarrow> portable x"
  using portable_lower [of c] portable_tilde [of x c] by (auto simp: lower_escape_def portable_def split: if_splits)

lemma slash_lower_escape: "SLASH \<in> set (lower_escape c) \<longleftrightarrow> c = SLASH"
proof (cases "is_capital c")
  case True
  have "lower_char c \<noteq> SLASH"
  proof
    assume "lower_char c = SLASH"
    then have "(of_char (lower_char c) :: nat) = 47" by simp
    then show False using of_lower_char [of c] True by (auto simp: is_capital_def Let_def)
  qed
  then show ?thesis using True by (auto simp: lower_escape_def is_capital_def Let_def)
next
  case False
  then show ?thesis using slash_tilde [of c] by (auto simp: lower_escape_def reserved_iff)
qed

lemma lower_escape_slash: "lower_escape SLASH = ''/''"
  by (simp add: lower_escape_def is_capital_def reserved_iff)

lemma split_lower: "py_split SLASH (concat (map lower_escape p)) = map (\<lambda>w. concat (map lower_escape w)) (py_split SLASH p)"
proof (induction p rule: path_induct)
  case (last w)
  then have "SLASH \<notin> set (concat (map lower_escape w))" using slash_lower_escape by auto
  then show ?case using last by (simp add: py_split_none)
next
  case (comp w r)
  then have "SLASH \<notin> set (concat (map lower_escape w))" using slash_lower_escape by auto
  then show ?case using comp by (simp add: py_split_sep lower_escape_slash)
qed

lemma lower_escape_nonempty: "concat (map lower_escape w) = [] \<longleftrightarrow> w = []"
proof (cases w)
  case (Cons c w')
  have "lower_escape c \<noteq> []" using tilde_shape [of c] by (auto simp: lower_escape_def)
  then show ?thesis using Cons by simp
qed simp

lemma set_aux_begin:
  assumes "n \<noteq> []"
  shows "set (aux_begin de n) \<subseteq> set n \<union> set (tilde (hd n)) \<union> set (tilde (n ! 2))"
proof -
  have "aux_begin de n \<in> {n, tilde (hd n) @ tl n, take 2 n @ tilde (n ! 2) @ drop 3 n}"
    by (simp add: aux_begin_def Let_def)
  moreover have "set (tl n) \<subseteq> set n" "set (take 2 n) \<subseteq> set n" "set (drop 3 n) \<subseteq> set n"
    using assms by (auto simp: set_take_subset set_drop_subset list.set_sel(2))
  ultimately show ?thesis by (elim insertE) auto
qed

lemma portable_aux_begin: "n \<noteq> [] \<Longrightarrow> \<forall>x \<in> set n. portable x \<Longrightarrow> \<forall>x \<in> set (aux_begin de n). portable x"
  using set_aux_begin [of n de] portable_tilde by blast

lemma portable_aux_end: "\<forall>x \<in> set n. portable x \<Longrightarrow> \<forall>x \<in> set (aux_end n). portable x"
proof -
  have "set (butlast n) \<subseteq> set n" by (rule subsetI) (rule in_set_butlastD)
  then have "set (aux_end n) \<subseteq> set n \<union> set (tilde (List.last n))"
    by (cases "dot_or_space (List.last n)") (simp_all add: aux_end_def le_supI1)
  then show "\<forall>x \<in> set n. portable x \<Longrightarrow> \<forall>x \<in> set (aux_end n). portable x" using portable_tilde by blast
qed

lemma aux_end_nonempty: "n \<noteq> [] \<Longrightarrow> aux_end n \<noteq> []"
  by (cases "dot_or_space (List.last n)") (simp_all add: aux_end_def tilde_def Let_def)

lemma portable_slash: "portable SLASH"
  by (simp add: portable_def reserved_iff is_capital_def)

lemma portable_join: "list_all (list_all portable) ws \<Longrightarrow> list_all portable (join_path ws)"
  by (induction ws rule: join_path.induct) (simp_all add: portable_slash)

lemma portable_aux:
  assumes "n \<noteq> []" "list_all portable n"
  shows "list_all portable (aux_end (aux_begin de n))"
proof -
  have "\<forall>x \<in> set n. portable x" using assms(2) by (simp add: list_all_iff)
  then have "\<forall>x \<in> set (aux_end (aux_begin de n)). portable x"
    using portable_aux_begin [OF assms(1)] portable_aux_end by blast
  then show ?thesis by (simp add: list_all_iff)
qed

lemma portable_auxencode: "list_all (list_all portable) ws \<Longrightarrow> list_all (list_all portable) (auxencode ws de)"
  by (induction ws) (simp_all add: auxencode_def portable_aux)

lemma portable_codes: "list_all (list_all portable) (map (\<lambda>w. concat (map escape w)) ws)"
    "list_all (list_all portable) (map (\<lambda>w. concat (map lower_escape w)) ws)"
  using portable_escape portable_lower_escape by (simp_all add: list_all_iff)

lemma portable_plainencode: "plainencode p de = Inr e \<Longrightarrow> list_all portable e"
  using portable_join [OF portable_auxencode [OF portable_codes(1)]]
  by (auto simp: plainencode_def encodefname_total split_escape)

text \<open>The directories of a hashed name.\<close>

lemma shortdirs_spec:
  assumes "list_all (\<lambda>p. p \<noteq> []) ps" "list_all (list_all portable) ps" "n \<le> maxshortdirslen"
  shows "\<exists>ds. shortdirs ps n = Inr ds \<and> list_all (list_all portable) ds \<and>
    (ds = [] \<or> (if n = 0 then 0 else n + 1) + length (join_path ds) \<le> maxshortdirslen)"
  using assms
proof (induction ps arbitrary: n)
  case (Cons p ps)
  let ?d0 = "take dirprefixlen p"
  define d where "d = (if dot_or_space (List.last ?d0) then butlast ?d0 @ ''_'' else ?d0)"
  define t where "t = (if n = 0 then length d else n + 1 + length d)"
  have ne: "?d0 \<noteq> []" using Cons.prems(1) by (simp add: dirprefixlen_def)
  then have len: "length d = length ?d0" by (simp add: d_def)
  then have d: "0 < length d" "length d \<le> 8" using ne by (simp, simp add: dirprefixlen_def)
  have "portable (CHR ''_'')" by (simp add: portable_def reserved_iff is_capital_def)
  moreover have "list_all portable ?d0" "list_all portable (butlast ?d0)"
    using Cons.prems(2) by (auto simp: list_all_iff dest: in_set_takeD in_set_butlastD)
  ultimately have port: "list_all portable d" by (simp add: d_def)
  have eq: "shortdirs (p # ps) n = (if n \<noteq> 0 \<and> t > maxshortdirslen then Inr [] else bindE (shortdirs ps t) (\<lambda>ds. Inr (d # ds)))"
    using ne by (simp add: d_def t_def Let_def)
  show ?case
  proof (cases "n \<noteq> 0 \<and> t > maxshortdirslen")
    case False
    then have t: "0 < t" "t \<le> maxshortdirslen" using d by (auto simp: t_def maxshortdirslen_def dirprefixlen_def)
    obtain ds where ds: "shortdirs ps t = Inr ds" "list_all (list_all portable) ds"
        "ds = [] \<or> t + 1 + length (join_path ds) \<le> maxshortdirslen"
      using Cons.IH [of t] Cons.prems t by auto
    have "(if n = 0 then 0 else n + 1) + length (join_path (d # ds)) \<le> maxshortdirslen"
      using ds(3) t by (cases ds) (auto simp: t_def split: if_splits)
    then show ?thesis using False eq ds port by auto
  next
    case True
    then show ?thesis unfolding eq by simp
  qed
qed simp

text \<open>Names with an extension of one letter, as all files of the store have, keep it short.\<close>

definition letter_ext :: "bytes \<Rightarrow> bool" where
  "letter_ext n \<longleftrightarrow> (\<exists>v x. n = v @ [CHR ''.'', x] \<and> x \<in> {CHR ''i'', CHR ''d''})"

lemma splitext_letter: "letter_ext n \<Longrightarrow> length (splitext n) \<le> 2"
proof -
  assume "letter_ext n"
  then obtain v x where n: "n = v @ [CHR ''.'', x]" and x: "x \<in> {CHR ''i'', CHR ''d''}" by (auto simp: letter_ext_def)
  have t: "takeWhile (\<lambda>c. c \<noteq> CHR ''.'') (List.rev n) = [x]" using x by (auto simp: n)
  have "splitext n = (if \<forall>c \<in> set v. c = CHR ''.'' then [] else [CHR ''.'', x])"
    unfolding splitext_def Let_def t by (simp add: n)
  then show ?thesis by simp
qed

lemma splitext_none: "CHR ''.'' \<notin> set n \<Longrightarrow> splitext n = []"
proof -
  assume "CHR ''.'' \<notin> set n"
  then have t: "takeWhile (\<lambda>c. c \<noteq> CHR ''.'') (List.rev n) = List.rev n" by (intro takeWhile_eq_all_conv [THEN iffD2]) auto
  show ?thesis unfolding splitext_def Let_def t by simp
qed

lemma aux_end_letter: "List.last n \<in> {CHR ''i'', CHR ''d''} \<Longrightarrow> aux_end n = n"
  by (auto simp: aux_end_def dot_or_space_def)

lemma dots_before_ext: "length (takeWhile (\<lambda>c. c \<noteq> CHR ''.'') (v @ [CHR ''.'', x])) \<le> length v"
  by (induction v) auto

lemma splitext_aux:
  assumes "letter_ext n"
  shows "length (splitext (aux_end (aux_begin de n))) \<le> 2"
proof -
  obtain v x where n: "n = v @ [CHR ''.'', x]" and x: "x \<in> {CHR ''i'', CHR ''d''}" using assms by (auto simp: letter_ext_def)
  have ext: "letter_ext (u @ [CHR ''.'', x])" for u using x by (auto simp: letter_ext_def)
  have long: "length v \<ge> 3" if "length (takeWhile (\<lambda>c. c \<noteq> CHR ''.'') n) \<ge> 3"
    using dots_before_ext [of v x] that n by simp
  consider "v = []" "aux_begin de n = tilde (CHR ''.'') @ [x]" | u where "aux_begin de n = u @ [CHR ''.'', x]"
  proof (cases "de \<and> dot_or_space (hd n)")
    case True
    then show ?thesis using that(1) that(2) [of "tilde (hd n) @ tl v"] n by (cases v) (simp_all add: aux_begin_def)
  next
    case False
    show ?thesis
    proof (cases "aux_begin de n = n")
      case False
      then have "aux_begin de n = take 2 n @ tilde (n ! 2) @ drop 3 n" "length (takeWhile (\<lambda>c. c \<noteq> CHR ''.'') n) \<ge> 3"
        using \<open>\<not> (de \<and> dot_or_space (hd n))\<close> by (auto simp: aux_begin_def Let_def split: if_splits)
      then show ?thesis using that(2) [of "take 2 n @ tilde (n ! 2) @ drop 3 v"] long n by simp
    qed (use n that(2) [of v] in simp)
  qed
  then show ?thesis
  proof cases
    case 1
    have "CHR ''.'' \<notin> set (tilde (CHR ''.'') @ [x])"
      using x hexdigit_plain [of 2] hexdigit_plain [of 14] by (auto simp: tilde_def dot_or_space_def)
    then show ?thesis using 1 x by (simp add: aux_end_letter splitext_none)
  next
    case 2
    have "List.last (u @ [CHR ''.'', x]) \<in> {CHR ''i'', CHR ''d''}" using x by simp
    then show ?thesis unfolding 2 by (simp only: aux_end_letter splitext_letter [OF ext])
  qed
qed

lemma lower_letter_ext: "letter_ext w \<Longrightarrow> letter_ext (concat (map lower_escape w))"
proof -
  assume "letter_ext w"
  then obtain v x where w: "w = v @ [CHR ''.'', x]" and x: "x \<in> {CHR ''i'', CHR ''d''}" by (auto simp: letter_ext_def)
  have "lower_escape (CHR ''.'') = ''.''" "lower_escape (CHR ''i'') = ''i''" "lower_escape (CHR ''d'') = ''d''"
    by (simp_all add: lower_escape_def is_capital_def reserved_iff)
  then have "concat (map lower_escape w) = concat (map lower_escape v) @ [CHR ''.'', x]"
    using x by (elim insertE) (simp_all add: w)
  then show ?thesis unfolding letter_ext_def using x by blast
qed

lemma auxencode_nonempty: "list_all (\<lambda>w. w \<noteq> []) ws \<Longrightarrow> list_all (\<lambda>w. w \<noteq> []) (auxencode ws de)"
  by (induction ws) (simp_all add: auxencode_def aux_begin_nonempty aux_end_nonempty)

lemma set_splitext: "set (splitext n) \<subseteq> set n"
proof -
  have if_cases: "(if P then x else if Q then x else y) \<in> {x, y}" for P Q and x y :: bytes by simp
  obtain k where "splitext n \<in> {[], drop k n}" unfolding splitext_def Let_def using if_cases by blast
  then show ?thesis using set_drop_subset [of k n] by auto
qed

text \<open>A directory without empty components, and a file with an extension of the store.\<close>

definition store_path :: "bytes \<Rightarrow> bool" where
  "store_path p \<longleftrightarrow> (let ws = py_split SLASH p in list_all (\<lambda>w. w \<noteq> []) (butlast ws) \<and> letter_ext (List.last ws))"

lemma hashencode_spec:
  assumes sha: "length (sha1 p) = 40" "list_all portable (sha1 p)" and p: "store_path (drop 5 p)"
  shows "\<exists>r. hashencode sha1 p de = Inr r \<and> length r \<le> maxstorepathlen \<and> list_all portable r"
proof -
  let ?low = "\<lambda>w. concat (map lower_escape w)"
  define ws where "ws = py_split SLASH (drop 5 p)"
  have ne: "ws \<noteq> []" by (simp add: ws_def)
  have ws: "list_all (\<lambda>w. w \<noteq> []) (butlast ws)" "letter_ext (List.last ws)"
    using p by (simp_all add: store_path_def ws_def Let_def)
  define parts where "parts = auxencode (map ?low ws) de"
  have port: "list_all (list_all portable) parts" unfolding parts_def by (rule portable_auxencode [OF portable_codes(2)])
  have dirs: "butlast parts = auxencode (map ?low (butlast ws)) de" by (simp add: parts_def auxencode_def map_butlast)
  have "list_all (\<lambda>w. w \<noteq> []) (map ?low (butlast ws))" using ws(1) lower_escape_nonempty by (simp add: list_all_iff)
  then have "list_all (\<lambda>w. w \<noteq> []) (butlast parts)" unfolding dirs by (rule auxencode_nonempty)
  moreover have "list_all (list_all portable) (butlast parts)" using port by (auto simp: list_all_iff dest: in_set_butlastD)
  ultimately obtain sd where sd: "shortdirs (butlast parts) 0 = Inr sd" "list_all (list_all portable) sd"
      "sd = [] \<or> length (join_path sd) \<le> maxshortdirslen"
    using shortdirs_spec [of "butlast parts" 0] by auto
  have pn: "parts \<noteq> []" using ne by (simp add: parts_def auxencode_def)
  define b where "b = List.last parts"
  have "letter_ext (?low (List.last ws))" using ws(2) by (rule lower_letter_ext)
  moreover have "?low (List.last ws) \<noteq> []" using calculation by (auto simp only: letter_ext_def)
  then have "List.last parts = aux_end (aux_begin de (?low (List.last ws)))"
    unfolding parts_def auxencode_def using ne by (simp add: last_map del: concat_eq_Nil_conv)
  ultimately have ext: "length (splitext b) \<le> 2" using splitext_aux by (simp add: b_def)
  have "b \<in> set parts" using pn by (simp add: b_def)
  then have b: "list_all portable b" using port by (simp add: list_all_iff)
  then have pext: "list_all portable (splitext b)" using set_splitext [of b] unfolding list_all_iff by blast
  define d where "d = (if length (join_path sd) > 0 then join_path sd @ ''/'' else join_path sd)"
  have dl: "length d \<le> 69" using sd(3) by (auto simp: d_def maxshortdirslen_def dirprefixlen_def)
  have dp: "list_all portable d" using portable_join [OF sd(2)] portable_slash by (simp add: d_def)
  let ?k = "nat (int maxstorepathlen - int (length (''dh/'' @ d @ sha1 p @ splitext b)))"
  have len: "length (''dh/'' @ d @ sha1 p @ splitext b) \<le> 114" using sha(1) dl ext by simp
  then have pos: "0 < int maxstorepathlen - int (length (''dh/'' @ d @ sha1 p @ splitext b))" by (simp add: maxstorepathlen_def)
  have "hashencode sha1 p de =
      Inr (if 0 < int maxstorepathlen - int (length (''dh/'' @ d @ sha1 p @ splitext b))
           then ''dh/'' @ d @ take ?k b @ sha1 p @ splitext b else ''dh/'' @ d @ sha1 p @ splitext b)"
    by (simp only: hashencode_def lowerencode_total bindE_simps split_lower ws_def [symmetric] parts_def [symmetric]
        b_def [symmetric] sd(1) Let_def d_def [symmetric])
  then have "hashencode sha1 p de = Inr (''dh/'' @ d @ take ?k b @ sha1 p @ splitext b)" by (simp only: pos if_True)
  moreover have "length (''dh/'' @ d @ take ?k b @ sha1 p @ splitext b) \<le> maxstorepathlen"
    using len by (simp add: maxstorepathlen_def)
  moreover have "list_all portable (''dh/'' @ d @ take ?k b @ sha1 p @ splitext b)"
  proof -
    have "list_all portable ''dh/''" by (simp add: portable_def reserved_iff is_capital_def)
    moreover have "list_all portable (take ?k b)" using b set_take_subset [of ?k b] unfolding list_all_iff by blast
    ultimately show ?thesis using sha(2) dp pext by (simp only: list_all_append)
  qed
  ultimately show ?thesis by blast
qed

lemma split_encodedir:
  "py_split SLASH (encodedir p) = map encode_suffix (butlast (py_split SLASH p)) @ [List.last (py_split SLASH p)]"
proof (induction p rule: path_induct)
  case (last w)
  then show ?case by (simp add: encodedir_last py_split_none)
next
  case (comp w r)
  then show ?case by (simp add: encodedir_comp py_split_sep encode_suffix_slash)
qed

lemma swap_suffix_nonempty: "w \<noteq> [] \<Longrightarrow> b \<noteq> [] \<Longrightarrow> swap_suffix a b w \<noteq> []"
  by (simp add: swap_suffix_def)

lemma store_path_encodedir: "store_path p \<Longrightarrow> store_path (encodedir p)"
  by (simp add: store_path_def Let_def split_encodedir list_all_iff encode_suffix_def swap_suffix_nonempty)

lemma encodedir_prefix: "pre \<in> {''data/'', ''meta/''} \<Longrightarrow> drop 5 (encodedir (pre @ p)) = encodedir p"
  using encodedir_comp [of "''data''" p] encodedir_comp [of "''meta''" p]
  by (auto simp: encode_suffix_def swap_suffix_last)

text \<open>
  (C26) Store names are short and portable. For a file under \<open>data/\<close> or \<open>meta/\<close> whose name ends in \<open>.i\<close> or \<open>.d\<close> and
  whose directories are not empty, \<open>_pathencode\<close> and \<open>_hybridencode\<close> return a name of at most
  120 bytes, hashed or not, without capitals, control characters, bytes from 127 on
  and the characters Windows reserves.
\<close>

theorem store_names_bounded:
  assumes "\<forall>s. length (sha1 s) = 40 \<and> list_all portable (sha1 s)" "pre \<in> {''data/'', ''meta/''}" "store_path p"
  shows "(\<exists>r. pathencode sha1 (pre @ p) = Inr r \<and> length r \<le> maxstorepathlen \<and> list_all portable r) \<and>
    (\<exists>r. hybridencode sha1 (pre @ p) dotencode = Inr r \<and> length r \<le> maxstorepathlen \<and> list_all portable r)"
proof -
  let ?p = "encodedir (pre @ p)"
  have "store_path (drop 5 ?p)" using encodedir_prefix [OF assms(2)] store_path_encodedir [OF assms(3)] by simp
  then have hash: "\<exists>r. hashencode sha1 ?p de = Inr r \<and> length r \<le> maxstorepathlen \<and> list_all portable r" for de
    using hashencode_spec [of sha1 ?p de] assms(1) by simp
  have plain: "\<exists>e. plainencode ?p de = Inr e \<and> list_all portable e" for de
    using plainencode_decodes [of ?p de] portable_plainencode by blast
  obtain e f where "plainencode ?p True = Inr e" "list_all portable e" "plainencode ?p dotencode = Inr f" "list_all portable f"
    using plain by blast
  then show ?thesis
    using hash [of True] hash [of dotencode] by (simp add: pathencode_def hybridencode_def Let_def)
qed

theorem store_names_bounded_witness:
  "\<exists>r. pathencode (\<lambda>s. replicate 40 (CHR ''f'')) (''data/'' @ replicate 130 (CHR ''X'') @ ''/Aux.i'') = Inr r \<and>
     length r \<le> 120 \<and> list_all portable r"
proof -
  let ?p = "replicate 130 (CHR ''X'') @ ''/Aux.i''"
  have "SLASH \<notin> set (replicate 130 (CHR ''X''))" by simp
  then have "py_split SLASH ?p = [replicate 130 (CHR ''X''), ''Aux.i'']"
    using py_split_sep [of SLASH "replicate 130 (CHR ''X'')" "''Aux.i''"] by simp
  then have "store_path ?p" by (simp add: store_path_def letter_ext_def)
  moreover have "portable (CHR ''f'')" by (simp add: portable_def reserved_iff is_capital_def)
  then have "\<forall>s. length ((\<lambda>s. replicate 40 (CHR ''f'')) s) = 40 \<and> list_all portable ((\<lambda>s. replicate 40 (CHR ''f'')) s)"
    by (simp add: list_all_iff)
  ultimately show ?thesis
    using store_names_bounded [of "\<lambda>s. replicate 40 (CHR ''f'')" "''data/''" ?p True] by (simp add: maxstorepathlen_def)
qed

end
