(* ===== verification/Cbor.thy ===== *)
theory Cbor
  imports Pyfmt Pydict "HOL-Library.Multiset" "HOL-Library.List_Lexorder" "HOL-Library.Char_ord" "HOL-Library.Product_Lexorder"
begin

text \<open>
  The values, the encoder and the item decoder of \<open>utils/cborutil.py\<close>. An encoder is a generator: it
  is modelled by the chunks that it yields, or by the exception that ends it. The decoder of one item
  gives back the integer, byte string or constant at an offset of a buffer, the beginning of a
  collection, or how many more bytes it needs. Every item of the encoder is read back by
  \<open>decodeitem\<close>, and \<open>decodeitem\<close> answers for a part of a buffer what it answers for the
  whole, or asks for bytes that the whole still has.
\<close>

section \<open>Python values\<close>

text \<open>
  The values that the encoder and the decoder handle. The entries of a dictionary and the elements
  of a set are in the order of their insertion. The last constructor is \<open>bytestringchunk\<close>, a
  subclass of \<open>bytes\<close> with the attributes \<open>isfirst\<close> and \<open>islast\<close>.
\<close>

datatype pyval =
    PNone
  | PBool bool
  | PInt int
  | PBytes bytes
  | PTuple "pyval list"
  | PList "pyval list"
  | PDict "(pyval \<times> pyval) list"
  | PSet "pyval list"
  | PChunk bytes bool bool

text \<open>
  The code calls \<open>dict.iteritems\<close>: its Python is Python 2, where \<open>bytes\<close> is \<open>str\<close>, and
  where an integer that does not fit into 64 bits is a \<open>long\<close>, which is no subclass of \<open>int\<close>.
\<close>

definition is_long :: "int \<Rightarrow> bool" where
  "is_long i \<longleftrightarrow> i < - 9223372036854775808 \<or> 9223372036854775808 \<le> i"

fun type_name :: "pyval \<Rightarrow> string" where
  "type_name PNone = ''NoneType''"
| "type_name (PBool b) = ''bool''"
| "type_name (PInt i) = (if is_long i then ''long'' else ''int'')"
| "type_name (PBytes s) = ''str''"
| "type_name (PTuple xs) = ''tuple''"
| "type_name (PList xs) = ''list''"
| "type_name (PDict d) = ''dict''"
| "type_name (PSet s) = ''set''"
| "type_name (PChunk s f l) = ''bytestringchunk''"

text \<open>
  The order of Python 2 on hashable values: nothing is below \<open>None\<close>, numbers are compared by value
  and are below the other types, strings are below tuples, and tuples are compared
  lexicographically. The value is written as a list of tokens whose lexicographic order is that
  order; the token that ends a tuple is below all others. Lists, dictionaries and sets are
  not hashable, so they are neither keys nor elements of sets.
\<close>

type_synonym token = "nat \<times> int \<times> string"

fun cmp_tokens :: "pyval \<Rightarrow> token list" where
  "cmp_tokens PNone = [(1, 0, [])]"
| "cmp_tokens (PBool b) = [(2, (if b then 1 else 0), [])]"
| "cmp_tokens (PInt i) = [(2, i, [])]"
| "cmp_tokens (PBytes s) = [(3, 0, s)]"
| "cmp_tokens (PChunk s f l) = [(3, 0, s)]"
| "cmp_tokens (PTuple xs) = (4, 0, []) # concat (map cmp_tokens xs) @ [(0, 0, [])]"
| "cmp_tokens (PList xs) = []"
| "cmp_tokens (PDict d) = []"
| "cmp_tokens (PSet s) = []"

text \<open>Keys are equal when they compare equal: \<open>1 == True\<close>.\<close>

definition key_eq :: "pyval \<Rightarrow> pyval \<Rightarrow> bool" where
  "key_eq x y \<longleftrightarrow> cmp_tokens x = cmp_tokens y"

text \<open>\<open>d[k] = v\<close> keeps the key that the dictionary has; \<open>s.add(x)\<close> keeps the element.\<close>

fun dict_put :: "pyval \<Rightarrow> 'v \<Rightarrow> (pyval \<times> 'v) list \<Rightarrow> (pyval \<times> 'v) list" where
  "dict_put k v [] = [(k, v)]"
| "dict_put k v ((k', v') # d) = (if key_eq k' k then (k', v) # d else (k', v') # dict_put k v d)"

definition set_add :: "pyval \<Rightarrow> pyval list \<Rightarrow> pyval list" where
  "set_add x s = (if list_ex (key_eq x) s then s else s @ [x])"

section \<open>Packed unsigned integers\<close>

text \<open>\<open>struct.pack\<close> and \<open>struct.unpack_from\<close> of a big-endian unsigned integer of \<open>n\<close> bytes.\<close>

fun be :: "nat \<Rightarrow> int \<Rightarrow> bytes" where
  "be 0 x = []"
| "be (Suc n) x = be n (x div 256) @ [char_of (x mod 256)]"

definition pack_be :: "nat \<Rightarrow> int \<Rightarrow> bytes res" where
  "pack_be n x = (if 0 \<le> x \<and> x < 256 ^ n then Inr (be n x) else Inl StructError)"

definition unbe :: "bytes \<Rightarrow> int" where
  "unbe s = foldl (\<lambda>v c. v * 256 + of_char c) 0 s"

section \<open>The encoder\<close>

unbundle bit_operations_syntax

definition MAJOR_TYPE_UINT :: int where "MAJOR_TYPE_UINT = 0"
definition MAJOR_TYPE_NEGINT :: int where "MAJOR_TYPE_NEGINT = 1"
definition MAJOR_TYPE_BYTESTRING :: int where "MAJOR_TYPE_BYTESTRING = 2"
definition MAJOR_TYPE_STRING :: int where "MAJOR_TYPE_STRING = 3"
definition MAJOR_TYPE_ARRAY :: int where "MAJOR_TYPE_ARRAY = 4"
definition MAJOR_TYPE_MAP :: int where "MAJOR_TYPE_MAP = 5"
definition MAJOR_TYPE_SEMANTIC :: int where "MAJOR_TYPE_SEMANTIC = 6"
definition MAJOR_TYPE_SPECIAL :: int where "MAJOR_TYPE_SPECIAL = 7"
definition SUBTYPE_MASK :: int where "SUBTYPE_MASK = 31"
definition SUBTYPE_FALSE :: int where "SUBTYPE_FALSE = 20"
definition SUBTYPE_TRUE :: int where "SUBTYPE_TRUE = 21"
definition SUBTYPE_NULL :: int where "SUBTYPE_NULL = 22"
definition SUBTYPE_INDEFINITE :: int where "SUBTYPE_INDEFINITE = 31"
definition SEMANTIC_TAG_FINITE_SET :: int where "SEMANTIC_TAG_FINITE_SET = 258"

lemmas major_defs = MAJOR_TYPE_UINT_def MAJOR_TYPE_NEGINT_def MAJOR_TYPE_BYTESTRING_def
  MAJOR_TYPE_STRING_def MAJOR_TYPE_ARRAY_def MAJOR_TYPE_MAP_def MAJOR_TYPE_SEMANTIC_def
  MAJOR_TYPE_SPECIAL_def

lemmas subtype_defs = SUBTYPE_MASK_def SUBTYPE_FALSE_def SUBTYPE_TRUE_def SUBTYPE_NULL_def
  SUBTYPE_INDEFINITE_def SEMANTIC_TAG_FINITE_SET_def

definition BEGIN_INDEFINITE_BYTESTRING :: bytes where
  "BEGIN_INDEFINITE_BYTESTRING = be 1 (push_bit 5 MAJOR_TYPE_BYTESTRING OR SUBTYPE_INDEFINITE)"

definition BEGIN_INDEFINITE_ARRAY :: bytes where
  "BEGIN_INDEFINITE_ARRAY = be 1 (push_bit 5 MAJOR_TYPE_ARRAY OR SUBTYPE_INDEFINITE)"

definition BEGIN_INDEFINITE_MAP :: bytes where
  "BEGIN_INDEFINITE_MAP = be 1 (push_bit 5 MAJOR_TYPE_MAP OR SUBTYPE_INDEFINITE)"

definition BREAK :: bytes where
  "BREAK = [CHR 0xFF]"

text \<open>\<open>Struct(">B<n>").pack(initial, length)\<close>: the initial byte and \<open>n\<close> bytes of length.\<close>

definition pack_length :: "int \<Rightarrow> nat \<Rightarrow> int \<Rightarrow> bytes res" where
  "pack_length initial n len =
     bindE (pack_be 1 initial) (\<lambda>h. bindE (pack_be n len) (\<lambda>t. Inr (h @ t)))"

definition encodelength :: "int \<Rightarrow> int \<Rightarrow> bytes res" where
  "encodelength majortype len =
     (if len < 24 then pack_be 1 (push_bit 5 majortype OR len)
      else if len < 256 then pack_length (push_bit 5 majortype OR 24) 1 len
      else if len < 65536 then pack_length (push_bit 5 majortype OR 25) 2 len
      else if len < 4294967296 then pack_length (push_bit 5 majortype OR 26) 4 len
      else pack_length (push_bit 5 majortype OR 27) 8 len)"

definition streamencodebytestring :: "bytes \<Rightarrow> bytes list res" where
  "streamencodebytestring v =
     bindE (encodelength MAJOR_TYPE_BYTESTRING (int (length v))) (\<lambda>h. Inr [h, v])"

fun encode_chunks :: "bytes list \<Rightarrow> bytes list res" where
  "encode_chunks [] = Inr []"
| "encode_chunks (chunk # it) =
     bindE (encodelength MAJOR_TYPE_BYTESTRING (int (length chunk))) (\<lambda>h.
     bindE (encode_chunks it) (\<lambda>cs. Inr (h # chunk # cs)))"

definition streamencodebytestringfromiter :: "bytes list \<Rightarrow> bytes list res" where
  "streamencodebytestringfromiter it =
     bindE (encode_chunks it) (\<lambda>cs. Inr (BEGIN_INDEFINITE_BYTESTRING # cs @ [BREAK]))"

text \<open>The loop over a source buffer; it does not end for a chunk size of 0.\<close>

partial_function (option) indefinite_loop :: "bytes \<Rightarrow> nat \<Rightarrow> nat \<Rightarrow> bytes list res option" where
  "indefinite_loop source chunksize i =
     (let chunk = slice source i (i + chunksize); i' = i + length chunk in
      case encodelength MAJOR_TYPE_BYTESTRING (int (length chunk)) of
        Inl e \<Rightarrow> Some (Inl e)
      | Inr h \<Rightarrow>
          if length source \<le> i' then Some (Inr [h, chunk])
          else Option.bind (indefinite_loop source chunksize i')
                 (\<lambda>r. Some (bindE r (\<lambda>cs. Inr (h # chunk # cs)))))"

definition streamencodeindefinitebytestring :: "bytes \<Rightarrow> nat \<Rightarrow> bytes list res option" where
  "streamencodeindefinitebytestring source chunksize =
     map_option (\<lambda>r. bindE r (\<lambda>cs. Inr (BEGIN_INDEFINITE_BYTESTRING # cs @ [BREAK])))
       (indefinite_loop source chunksize 0)"

definition streamencodeint :: "int \<Rightarrow> bytes list res" where
  "streamencodeint v =
     (if v \<ge> 18446744073709551616 \<or> v < - 18446744073709551616 then Inl ValueError
      else if v \<ge> 0 then bindE (encodelength MAJOR_TYPE_UINT v) (\<lambda>h. Inr [h])
      else bindE (encodelength MAJOR_TYPE_NEGINT (\<bar>v\<bar> - 1)) (\<lambda>h. Inr [h]))"

definition mixedtypesortkey :: "pyval \<Rightarrow> string \<times> token list" where
  "mixedtypesortkey v = (type_name v, cmp_tokens v)"

definition streamencodebool :: "bool \<Rightarrow> bytes list res" where
  "streamencodebool b = Inr [if b then [CHR 0xF5] else [CHR 0xF4]]"

definition streamencodenone :: "bytes list res" where
  "streamencodenone = Inr [[CHR 0xF6]]"

lemma size_list_sort_key: "size_list f (sort_key g xs) = size_list f xs"
proof -
  have "size_list f ys = sum_mset (image_mset f (mset ys)) + length ys" for ys
    by (induction ys) auto
  then show ?thesis by simp
qed

text \<open>
  The recursive encoders. A dictionary and a set are sorted by \<open>mixedtypesortkey\<close>; the chunks of
  the subclass \<open>bytestringchunk\<close> are encoded as byte strings; the table of encoders has no
  entry for \<open>long\<close>.
\<close>

function (sequential) streamencode :: "pyval \<Rightarrow> bytes list res"
  and streamencodearray :: "pyval list \<Rightarrow> bytes list res"
  and encode_elems :: "pyval list \<Rightarrow> bytes list res"
  and streamencodeset :: "pyval list \<Rightarrow> bytes list res"
  and streamencodemap :: "(pyval \<times> pyval) list \<Rightarrow> bytes list res"
  and encode_entries :: "(pyval \<times> pyval) list \<Rightarrow> bytes list res" where
  "streamencode (PBytes s) = streamencodebytestring s"
| "streamencode (PChunk s f l) = streamencodebytestring s"
| "streamencode (PInt i) = (if is_long i then Inl ValueError else streamencodeint i)"
| "streamencode (PList xs) = streamencodearray xs"
| "streamencode (PTuple xs) = streamencodearray xs"
| "streamencode (PDict d) = streamencodemap d"
| "streamencode (PSet s) = streamencodeset s"
| "streamencode (PBool b) = streamencodebool b"
| "streamencode PNone = streamencodenone"
| "streamencodearray l =
     bindE (encodelength MAJOR_TYPE_ARRAY (int (length l))) (\<lambda>h.
     bindE (encode_elems l) (\<lambda>cs. Inr (h # cs)))"
| "encode_elems [] = Inr []"
| "encode_elems (x # xs) =
     bindE (streamencode x) (\<lambda>c. bindE (encode_elems xs) (\<lambda>cs. Inr (c @ cs)))"
| "streamencodeset s =
     bindE (encodelength MAJOR_TYPE_SEMANTIC SEMANTIC_TAG_FINITE_SET) (\<lambda>h.
     bindE (streamencodearray (sort_key mixedtypesortkey s)) (\<lambda>cs. Inr (h # cs)))"
| "streamencodemap d =
     bindE (encodelength MAJOR_TYPE_MAP (int (length d))) (\<lambda>h.
     bindE (encode_entries (sort_key (\<lambda>x. mixedtypesortkey (fst x)) d)) (\<lambda>cs. Inr (h # cs)))"
| "encode_entries [] = Inr []"
| "encode_entries ((key, value) # d) =
     bindE (streamencode key) (\<lambda>k. bindE (streamencode value) (\<lambda>v.
     bindE (encode_entries d) (\<lambda>cs. Inr (k @ v @ cs))))"
  by pat_completeness auto

termination
  by (relation "measure (case_sum
        (case_sum (\<lambda>v. 3 * size v) (case_sum (\<lambda>l. 3 * size_list size l + 1) (\<lambda>l. 3 * size_list size l)))
        (case_sum (\<lambda>s. 3 * size_list size s + 2)
          (case_sum (\<lambda>d. 3 * size_list (size_prod size size) d + 1) (\<lambda>d. 3 * size_list (size_prod size size) d))))")
     (auto simp: size_list_sort_key)

definition streamencodearrayfromiter :: "pyval list \<Rightarrow> bytes list res" where
  "streamencodearrayfromiter it =
     bindE (encode_elems it) (\<lambda>cs. Inr (BEGIN_INDEFINITE_ARRAY # cs @ [BREAK]))"

definition streamencodemapfromiter :: "(pyval \<times> pyval) list \<Rightarrow> bytes list res" where
  "streamencodemapfromiter it =
     bindE (encode_entries it) (\<lambda>cs. Inr (BEGIN_INDEFINITE_MAP # cs @ [BREAK]))"

section \<open>Decoding an item\<close>

datatype special =
    SPECIAL_NONE
  | SPECIAL_START_INDEFINITE_BYTESTRING
  | SPECIAL_START_ARRAY
  | SPECIAL_START_MAP
  | SPECIAL_START_SET
  | SPECIAL_INDEFINITE_BREAK

text \<open>The constants as numbers, as error messages show them.\<close>

fun special_code :: "special \<Rightarrow> int" where
  "special_code SPECIAL_NONE = 0"
| "special_code SPECIAL_START_INDEFINITE_BYTESTRING = 1"
| "special_code SPECIAL_START_ARRAY = 2"
| "special_code SPECIAL_START_MAP = 3"
| "special_code SPECIAL_START_SET = 4"
| "special_code SPECIAL_INDEFINITE_BREAK = 5"

definition elementtointeger :: "bytes \<Rightarrow> nat \<Rightarrow> int res" where
  "elementtointeger b i = bindE (py_index b i) (\<lambda>c. Inr (of_char c))"

text \<open>The size of the structure that holds an integer of the given subtype.\<close>

definition struct_size :: "int \<Rightarrow> nat res" where
  "struct_size subtype =
     (if subtype = 24 then Inr 1
      else if subtype = 25 then Inr 2
      else if subtype = 26 then Inr 4
      else if subtype = 27 then Inr 8
      else Inl (CBORDecodeError ''bounds condition checking violation''))"

definition decodeuint :: "int \<Rightarrow> bytes \<Rightarrow> nat \<Rightarrow> bool \<Rightarrow> (bool \<times> int option \<times> int) res" where
  "decodeuint subtype b offset allowindefinite =
     (if subtype < 24 then Inr (True, Some subtype, 0)
      else if subtype = 31 then
        (if allowindefinite then Inr (True, None, 0)
         else Inl (CBORDecodeError ''indefinite length uint not allowed here''))
      else if subtype \<ge> 28 then
        Inl (CBORDecodeError (''unsupported subtype on integer type: '' @ dec subtype))
      else bindE (struct_size subtype) (\<lambda>s.
        if int (length b) - int offset \<ge> int s
        then Inr (True, Some (unbe (slice b offset (offset + s))), int s)
        else Inr (False, None, int (length b) - int offset - int s)))"

type_synonym item = "bool \<times> pyval \<times> int \<times> special"

text \<open>The value \<open>None\<close>, or an integer.\<close>

definition int_or_none :: "int option \<Rightarrow> pyval" where
  "int_or_none v = (case v of None \<Rightarrow> PNone | Some i \<Rightarrow> PInt i)"

text \<open>The branches of \<open>decodeitem\<close> for integers, negative integers and the beginnings of arrays and maps.\<close>

definition decode_number ::
  "(int \<Rightarrow> int) \<Rightarrow> special \<Rightarrow> int \<Rightarrow> bytes \<Rightarrow> nat \<Rightarrow> item res" where
  "decode_number f special subtype b offset =
     bindE (decodeuint subtype b offset False) (\<lambda>(complete, value, readcount).
       if complete then Inr (True, int_or_none (map_option f value), readcount + 1, special)
       else Inr (False, PNone, readcount, SPECIAL_NONE))"

text \<open>The branch for byte strings.\<close>

definition decode_bytestring :: "int \<Rightarrow> bytes \<Rightarrow> nat \<Rightarrow> item res" where
  "decode_bytestring subtype b offset =
     bindE (decodeuint subtype b offset True) (\<lambda>(complete, sz, readcount).
       if \<not> complete then Inr (False, PNone, readcount, SPECIAL_NONE)
       else (case sz of
          Some n \<Rightarrow>
            if int offset + readcount + n \<le> int (length b)
            then Inr (True, PBytes (py_slice b (int offset + readcount) (int offset + readcount + n)),
                      readcount + n + 1, SPECIAL_NONE)
            else Inr (False, PNone, int (length b) - int offset - readcount - n, SPECIAL_NONE)
        | None \<Rightarrow> Inr (True, PNone, 1, SPECIAL_START_INDEFINITE_BYTESTRING)))"

text \<open>The branch for the constants and the break.\<close>

definition decode_special :: "int \<Rightarrow> item res" where
  "decode_special subtype =
     (if subtype = SUBTYPE_FALSE then Inr (True, PBool False, 1, SPECIAL_NONE)
      else if subtype = SUBTYPE_TRUE then Inr (True, PBool True, 1, SPECIAL_NONE)
      else if subtype = SUBTYPE_NULL then Inr (True, PNone, 1, SPECIAL_NONE)
      else if subtype = SUBTYPE_INDEFINITE then Inr (True, PNone, 1, SPECIAL_INDEFINITE_BREAK)
      else Inl (CBORDecodeError (''special type '' @ dec subtype @ '' not allowed'')))"

lemma bindE_cong [fundef_cong]:
  "r = r' \<Longrightarrow> (\<And>x. r' = Inr x \<Longrightarrow> f x = f' x) \<Longrightarrow> bindE r f = bindE r' f'"
  by (cases r') auto

lemma struct_size_pos: "struct_size subtype = Inr s \<Longrightarrow> 0 < s"
  by (auto simp: struct_size_def split: if_splits)

lemma decodeuint_count:
  "decodeuint subtype b offset ai = Inr (complete, v, n) \<Longrightarrow> (if complete then 0 \<le> n else n < 0)"
  by (auto simp: decodeuint_def bindE_Inr_iff split: if_splits)

text \<open>
  A set is a tag followed by an array: the function calls itself for the item after the tag. The
  offset moves forward in each call.
\<close>

function decodeitem :: "bytes \<Rightarrow> nat \<Rightarrow> item res" where
  "decodeitem b offset0 =
     bindE (elementtointeger b offset0) (\<lambda>initial.
       let offset = offset0 + 1;
           majortype = drop_bit 5 initial;
           subtype = initial AND SUBTYPE_MASK
       in
       if majortype = MAJOR_TYPE_UINT then decode_number (\<lambda>v. v) SPECIAL_NONE subtype b offset
       else if majortype = MAJOR_TYPE_NEGINT then
         decode_number (\<lambda>v. - v - 1) SPECIAL_NONE subtype b offset
       else if majortype = MAJOR_TYPE_BYTESTRING then decode_bytestring subtype b offset
       else if majortype = MAJOR_TYPE_STRING then
         Inl (CBORDecodeError ''string major type not supported'')
       else if majortype = MAJOR_TYPE_ARRAY then
         decode_number (\<lambda>v. v) SPECIAL_START_ARRAY subtype b offset
       else if majortype = MAJOR_TYPE_MAP then
         decode_number (\<lambda>v. v) SPECIAL_START_MAP subtype b offset
       else if majortype = MAJOR_TYPE_SEMANTIC then
         bindE (decodeuint subtype b offset False) (\<lambda>(complete, tagvalue, readcount).
           if \<not> complete then Inr (False, PNone, readcount, SPECIAL_NONE)
           else if tagvalue = Some SEMANTIC_TAG_FINITE_SET then
             (if int offset + readcount \<ge> int (length b) then Inr (False, PNone, -1, SPECIAL_NONE)
              else bindE (decodeitem b (nat (int offset + readcount)))
                (\<lambda>(complete, sz, readcount2, special).
                  if \<not> complete then Inr (False, PNone, readcount2, SPECIAL_NONE)
                  else if special \<noteq> SPECIAL_START_ARRAY then
                    Inl (CBORDecodeError ''expected array after finite set semantic tag'')
                  else Inr (True, sz, readcount + readcount2 + 1, SPECIAL_START_SET)))
           else Inl (CBORDecodeError (''semantic tag '' @ dec (the tagvalue) @ '' not allowed'')))
       else if majortype = MAJOR_TYPE_SPECIAL then decode_special subtype
       else Inl AssertionError)"
  by pat_completeness auto

termination
  by (relation "measure (\<lambda>(b, offset0). length b - offset0)") (auto dest!: decodeuint_count)

declare decodeitem.simps [simp del]

section \<open>The encoder's headers are read back\<close>

lemma length_be [simp]: "length (be n x) = n"
  by (induction n arbitrary: x) auto

lemma unbe_be: "unbe (be n x) = x mod 256 ^ n"
proof (induction n arbitrary: x)
  case (Suc n)
  have "unbe (be (Suc n) x) = unbe (be n (x div 256)) * 256 + x mod 256"
    by (simp add: unbe_def)
  also have "\<dots> = 256 * (x div 256 mod 256 ^ n) + x mod 256"
    by (simp only: Suc mult.commute)
  also have "\<dots> = x mod (256 * 256 ^ n)"
    by (simp only: zmod_zmult2_eq [of "256 ^ n" x 256, symmetric] zero_le_power zero_le_numeral)
  finally show ?case by simp
qed (simp add: unbe_def)

lemma initial_or:
  assumes "0 \<le> x" "x < 32"
  shows "push_bit 5 m OR x = 32 * m + (x :: int)"
proof -
  have "take_bit 5 x = x" using assms by (simp add: take_bit_int_eq_self_iff)
  then have "push_bit 5 m AND x = 0"
    by (metis and.commute bit_eqI bit_and_iff bit_push_bit_iff bit_take_bit_iff bit_0_eq linorder_not_le bot_apply bot_bool_def)
  then show ?thesis by (simp add: disjunctive_add_eq_or [symmetric] push_bit_eq_mult)
qed

lemma initial_split:
  assumes "0 \<le> x" "x < (32 :: int)"
  shows "drop_bit 5 (32 * m + x) = m" "(32 * m + x) AND 31 = x"
proof -
  show "drop_bit 5 (32 * m + x) = m" using assms by (simp add: drop_bit_eq_div)
  have "(32 * m + x) AND 31 = take_bit 5 (32 * m + x)"
    using take_bit_eq_mask [of 5 "32 * m + x"] by (simp add: mask_eq_exp_minus_1)
  then show "(32 * m + x) AND 31 = x" using assms by (simp add: take_bit_eq_mod)
qed

lemma be_1: "be 1 x = [char_of (x mod 256)]"
  by (simp add: numeral_eq_Suc)

lemma slice_header: "slice (c # t @ rest) 1 (1 + length t) = t"
  by (simp add: slice_def)

lemma pack_length_header:
  assumes "pack_length (push_bit 5 m OR x) s n = Inr h" "0 \<le> m" "m < 8" "0 \<le> x" "x < 32" "struct_size x = Inr s"
  shows "\<exists>c t. h = c # t \<and> of_char c = 32 * m + x \<and>
           (\<forall>rest ai. decodeuint x (h @ rest) 1 ai = Inr (True, Some n, int (length t)))"
proof -
  have n: "0 \<le> n" "n < 256 ^ s" and h: "h = char_of (32 * m + x) # be s n"
    using assms by (auto simp: pack_length_def pack_be_def bindE_Inr_iff initial_or be_1 split: if_splits)
  have c: "of_char (char_of (32 * m + x)) = 32 * m + x" using assms by simp
  have x: "x \<in> {24, 25, 26, 27}" using assms(6) by (auto simp: struct_size_def split: if_splits)
  have "decodeuint x (h @ rest) 1 ai = Inr (True, Some n, int s)" for rest ai
    using x assms(6) slice_header [of "char_of (32 * m + x)" "be s n" rest] n
    by (auto simp: decodeuint_def h unbe_be)
  then show ?thesis using h c by auto
qed

lemma encodelength_header:
  assumes "encodelength m n = Inr h" "0 \<le> n" "0 \<le> m" "m < 8"
  shows "\<exists>c t x. h = c # t \<and> of_char c = 32 * m + x \<and> 0 \<le> x \<and> x < 32 \<and>
           (\<forall>rest ai. decodeuint x (h @ rest) 1 ai = Inr (True, Some n, int (length t)))"
proof (cases "n < 24")
  case True
  then have h: "h = [char_of (32 * m + n)]"
    using assms by (auto simp: encodelength_def pack_be_def initial_or be_1 split: if_splits)
  have "of_char (char_of (32 * m + n)) = 32 * m + n" using assms True by simp
  with h True assms(2) show ?thesis by (auto simp: decodeuint_def intro!: exI [of _ n])
next
  case False
  then obtain x s where "pack_length (push_bit 5 m OR x) s n = Inr h" "0 \<le> x" "x < 32" "struct_size x = Inr s"
    using assms(1) by (auto simp: encodelength_def struct_size_def split: if_splits)
  with pack_length_header assms(3,4) show ?thesis by (metis (no_types, lifting))
qed

text \<open>The header of an item selects the branch of \<open>decodeitem\<close>.\<close>

lemma elementtointeger_Cons [simp]: "elementtointeger (c # b) 0 = Inr (of_char c)"
  by (simp add: elementtointeger_def)

lemmas decodeitem_header_simps =
  decodeitem.simps [of _ 0] Let_def major_defs SUBTYPE_MASK_def

lemma decodeitem_number:
  assumes "encodelength m n = Inr h" "0 \<le> n"
    and "(m, f, special) \<in> {(MAJOR_TYPE_UINT, \<lambda>v. v, SPECIAL_NONE), (MAJOR_TYPE_NEGINT, \<lambda>v. - v - 1, SPECIAL_NONE),
           (MAJOR_TYPE_ARRAY, \<lambda>v. v, SPECIAL_START_ARRAY), (MAJOR_TYPE_MAP, \<lambda>v. v, SPECIAL_START_MAP)}"
  shows "decodeitem (h @ rest) 0 = Inr (True, PInt (f n), int (length h), special)"
proof -
  have m: "0 \<le> m" "m < 8" using assms(3) by (auto simp: major_defs)
  obtain c t x where h: "h = c # t" "of_char c = 32 * m + x" "0 \<le> x" "x < 32"
      "\<And>rest ai. decodeuint x (h @ rest) 1 ai = Inr (True, Some n, int (length t))"
    using encodelength_header [OF assms(1,2) m] by blast
  have u: "decodeuint x (c # t @ rest) (Suc 0) False = Inr (True, Some n, int (length t))"
    using h(5) [of rest False] h(1) by simp
  have d: "drop_bit 5 (of_char c) = m" "of_char c AND 31 = x"
    using initial_split [OF h(3,4)] by (simp_all only: h(2))
  show ?thesis
    using assms(3) by (elim insertE emptyE) (simp_all add: h(1) d u decodeitem_header_simps decode_number_def int_or_none_def)
qed

lemma encodelength_nonempty: "encodelength m n = Inr h \<Longrightarrow> 0 \<le> n \<Longrightarrow> 0 \<le> m \<Longrightarrow> m < 8 \<Longrightarrow> h \<noteq> []"
  using encodelength_header by blast

lemma decodeitem_bytestring:
  assumes "encodelength MAJOR_TYPE_BYTESTRING (int (length s)) = Inr h"
  shows "decodeitem (h @ s @ rest) 0 = Inr (True, PBytes s, int (length h) + int (length s), SPECIAL_NONE)"
proof -
  obtain c t x where h: "h = c # t" "of_char c = 32 * MAJOR_TYPE_BYTESTRING + x" "0 \<le> x" "x < 32"
      "\<And>rest ai. decodeuint x (h @ rest) 1 ai = Inr (True, Some (int (length s)), int (length t))"
    using encodelength_header [OF assms] by (auto simp: major_defs)
  have u: "decodeuint x (c # t @ s @ rest) (Suc 0) True = Inr (True, Some (int (length s)), int (length t))"
    using h(5) [of "s @ rest" True] h(1) by simp
  have "py_slice (c # t @ s @ rest) (int (Suc 0) + int (length t)) (int (Suc 0) + int (length t) + int (length s)) = s"
    by (subst py_slice_nonneg) (auto simp: slice_def nat_add_distrib)
  moreover have "drop_bit 5 (of_char c) = MAJOR_TYPE_BYTESTRING" "of_char c AND 31 = x"
    using initial_split [OF h(3,4)] by (simp_all only: h(2))
  ultimately show ?thesis
    by (simp add: h(1) u decodeitem_header_simps decode_bytestring_def)
qed

lemma unbe_nonneg: "0 \<le> unbe s"
proof -
  have "0 \<le> foldl (\<lambda>v c. v * 256 + of_char c) a s" if "0 \<le> a" for a :: int
    using that
  proof (induction s arbitrary: a)
    case (Cons c s)
    have "0 \<le> a * 256 + of_char c" using Cons.prems by (simp add: of_char_def)
    from Cons.IH [OF this] show ?case by (simp only: foldl.simps)
  qed simp
  then show ?thesis by (simp add: unbe_def)
qed

lemma decodeuint_value:
  "decodeuint subtype b offset ai = Inr (True, Some v, n) \<Longrightarrow> 0 \<le> subtype \<Longrightarrow> 0 \<le> v"
  by (auto simp: decodeuint_def bindE_Inr_iff unbe_nonneg split: if_splits)

section \<open>Items depend on the rest of the buffer only\<close>

text \<open>The branches of \<open>decodeitem\<close> without recursion, and the one for tags.\<close>

definition decode_plain :: "int \<Rightarrow> int \<Rightarrow> bytes \<Rightarrow> nat \<Rightarrow> item res" where
  "decode_plain majortype subtype b offset =
     (if majortype = MAJOR_TYPE_UINT then decode_number (\<lambda>v. v) SPECIAL_NONE subtype b offset
      else if majortype = MAJOR_TYPE_NEGINT then
        decode_number (\<lambda>v. - v - 1) SPECIAL_NONE subtype b offset
      else if majortype = MAJOR_TYPE_BYTESTRING then decode_bytestring subtype b offset
      else if majortype = MAJOR_TYPE_STRING then
        Inl (CBORDecodeError ''string major type not supported'')
      else if majortype = MAJOR_TYPE_ARRAY then
        decode_number (\<lambda>v. v) SPECIAL_START_ARRAY subtype b offset
      else if majortype = MAJOR_TYPE_MAP then
        decode_number (\<lambda>v. v) SPECIAL_START_MAP subtype b offset
      else if majortype = MAJOR_TYPE_SPECIAL then decode_special subtype
      else Inl AssertionError)"

definition decode_tagged :: "int \<Rightarrow> item res \<Rightarrow> item res" where
  "decode_tagged readcount r =
     bindE r (\<lambda>(complete, sz, readcount2, special).
       if \<not> complete then Inr (False, PNone, readcount2, SPECIAL_NONE)
       else if special \<noteq> SPECIAL_START_ARRAY then
         Inl (CBORDecodeError ''expected array after finite set semantic tag'')
       else Inr (True, sz, readcount + readcount2 + 1, SPECIAL_START_SET))"

definition decode_semantic :: "int \<Rightarrow> bytes \<Rightarrow> nat \<Rightarrow> item res" where
  "decode_semantic subtype b offset =
     bindE (decodeuint subtype b offset False) (\<lambda>(complete, tagvalue, readcount).
       if \<not> complete then Inr (False, PNone, readcount, SPECIAL_NONE)
       else if tagvalue = Some SEMANTIC_TAG_FINITE_SET then
         (if int offset + readcount \<ge> int (length b) then Inr (False, PNone, -1, SPECIAL_NONE)
          else decode_tagged readcount (decodeitem b (nat (int offset + readcount))))
       else Inl (CBORDecodeError (''semantic tag '' @ dec (the tagvalue) @ '' not allowed'')))"

lemma decodeitem_unfold:
  assumes "offset < length b"
  shows "decodeitem b offset =
    (if drop_bit 5 (of_char (b ! offset)) = MAJOR_TYPE_SEMANTIC
     then decode_semantic (of_char (b ! offset) AND SUBTYPE_MASK) b (Suc offset)
     else decode_plain (drop_bit 5 (of_char (b ! offset))) (of_char (b ! offset) AND SUBTYPE_MASK) b (Suc offset))"
  unfolding decode_semantic_def decode_tagged_def decode_plain_def
  using assms by (simp add: decodeitem.simps [of b offset] elementtointeger_def Let_def major_defs)

lemma subtype_nonneg: "0 \<le> (of_char c :: int) AND SUBTYPE_MASK"
  by (simp add: SUBTYPE_MASK_def)

lemma slice_shift: "slice (p @ b) (length p + i) (length p + j) = slice b i j"
  by (simp add: slice_def)

lemma rest_shift: "int (length (p @ b)) - int (length p + off) = int (length b) - int off"
  by simp

lemma decodeuint_shift: "decodeuint x (p @ b) (length p + off) ai = decodeuint x b off ai"
  unfolding decodeuint_def rest_shift add.assoc slice_shift ..

lemma decode_number_shift: "decode_number f s x (p @ b) (length p + off) = decode_number f s x b off"
  by (simp add: decode_number_def decodeuint_shift)

lemma decode_bytestring_shift:
  assumes "0 \<le> x"
  shows "decode_bytestring x (p @ b) (length p + off) = decode_bytestring x b off"
proof (cases "decodeuint x b off True")
  case (Inr r)
  obtain c v n where r: "r = (c, v, n)" by (cases r)
  show ?thesis
  proof (cases "c \<and> v \<noteq> None")
    case True
    then obtain k where k: "v = Some k" "c" by auto
    have n: "0 \<le> n" "0 \<le> k"
      using decodeuint_count [of x b off True c v n] decodeuint_value [of x b off True k n] assms Inr r k by auto
    have "py_slice (p @ b) (int (length p + off) + n) (int (length p + off) + n + k)
        = py_slice b (int off + n) (int off + n + k)"
      using n slice_shift [of p b "off + nat n" "off + nat n + nat k"]
      by (simp add: py_slice_nonneg nat_add_distrib add.assoc)
    then show ?thesis using Inr r k by (simp add: decode_bytestring_def decodeuint_shift)
  next
    case False
    then show ?thesis using Inr r by (auto simp: decode_bytestring_def decodeuint_shift)
  qed
qed (simp add: decode_bytestring_def decodeuint_shift)

lemma decodeitem_shift: "decodeitem (p @ b) (length p + off) = decodeitem b off"
proof (induction "length b - off" arbitrary: off rule: less_induct)
  case less
  show ?case
  proof (cases "off < length b")
    case True
    define x where "x = (of_char (b ! off) :: int) AND SUBTYPE_MASK"
    have "decode_semantic x (p @ b) (length p + Suc off) = decode_semantic x b (Suc off)"
    proof (cases "decodeuint x b (Suc off) False")
      case (Inr r)
      obtain c v n where r: "r = (c, v, n)" by (cases r)
      have n: "c \<Longrightarrow> 0 \<le> n" using decodeuint_count [of x b "Suc off" False c v n] Inr r by auto
      have "decodeitem (p @ b) (nat (int (length p + Suc off) + n)) = decodeitem b (nat (int (Suc off) + n))"
        if "c" "int (Suc off) + n < int (length b)"
      proof -
        have "nat (int (length p + Suc off) + n) = length p + nat (int (Suc off) + n)" using n that by simp
        moreover have "length b - nat (int (Suc off) + n) < length b - off" using n that True by arith
        ultimately show ?thesis using less by simp
      qed
      then show ?thesis using Inr r by (auto simp: decode_semantic_def decodeuint_shift [of x p b "Suc off", simplified])
    qed (simp add: decode_semantic_def decodeuint_shift [of x p b "Suc off", simplified])
    moreover have "decode_plain m x (p @ b) (length p + Suc off) = decode_plain m x b (Suc off)" for m
      using subtype_nonneg [of "b ! off"] by (simp only: decode_plain_def decode_number_shift decode_bytestring_shift x_def)
    ultimately show ?thesis using True by (simp add: decodeitem_unfold x_def nth_append)
  qed (simp add: decodeitem.simps [of _ "length p + off"] decodeitem.simps [of _ off] elementtointeger_def py_index_def)
qed

lemma decodeitem_drop: "off \<le> length b \<Longrightarrow> decodeitem b off = decodeitem (drop off b) 0"
  using decodeitem_shift [of "take off b" "drop off b" 0] by simp

section \<open>Items of a growing buffer\<close>

text \<open>
  The answer \<open>r\<close> for a buffer with \<open>room\<close> bytes from the initial byte on, and the answer
  \<open>r'\<close> when \<open>k\<close> bytes follow: complete items and errors stay what they are, and the
  decoder still asks for the bytes that are missing.
\<close>

definition agrees :: "nat \<Rightarrow> nat \<Rightarrow> item res \<Rightarrow> item res \<Rightarrow> bool" where
  "agrees room k r r' \<longleftrightarrow>
     (case r of
        Inl e \<Rightarrow> r' = Inl e
      | Inr (complete, v, n, special) \<Rightarrow>
          if complete then r' = r \<and> 0 < n \<and> n \<le> int room
          else v = PNone \<and> special = SPECIAL_NONE \<and> n < 0 \<and>
               (int k < - n \<longrightarrow> r' = Inr (False, PNone, n + int k, SPECIAL_NONE)))"

lemma slice_prefix: "j \<le> length b \<Longrightarrow> slice (b @ e) i j = slice b i j"
  by (simp add: slice_def)

lemma decodeuint_append_Inl: "decodeuint x b off ai = Inl err \<Longrightarrow> decodeuint x (b @ e) off ai = Inl err"
  by (auto simp: decodeuint_def struct_size_def bindE_Inl_iff split: if_splits)

lemma decodeuint_append_complete:
  assumes "decodeuint x b off ai = Inr (True, v, n)" "off \<le> length b"
  shows "decodeuint x (b @ e) off ai = Inr (True, v, n)" "n \<le> int (length b) - int off"
  using assms by (auto simp: decodeuint_def bindE_Inr_iff slice_prefix split: if_splits)

lemma decodeuint_append_wait:
  assumes "decodeuint x b off ai = Inr (False, v, n)"
  shows "n < 0" "int (length e) < - n \<Longrightarrow> decodeuint x (b @ e) off ai = Inr (False, None, n + int (length e))"
  using assms by (cases "struct_size x"; auto simp: decodeuint_def split: if_splits)+

lemma decode_number_agrees:
  assumes "off \<le> length b"
  shows "agrees (Suc (length b - off)) (length e) (decode_number f s x b off) (decode_number f s x (b @ e) off)"
proof (cases "decodeuint x b off False")
  case (Inl err)
  then show ?thesis using decodeuint_append_Inl [OF Inl] by (simp add: agrees_def decode_number_def)
next
  case (Inr r)
  obtain c v n where r: "r = (c, v, n)" by (cases r)
  show ?thesis
  proof (cases c)
    case True
    then have u: "decodeuint x b off False = Inr (True, v, n)" using Inr r by simp
    show ?thesis
      using decodeuint_count [OF u] decodeuint_append_complete [OF u assms] u assms
      by (simp add: agrees_def decode_number_def)
  next
    case False
    then have u: "decodeuint x b off False = Inr (False, v, n)" using Inr r by simp
    show ?thesis
      using decodeuint_append_wait [OF u] u by (simp add: agrees_def decode_number_def)
  qed
qed

lemma decode_bytestring_agrees:
  assumes "off \<le> length b" "0 \<le> x"
  shows "agrees (Suc (length b - off)) (length e) (decode_bytestring x b off) (decode_bytestring x (b @ e) off)"
proof (cases "decodeuint x b off True")
  case (Inl err)
  then show ?thesis using decodeuint_append_Inl [OF Inl] by (simp add: agrees_def decode_bytestring_def)
next
  case (Inr r)
  obtain c v n where r: "r = (c, v, n)" by (cases r)
  show ?thesis
  proof (cases c)
    case True
    then have u: "decodeuint x b off True = Inr (True, v, n)" using Inr r by simp
    note u' = decodeuint_append_complete [OF u assms(1)]
    show ?thesis
    proof (cases v)
      case None
      then show ?thesis using u u' by (simp add: agrees_def decode_bytestring_def)
    next
      case (Some k)
      have n: "0 \<le> n" "0 \<le> k" using decodeuint_count [OF u] decodeuint_value [of x b off True k n] u Some assms by auto
      have "py_slice (b @ e) (int off + n) (int off + n + k) = py_slice b (int off + n) (int off + n + k)"
        if "int off + n + k \<le> int (length b)"
        using n that by (simp add: py_slice_nonneg slice_prefix nat_le_iff)
      then show ?thesis using u u' Some n assms(1) by (simp add: agrees_def decode_bytestring_def)
    qed
  next
    case False
    then have u: "decodeuint x b off True = Inr (False, v, n)" using Inr r by simp
    show ?thesis
      using decodeuint_append_wait [OF u] u by (simp add: agrees_def decode_bytestring_def)
  qed
qed

lemma decode_plain_agrees:
  assumes "off \<le> length b" "0 \<le> x"
  shows "agrees (Suc (length b - off)) (length e) (decode_plain m x b off) (decode_plain m x (b @ e) off)"
proof -
  have "agrees (Suc (length b - off)) (length e) (decode_special x) (decode_special x)"
    by (simp add: agrees_def decode_special_def)
  moreover have "agrees (Suc (length b - off)) (length e) (Inl err) (Inl err)" for err by (simp add: agrees_def)
  ultimately show ?thesis
    using decode_number_agrees [OF assms(1)] decode_bytestring_agrees [OF assms]
    by (simp add: decode_plain_def)
qed

lemma decode_tagged_agrees:
  assumes "agrees room k r r'" "0 \<le> n" "n + int room + 1 \<le> int room'"
  shows "agrees room' k (decode_tagged n r) (decode_tagged n r')"
  using assms by (cases r) (auto simp: agrees_def decode_tagged_def split: prod.splits if_splits)

lemma decodeitem_agrees:
  assumes "off < length b"
  shows "agrees (length b - off) (length e) (decodeitem b off) (decodeitem (b @ e) off)"
  using assms
proof (induction "length b - off" arbitrary: off rule: less_induct)
  case less
  define x where "x = (of_char (b ! off) :: int) AND SUBTYPE_MASK"
  have room: "Suc (length b - Suc off) = length b - off" using less.prems by simp
  have "agrees (length b - off) (length e) (decode_semantic x b (Suc off)) (decode_semantic x (b @ e) (Suc off))"
  proof (cases "decodeuint x b (Suc off) False")
    case (Inl err)
    then show ?thesis using decodeuint_append_Inl [OF Inl] by (simp add: agrees_def decode_semantic_def)
  next
    case (Inr r)
    obtain c v n where r: "r = (c, v, n)" by (cases r)
    show ?thesis
    proof (cases c)
      case True
      then have u: "decodeuint x b (Suc off) False = Inr (True, v, n)" using Inr r by simp
      note u' = decodeuint_append_complete [OF u Suc_leI [OF less.prems]] and n = decodeuint_count [OF u, simplified]
      let ?o = "nat (int (Suc off) + n)"
      show ?thesis
      proof (cases "v = Some SEMANTIC_TAG_FINITE_SET \<and> ?o < length b")
        case True
        have "length b - ?o < length b - off" using n less.prems by arith
        from less.hyps [OF this] True
        have "agrees (length b - ?o) (length e) (decodeitem b ?o) (decodeitem (b @ e) ?o)" by simp
        then have "agrees (length b - off) (length e) (decode_tagged n (decodeitem b ?o)) (decode_tagged n (decodeitem (b @ e) ?o))"
          by (rule decode_tagged_agrees [OF _ n]) (use True n in arith)
        moreover have "\<not> int (length b) \<le> int (Suc off) + n" using True n by arith
        ultimately show ?thesis using u u' True by (simp add: decode_semantic_def)
      next
        case False
        then show ?thesis using u u' n less.prems by (auto simp: decode_semantic_def agrees_def)
      qed
    next
      case False
      then have u: "decodeuint x b (Suc off) False = Inr (False, v, n)" using Inr r by simp
      show ?thesis
        using decodeuint_append_wait [OF u] u by (simp add: agrees_def decode_semantic_def)
    qed
  qed
  moreover have "agrees (length b - off) (length e) (decode_plain m x b (Suc off)) (decode_plain m x (b @ e) (Suc off))" for m
    using decode_plain_agrees [of "Suc off" b x e m] less.prems subtype_nonneg [of "b ! off"]
    by (simp add: room x_def)
  ultimately show ?case using less.prems by (simp add: decodeitem_unfold x_def nth_append)
qed

section \<open>The other items of the encoder\<close>

lemma decodeitem_set:
  assumes "encodelength MAJOR_TYPE_SEMANTIC SEMANTIC_TAG_FINITE_SET = Inr h"
    and "encodelength MAJOR_TYPE_ARRAY n = Inr h2" "0 \<le> n"
  shows "decodeitem (h @ h2 @ rest) 0 = Inr (True, PInt n, int (length h) + int (length h2), SPECIAL_START_SET)"
proof -
  obtain c t x where h: "h = c # t" "of_char c = 32 * MAJOR_TYPE_SEMANTIC + x" "0 \<le> x" "x < 32"
      "\<And>rest ai. decodeuint x (h @ rest) 1 ai = Inr (True, Some SEMANTIC_TAG_FINITE_SET, int (length t))"
    using encodelength_header [OF assms(1)] by (auto simp: major_defs subtype_defs)
  have u: "decodeuint x (c # t @ h2 @ rest) (Suc 0) False = Inr (True, Some SEMANTIC_TAG_FINITE_SET, int (length t))"
    using h(5) [of "h2 @ rest" False] h(1) by simp
  have d: "drop_bit 5 (of_char c) = MAJOR_TYPE_SEMANTIC" "of_char c AND SUBTYPE_MASK = x"
    using initial_split [OF h(3,4)] by (simp_all only: h(2) SUBTYPE_MASK_def)
  have i: "decodeitem (c # t @ h2 @ rest) (Suc (length t)) = Inr (True, PInt n, int (length h2), SPECIAL_START_ARRAY)"
    using decodeitem_shift [of h "h2 @ rest" 0] h(1) decodeitem_number [OF assms(2,3), of "\<lambda>v. v" SPECIAL_START_ARRAY rest]
    by simp
  have "h2 \<noteq> []" using encodelength_nonempty [OF assms(2,3)] by (simp add: major_defs)
  then have "\<not> int (length h2) + int (length rest) \<le> 0" by (cases h2) auto
  moreover have "nat (1 + int (length t)) = Suc (length t)" by simp
  ultimately show ?thesis
    by (simp add: h(1) d u i decodeitem_unfold [of 0] decode_semantic_def decode_tagged_def)
qed

lemma initial_constant:
  assumes "(of_char c :: int) = 32 * MAJOR_TYPE_SPECIAL + x" "0 \<le> x" "x < 32"
  shows "decodeitem (c # rest) 0 = decode_special x"
proof -
  have "drop_bit 5 (of_char c) = MAJOR_TYPE_SPECIAL" "of_char c AND SUBTYPE_MASK = x"
    using initial_split [OF assms(2,3)] by (simp_all only: assms(1) SUBTYPE_MASK_def)
  then show ?thesis by (simp add: decodeitem_unfold decode_plain_def major_defs)
qed

lemma decodeitem_bool:
  "decodeitem ((if b then [CHR 0xF5] else [CHR 0xF4]) @ rest) 0 = Inr (True, PBool b, 1, SPECIAL_NONE)"
  using initial_constant [of "CHR 0xF5" 21 rest] initial_constant [of "CHR 0xF4" 20 rest]
  by (simp add: decode_special_def major_defs subtype_defs)

lemma decodeitem_none: "decodeitem (CHR 0xF6 # rest) 0 = Inr (True, PNone, 1, SPECIAL_NONE)"
  using initial_constant [of "CHR 0xF6" 22 rest] by (simp add: decode_special_def major_defs subtype_defs)

lemma decodeitem_break: "decodeitem (BREAK @ rest) 0 = Inr (True, PNone, 1, SPECIAL_INDEFINITE_BREAK)"
  using initial_constant [of "CHR 0xFF" 31 rest] by (simp add: BREAK_def decode_special_def major_defs subtype_defs)

text \<open>A header with the subtype of an indefinite length.\<close>

lemma indefinite_header:
  assumes "0 \<le> m" "m < 8"
  shows "\<exists>c. be 1 (push_bit 5 m OR SUBTYPE_INDEFINITE) = [c] \<and>
           drop_bit 5 (of_char c :: int) = m \<and> (of_char c :: int) AND SUBTYPE_MASK = 31"
  using assms initial_split [of 31 m] by (auto simp: be_1 subtype_defs initial_or)

lemma decodeitem_begin_bytestring:
  "decodeitem (BEGIN_INDEFINITE_BYTESTRING @ rest) 0 = Inr (True, PNone, 1, SPECIAL_START_INDEFINITE_BYTESTRING)"
proof -
  obtain c where b: "BEGIN_INDEFINITE_BYTESTRING = [c]" "drop_bit 5 (of_char c :: int) = MAJOR_TYPE_BYTESTRING"
      "(of_char c :: int) AND SUBTYPE_MASK = 31"
    using indefinite_header [of MAJOR_TYPE_BYTESTRING] by (auto simp: BEGIN_INDEFINITE_BYTESTRING_def major_defs)
  show ?thesis
    unfolding b(1) using b(2,3) by (simp add: decodeitem_unfold decode_plain_def decode_bytestring_def decodeuint_def major_defs)
qed

text \<open>The decoder does not accept what the encoders of indefinite arrays and maps begin with.\<close>

lemma decodeitem_begin_collection:
  assumes "h = BEGIN_INDEFINITE_ARRAY \<or> h = BEGIN_INDEFINITE_MAP"
  shows "decodeitem (h @ rest) 0 = Inl (CBORDecodeError ''indefinite length uint not allowed here'')"
proof -
  obtain c where "h = [c]" "drop_bit 5 (of_char c :: int) \<in> {MAJOR_TYPE_ARRAY, MAJOR_TYPE_MAP}"
      "(of_char c :: int) AND SUBTYPE_MASK = 31"
    using assms indefinite_header [of MAJOR_TYPE_ARRAY] indefinite_header [of MAJOR_TYPE_MAP]
    by (auto simp: BEGIN_INDEFINITE_ARRAY_def BEGIN_INDEFINITE_MAP_def major_defs)
  then show ?thesis
    by (auto simp: decodeitem_unfold decode_plain_def decode_number_def decodeuint_def major_defs)
qed

lemma BEGIN_INDEFINITE_BYTESTRING_length: "length BEGIN_INDEFINITE_BYTESTRING = 1"
  by (simp add: BEGIN_INDEFINITE_BYTESTRING_def)

end
