(* ===== verification/Cbordecoder.thy ===== *)
theory Cbordecoder
  imports Cbor
begin

text \<open>
  The decoders of \<open>utils/cborutil.py\<close>: the state machine \<open>sansiodecoder\<close>, which turns items
  into values and keeps a stack of the collections it is filling, \<open>bufferingdecoder\<close>, which
  buffers incomplete items, and \<open>decodeall\<close>.
\<close>

section \<open>The state of a decoder\<close>

text \<open>
  A nested collection is put into its parent when it begins and filled afterwards: parent and stack
  share the object. The objects are therefore kept in a store, in the order in which they are
  created, and a value that the decoder handles is an item or the address of an object.
\<close>

datatype dval = DAtom pyval | DRef nat

datatype dobj =
    OList "dval list"
  | ODict "(pyval \<times> dval) list"
  | OSet "pyval list"

datatype decstate =
    STATE_NONE
  | STATE_WANT_MAP_KEY
  | STATE_WANT_MAP_VALUE
  | STATE_WANT_ARRAY_VALUE
  | STATE_WANT_SET_VALUE
  | STATE_WANT_BYTESTRING_CHUNK_FIRST
  | STATE_WANT_BYTESTRING_CHUNK_SUBSEQUENT

text \<open>An entry of the stack: how many elements are missing, and the address of the collection.\<close>

record collection =
  remaining :: int
  coll :: nat

text \<open>The end of the Python list \<open>_collectionstack\<close> is the head of the list here.\<close>

record sansiodecoder =
  decodedbytecount :: int
  dstate :: decstate
  collectionstack :: "collection list"
  currentmapkey :: pyval
  decodedvalues :: "dval list"
  objects :: "dobj list"

definition sansiodecoder_init :: sansiodecoder where
  "sansiodecoder_init =
     \<lparr>decodedbytecount = 0, dstate = STATE_NONE, collectionstack = [], currentmapkey = PNone,
      decodedvalues = [], objects = []\<rparr>"

definition inprogress :: "sansiodecoder \<Rightarrow> bool" where
  "inprogress d \<longleftrightarrow> dstate d \<noteq> STATE_NONE"

text \<open>\<open>self._collectionstack[-1]\<close>\<close>

definition lastc :: "sansiodecoder \<Rightarrow> collection res" where
  "lastc d = (case collectionstack d of [] \<Rightarrow> Inl IndexError | c # _ \<Rightarrow> Inr c)"

text \<open>The number of elements that a collection begins with.\<close>

definition as_int :: "pyval \<Rightarrow> int res" where
  "as_int v = (case v of PInt i \<Rightarrow> Inr i | _ \<Rightarrow> Inl TypeError)"

text \<open>\<open>c["v"].append(x)\<close>, \<open>c["v"][k] = x\<close> and \<open>c["v"].add(x)\<close>\<close>

fun obj_append :: "dval \<Rightarrow> dobj \<Rightarrow> dobj res" where
  "obj_append x (OList xs) = Inr (OList (xs @ [x]))"
| "obj_append x _ = Inl AttributeError"

fun obj_setitem :: "pyval \<Rightarrow> dval \<Rightarrow> dobj \<Rightarrow> dobj res" where
  "obj_setitem k x (ODict d) = Inr (ODict (dict_put k x d))"
| "obj_setitem k x _ = Inl TypeError"

fun obj_add :: "pyval \<Rightarrow> dobj \<Rightarrow> dobj res" where
  "obj_add x (OSet s) = Inr (OSet (set_add x s))"
| "obj_add x _ = Inl AttributeError"

text \<open>
  The last collection is changed by \<open>f\<close>, and one element less remains.
\<close>

definition fill_last :: "(dobj \<Rightarrow> dobj res) \<Rightarrow> sansiodecoder \<Rightarrow> sansiodecoder res" where
  "fill_last f d =
     bindE (lastc d) (\<lambda>c.
     bindE (f (objects d ! coll c)) (\<lambda>ob.
       Inr (d\<lparr>objects := (objects d)[coll c := ob],
              collectionstack := c\<lparr>remaining := remaining c - 1\<rparr> # tl (collectionstack d)\<rparr>)))"

text \<open>\<open>self._collectionstack.append({"remaining": value, "v": newvalue})\<close> for the newest object.\<close>

definition push_collection :: "pyval \<Rightarrow> dobj \<Rightarrow> sansiodecoder \<Rightarrow> sansiodecoder res" where
  "push_collection value ob d =
     bindE (as_int value) (\<lambda>n.
       Inr (d\<lparr>objects := objects d @ [ob],
              collectionstack := \<lparr>remaining = n, coll = length (objects d)\<rparr> # collectionstack d\<rparr>))"

section \<open>The state machine\<close>

definition errmsg :: "string \<Rightarrow> special \<Rightarrow> pyerror" where
  "errmsg msg special = CBORDecodeError (msg @ dec (special_code special))"

text \<open>One definition for each state: what an item with the value and the special flag does.\<close>

definition step_none :: "pyval \<Rightarrow> special \<Rightarrow> sansiodecoder \<Rightarrow> sansiodecoder res" where
  "step_none value special d =
     (case special of
        SPECIAL_NONE \<Rightarrow> Inr (d\<lparr>decodedvalues := decodedvalues d @ [DAtom value]\<rparr>)
      | SPECIAL_START_ARRAY \<Rightarrow>
          bindE (push_collection value (OList []) d) (\<lambda>d. Inr (d\<lparr>dstate := STATE_WANT_ARRAY_VALUE\<rparr>))
      | SPECIAL_START_MAP \<Rightarrow>
          bindE (push_collection value (ODict []) d) (\<lambda>d. Inr (d\<lparr>dstate := STATE_WANT_MAP_KEY\<rparr>))
      | SPECIAL_START_SET \<Rightarrow>
          bindE (push_collection value (OSet []) d) (\<lambda>d. Inr (d\<lparr>dstate := STATE_WANT_SET_VALUE\<rparr>))
      | SPECIAL_START_INDEFINITE_BYTESTRING \<Rightarrow> Inr (d\<lparr>dstate := STATE_WANT_BYTESTRING_CHUNK_FIRST\<rparr>)
      | _ \<Rightarrow> Inl (errmsg ''unhandled special state: '' special))"

text \<open>
  A new collection is an element of the last one: the last one gets a reference to it, then it is
  pushed on the stack.
\<close>

definition nest :: "(dval \<Rightarrow> dobj \<Rightarrow> dobj res) \<Rightarrow> pyval \<Rightarrow> dobj \<Rightarrow> sansiodecoder \<Rightarrow> sansiodecoder res" where
  "nest put value ob d =
     bindE (fill_last (put (DRef (length (objects d)))) d) (push_collection value ob)"

definition step_array :: "pyval \<Rightarrow> special \<Rightarrow> sansiodecoder \<Rightarrow> sansiodecoder res" where
  "step_array value special d =
     (case special of
        SPECIAL_NONE \<Rightarrow> fill_last (obj_append (DAtom value)) d
      | SPECIAL_START_ARRAY \<Rightarrow> nest obj_append value (OList []) d
      | SPECIAL_START_MAP \<Rightarrow>
          bindE (nest obj_append value (ODict []) d) (\<lambda>d. Inr (d\<lparr>dstate := STATE_WANT_MAP_KEY\<rparr>))
      | SPECIAL_START_SET \<Rightarrow>
          bindE (nest obj_append value (OSet []) d) (\<lambda>d. Inr (d\<lparr>dstate := STATE_WANT_SET_VALUE\<rparr>))
      | SPECIAL_START_INDEFINITE_BYTESTRING \<Rightarrow>
          Inl (CBORDecodeError ''indefinite length bytestrings not allowed as array values'')
      | _ \<Rightarrow> Inl (errmsg ''unhandled special item when expecting array value: '' special))"

definition step_map_key :: "pyval \<Rightarrow> special \<Rightarrow> sansiodecoder \<Rightarrow> sansiodecoder res" where
  "step_map_key value special d =
     (case special of
        SPECIAL_NONE \<Rightarrow> Inr (d\<lparr>currentmapkey := value, dstate := STATE_WANT_MAP_VALUE\<rparr>)
      | SPECIAL_START_INDEFINITE_BYTESTRING \<Rightarrow>
          Inl (CBORDecodeError ''indefinite length bytestrings not allowed as map keys'')
      | SPECIAL_INDEFINITE_BREAK \<Rightarrow> Inl (errmsg ''unhandled special item when expecting map key: '' special)
      | _ \<Rightarrow> Inl (CBORDecodeError ''collections not supported as map keys''))"

definition step_map_value :: "pyval \<Rightarrow> special \<Rightarrow> sansiodecoder \<Rightarrow> sansiodecoder res" where
  "step_map_value value special d =
     (let put = obj_setitem (currentmapkey d) in
      bindE
        (case special of
           SPECIAL_NONE \<Rightarrow>
             bindE (fill_last (put (DAtom value)) d) (\<lambda>d. Inr (d\<lparr>dstate := STATE_WANT_MAP_KEY\<rparr>))
         | SPECIAL_START_ARRAY \<Rightarrow>
             bindE (nest put value (OList []) d) (\<lambda>d. Inr (d\<lparr>dstate := STATE_WANT_ARRAY_VALUE\<rparr>))
         | SPECIAL_START_MAP \<Rightarrow>
             bindE (nest put value (ODict []) d) (\<lambda>d. Inr (d\<lparr>dstate := STATE_WANT_MAP_KEY\<rparr>))
         | SPECIAL_START_SET \<Rightarrow>
             bindE (nest put value (OSet []) d) (\<lambda>d. Inr (d\<lparr>dstate := STATE_WANT_SET_VALUE\<rparr>))
         | SPECIAL_START_INDEFINITE_BYTESTRING \<Rightarrow>
             Inl (CBORDecodeError ''indefinite length bytestrings not allowed as map values'')
         | _ \<Rightarrow> Inl (errmsg ''unhandled special item when expecting map value: '' special))
        (\<lambda>d. Inr (d\<lparr>currentmapkey := PNone\<rparr>)))"

definition step_set :: "pyval \<Rightarrow> special \<Rightarrow> sansiodecoder \<Rightarrow> sansiodecoder res" where
  "step_set value special d =
     (case special of
        SPECIAL_NONE \<Rightarrow> fill_last (obj_add value) d
      | SPECIAL_START_INDEFINITE_BYTESTRING \<Rightarrow>
          Inl (CBORDecodeError ''indefinite length bytestrings not allowed as set values'')
      | SPECIAL_INDEFINITE_BREAK \<Rightarrow> Inl (errmsg ''unhandled special item when expecting set value: '' special)
      | _ \<Rightarrow> Inl (CBORDecodeError ''collections not allowed as set values''))"

text \<open>
  \<open>bytestringchunk(value)\<close>: the constructor of \<open>bytes\<close> in Python 2 is \<open>str\<close>, which also takes
  values that are no byte strings and gives their decimal or symbolic name.
\<close>

fun str_of :: "pyval \<Rightarrow> bytes res" where
  "str_of (PBytes s) = Inr s"
| "str_of (PChunk s f l) = Inr s"
| "str_of (PInt i) = Inr (dec i)"
| "str_of (PBool b) = Inr (if b then ''True'' else ''False'')"
| "str_of PNone = Inr ''None''"
| "str_of _ = Inl TypeError"

definition bytestringchunk :: "pyval \<Rightarrow> bool \<Rightarrow> bool \<Rightarrow> pyval res" where
  "bytestringchunk v isfirst islast = bindE (str_of v) (\<lambda>s. Inr (PChunk s isfirst islast))"

definition emit_chunk :: "pyval \<Rightarrow> bool \<Rightarrow> bool \<Rightarrow> sansiodecoder \<Rightarrow> sansiodecoder res" where
  "emit_chunk v isfirst islast d =
     bindE (bytestringchunk v isfirst islast) (\<lambda>c.
       Inr (d\<lparr>decodedvalues := decodedvalues d @ [DAtom c]\<rparr>))"

text \<open>The end of an indefinite byte string, which has to be at the root level.\<close>

definition end_chunks :: "sansiodecoder \<Rightarrow> sansiodecoder res" where
  "end_chunks d =
     (if collectionstack d \<noteq> [] then Inl AssertionError else Inr (d\<lparr>dstate := STATE_NONE\<rparr>))"

definition step_chunk_first :: "pyval \<Rightarrow> special \<Rightarrow> sansiodecoder \<Rightarrow> sansiodecoder res" where
  "step_chunk_first value special d =
     (case special of
        SPECIAL_NONE \<Rightarrow>
          bindE (emit_chunk value True False d)
            (\<lambda>d. Inr (d\<lparr>dstate := STATE_WANT_BYTESTRING_CHUNK_SUBSEQUENT\<rparr>))
      | SPECIAL_INDEFINITE_BREAK \<Rightarrow> bindE (emit_chunk (PBytes []) True True d) end_chunks
      | _ \<Rightarrow> Inl (errmsg ''unexpected special value when expecting bytestring chunk: '' special))"

definition step_chunk_subsequent :: "pyval \<Rightarrow> special \<Rightarrow> sansiodecoder \<Rightarrow> sansiodecoder res" where
  "step_chunk_subsequent value special d =
     (case special of
        SPECIAL_NONE \<Rightarrow> emit_chunk value False False d
      | SPECIAL_INDEFINITE_BREAK \<Rightarrow> bindE (emit_chunk (PBytes []) False True d) end_chunks
      | _ \<Rightarrow> Inl (errmsg ''unexpected special value when expecting bytestring chunk: '' special))"

definition dispatch :: "pyval \<Rightarrow> special \<Rightarrow> sansiodecoder \<Rightarrow> sansiodecoder res" where
  "dispatch value special d =
     (case dstate d of
        STATE_NONE \<Rightarrow> step_none value special d
      | STATE_WANT_ARRAY_VALUE \<Rightarrow> step_array value special d
      | STATE_WANT_MAP_KEY \<Rightarrow> step_map_key value special d
      | STATE_WANT_MAP_VALUE \<Rightarrow> step_map_value value special d
      | STATE_WANT_SET_VALUE \<Rightarrow> step_set value special d
      | STATE_WANT_BYTESTRING_CHUNK_FIRST \<Rightarrow> step_chunk_first value special d
      | STATE_WANT_BYTESTRING_CHUNK_SUBSEQUENT \<Rightarrow> step_chunk_subsequent value special d)"

text \<open>The state in which a collection of the type is filled.\<close>

fun state_of :: "dobj \<Rightarrow> decstate" where
  "state_of (OList xs) = STATE_WANT_ARRAY_VALUE"
| "state_of (ODict d) = STATE_WANT_MAP_KEY"
| "state_of (OSet s) = STATE_WANT_SET_VALUE"

text \<open>The loop that ends all complete collections at the top of the stack.\<close>

function end_collections :: "sansiodecoder \<Rightarrow> sansiodecoder res" where
  "end_collections d =
     (if dstate d \<notin> {STATE_WANT_ARRAY_VALUE, STATE_WANT_MAP_KEY, STATE_WANT_SET_VALUE} then Inr d
      else (case collectionstack d of
          [] \<Rightarrow> Inl IndexError
        | c # stack \<Rightarrow>
            if remaining c \<noteq> 0 then Inr d
            else (case stack of
                p # _ \<Rightarrow> end_collections (d\<lparr>collectionstack := stack, dstate := state_of (objects d ! coll p)\<rparr>)
              | [] \<Rightarrow> end_collections (d\<lparr>collectionstack := [], dstate := STATE_NONE,
                                         decodedvalues := decodedvalues d @ [DRef (coll c)]\<rparr>))))"
  by pat_completeness auto

termination
  by (relation "measure (\<lambda>d. length (collectionstack d))") auto

declare end_collections.simps [simp del]

text \<open>What a complete item does.\<close>

definition item_step :: "pyval \<Rightarrow> special \<Rightarrow> sansiodecoder \<Rightarrow> sansiodecoder res" where
  "item_step value special d = bindE (dispatch value special d) end_collections"

definition count_bytes :: "int \<Rightarrow> sansiodecoder \<Rightarrow> sansiodecoder" where
  "count_bytes n d = (if n > 0 then d\<lparr>decodedbytecount := decodedbytecount d + n\<rparr> else d)"

lemma decodeitem_complete:
  assumes "decodeitem b off = Inr (True, v, n, s)"
  shows "0 < n \<and> int off + n \<le> int (length b)"
proof -
  have "off < length b"
    using assms decodeitem.simps [of b off] by (auto simp: elementtointeger_def py_index_def split: if_splits)
  then show ?thesis
    using decodeitem_agrees [of off b "[]"] assms by (auto simp: agrees_def)
qed

text \<open>
  The loop of \<open>decode\<close>: it returns whether values are available, the bytes consumed and the bytes wanted.
  An exception ends the use of the decoder.
\<close>

type_synonym answer = "bool \<times> int \<times> int"

function decode_loop :: "bytes \<Rightarrow> nat \<Rightarrow> nat \<Rightarrow> sansiodecoder \<Rightarrow> (answer \<times> sansiodecoder) res" where
  "decode_loop b initialoffset offset d =
     (if offset < length b then
        bindE (decodeitem b offset) (\<lambda>(complete, value, readcount, special).
          let d = count_bytes readcount d in
          if \<not> complete then
            (if \<not> readcount < 0 then Inl AssertionError
             else Inr ((decodedvalues d \<noteq> [], int offset - int initialoffset, - readcount), d))
          else bindE (item_step value special d) (decode_loop b initialoffset (nat (int offset + readcount))))
      else Inr ((decodedvalues d \<noteq> [], int offset - int initialoffset, 0), d))"
  by pat_completeness auto

termination
  by (relation "measure (\<lambda>(b, initialoffset, offset, d). length b - offset)") (auto dest: decodeitem_complete)

declare decode_loop.simps [simp del]

definition sans_decode :: "bytes \<Rightarrow> nat \<Rightarrow> sansiodecoder \<Rightarrow> (answer \<times> sansiodecoder) res" where
  "sans_decode b offset d =
     (if b = [] then Inr ((decodedvalues d \<noteq> [], 0, 0), d) else decode_loop b offset offset d)"

definition sans_getavailable :: "sansiodecoder \<Rightarrow> dval list \<times> sansiodecoder" where
  "sans_getavailable d = (decodedvalues d, d\<lparr>decodedvalues := []\<rparr>)"

section \<open>The buffering decoder\<close>

record bufferingdecoder =
  decoder :: sansiodecoder
  chunks :: "bytes list"
  wanted :: int

definition bufferingdecoder_init :: bufferingdecoder where
  "bufferingdecoder_init = \<lparr>decoder = sansiodecoder_init, chunks = [], wanted = 0\<rparr>"

text \<open>The call of \<open>sansiodecoder.decode\<close>, with the part of the buffer that was there before.\<close>

definition buf_run :: "bytes \<Rightarrow> nat \<Rightarrow> bufferingdecoder \<Rightarrow> (answer \<times> bufferingdecoder) res" where
  "buf_run b oldlen bd =
     bindE (sans_decode b 0 (decoder bd)) (\<lambda>((available, readcount, w), d).
       Inr ((available, readcount - int oldlen, w),
            bd\<lparr>decoder := d, wanted := w,
               chunks := (if readcount < int (length b) then chunks bd @ [drop (nat readcount) b] else chunks bd)\<rparr>))"

definition buf_decode :: "bytes \<Rightarrow> bufferingdecoder \<Rightarrow> (answer \<times> bufferingdecoder) res" where
  "buf_decode b bd =
     (if chunks bd \<noteq> [] then
        (if int (length b) < wanted bd then
           Inr ((False, 0, wanted bd - int (length b)),
                bd\<lparr>chunks := chunks bd @ [b], wanted := wanted bd - int (length b)\<rparr>)
         else
           let newlen = length b; b' = concat (chunks bd @ [b]) in
           buf_run b' (length b' - newlen) (bd\<lparr>chunks := []\<rparr>))
      else buf_run b 0 bd)"

definition buf_getavailable :: "bufferingdecoder \<Rightarrow> dval list \<times> bufferingdecoder" where
  "buf_getavailable bd = (let (l, d) = sans_getavailable (decoder bd) in (l, bd\<lparr>decoder := d\<rparr>))"

section \<open>Decoding a buffer\<close>

text \<open>
  The value that a caller sees at an address. An object refers to objects that were created after
  it, so the table of the values is built from the end of the store.
\<close>

fun seen :: "pyval list \<Rightarrow> nat \<Rightarrow> dval \<Rightarrow> pyval" where
  "seen tbl base (DAtom v) = v"
| "seen tbl base (DRef a) = (if base \<le> a \<and> a - base < length tbl then tbl ! (a - base) else PNone)"

fun obj_value :: "pyval list \<Rightarrow> nat \<Rightarrow> dobj \<Rightarrow> pyval" where
  "obj_value tbl base (OList xs) = PList (map (seen tbl base) xs)"
| "obj_value tbl base (ODict d) = PDict (map (\<lambda>(k, x). (k, seen tbl base x)) d)"
| "obj_value tbl base (OSet s) = PSet s"

fun obj_values :: "nat \<Rightarrow> dobj list \<Rightarrow> pyval list" where
  "obj_values base [] = []"
| "obj_values base (ob # obs) =
     (let tbl = obj_values (Suc base) obs in obj_value tbl (Suc base) ob # tbl)"

definition pyvalue :: "dobj list \<Rightarrow> dval \<Rightarrow> pyval" where
  "pyvalue obs x = seen (obj_values 0 obs) 0 x"

definition decodeall :: "bytes \<Rightarrow> pyval list res" where
  "decodeall b =
     (if b = [] then Inr []
      else bindE (sans_decode b 0 sansiodecoder_init) (\<lambda>((havevalues, readcount, wantbytes), d).
        if readcount \<noteq> int (length b) then Inl (CBORDecodeError ''input data not fully consumed'')
        else if inprogress d then Inl (CBORDecodeError ''input data not complete'')
        else Inr (map (pyvalue (objects d)) (fst (sans_getavailable d)))))"

section \<open>Decoding the rest of a buffer\<close>

text \<open>
  The loop of \<open>decode\<close> without offsets: it returns the bytes that are left, the bytes wanted
  and the decoder.
\<close>

function consume :: "bytes \<Rightarrow> sansiodecoder \<Rightarrow> (bytes \<times> int \<times> sansiodecoder) res" where
  "consume bs d =
     (if bs = [] then Inr ([], 0, d)
      else bindE (decodeitem bs 0) (\<lambda>(complete, value, n, special).
        if \<not> complete then Inr (bs, - n, d)
        else bindE (item_step value special (count_bytes n d)) (consume (drop (nat n) bs))))"
  by pat_completeness auto

termination
  by (relation "measure (\<lambda>(bs, d). length bs)") (auto dest: decodeitem_complete)

declare consume.simps [simp del]

lemma consume_Nil [simp]: "consume [] d = Inr ([], 0, d)"
  by (simp add: consume.simps)

lemma consume_complete:
  "decodeitem bs 0 = Inr (True, v, n, s) \<Longrightarrow>
    consume bs d = bindE (item_step v s (count_bytes n d)) (consume (drop (nat n) bs))"
  by (cases "bs = []") (auto simp: consume.simps [of bs] dest: decodeitem_complete)

lemma consume_item:
  "decodeitem (it @ rest) 0 = Inr (True, v, int (length it), s) \<Longrightarrow>
    consume (it @ rest) d = bindE (item_step v s (count_bytes (int (length it)) d)) (consume rest)"
  by (simp add: consume_complete)

lemma decodeitem_incomplete:
  assumes "decodeitem bs 0 = Inr (False, v, n, s)"
  shows "bs \<noteq> [] \<and> v = PNone \<and> s = SPECIAL_NONE \<and> n < 0"
proof -
  have "bs \<noteq> []"
    using assms decodeitem.simps [of bs 0] by (auto simp: elementtointeger_def py_index_def split: if_splits)
  then show ?thesis using decodeitem_agrees [of 0 bs "[]"] assms by (simp add: agrees_def)
qed

lemma consume_incomplete: "decodeitem bs 0 = Inr (False, v, n, s) \<Longrightarrow> consume bs d = Inr (bs, - n, d)"
  using decodeitem_incomplete by (simp add: consume.simps [of bs])

lemma consume_error: "bs \<noteq> [] \<Longrightarrow> decodeitem bs 0 = Inl e \<Longrightarrow> consume bs d = Inl e"
  by (simp add: consume.simps [of bs])

text \<open>How \<open>consume\<close> proceeds: at the end, at an error, at an incomplete or after a complete item.\<close>

lemma item_cases [case_names empty error incomplete complete]:
  assumes "bs = [] \<Longrightarrow> P"
    and "\<And>e. bs \<noteq> [] \<Longrightarrow> decodeitem bs 0 = Inl e \<Longrightarrow> P"
    and "\<And>n. bs \<noteq> [] \<Longrightarrow> n < 0 \<Longrightarrow> decodeitem bs 0 = Inr (False, PNone, n, SPECIAL_NONE) \<Longrightarrow> P"
    and "\<And>v n s. bs \<noteq> [] \<Longrightarrow> 0 < n \<Longrightarrow> n \<le> int (length bs) \<Longrightarrow> decodeitem bs 0 = Inr (True, v, n, s) \<Longrightarrow> P"
  shows P
proof (cases "decodeitem bs 0")
  case (Inl e)
  then show ?thesis using assms(1,2) by blast
next
  case (Inr r)
  obtain c v n s where r: "r = (c, v, n, s)" by (cases r)
  show ?thesis
  proof (cases "bs = []")
    case False
    then show ?thesis
      using Inr r assms(3,4) decodeitem_incomplete [of bs v n s] decodeitem_complete [of bs 0 v n s] by (cases c) auto
  qed (use assms(1) in blast)
qed

definition answer_of :: "nat \<Rightarrow> nat \<Rightarrow> (bytes \<times> int \<times> sansiodecoder) \<Rightarrow> answer \<times> sansiodecoder" where
  "answer_of len init = (\<lambda>(rest, w, d). ((decodedvalues d \<noteq> [], int len - int (length rest) - int init, w), d))"

lemma decode_loop_consume:
  assumes "off \<le> length b"
  shows "decode_loop b init off d = bindE (consume (drop off b) d) (\<lambda>r. Inr (answer_of (length b) init r))"
  using assms
proof (induction "length b - off" arbitrary: off d rule: less_induct)
  case less
  have i: "decodeitem b off = decodeitem (drop off b) 0" using less.prems by (rule decodeitem_drop)
  show ?case
  proof (cases "drop off b" rule: item_cases)
    case empty
    then show ?thesis using less.prems by (simp add: decode_loop.simps [of b init off] answer_of_def)
  next
    case (error e)
    then show ?thesis using i by (simp add: decode_loop.simps [of b init off] consume_error)
  next
    case (incomplete n)
    then show ?thesis using i
      by (simp add: decode_loop.simps [of b init off] consume_incomplete answer_of_def count_bytes_def of_nat_diff)
  next
    case (complete v n s)
    let ?off = "nat (int off + n)"
    have off: "?off \<le> length b" "length b - ?off < length b - off" "off < length b" using complete(2,3) less.prems by auto
    have dr: "drop (nat n) (drop off b) = drop ?off b" using complete(2) by (simp add: nat_add_distrib add.commute)
    have IH: "decode_loop b init ?off d' = bindE (consume (drop ?off b) d') (\<lambda>r. Inr (answer_of (length b) init r))" for d'
      using less.hyps off by blast
    show ?thesis
      using i off(3) consume_complete [OF complete(4), unfolded dr]
      by (cases "item_step v s (count_bytes n d)")
         (simp_all add: decode_loop.simps [of b init off] complete(4) IH Let_def)
  qed
qed

lemma sans_decode_consume:
  "sans_decode b 0 d = bindE (consume b d) (\<lambda>r. Inr (answer_of (length b) 0 r))"
  by (simp add: sans_decode_def decode_loop_consume answer_of_def)

section \<open>Decoding a growing buffer\<close>

lemma consume_rest:
  "consume bs d = Inr (rest, w, d') \<Longrightarrow>
    (\<exists>pre. bs = pre @ rest) \<and>
    (if rest = [] then w = 0 else 0 < w \<and> decodeitem rest 0 = Inr (False, PNone, - w, SPECIAL_NONE))"
proof (induction "length bs" arbitrary: bs d rule: less_induct)
  case less
  show ?case
  proof (cases bs rule: item_cases)
    case (incomplete n)
    then show ?thesis using less.prems by (auto simp: consume_incomplete)
  next
    case (complete v n s)
    then obtain d1 where "consume (drop (nat n) bs) d1 = Inr (rest, w, d')"
      using less.prems by (auto simp: consume_complete bindE_Inr_iff)
    moreover have "length (drop (nat n) bs) < length bs" using complete by simp
    ultimately show ?thesis using less.hyps by (metis append_assoc append_take_drop_id)
  qed (use less.prems in \<open>auto simp: consume_error\<close>)
qed

lemma decodeitem_extend:
  "bs \<noteq> [] \<Longrightarrow> decodeitem bs 0 = Inl err \<Longrightarrow> decodeitem (bs @ e) 0 = Inl err"
  "bs \<noteq> [] \<Longrightarrow> decodeitem bs 0 = Inr (True, v, n, s) \<Longrightarrow> decodeitem (bs @ e) 0 = Inr (True, v, n, s)"
  "bs \<noteq> [] \<Longrightarrow> decodeitem bs 0 = Inr (False, v, n, s) \<Longrightarrow> int (length e) < - n \<Longrightarrow>
     decodeitem (bs @ e) 0 = Inr (False, PNone, n + int (length e), SPECIAL_NONE)"
  using decodeitem_agrees [of 0 bs e] by (auto simp: agrees_def)

text \<open>More bytes are consumed after those that were consumed before.\<close>

lemma consume_extend:
  "consume (bs @ e) d =
     bindE (consume bs d) (\<lambda>(rest, w, d'). consume (rest @ e) d')"
proof (induction "length bs" arbitrary: bs d rule: less_induct)
  case less
  show ?case
  proof (cases bs rule: item_cases)
    case (complete v n s)
    have "length (drop (nat n) bs) < length bs" using complete by simp
    note IH = less.hyps [OF this]
    have "drop (nat n) (bs @ e) = drop (nat n) bs @ e" using complete by simp
    then show ?thesis
      using complete decodeitem_extend(2) [OF complete(1,4)]
      by (cases "item_step v s (count_bytes n d)") (simp_all add: consume_complete IH)
  qed (auto simp: consume_error consume_incomplete decodeitem_extend)
qed

lemma consume_wait:
  assumes "consume bs d = Inr (rest, w, d')" "rest \<noteq> []" "int (length e) < w"
  shows "consume (rest @ e) d' = Inr (rest @ e, w - int (length e), d')"
  using consume_rest [OF assms(1)] assms(2,3) decodeitem_extend(3) [of rest PNone "- w" SPECIAL_NONE e]
  by (simp add: consume_incomplete)

section \<open>What was decoded before\<close>

text \<open>The decoder only counts bytes and appends to the decoded values.\<close>

definition earlier :: "int \<Rightarrow> dval list \<Rightarrow> sansiodecoder \<Rightarrow> sansiodecoder" where
  "earlier n xs d = d\<lparr>decodedbytecount := n + decodedbytecount d, decodedvalues := xs @ decodedvalues d\<rparr>"

named_theorems frame_simps \<open>operations on a decoder with earlier values\<close>

lemma earlier_select [frame_simps]:
  "dstate (earlier n xs d) = dstate d" "collectionstack (earlier n xs d) = collectionstack d"
  "currentmapkey (earlier n xs d) = currentmapkey d" "objects (earlier n xs d) = objects d"
  "lastc (earlier n xs d) = lastc d" "decodedvalues (earlier n xs d) = xs @ decodedvalues d"
  by (simp_all add: earlier_def lastc_def)

lemma earlier_update [frame_simps]:
  "(earlier n xs d)\<lparr>dstate := s\<rparr> = earlier n xs (d\<lparr>dstate := s\<rparr>)"
  "(earlier n xs d)\<lparr>currentmapkey := k\<rparr> = earlier n xs (d\<lparr>currentmapkey := k\<rparr>)"
  "(earlier n xs d)\<lparr>collectionstack := st\<rparr> = earlier n xs (d\<lparr>collectionstack := st\<rparr>)"
  "(earlier n xs d)\<lparr>objects := obs\<rparr> = earlier n xs (d\<lparr>objects := obs\<rparr>)"
  "(earlier n xs d)\<lparr>decodedvalues := xs @ ys\<rparr> = earlier n xs (d\<lparr>decodedvalues := ys\<rparr>)"
  by (simp_all add: earlier_def)

definition mapE :: "('a \<Rightarrow> 'b) \<Rightarrow> 'a res \<Rightarrow> 'b res" where
  "mapE f r = bindE r (\<lambda>x. Inr (f x))"

lemma mapE_simps [simp]: "mapE f (Inl e) = Inl e" "mapE f (Inr x) = Inr (f x)"
  by (simp_all add: mapE_def)

lemma bindE_mapE [frame_simps]: "bindE (mapE f r) g = bindE r (\<lambda>x. g (f x))"
  by (cases r) auto

lemma bindE_assoc [frame_simps]: "bindE (bindE r f) g = bindE r (\<lambda>x. bindE (f x) g)"
  by (cases r) auto

lemma mapE_bindE [frame_simps]: "mapE f (bindE r g) = bindE r (\<lambda>x. mapE f (g x))"
  by (cases r) auto

lemma count_bytes_frame [frame_simps]: "count_bytes k (earlier n xs d) = earlier n xs (count_bytes k d)"
  by (simp add: count_bytes_def earlier_def)

lemma fill_last_frame [frame_simps]:
  "fill_last f (earlier n xs d) = mapE (earlier n xs) (fill_last f d)"
  by (simp add: fill_last_def frame_simps)

lemma push_collection_frame [frame_simps]:
  "push_collection v ob (earlier n xs d) = mapE (earlier n xs) (push_collection v ob d)"
  by (simp add: push_collection_def frame_simps)

lemma nest_frame [frame_simps]:
  "nest put v ob (earlier n xs d) = mapE (earlier n xs) (nest put v ob d)"
  by (simp add: nest_def frame_simps)

lemma emit_chunk_frame [frame_simps]:
  "emit_chunk v f l (earlier n xs d) = mapE (earlier n xs) (emit_chunk v f l d)"
  by (simp add: emit_chunk_def frame_simps)

lemma end_chunks_frame [frame_simps]:
  "end_chunks (earlier n xs d) = mapE (earlier n xs) (end_chunks d)"
  by (simp add: end_chunks_def frame_simps)

lemmas step_defs = step_none_def step_array_def step_map_key_def step_map_value_def step_set_def
  step_chunk_first_def step_chunk_subsequent_def

lemma dispatch_frame [frame_simps]:
  "dispatch v s (earlier n xs d) = mapE (earlier n xs) (dispatch v s d)"
  by (cases "dstate d"; cases s) (simp_all add: dispatch_def step_defs frame_simps Let_def)

lemma end_collections_frame [frame_simps]:
  "end_collections (earlier n xs d) = mapE (earlier n xs) (end_collections d)"
proof (induction d rule: end_collections.induct)
  case (1 d)
  show ?case
  proof (cases "collectionstack d")
    case (Cons c stack)
    then show ?thesis
      using 1 by (cases stack) (simp_all add: end_collections.simps [of d] end_collections.simps [of "earlier n xs d"] frame_simps)
  qed (simp add: end_collections.simps [of d] end_collections.simps [of "earlier n xs d"] frame_simps)
qed

lemma item_step_frame [frame_simps]:
  "item_step v s (earlier n xs d) = mapE (earlier n xs) (item_step v s d)"
  by (simp add: item_step_def frame_simps)

lemma consume_frame:
  "consume bs (earlier n xs d) = mapE (\<lambda>(rest, w, d'). (rest, w, earlier n xs d')) (consume bs d)"
proof (induction "length bs" arbitrary: bs d rule: less_induct)
  case less
  show ?case
  proof (cases bs rule: item_cases)
    case (complete v n s)
    have "length (drop (nat n) bs) < length bs" using complete by simp
    note IH = less.hyps [OF this]
    show ?thesis using complete by (simp add: consume_complete frame_simps IH)
  qed (simp_all add: consume_error consume_incomplete)
qed

section \<open>The buffering decoder decodes like one call\<close>

text \<open>Between two calls, what is buffered is the beginning of one item, with the number of bytes it wants.\<close>

definition buffered_ok :: "bufferingdecoder \<Rightarrow> bool" where
  "buffered_ok bd \<longleftrightarrow> (chunks bd = [] \<and> wanted bd = 0) \<or>
     (concat (chunks bd) \<noteq> [] \<and> 0 < wanted bd \<and>
      decodeitem (concat (chunks bd)) 0 = Inr (False, PNone, - wanted bd, SPECIAL_NONE))"

lemma buf_run_consume:
  "buf_run b oldlen (bd\<lparr>chunks := []\<rparr>) =
     bindE (consume b (decoder bd)) (\<lambda>(rest, w, d).
       Inr ((decodedvalues d \<noteq> [], int (length b) - int (length rest) - int oldlen, w),
            bd\<lparr>decoder := d, wanted := w, chunks := (if rest = [] then [] else [rest])\<rparr>))"
proof (cases "consume b (decoder bd)")
  case (Inr r)
  obtain rest w d where r: "r = (rest, w, d)" by (cases r)
  obtain pre where pre: "b = pre @ rest" using consume_rest Inr r by blast
  have "drop (nat (int (length b) - int (length rest))) b = rest" by (simp add: pre)
  then show ?thesis using Inr r pre by (simp add: buf_run_def sans_decode_consume answer_of_def)
qed (simp add: buf_run_def sans_decode_consume)

lemma no_chunks: "chunks bd = [] \<Longrightarrow> bd\<lparr>chunks := []\<rparr> = bd"
  by (cases bd) simp

lemma buf_decode_consume:
  assumes "buffered_ok bd"
  shows "case consume (concat (chunks bd) @ b) (decoder bd) of
      Inl e \<Rightarrow> buf_decode b bd = Inl e
    | Inr (rest, w, d) \<Rightarrow> \<exists>n bd'. buf_decode b bd = Inr (n, bd') \<and> decoder bd' = d \<and> buffered_ok bd' \<and>
        concat (chunks bd') = rest \<and> wanted bd' = w"
proof (cases "chunks bd \<noteq> [] \<and> int (length b) < wanted bd")
  case True
  then have "decodeitem (concat (chunks bd) @ b) 0 = Inr (False, PNone, - wanted bd + int (length b), SPECIAL_NONE)"
    using assms decodeitem_extend(3) [of "concat (chunks bd)" PNone "- wanted bd" SPECIAL_NONE b]
    by (auto simp: buffered_ok_def)
  then show ?thesis using True assms
    by (auto simp: consume_incomplete buf_decode_def buffered_ok_def)
next
  case False
  then have "buf_decode b bd = buf_run (concat (chunks bd) @ b) (length (concat (chunks bd))) (bd\<lparr>chunks := []\<rparr>)"
    by (auto simp: buf_decode_def Let_def no_chunks)
  moreover have "buffered_ok (bd\<lparr>decoder := d, wanted := w, chunks := (if rest = [] then [] else [rest])\<rparr>)"
    if "consume (concat (chunks bd) @ b) (decoder bd) = Inr (rest, w, d)" for rest w d
    using consume_rest [OF that] by (auto simp: buffered_ok_def)
  ultimately show ?thesis by (auto simp: buf_run_consume split: sum.split)
qed

text \<open>
  A client that feeds chunks of a stream and takes the available values after each of them: all
  values that it gets, and the decoder.
\<close>

fun buf_feed :: "bytes list \<Rightarrow> bufferingdecoder \<Rightarrow> (dval list \<times> bufferingdecoder) res" where
  "buf_feed [] bd = Inr ([], bd)"
| "buf_feed (b # bs) bd =
     bindE (buf_decode b bd) (\<lambda>(n, bd).
       let (l, bd) = buf_getavailable bd in
       bindE (buf_feed bs bd) (\<lambda>(ls, bd). Inr (l @ ls, bd)))"

lemma buf_feed_consume:
  assumes "buffered_ok bd" "decodedvalues (decoder bd) = []"
  shows "case consume (concat (chunks bd) @ concat bs) (decoder bd) of
      Inl e \<Rightarrow> buf_feed bs bd = Inl e
    | Inr (rest, w, d) \<Rightarrow> \<exists>values bd'. buf_feed bs bd = Inr (values, bd') \<and>
        decodedvalues (decoder bd') = [] \<and> d = earlier 0 values (decoder bd') \<and> concat (chunks bd') = rest \<and>
        wanted bd' = w"
  using assms
proof (induction bs arbitrary: bd)
  case Nil
  then show ?case
    by (cases "chunks bd = []") (auto simp: buffered_ok_def consume_incomplete earlier_def)
next
  case (Cons b bs)
  note step = buf_decode_consume [OF Cons.prems(1), of b]
  show ?case
  proof (cases "consume (concat (chunks bd) @ b) (decoder bd)")
    case (Inl e)
    then show ?thesis using step consume_extend [of "concat (chunks bd) @ b" "concat bs"] by simp
  next
    case (Inr r)
    obtain rest w d where r: "r = (rest, w, d)" by (cases r)
    obtain n bd1 where bd1: "buf_decode b bd = Inr (n, bd1)" "decoder bd1 = d" "buffered_ok bd1"
        "concat (chunks bd1) = rest"
      using step Inr r by auto
    define bd2 where "bd2 = bd1\<lparr>decoder := d\<lparr>decodedvalues := []\<rparr>\<rparr>"
    have ok: "buffered_ok bd2" "decodedvalues (decoder bd2) = []" "concat (chunks bd2) = rest"
      using bd1 by (simp_all add: bd2_def buffered_ok_def)
    have d: "d = earlier 0 (decodedvalues d) (decoder bd2)" by (simp add: bd2_def earlier_def)
    have feed: "buf_feed (b # bs) bd = bindE (buf_feed bs bd2) (\<lambda>(ls, bd). Inr (decodedvalues d @ ls, bd))"
      by (simp add: bd1 buf_getavailable_def sans_getavailable_def bd2_def)
    have whole: "consume (concat (chunks bd) @ concat (b # bs)) (decoder bd)
        = mapE (\<lambda>(rest, w, d'). (rest, w, earlier 0 (decodedvalues d) d')) (consume (rest @ concat bs) (decoder bd2))"
      using consume_extend [of "concat (chunks bd) @ b" "concat bs" "decoder bd"] Inr r
        consume_frame [of "rest @ concat bs" 0 "decodedvalues d" "decoder bd2"] d by simp
    show ?thesis
      using Cons.IH [OF ok(1,2)] unfolding feed whole ok(3)
      by (cases "consume (rest @ concat bs) (decoder bd2)") (auto simp: earlier_def)
  qed
qed

text \<open>
  (C20) The buffering decoder: however a stream is divided into chunks, a client that feeds them one after
  the other and takes the values after each chunk gets the values that decoding the whole stream in one
  call gives, in the same order, or the same exception; the decoder ends in the same state, has buffered
  exactly the bytes that the one call does not consume, and wants as many further bytes.
\<close>

theorem buffering_like_whole:
  "case sans_decode (concat bs) 0 sansiodecoder_init of
     Inl e \<Rightarrow> buf_feed bs bufferingdecoder_init = Inl e
   | Inr ((available, readcount, w), d) \<Rightarrow>
       \<exists>bd. buf_feed bs bufferingdecoder_init = Inr (decodedvalues d, bd) \<and>
         decoder bd = d\<lparr>decodedvalues := []\<rparr> \<and>
         concat (chunks bd) = drop (nat readcount) (concat bs) \<and> wanted bd = w"
proof (cases "consume (concat bs) sansiodecoder_init")
  case (Inl e)
  then show ?thesis
    using buf_feed_consume [of bufferingdecoder_init bs]
    by (simp add: sans_decode_consume bufferingdecoder_init_def buffered_ok_def sansiodecoder_init_def)
next
  case (Inr r)
  obtain rest w d where r: "r = (rest, w, d)" by (cases r)
  obtain pre where pre: "concat bs = pre @ rest" using consume_rest Inr r by blast
  obtain vals bd where bd: "buf_feed bs bufferingdecoder_init = Inr (vals, bd)"
      "decodedvalues (decoder bd) = []" "d = earlier 0 vals (decoder bd)" "concat (chunks bd) = rest" "wanted bd = w"
    using buf_feed_consume [of bufferingdecoder_init bs] Inr r
    by (auto simp: bufferingdecoder_init_def buffered_ok_def sansiodecoder_init_def)
  have "drop (nat (int (length (concat bs)) - int (length rest))) (concat bs) = rest" by (simp add: pre)
  then show ?thesis using Inr r bd by (simp add: sans_decode_consume answer_of_def earlier_def)
qed

end
