(* ===== verification/Cborround.thy ===== *)
theory Cborround
  imports Cbordecoder
begin

text \<open>
  What \<open>streamencode\<close> writes, \<open>decodeall\<close> reads back: the objects that the decoder creates for a
  value, the lemma that it consumes an encoded value in one go, and the round trip.
\<close>

section \<open>Values that survive\<close>

text \<open>Items that are no collections.\<close>

fun simple :: "pyval \<Rightarrow> bool" where
  "simple (PTuple xs) = False"
| "simple (PList xs) = False"
| "simple (PDict d) = False"
| "simple (PSet s) = False"
| "simple _ = True"

text \<open>
  A proper dictionary has no two equal keys, a proper set no two equal elements. The decoder does not
  take collections as keys or as elements of sets.
\<close>

fun decodable :: "pyval \<Rightarrow> bool" where
  "decodable (PTuple xs) = list_all decodable xs"
| "decodable (PList xs) = list_all decodable xs"
| "decodable (PDict d) =
     (list_all (\<lambda>(k, v). simple k \<and> decodable v) d \<and> distinct (map (\<lambda>(k, v). cmp_tokens k) d))"
| "decodable (PSet s) = (list_all simple s \<and> distinct (map cmp_tokens s))"
| "decodable _ = True"

text \<open>
  What comes back: tuples are lists, chunks are byte strings, and dictionaries and sets have the
  order of the encoding.
\<close>

function (sequential) canon :: "pyval \<Rightarrow> pyval" where
  "canon (PTuple xs) = PList (map canon xs)"
| "canon (PList xs) = PList (map canon xs)"
| "canon (PDict d) =
     PDict (map (\<lambda>(k, v). (canon k, canon v)) (sort_key (\<lambda>x. mixedtypesortkey (fst x)) d))"
| "canon (PSet s) = PSet (map canon (sort_key mixedtypesortkey s))"
| "canon (PChunk s f l) = PBytes s"
| "canon v = v"
  by pat_completeness auto

termination
  by (relation "measure size")
     (auto dest: size_list_estimation' [of _ _ _ "size_prod size size"] simp: size_list_estimation' less_Suc_eq_le)

lemma simple_canon: "simple k \<Longrightarrow> simple (canon k)" "simple k \<Longrightarrow> cmp_tokens (canon k) = cmp_tokens k"
  by (cases k; simp)+

section \<open>The objects of a value\<close>

text \<open>The decoded value and the objects that are created for it, from the address \<open>n\<close> on.\<close>

fun alloc :: "nat \<Rightarrow> pyval \<Rightarrow> dval \<times> dobj list"
  and alloc_list :: "nat \<Rightarrow> pyval list \<Rightarrow> dval list \<times> dobj list"
  and alloc_entries :: "nat \<Rightarrow> (pyval \<times> pyval) list \<Rightarrow> (pyval \<times> dval) list \<times> dobj list" where
  "alloc n (PList xs) = (let (ds, os) = alloc_list (Suc n) xs in (DRef n, OList ds # os))"
| "alloc n (PDict d) = (let (es, os) = alloc_entries (Suc n) d in (DRef n, ODict es # os))"
| "alloc n (PSet s) = (DRef n, [OSet s])"
| "alloc n v = (DAtom v, [])"
| "alloc_list n [] = ([], [])"
| "alloc_list n (x # xs) =
     (let (d, os) = alloc n x; (ds, os') = alloc_list (n + length os) xs in (d # ds, os @ os'))"
| "alloc_entries n [] = ([], [])"
| "alloc_entries n ((k, x) # es) =
     (let (d, os) = alloc n x; (ds, os') = alloc_entries (n + length os) es in ((k, d) # ds, os @ os'))"

lemma alloc_simple [simp]: "simple v \<Longrightarrow> alloc n v = (DAtom v, [])"
  by (cases v) auto

section \<open>Items of simple values\<close>

lemma decodeitem_simple:
  assumes "simple v" "streamencode v = Inr cs"
  shows "decodeitem (concat cs @ rest) 0 = Inr (True, canon v, int (length (concat cs)), SPECIAL_NONE)"
proof (cases v)
  case (PInt i)
  show ?thesis
  proof (cases "0 \<le> i")
    case True
    then obtain h where "encodelength MAJOR_TYPE_UINT i = Inr h" "cs = [h]"
      using assms PInt by (auto simp: streamencodeint_def bindE_Inr_iff split: if_splits)
    then show ?thesis using decodeitem_number [of MAJOR_TYPE_UINT i h "\<lambda>v. v" SPECIAL_NONE rest] True PInt by simp
  next
    case False
    then obtain h where "encodelength MAJOR_TYPE_NEGINT (\<bar>i\<bar> - 1) = Inr h" "cs = [h]"
      using assms PInt by (auto simp: streamencodeint_def bindE_Inr_iff split: if_splits)
    then show ?thesis
      using decodeitem_number [of MAJOR_TYPE_NEGINT "\<bar>i\<bar> - 1" h "\<lambda>v. - v - 1" SPECIAL_NONE rest] False PInt by simp
  qed
next
  case (PBytes s)
  then show ?thesis using assms decodeitem_bytestring
    by (auto simp: streamencodebytestring_def bindE_Inr_iff)
next
  case (PChunk s f l)
  then show ?thesis using assms decodeitem_bytestring
    by (auto simp: streamencodebytestring_def bindE_Inr_iff)
next
  case (PBool b)
  then show ?thesis using assms decodeitem_bool [of b rest] by (auto simp: streamencodebool_def)
next
  case PNone
  then show ?thesis using assms decodeitem_none [of rest] by (auto simp: streamencodenone_def)
qed (use assms in auto)

section \<open>A decoder that takes a value\<close>

text \<open>
  The states in which a value is expected: at the root, as an element of a list, or for a key of
  a dictionary.
\<close>

definition accepts :: "sansiodecoder \<Rightarrow> bool" where
  "accepts d \<longleftrightarrow>
     (dstate d = STATE_NONE \<and> collectionstack d = [] \<and> currentmapkey d = PNone) \<or>
     (\<exists>c st. collectionstack d = c # st \<and> coll c < length (objects d) \<and>
        ((dstate d = STATE_WANT_ARRAY_VALUE \<and> currentmapkey d = PNone \<and> (\<exists>xs. objects d ! coll c = OList xs)) \<or>
         (dstate d = STATE_WANT_MAP_VALUE \<and> (\<exists>es. objects d ! coll c = ODict es))))"

text \<open>A complete value is added.\<close>

definition add_value :: "dval \<Rightarrow> sansiodecoder \<Rightarrow> sansiodecoder res" where
  "add_value x d =
     (case dstate d of
        STATE_NONE \<Rightarrow> Inr (d\<lparr>decodedvalues := decodedvalues d @ [x]\<rparr>)
      | STATE_WANT_ARRAY_VALUE \<Rightarrow> fill_last (obj_append x) d
      | STATE_WANT_MAP_VALUE \<Rightarrow>
          bindE (fill_last (obj_setitem (currentmapkey d) x) d)
            (\<lambda>d. Inr (d\<lparr>dstate := STATE_WANT_MAP_KEY, currentmapkey := PNone\<rparr>))
      | _ \<Rightarrow> Inl TypeError)"

definition extend :: "dobj list \<Rightarrow> sansiodecoder \<Rightarrow> sansiodecoder" where
  "extend os d = d\<lparr>objects := objects d @ os\<rparr>"

lemma extend_Nil [simp]: "extend [] d = d"
  by (simp add: extend_def)

lemma dispatch_simple: "accepts d \<Longrightarrow> dispatch v SPECIAL_NONE d = add_value (DAtom v) d"
  by (auto simp: accepts_def dispatch_def add_value_def step_none_def step_array_def step_map_value_def bindE_assoc)

text \<open>
  A collection that is being filled: \<open>d\<close> is the decoder without it, \<open>os\<close> are the objects that were
  created for its elements.
\<close>

definition filling :: "sansiodecoder \<Rightarrow> dobj \<Rightarrow> dobj list \<Rightarrow> nat \<Rightarrow> sansiodecoder" where
  "filling d ob os r =
     d\<lparr>objects := objects d @ ob # os, dstate := state_of ob,
       collectionstack := \<lparr>remaining = int r, coll = length (objects d)\<rparr> # collectionstack d\<rparr>"

definition parent :: "sansiodecoder \<Rightarrow> sansiodecoder res" where
  "parent d = (if dstate d = STATE_NONE then Inr d else add_value (DRef (length (objects d))) d)"

fun special_of :: "dobj \<Rightarrow> special" where
  "special_of (OList xs) = SPECIAL_START_ARRAY"
| "special_of (ODict d) = SPECIAL_START_MAP"
| "special_of (OSet s) = SPECIAL_START_SET"

lemma state_of_want: "state_of ob \<in> {STATE_WANT_ARRAY_VALUE, STATE_WANT_MAP_KEY, STATE_WANT_SET_VALUE}"
  by (cases ob) auto

lemma add_value_ok:
  assumes "accepts d"
  shows "\<exists>d'. add_value x d = Inr d' \<and> length (objects d') = length (objects d) \<and> currentmapkey d' = PNone"
  using assms by (auto simp: accepts_def add_value_def fill_last_def lastc_def)

lemma dispatch_open:
  assumes "accepts d" "ob \<in> {OList [], ODict [], OSet []}"
  shows "dispatch (PInt (int n)) (special_of ob) d = bindE (parent d) (\<lambda>d'. Inr (filling d' ob [] n))"
  using assms
  by (auto simp: accepts_def dispatch_def parent_def add_value_def step_none_def step_array_def step_map_value_def
      bindE_assoc nest_def push_collection_def as_int_def fill_last_def lastc_def filling_def Let_def)

lemma end_collections_wait:
  "state_of ob = dstate d \<Longrightarrow> collectionstack d = c # st \<Longrightarrow> remaining c \<noteq> 0 \<Longrightarrow> end_collections d = Inr d"
  by (simp add: end_collections.simps [of d])

lemma end_collections_pop:
  "state_of ob = dstate d \<Longrightarrow> collectionstack d = c # p # st \<Longrightarrow> remaining c = 0 \<Longrightarrow>
    end_collections d = end_collections (d\<lparr>collectionstack := p # st, dstate := state_of (objects d ! coll p)\<rparr>)"
  using state_of_want [of ob] by (simp add: end_collections.simps [of d])

lemma end_collections_root:
  "state_of ob = dstate d \<Longrightarrow> collectionstack d = [c] \<Longrightarrow> remaining c = 0 \<Longrightarrow>
    end_collections d = end_collections (d\<lparr>collectionstack := [], dstate := STATE_NONE,
      decodedvalues := decodedvalues d @ [DRef (coll c)]\<rparr>)"
  using state_of_want [of ob] by (simp add: end_collections.simps [of d])

lemma end_collections_filling_more: "end_collections (filling d ob os (Suc r)) = Inr (filling d ob os (Suc r))"
  by (rule end_collections_wait [of ob _ "\<lparr>remaining = int (Suc r), coll = length (objects d)\<rparr>" "collectionstack d"])
     (simp_all add: filling_def)

lemma end_collections_filled:
  assumes "accepts d"
  shows "bindE (parent d) (\<lambda>d'. end_collections (filling d' ob os 0))
       = bindE (add_value (DRef (length (objects d))) d) (\<lambda>d'. end_collections (extend (ob # os) d'))"
proof (cases "dstate d = STATE_NONE")
  case True
  then have "collectionstack d = []" using assms by (auto simp: accepts_def)
  then show ?thesis
    using True by (cases d) (simp add: parent_def add_value_def filling_def extend_def end_collections_root [of ob])
next
  case False
  then obtain c st where c: "collectionstack d = c # st" "coll c < length (objects d)"
      "(dstate d = STATE_WANT_ARRAY_VALUE \<and> (\<exists>xs. objects d ! coll c = OList xs)) \<or>
       (dstate d = STATE_WANT_MAP_VALUE \<and> (\<exists>es. objects d ! coll c = ODict es))"
    using assms by (auto simp: accepts_def)
  then show ?thesis
    by (cases d) (auto simp: parent_def add_value_def fill_last_def lastc_def filling_def extend_def
        end_collections_pop [of ob] nth_append)
qed

section \<open>Encoded values are consumed at once\<close>

definition counted :: "nat \<Rightarrow> (bytes \<times> int \<times> sansiodecoder) res \<Rightarrow> (bytes \<times> int \<times> sansiodecoder) res" where
  "counted n = mapE (\<lambda>(rest, w, d). (rest, w, earlier (int n) [] d))"

lemma earlier_add: "earlier a [] (earlier b [] d) = earlier (a + b) [] d"
  by (simp add: earlier_def)

lemma counted_add: "counted a (counted b r) = counted (a + b) r"
  by (cases r) (auto simp: counted_def earlier_add)

lemma counted_0 [simp]: "counted 0 r = r"
  by (cases r) (auto simp: counted_def earlier_def)

lemma consume_counted: "consume bs (earlier (int n) [] d) = counted n (consume bs d)"
  by (simp add: counted_def consume_frame)

lemma bindE_counted: "bindE r (\<lambda>x. counted n (f x)) = counted n (bindE r f)"
  by (cases r) (auto simp: counted_def)

lemma consume_item_counted:
  assumes "decodeitem (it @ rest) 0 = Inr (True, v, int (length it), s)"
  shows "consume (it @ rest) d = counted (length it) (bindE (item_step v s d) (consume rest))"
proof -
  have "count_bytes (int (length it)) d = earlier (int (length it)) [] d"
    by (simp add: count_bytes_def earlier_def)
  then show ?thesis
    by (simp add: consume_item [OF assms] item_step_frame bindE_mapE consume_counted bindE_counted)
qed

text \<open>What remains to be done when the value is read.\<close>

definition finish :: "pyval \<Rightarrow> bytes \<Rightarrow> sansiodecoder \<Rightarrow> (bytes \<times> int \<times> sansiodecoder) res" where
  "finish v rest d =
     (let (x, os) = alloc (length (objects d)) (canon v)
      in bindE (add_value x d) (\<lambda>d'. bindE (end_collections (extend os d')) (consume rest)))"

definition read_at_once :: "pyval \<Rightarrow> bool" where
  "read_at_once v \<longleftrightarrow>
     (\<forall>cs d rest. streamencode v = Inr cs \<longrightarrow> accepts d \<longrightarrow>
        consume (concat cs @ rest) d = counted (length (concat cs)) (finish v rest d))"

lemma read_simple: "simple v \<Longrightarrow> read_at_once v"
  by (auto simp: read_at_once_def consume_item_counted [OF decodeitem_simple] finish_def simple_canon
      item_step_def dispatch_simple bindE_assoc)

lemma accepts_list: "currentmapkey d = PNone \<Longrightarrow> accepts (filling d (OList xs) os r)"
  by (simp add: accepts_def filling_def)

lemma finish_list:
  assumes "alloc (Suc (length (objects d) + length os)) (canon x) = (x1, os1)"
  shows "finish x rest (filling d (OList ys) os (Suc r))
       = bindE (end_collections (filling d (OList (ys @ [x1])) (os @ os1) r)) (consume rest)"
  using assms
  by (cases d) (simp add: finish_def filling_def add_value_def fill_last_def lastc_def extend_def)

lemma consume_elems:
  assumes "list_all read_at_once xs" "encode_elems xs = Inr cs" "currentmapkey d = PNone"
    and "alloc_list (Suc (length (objects d) + length os)) (map canon xs) = (ds, os')"
  shows "bindE (end_collections (filling d (OList ys) os (length xs))) (consume (concat cs @ rest))
       = counted (length (concat cs)) (bindE (end_collections (filling d (OList (ys @ ds)) (os @ os') 0)) (consume rest))"
  using assms
proof (induction xs arbitrary: ys os cs ds os')
  case (Cons x xs)
  obtain c cs2 where c: "streamencode x = Inr c" "encode_elems xs = Inr cs2" "cs = c @ cs2"
    using Cons.prems(2) by (auto simp: bindE_Inr_iff)
  obtain x1 os1 where x1: "alloc (Suc (length (objects d) + length os)) (canon x) = (x1, os1)" by fastforce
  obtain ds2 os2 where ds2: "alloc_list (Suc (length (objects d) + length (os @ os1))) (map canon xs) = (ds2, os2)" by fastforce
  have ds: "ds = x1 # ds2" "os' = os1 @ os2" using Cons.prems(4) x1 ds2 by (auto simp: add.assoc)
  have "bindE (end_collections (filling d (OList ys) os (length (x # xs)))) (consume (concat cs @ rest))
      = consume (concat c @ concat cs2 @ rest) (filling d (OList ys) os (Suc (length xs)))"
    by (simp add: end_collections_filling_more c(3))
  also have "\<dots> = counted (length (concat c)) (finish x (concat cs2 @ rest) (filling d (OList ys) os (Suc (length xs))))"
    using Cons.prems(1,3) c(1) accepts_list by (simp add: read_at_once_def)
  also have "\<dots> = counted (length (concat c)) (counted (length (concat cs2))
      (bindE (end_collections (filling d (OList ((ys @ [x1]) @ ds2)) ((os @ os1) @ os2) 0)) (consume rest)))"
    using Cons.IH [OF _ c(2) Cons.prems(3) ds2] Cons.prems(1) by (simp add: finish_list [OF x1])
  finally show ?case by (simp add: counted_add ds c(3))
qed auto

lemma consume_open:
  assumes "accepts d" "ob \<in> {OList [], ODict [], OSet []}"
    and "decodeitem (h @ rest) 0 = Inr (True, PInt (int n), int (length h), special_of ob)"
  shows "consume (h @ rest) d
       = counted (length h) (bindE (parent d) (\<lambda>d'. bindE (end_collections (filling d' ob [] n)) (consume rest)))"
  by (simp add: consume_item_counted [OF assms(3)] item_step_def dispatch_open [OF assms(1,2)] bindE_assoc)

lemma parent_ok:
  assumes "accepts d"
  shows "\<exists>d'. parent d = Inr d' \<and> length (objects d') = length (objects d) \<and> currentmapkey d' = PNone"
  using assms add_value_ok [OF assms] by (auto simp: parent_def accepts_def)

text \<open>A collection is opened, filled and closed.\<close>

lemma consume_collection:
  assumes "accepts d" "ob \<in> {OList [], ODict [], OSet []}"
    and "decodeitem (h @ body @ rest) 0 = Inr (True, PInt (int n), int (length h), special_of ob)"
    and "\<And>d'. length (objects d') = length (objects d) \<Longrightarrow> currentmapkey d' = PNone \<Longrightarrow>
      bindE (end_collections (filling d' ob [] n)) (consume (body @ rest))
      = counted (length body) (bindE (end_collections (filling d' ob' os 0)) (consume rest))"
    and "alloc (length (objects d)) (canon v) = (DRef (length (objects d)), ob' # os)"
  shows "consume (h @ body @ rest) d = counted (length (h @ body)) (finish v rest d)"
proof -
  obtain d' where d': "parent d = Inr d'" "length (objects d') = length (objects d)" "currentmapkey d' = PNone"
    using parent_ok [OF assms(1)] by blast
  have "consume (h @ body @ rest) d
      = counted (length h) (counted (length body) (bindE (end_collections (filling d' ob' os 0)) (consume rest)))"
    using consume_open [OF assms(1-3)] d' assms(4) by simp
  also have "bindE (end_collections (filling d' ob' os 0)) (consume rest) = finish v rest d"
    using end_collections_filled [OF assms(1), of ob' os] d'(1) by (simp add: finish_def assms(5) bindE_assoc [symmetric])
  finally show ?thesis by (simp add: counted_add)
qed

lemma dict_put_new: "list_all (\<lambda>(k', y). cmp_tokens k' \<noteq> cmp_tokens k) es \<Longrightarrow> dict_put k x es = es @ [(k, x)]"
  by (induction es) (auto simp: key_eq_def)

definition want_value :: "pyval \<Rightarrow> sansiodecoder \<Rightarrow> sansiodecoder" where
  "want_value k d = d\<lparr>currentmapkey := k, dstate := STATE_WANT_MAP_VALUE\<rparr>"

lemma consume_key:
  assumes "simple k" "streamencode k = Inr c"
  shows "consume (concat c @ rest) (filling d (ODict es) os r)
       = counted (length (concat c)) (consume rest (want_value (canon k) (filling d (ODict es) os r)))"
  using consume_item_counted [OF decodeitem_simple [OF assms]]
  by (simp add: item_step_def dispatch_def filling_def step_map_key_def want_value_def end_collections.simps)

lemma accepts_want_value: "accepts (want_value k (filling d (ODict es) os r))"
  by (simp add: accepts_def filling_def want_value_def)

lemma finish_entry:
  assumes "alloc (Suc (length (objects d) + length os)) (canon x) = (x1, os1)" "currentmapkey d = PNone"
    and "list_all (\<lambda>(k', y). cmp_tokens k' \<noteq> cmp_tokens k) es"
  shows "finish x rest (want_value k (filling d (ODict es) os (Suc r)))
       = bindE (end_collections (filling d (ODict (es @ [(k, x1)])) (os @ os1) r)) (consume rest)"
  using assms
  by (cases d) (simp add: finish_def filling_def want_value_def add_value_def fill_last_def lastc_def extend_def dict_put_new)

definition canon_entry :: "pyval \<times> pyval \<Rightarrow> pyval \<times> pyval" where
  "canon_entry = (\<lambda>(k, v). (canon k, canon v))"

lemma consume_entries:
  assumes "list_all (\<lambda>(k, v). simple k \<and> read_at_once v) kvs" "encode_entries kvs = Inr cs" "currentmapkey d = PNone"
    and "distinct (map (\<lambda>(k, v). cmp_tokens k) es @ map (\<lambda>(k, v). cmp_tokens k) kvs)"
    and "alloc_entries (Suc (length (objects d) + length os)) (map canon_entry kvs) = (ds, os')"
  shows "bindE (end_collections (filling d (ODict es) os (length kvs))) (consume (concat cs @ rest))
       = counted (length (concat cs)) (bindE (end_collections (filling d (ODict (es @ ds)) (os @ os') 0)) (consume rest))"
  using assms
proof (induction kvs arbitrary: es os cs ds os')
  case (Cons kv kvs)
  obtain k x where kv: "kv = (k, x)" by (cases kv)
  obtain c1 c2 cs2 where c: "streamencode k = Inr c1" "streamencode x = Inr c2" "encode_entries kvs = Inr cs2" "cs = c1 @ c2 @ cs2"
    using Cons.prems(2) by (auto simp: bindE_Inr_iff kv)
  have k: "simple k" and x: "read_at_once x" using Cons.prems(1) by (simp_all add: kv)
  obtain x1 os1 where x1: "alloc (Suc (length (objects d) + length os)) (canon x) = (x1, os1)" by fastforce
  obtain ds2 os2 where ds2: "alloc_entries (Suc (length (objects d) + length (os @ os1))) (map canon_entry kvs) = (ds2, os2)"
    by fastforce
  have ds: "ds = (canon k, x1) # ds2" "os' = os1 @ os2"
    using Cons.prems(5) x1 ds2 by (auto simp: add.assoc kv canon_entry_def)
  have new: "list_all (\<lambda>(k', y). cmp_tokens k' \<noteq> cmp_tokens (canon k)) es"
  proof -
    have "cmp_tokens k \<notin> (\<lambda>(k, v). cmp_tokens k) ` set es" using Cons.prems(4) by (simp add: kv)
    then show ?thesis by (force simp: simple_canon(2) [OF k] list_all_iff)
  qed
  let ?S = "filling d (ODict es) os (Suc (length kvs))"
  have "bindE (end_collections (filling d (ODict es) os (length (kv # kvs)))) (consume (concat cs @ rest))
      = consume (concat c1 @ concat c2 @ concat cs2 @ rest) ?S"
    by (simp add: end_collections_filling_more c(4))
  also have "\<dots> = counted (length (concat c1)) (counted (length (concat c2)) (finish x (concat cs2 @ rest) (want_value (canon k) ?S)))"
    using x c(2) accepts_want_value by (simp add: consume_key [OF k c(1)] read_at_once_def)
  also have "finish x (concat cs2 @ rest) (want_value (canon k) ?S) = counted (length (concat cs2))
      (bindE (end_collections (filling d (ODict ((es @ [(canon k, x1)]) @ ds2)) ((os @ os1) @ os2) 0)) (consume rest))"
    using Cons.IH [OF _ c(3) Cons.prems(3) _ ds2, of "es @ [(canon k, x1)]"] Cons.prems(1,4)
    by (simp add: finish_entry [OF x1 Cons.prems(3) new] kv simple_canon(2) [OF k])
  finally show ?case by (simp add: counted_add ds c(4) add.assoc)
qed auto

lemma set_add_new: "cmp_tokens x \<notin> set (map cmp_tokens s) \<Longrightarrow> set_add x s = s @ [x]"
  by (auto simp: set_add_def list_ex_iff key_eq_def)

lemma consume_set_elem:
  assumes "simple x" "streamencode x = Inr c" "cmp_tokens x \<notin> set (map cmp_tokens s)"
  shows "consume (concat c @ rest) (filling d (OSet s) [] (Suc r))
       = counted (length (concat c)) (bindE (end_collections (filling d (OSet (s @ [canon x])) [] r)) (consume rest))"
proof -
  have "dispatch (canon x) SPECIAL_NONE (filling d (OSet s) [] (Suc r)) = Inr (filling d (OSet (s @ [canon x])) [] r)"
    using assms(3) set_add_new [of "canon x" s]
    by (cases d) (simp add: dispatch_def filling_def step_set_def fill_last_def lastc_def simple_canon(2) [OF assms(1)])
  then show ?thesis
    using consume_item_counted [OF decodeitem_simple [OF assms(1,2)]] by (simp add: item_step_def)
qed

lemma consume_set_elems:
  assumes "list_all simple xs" "encode_elems xs = Inr cs"
    and "distinct (map cmp_tokens s @ map cmp_tokens xs)"
  shows "bindE (end_collections (filling d (OSet s) [] (length xs))) (consume (concat cs @ rest))
       = counted (length (concat cs)) (bindE (end_collections (filling d (OSet (s @ map canon xs)) [] 0)) (consume rest))"
  using assms
proof (induction xs arbitrary: s cs)
  case (Cons x xs)
  obtain c cs2 where c: "streamencode x = Inr c" "encode_elems xs = Inr cs2" "cs = c @ cs2"
    using Cons.prems(2) by (auto simp: bindE_Inr_iff)
  have x: "simple x" using Cons.prems(1) by simp
  have "bindE (end_collections (filling d (OSet s) [] (length (x # xs)))) (consume (concat cs @ rest))
      = consume (concat c @ concat cs2 @ rest) (filling d (OSet s) [] (Suc (length xs)))"
    by (simp add: end_collections_filling_more c(3))
  also have "\<dots> = counted (length (concat c))
      (bindE (end_collections (filling d (OSet (s @ [canon x])) [] (length xs))) (consume (concat cs2 @ rest)))"
    using Cons.prems(3) by (intro consume_set_elem [OF x c(1)]) auto
  also have "bindE (end_collections (filling d (OSet (s @ [canon x])) [] (length xs))) (consume (concat cs2 @ rest))
      = counted (length (concat cs2)) (bindE (end_collections (filling d (OSet ((s @ [canon x]) @ map canon xs)) [] 0)) (consume rest))"
    using Cons.prems(1,3) by (intro Cons.IH [OF _ c(2)]) (auto simp: simple_canon(2) [OF x])
  finally show ?case by (simp add: counted_add c(3))
qed auto

section \<open>The round trip\<close>

lemma read_array:
  assumes "list_all read_at_once xs" "streamencodearray xs = Inr cs" "accepts d" "canon v = PList (map canon xs)"
  shows "consume (concat cs @ rest) d = counted (length (concat cs)) (finish v rest d)"
proof -
  obtain h cs2 where h: "encodelength MAJOR_TYPE_ARRAY (int (length xs)) = Inr h" "encode_elems xs = Inr cs2" "cs = h # cs2"
    using assms(2) by (auto simp: bindE_Inr_iff)
  obtain ds os where al: "alloc_list (Suc (length (objects d))) (map canon xs) = (ds, os)" by fastforce
  have "consume (h @ concat cs2 @ rest) d = counted (length (h @ concat cs2)) (finish v rest d)"
  proof (rule consume_collection [OF assms(3), of "OList []"])
    show "decodeitem (h @ concat cs2 @ rest) 0 = Inr (True, PInt (int (length xs)), int (length h), special_of (OList []))"
      using decodeitem_number [OF h(1), of "\<lambda>v. v" SPECIAL_START_ARRAY] by simp
    show "alloc (length (objects d)) (canon v) = (DRef (length (objects d)), OList ds # os)"
      by (simp add: assms(4) al)
    show "bindE (end_collections (filling d' (OList []) [] (length xs))) (consume (concat cs2 @ rest))
        = counted (length (concat cs2)) (bindE (end_collections (filling d' (OList ds) os 0)) (consume rest))"
      if "length (objects d') = length (objects d)" "currentmapkey d' = PNone" for d'
      using consume_elems [OF assms(1) h(2) that(2), of "[]" ds os "[]"] al that(1) by simp
  qed simp
  then show ?thesis by (simp add: h(3))
qed

lemma read_map:
  assumes "list_all (\<lambda>(k, v). simple k \<and> read_at_once v) kvs" "distinct (map (\<lambda>(k, v). cmp_tokens k) kvs)"
  shows "read_at_once (PDict kvs)"
proof -
  let ?kvs = "sort_key (\<lambda>x. mixedtypesortkey (fst x)) kvs"
  have kvs: "list_all (\<lambda>(k, v). simple k \<and> read_at_once v) ?kvs" using assms(1) by (simp add: list_all_iff)
  have "mset (map (\<lambda>(k, v). cmp_tokens k) ?kvs) = mset (map (\<lambda>(k, v). cmp_tokens k) kvs)" by simp
  then have dist: "distinct (map (\<lambda>(k, v). cmp_tokens k) ?kvs)" using assms(2) by (metis mset_eq_imp_distinct_iff)
  have "consume (concat cs @ rest) d = counted (length (concat cs)) (finish (PDict kvs) rest d)"
    if enc: "streamencodemap kvs = Inr cs" and d: "accepts d" for cs d rest
  proof -
    obtain h cs2 where h: "encodelength MAJOR_TYPE_MAP (int (length kvs)) = Inr h" "encode_entries ?kvs = Inr cs2" "cs = h # cs2"
      using enc by (auto simp: bindE_Inr_iff)
    obtain ds os where al: "alloc_entries (Suc (length (objects d))) (map canon_entry ?kvs) = (ds, os)" by fastforce
    have "consume (h @ concat cs2 @ rest) d = counted (length (h @ concat cs2)) (finish (PDict kvs) rest d)"
    proof (rule consume_collection [OF d, of "ODict []"])
      show "decodeitem (h @ concat cs2 @ rest) 0 = Inr (True, PInt (int (length kvs)), int (length h), special_of (ODict []))"
        using decodeitem_number [OF h(1), of "\<lambda>v. v" SPECIAL_START_MAP] by simp
      show "alloc (length (objects d)) (canon (PDict kvs)) = (DRef (length (objects d)), ODict ds # os)"
        using al by (simp add: canon_entry_def)
      show "bindE (end_collections (filling d' (ODict []) [] (length kvs))) (consume (concat cs2 @ rest))
          = counted (length (concat cs2)) (bindE (end_collections (filling d' (ODict ds) os 0)) (consume rest))"
        if "length (objects d') = length (objects d)" "currentmapkey d' = PNone" for d'
        using consume_entries [OF kvs h(2) that(2), of "[]" "[]" ds os] al that(1) dist by simp
    qed simp
    then show ?thesis by (simp add: h(3))
  qed
  then show ?thesis by (simp add: read_at_once_def)
qed

lemma read_set:
  assumes "list_all simple s" "distinct (map cmp_tokens s)"
  shows "read_at_once (PSet s)"
proof -
  let ?s = "sort_key mixedtypesortkey s"
  have s: "list_all simple ?s" using assms(1) by (simp add: list_all_iff)
  have "mset (map cmp_tokens ?s) = mset (map cmp_tokens s)" by simp
  then have dist: "distinct (map cmp_tokens ?s)" using assms(2) by (metis mset_eq_imp_distinct_iff)
  have "consume (concat cs @ rest) d = counted (length (concat cs)) (finish (PSet s) rest d)"
    if enc: "streamencodeset s = Inr cs" and d: "accepts d" for cs d rest
  proof -
    obtain h0 h cs2 where h: "encodelength MAJOR_TYPE_SEMANTIC SEMANTIC_TAG_FINITE_SET = Inr h0"
        "encodelength MAJOR_TYPE_ARRAY (int (length s)) = Inr h" "encode_elems ?s = Inr cs2" "cs = h0 # h # cs2"
      using enc by (auto simp: bindE_Inr_iff)
    have "consume ((h0 @ h) @ concat cs2 @ rest) d = counted (length ((h0 @ h) @ concat cs2)) (finish (PSet s) rest d)"
    proof (rule consume_collection [OF d, of "OSet []"])
      show "decodeitem ((h0 @ h) @ concat cs2 @ rest) 0 = Inr (True, PInt (int (length s)), int (length (h0 @ h)), special_of (OSet []))"
        using decodeitem_set [OF h(1,2)] by simp
      show "alloc (length (objects d)) (canon (PSet s)) = (DRef (length (objects d)), OSet (map canon ?s) # [])" by simp
      show "bindE (end_collections (filling d' (OSet []) [] (length s))) (consume (concat cs2 @ rest))
          = counted (length (concat cs2)) (bindE (end_collections (filling d' (OSet (map canon ?s)) [] 0)) (consume rest))"
        for d'
        using consume_set_elems [OF s h(3), of "[]" d' rest] dist by simp
    qed simp
    then show ?thesis by (simp add: h(4))
  qed
  then show ?thesis by (simp add: read_at_once_def)
qed

lemma read_value: "decodable v \<Longrightarrow> read_at_once v"
proof (induction v rule: decodable.induct)
  case (1 xs)
  then have "list_all read_at_once xs" by (simp add: list_all_iff)
  then show ?case using read_array [of xs _ _ "PTuple xs"] by (simp add: read_at_once_def)
next
  case (2 xs)
  then have "list_all read_at_once xs" by (simp add: list_all_iff)
  then show ?case using read_array [of xs _ _ "PList xs"] by (simp add: read_at_once_def)
next
  case (3 d)
  then have "list_all (\<lambda>(k, v). simple k \<and> read_at_once v) d" by (auto simp: list_all_iff)
  then show ?case using 3 read_map by simp
next
  case (4 s)
  then show ?case using read_set by simp
qed (simp_all add: read_simple)

section \<open>The values of the created objects\<close>

text \<open>Values without tuples: those that the store can represent.\<close>

fun stored :: "pyval \<Rightarrow> bool" where
  "stored (PTuple xs) = False"
| "stored (PList xs) = list_all stored xs"
| "stored (PDict d) = list_all (\<lambda>(k, v). stored v) d"
| "stored _ = True"

lemma stored_canon: "stored (canon v)"
  by (induction v rule: canon.induct) (auto simp: list_all_iff)

lemma length_obj_values [simp]: "length (obj_values m obs) = length obs"
  by (induction obs arbitrary: m) (auto simp: Let_def)

lemma nth_obj_values:
  "obj_values m (pre @ ob # obs) ! length pre
     = obj_value (obj_values (Suc (m + length pre)) obs) (Suc (m + length pre)) ob"
  by (induction pre arbitrary: m) (auto simp: Let_def)

lemma seen_obj:
  "seen (obj_values m (pre @ ob # obs)) m (DRef (m + length pre))
     = obj_value (obj_values (Suc (m + length pre)) obs) (Suc (m + length pre)) ob"
  by (simp add: nth_obj_values)

lemma seen_alloc:
  "stored v \<Longrightarrow> n = m + length pre \<Longrightarrow>
     seen (obj_values m (pre @ snd (alloc n v) @ post)) m (fst (alloc n v)) = v"
  "list_all stored xs \<Longrightarrow> n = m + length pre \<Longrightarrow>
     map (seen (obj_values m (pre @ snd (alloc_list n xs) @ post)) m) (fst (alloc_list n xs)) = xs"
  "list_all (\<lambda>(k, v). stored v) es \<Longrightarrow> n = m + length pre \<Longrightarrow>
     map (\<lambda>(k, x). (k, seen (obj_values m (pre @ snd (alloc_entries n es) @ post)) m x)) (fst (alloc_entries n es)) = es"
proof (induction n v and n xs and n es arbitrary: m pre post and m pre post and m pre post
    rule: alloc_alloc_list_alloc_entries.induct)
  case (1 n xs)
  obtain ds os where al: "alloc_list (Suc n) xs = (ds, os)" by fastforce
  show ?case using "1.IH" [of "Suc n" "[]" post] "1.prems" al by (simp add: seen_obj del: seen.simps)
next
  case (2 n d)
  obtain ds os where al: "alloc_entries (Suc n) d = (ds, os)" by fastforce
  show ?case using "2.IH" [of "Suc n" "[]" post] "2.prems" al by (simp add: seen_obj del: seen.simps)
next
  case (3 n s)
  then show ?case by (simp add: seen_obj del: seen.simps)
next
  case (6 n x xs)
  obtain d os where a: "alloc n x = (d, os)" by fastforce
  obtain ds os' where al: "alloc_list (n + length os) xs = (ds, os')" by fastforce
  show ?case
    using "6.IH"(1) [of m pre "os' @ post"] "6.IH"(2) [of "(d, os)" d os m "pre @ os" post] "6.prems" a al by simp
next
  case (8 n k x es)
  obtain d os where a: "alloc n x = (d, os)" by fastforce
  obtain ds os' where al: "alloc_entries (n + length os) es = (ds, os')" by fastforce
  show ?case
    using "8.IH"(1) [of m pre "os' @ post"] "8.IH"(2) [of "(d, os)" d os m "pre @ os" post] "8.prems" a al by simp
qed auto

section \<open>Which values are encoded\<close>

text \<open>Integers of 64 bits, and lengths that fit into 64 bits.\<close>

fun encodable :: "pyval \<Rightarrow> bool" where
  "encodable (PInt i) = (\<not> is_long i)"
| "encodable (PBytes s) = (length s < 2 ^ 64)"
| "encodable (PChunk s f l) = (length s < 2 ^ 64)"
| "encodable (PTuple xs) = (length xs < 2 ^ 64 \<and> list_all encodable xs)"
| "encodable (PList xs) = (length xs < 2 ^ 64 \<and> list_all encodable xs)"
| "encodable (PDict d) = (length d < 2 ^ 64 \<and> list_all (\<lambda>(k, v). encodable k \<and> encodable v) d)"
| "encodable (PSet s) = (length s < 2 ^ 64 \<and> list_all encodable s)"
| "encodable _ = True"

lemma encodelength_ok:
  assumes "0 \<le> n" "n < 2 ^ 64" "0 \<le> m" "m < 8"
  shows "\<exists>h. encodelength m n = Inr h"
  using assms by (auto simp: encodelength_def pack_length_def pack_be_def initial_or)

lemma encodelength_len: "length xs < 2 ^ 64 \<Longrightarrow> 0 \<le> m \<Longrightarrow> m < 8 \<Longrightarrow> \<exists>h. encodelength m (int (length xs)) = Inr h"
  by (rule encodelength_ok) simp_all

lemma encode_elems_ok: "list_all (\<lambda>x. \<exists>cs. streamencode x = Inr cs) xs \<Longrightarrow> \<exists>cs. encode_elems xs = Inr cs"
  by (induction xs) auto

lemma encode_entries_ok:
  "list_all (\<lambda>(k, v). (\<exists>cs. streamencode k = Inr cs) \<and> (\<exists>cs. streamencode v = Inr cs)) d \<Longrightarrow> \<exists>cs. encode_entries d = Inr cs"
  by (induction d) auto

lemma streamencodearray_ok:
  "length xs < 2 ^ 64 \<Longrightarrow> list_all (\<lambda>x. \<exists>cs. streamencode x = Inr cs) xs \<Longrightarrow> \<exists>cs. streamencodearray xs = Inr cs"
  using encodelength_len [of xs MAJOR_TYPE_ARRAY] encode_elems_ok [of xs] by (auto simp: major_defs)

lemma streamencode_ok: "encodable v \<Longrightarrow> \<exists>cs. streamencode v = Inr cs"
proof (induction v rule: encodable.induct)
  case (1 i)
  then show ?case
    using encodelength_ok [of i MAJOR_TYPE_UINT] encodelength_ok [of "\<bar>i\<bar> - 1" MAJOR_TYPE_NEGINT]
    by (cases "0 \<le> i") (auto simp: streamencodeint_def is_long_def major_defs)
next
  case (2 s)
  then show ?case using encodelength_len [of s MAJOR_TYPE_BYTESTRING] by (auto simp: streamencodebytestring_def major_defs)
next
  case (3 s f l)
  then show ?case using encodelength_len [of s MAJOR_TYPE_BYTESTRING] by (auto simp: streamencodebytestring_def major_defs)
next
  case (4 xs)
  then have "list_all (\<lambda>x. \<exists>cs. streamencode x = Inr cs) xs" by (simp add: list_all_iff)
  then show ?case using 4 streamencodearray_ok [of xs] by (simp del: streamencodearray.simps)
next
  case (5 xs)
  then have "list_all (\<lambda>x. \<exists>cs. streamencode x = Inr cs) xs" by (simp add: list_all_iff)
  then show ?case using 5 streamencodearray_ok [of xs] by (simp del: streamencodearray.simps)
next
  case (6 d)
  let ?d = "sort_key (\<lambda>x. mixedtypesortkey (fst x)) d"
  have "list_all (\<lambda>(k, v). (\<exists>cs. streamencode k = Inr cs) \<and> (\<exists>cs. streamencode v = Inr cs)) ?d"
    using 6 by (auto simp: list_all_iff)
  from encode_entries_ok [OF this] show ?case
    using 6 encodelength_len [of d MAJOR_TYPE_MAP] by (auto simp: major_defs)
next
  case (7 s)
  let ?s = "sort_key mixedtypesortkey s"
  have "list_all (\<lambda>x. \<exists>cs. streamencode x = Inr cs) ?s" using 7 by (simp add: list_all_iff)
  then have "\<exists>cs. streamencodearray ?s = Inr cs" using 7 streamencodearray_ok [of ?s] by (simp del: streamencodearray.simps)
  then show ?case
    using encodelength_ok [of SEMANTIC_TAG_FINITE_SET MAJOR_TYPE_SEMANTIC]
    by (auto simp: major_defs subtype_defs simp del: streamencodearray.simps)
qed (auto simp: streamencodebool_def streamencodenone_def)

section \<open>Properties\<close>

text \<open>A list of values at the root.\<close>

lemma consume_root:
  assumes "list_all decodable vs" "encode_elems vs = Inr cs" "dstate d = STATE_NONE" "accepts d"
    and "alloc_list (length (objects d)) (map canon vs) = (ds, os)"
  shows "consume (concat cs) d = Inr ([], 0, d\<lparr>decodedbytecount := decodedbytecount d + int (length (concat cs)),
           decodedvalues := decodedvalues d @ ds, objects := objects d @ os\<rparr>)"
  using assms
proof (induction vs arbitrary: d cs ds os)
  case (Cons v vs)
  obtain c cs2 where c: "streamencode v = Inr c" "encode_elems vs = Inr cs2" "cs = c @ cs2"
    using Cons.prems(2) by (auto simp: bindE_Inr_iff)
  obtain x1 os1 where x1: "alloc (length (objects d)) (canon v) = (x1, os1)" by fastforce
  define d1 where "d1 = d\<lparr>decodedvalues := decodedvalues d @ [x1], objects := objects d @ os1\<rparr>"
  obtain ds2 os2 where ds2: "alloc_list (length (objects d1)) (map canon vs) = (ds2, os2)" by fastforce
  have ds: "ds = x1 # ds2" "os = os1 @ os2" using Cons.prems(5) x1 ds2 by (auto simp: d1_def)
  have d1: "dstate d1 = STATE_NONE" "accepts d1" using Cons.prems(3,4) by (auto simp: d1_def accepts_def)
  have "consume (concat cs) d = counted (length (concat c)) (finish v (concat cs2) d)"
    using read_value [of v] Cons.prems(1,4) c(1,3) by (simp add: read_at_once_def)
  also have "finish v (concat cs2) d = consume (concat cs2) d1"
    using Cons.prems(3) by (simp add: finish_def x1 add_value_def extend_def d1_def end_collections.simps)
  also have "\<dots> = Inr ([], 0, d1\<lparr>decodedbytecount := decodedbytecount d1 + int (length (concat cs2)),
      decodedvalues := decodedvalues d1 @ ds2, objects := objects d1 @ os2\<rparr>)"
    using Cons.prems(1) d1 ds2 by (intro Cons.IH [OF _ c(2)]) simp_all
  finally show ?case by (simp add: counted_def earlier_def d1_def ds c(3))
qed simp

lemma decodeall_root:
  assumes "list_all decodable vs" "encode_elems vs = Inr cs"
  shows "decodeall (concat cs) = Inr (map canon vs)"
proof -
  obtain ds os where al: "alloc_list 0 (map canon vs) = (ds, os)" by fastforce
  have co: "consume (concat cs) sansiodecoder_init = Inr ([], 0, sansiodecoder_init\<lparr>decodedbytecount := int (length (concat cs)),
      decodedvalues := ds, objects := os\<rparr>)"
    using consume_root [OF assms, of sansiodecoder_init ds os] al by (simp add: sansiodecoder_init_def accepts_def)
  have "list_all stored (map canon vs)" by (simp add: list_all_iff stored_canon)
  from seen_alloc(2) [OF this, of 0 0 "[]" "[]"] al have vals: "map (pyvalue os) ds = map canon vs"
    by (simp add: pyvalue_def [abs_def])
  show ?thesis
  proof (cases "concat cs = []")
    case True
    have "ds = []" using co unfolding True by (simp add: sansiodecoder_init_def)
    then show ?thesis unfolding True using vals by (simp add: decodeall_def)
  next
    case False
    then show ?thesis
      using co vals by (auto simp: decodeall_def sans_decode_consume answer_of_def inprogress_def sans_getavailable_def sansiodecoder_init_def)
  qed
qed

text \<open>
  (C5) CBOR round trip: values whose integers and lengths fit into 64 bits, whose dictionaries and sets are proper and
  have no collections as keys or elements, are encoded one after the other without an exception, and
  \<open>decodeall\<close> gives back all of them: the same values, except that tuples are lists, chunks byte
  strings, and dictionaries and sets in sorted order.
\<close>

theorem cbor_roundtrip:
  assumes "list_all encodable vs" "list_all decodable vs"
  shows "\<exists>cs. encode_elems vs = Inr cs \<and> decodeall (concat cs) = Inr (map canon vs)"
proof -
  have "list_all (\<lambda>x. \<exists>cs. streamencode x = Inr cs) vs" using assms(1) streamencode_ok by (auto simp: list_all_iff)
  then show ?thesis using encode_elems_ok decodeall_root [OF assms(2)] by blast
qed

theorem cbor_roundtrip_witness:
  "\<exists>cs. encode_elems [PDict [(PBytes ''b'', PList [PInt 300, PNone]), (PInt (- 7), PSet [PBool True])], PTuple []] = Inr cs \<and>
     decodeall (concat cs) =
       Inr [PDict [(PInt (- 7), PSet [PBool True]), (PBytes ''b'', PList [PInt 300, PNone])], PList []]"
  using cbor_roundtrip [of "[PDict [(PBytes ''b'', PList [PInt 300, PNone]), (PInt (- 7), PSet [PBool True])], PTuple []]"]
  by (simp add: is_long_def mixedtypesortkey_def)

section \<open>Byte strings of indefinite length\<close>

lemma indefinite_loop_ok:
  assumes "0 < chunksize" "length source < 2 ^ 64" "i \<le> length source"
  shows "\<exists>cs xs. indefinite_loop source chunksize i = Some (Inr cs) \<and> encode_chunks xs = Inr cs \<and>
           xs \<noteq> [] \<and> concat xs = drop i source \<and> list_all (\<lambda>x. length x \<le> chunksize) xs"
  using assms(3)
proof (induction "length source - i" arbitrary: i rule: less_induct)
  case less
  define chunk where "chunk = slice source i (i + chunksize)"
  have len: "length chunk = min chunksize (length source - i)" by (simp add: chunk_def)
  have "length chunk \<le> length source" using len by simp
  then have "length chunk < 2 ^ 64" using assms(2) by (rule le_less_trans)
  then obtain h where h: "encodelength MAJOR_TYPE_BYTESTRING (int (length chunk)) = Inr h"
    using encodelength_len [of chunk MAJOR_TYPE_BYTESTRING] by (auto simp: major_defs)
  have "drop (i + length chunk) source = drop chunksize (drop i source)"
    using len by (cases "chunksize \<le> length source - i") (simp_all add: add.commute)
  then have drop: "drop i source = chunk @ drop (i + length chunk) source"
    by (simp only: append_take_drop_id) (simp only: chunk_def slice_def add_diff_cancel_left' append_take_drop_id)
  show ?case
  proof (cases "length source \<le> i + length chunk")
    case True
    then have "indefinite_loop source chunksize i = Some (Inr [h, chunk])"
      using h by (subst indefinite_loop.simps) (simp add: Let_def chunk_def [symmetric])
    moreover have "encode_chunks [chunk] = Inr [h, chunk]" using h by simp
    ultimately show ?thesis using drop True len
      by (intro exI [of _ "[h, chunk]"] exI [of _ "[chunk]"]) auto
  next
    case False
    then have "length source - (i + length chunk) < length source - i" using len assms(1) by auto
    from less.hyps [OF this] False obtain cs xs where
        "indefinite_loop source chunksize (i + length chunk) = Some (Inr cs)" "encode_chunks xs = Inr cs"
        "concat xs = drop (i + length chunk) source" "list_all (\<lambda>x. length x \<le> chunksize) xs"
      by auto
    moreover from this(1) have "indefinite_loop source chunksize i = Some (Inr (h # chunk # cs))"
      using h False by (subst indefinite_loop.simps) (simp add: Let_def chunk_def [symmetric])
    ultimately show ?thesis
      using h drop len by (intro exI [of _ "h # chunk # cs"] exI [of _ "chunk # xs"]) auto
  qed
qed

text \<open>Chunks after the first, and the end.\<close>

lemma consume_chunks:
  assumes "encode_chunks xs = Inr cs" "dstate d = STATE_WANT_BYTESTRING_CHUNK_SUBSEQUENT" "collectionstack d = []"
  shows "consume (concat cs @ BREAK) d = counted (length (concat cs @ BREAK)) (Inr ([], 0, d\<lparr>
           decodedvalues := decodedvalues d @ map (\<lambda>x. DAtom (PChunk x False False)) xs @ [DAtom (PChunk [] False True)],
           dstate := STATE_NONE\<rparr>))"
  using assms
proof (induction xs arbitrary: cs d)
  case Nil
  have "decodeitem (BREAK @ []) 0 = Inr (True, PNone, int (length BREAK), SPECIAL_INDEFINITE_BREAK)"
    by (simp only: decodeitem_break) (simp add: BREAK_def)
  from consume_item_counted [OF this] Nil show ?case
    by (simp add: item_step_def dispatch_def step_chunk_subsequent_def emit_chunk_def bytestringchunk_def end_chunks_def
        end_collections.simps)
next
  case (Cons x xs)
  obtain h cs2 where h: "encodelength MAJOR_TYPE_BYTESTRING (int (length x)) = Inr h" "encode_chunks xs = Inr cs2" "cs = h # x # cs2"
    using Cons.prems(1) by (auto simp: bindE_Inr_iff)
  let ?d = "d\<lparr>decodedvalues := decodedvalues d @ [DAtom (PChunk x False False)]\<rparr>"
  have "decodeitem ((h @ x) @ concat cs2 @ BREAK) 0 = Inr (True, PBytes x, int (length (h @ x)), SPECIAL_NONE)"
    using decodeitem_bytestring [OF h(1)] by simp
  from consume_item_counted [OF this] Cons.prems(2,3)
  have "consume (concat cs @ BREAK) d = counted (length (h @ x)) (consume (concat cs2 @ BREAK) ?d)"
    by (simp add: h(3) item_step_def dispatch_def step_chunk_subsequent_def emit_chunk_def bytestringchunk_def end_collections.simps)
  also have "consume (concat cs2 @ BREAK) ?d = counted (length (concat cs2 @ BREAK)) (Inr ([], 0, ?d\<lparr>
      decodedvalues := decodedvalues ?d @ map (\<lambda>x. DAtom (PChunk x False False)) xs @ [DAtom (PChunk [] False True)],
      dstate := STATE_NONE\<rparr>))"
    using Cons.prems(2,3) by (intro Cons.IH [OF h(2)]) simp_all
  finally show ?case by (simp add: counted_add h(3) add.assoc)
qed

text \<open>
  (C23) A large buffer as a byte string of indefinite length: for every positive chunk size the encoder
  ends, and decoding gives its chunks, none larger than the chunk size, which make up the
  buffer; the first one is marked as the first, and an empty chunk at the end as the last.
\<close>

theorem indefinite_roundtrip:
  assumes "0 < chunksize" "length source < 2 ^ 64"
  shows "\<exists>cs x xs. streamencodeindefinitebytestring source chunksize = Some (Inr cs) \<and>
    decodeall (concat cs) = Inr (PChunk x True False # map (\<lambda>x. PChunk x False False) xs @ [PChunk [] False True]) \<and>
    concat (x # xs) = source \<and> list_all (\<lambda>x. length x \<le> chunksize) (x # xs)"
proof -
  obtain cs ys where ys: "indefinite_loop source chunksize 0 = Some (Inr cs)" "encode_chunks ys = Inr cs" "ys \<noteq> []"
      "concat ys = source" "list_all (\<lambda>x. length x \<le> chunksize) ys"
    using indefinite_loop_ok [OF assms, of 0] by auto
  obtain x xs where xs: "ys = x # xs" using ys(3) by (cases ys) auto
  obtain h cs2 where h: "encodelength MAJOR_TYPE_BYTESTRING (int (length x)) = Inr h" "encode_chunks xs = Inr cs2" "cs = h # x # cs2"
    using ys(2) by (auto simp: bindE_Inr_iff xs)
  let ?B = BEGIN_INDEFINITE_BYTESTRING
  define d1 where "d1 = sansiodecoder_init\<lparr>dstate := STATE_WANT_BYTESTRING_CHUNK_FIRST\<rparr>"
  define d2 where "d2 = d1\<lparr>decodedvalues := [DAtom (PChunk x True False)], dstate := STATE_WANT_BYTESTRING_CHUNK_SUBSEQUENT\<rparr>"
  have i0: "decodeitem (?B @ rest) 0 = Inr (True, PNone, int (length ?B), SPECIAL_START_INDEFINITE_BYTESTRING)" for rest
    by (simp add: decodeitem_begin_bytestring BEGIN_INDEFINITE_BYTESTRING_length)
  have i1: "decodeitem ((h @ x) @ rest) 0 = Inr (True, PBytes x, int (length (h @ x)), SPECIAL_NONE)" for rest
    using decodeitem_bytestring [OF h(1), of rest] by simp
  have "consume (?B @ (h @ x) @ concat cs2 @ BREAK) sansiodecoder_init = counted (length ?B) (consume ((h @ x) @ concat cs2 @ BREAK) d1)"
    unfolding consume_item_counted [OF i0]
    by (simp add: item_step_def dispatch_def step_none_def sansiodecoder_init_def end_collections.simps d1_def)
  also have "consume ((h @ x) @ concat cs2 @ BREAK) d1 = counted (length (h @ x)) (consume (concat cs2 @ BREAK) d2)"
    unfolding consume_item_counted [OF i1]
    by (simp add: item_step_def dispatch_def step_chunk_first_def emit_chunk_def bytestringchunk_def end_collections.simps
        d1_def d2_def sansiodecoder_init_def)
  also have "consume (concat cs2 @ BREAK) d2 = counted (length (concat cs2 @ BREAK)) (Inr ([], 0, d2\<lparr>
      decodedvalues := decodedvalues d2 @ map (\<lambda>x. DAtom (PChunk x False False)) xs @ [DAtom (PChunk [] False True)],
      dstate := STATE_NONE\<rparr>))"
    by (rule consume_chunks [OF h(2)]) (simp_all add: d2_def d1_def sansiodecoder_init_def)
  finally have "decodeall (?B @ h @ x @ concat cs2 @ BREAK)
      = Inr (PChunk x True False # map (\<lambda>x. PChunk x False False) xs @ [PChunk [] False True])"
    using BEGIN_INDEFINITE_BYTESTRING_length
    by (auto simp: decodeall_def sans_decode_consume counted_def earlier_def answer_of_def inprogress_def sans_getavailable_def
        d2_def d1_def sansiodecoder_init_def pyvalue_def)
  then show ?thesis
    using ys(1,4,5) by (intro exI [of _ "?B # cs @ [BREAK]"] exI [of _ x] exI [of _ xs])
      (simp add: streamencodeindefinitebytestring_def h(3) xs)
qed

theorem indefinite_roundtrip_witness:
  "\<exists>cs x xs. streamencodeindefinitebytestring ''abcde'' 2 = Some (Inr cs) \<and>
    decodeall (concat cs) = Inr (PChunk x True False # map (\<lambda>x. PChunk x False False) xs @ [PChunk [] False True]) \<and>
    concat (x # xs) = ''abcde'' \<and> list_all (\<lambda>x. length x \<le> 2) (x # xs)"
  by (rule indefinite_roundtrip) simp_all

section \<open>The encoding does not depend on the order of insertion\<close>

lemma sort_key_unique:
  assumes "mset xs = mset ys" "distinct (map f xs)"
  shows "sort_key f xs = sort_key f ys"
proof (rule properties_for_sort_key)
  let ?zs = "sort_key f ys"
  show m: "mset ?zs = mset xs" by (simp add: assms(1))
  have d: "distinct (map f ?zs)" using assms m by (metis mset_eq_imp_distinct_iff mset_map)
  have one: "filter (\<lambda>x. f k = f x) l = [k]" if "k \<in> set l" "distinct (map f l)" for k l
    using that
  proof (induction l)
    case (Cons a l)
    then show ?case by (cases "k = a") (auto simp: filter_empty_conv, metis imageI)
  qed simp
  show "filter (\<lambda>x. f k = f x) ?zs = filter (\<lambda>x. f k = f x) xs" if "k \<in> set ?zs" for k
    using one [OF that d] one [of k xs] that assms(2) mset_eq_setD [OF m] by simp
qed simp

lemma encode_deterministic:
  "mset d = mset d' \<Longrightarrow> distinct (map (\<lambda>(k, v). cmp_tokens k) d) \<Longrightarrow> streamencode (PDict d) = streamencode (PDict d')"
  "mset s = mset s' \<Longrightarrow> distinct (map cmp_tokens s) \<Longrightarrow> streamencode (PSet s) = streamencode (PSet s')"
proof -
  assume m: "mset d = mset d'" and d: "distinct (map (\<lambda>(k, v). cmp_tokens k) d)"
  have "map (\<lambda>(k, v). cmp_tokens k) d = map snd (map (\<lambda>x. mixedtypesortkey (fst x)) d)"
    by (simp add: mixedtypesortkey_def case_prod_beta)
  then have "distinct (map (\<lambda>x. mixedtypesortkey (fst x)) d)" using d distinct_map by metis
  from sort_key_unique [OF m this] mset_eq_length [OF m] show "streamencode (PDict d) = streamencode (PDict d')" by simp
next
  assume m: "mset s = mset s'" and d: "distinct (map cmp_tokens s)"
  have "map cmp_tokens s = map snd (map mixedtypesortkey s)" by (simp add: mixedtypesortkey_def)
  then have "distinct (map mixedtypesortkey s)" using d distinct_map by metis
  from sort_key_unique [OF m this] show "streamencode (PSet s) = streamencode (PSet s')" by simp
qed

end
