(* ===== verification/Blobstore.thy ===== *)
theory Blobstore
  imports Pydict Pybytes "HOL-Library.List_Lexorder" "HOL-Library.Char_ord"
begin

text \<open>
  The stores of blobs of \<open>blobstore.py\<close>: \<open>localblobstore\<close>, a directory of blobs with an optional
  cache, \<open>memlocal\<close>, which keeps blobs in memory, and \<open>unionstore\<close>, which reads from both. A blob is
  named by the SHA-256 hash of its content, which is an argument \<open>sha\<close> here. What clients rely on is
  the locale \<open>blob_store\<close>.
\<close>

section \<open>Directories of blobs\<close>

text \<open>
  \<open>vfs.blobvfs\<close>: a file for each blob. Blobs are written to a temporary file and renamed, so that a
  hard link to a blob in another directory is a copy.
\<close>

type_synonym blobvfs = "(bytes, bytes) dict"

definition is_hexdigit :: "char \<Rightarrow> bool" where
  "is_hexdigit c \<longleftrightarrow> c \<in> set ''0123456789abcdef''"

text \<open>The regular expression \<open>_blobvfsre\<close>.\<close>

definition blobvfsre :: "bytes \<Rightarrow> bool" where
  "blobvfsre path \<longleftrightarrow> length path = 64 \<and> list_all is_hexdigit path"

definition blob_join :: "bytes \<Rightarrow> bytes res" where
  "blob_join path =
     (if \<not> blobvfsre path then Inl (ProgrammingError (''unexpected blob vfs path: '' @ path))
      else Inr path)"

definition blob_exists :: "blobvfs \<Rightarrow> bytes \<Rightarrow> bool res" where
  "blob_exists v oid = bindE (blob_join oid) (\<lambda>p. Inr (dict_has v p))"

definition blob_read :: "blobvfs \<Rightarrow> bytes \<Rightarrow> bytes res" where
  "blob_read v oid =
     bindE (blob_join oid) (\<lambda>p. case map_of v p of None \<Rightarrow> Inl IOError | Some x \<Rightarrow> Inr x)"

definition blob_write :: "bytes \<Rightarrow> bytes \<Rightarrow> blobvfs \<Rightarrow> blobvfs res" where
  "blob_write oid data v = bindE (blob_join oid) (\<lambda>p. Inr (dict_set p data v))"

definition blob_tryunlink :: "bytes \<Rightarrow> blobvfs \<Rightarrow> blobvfs res" where
  "blob_tryunlink oid v = bindE (blob_join oid) (\<lambda>p. Inr (dict_del p v))"

text \<open>\<open>src.linktovfs(oid, dst)\<close> returns the other directory.\<close>

definition linktovfs :: "bytes \<Rightarrow> blobvfs \<Rightarrow> blobvfs \<Rightarrow> blobvfs res" where
  "linktovfs oid src dst =
     bindE (blob_read src oid) (\<lambda>x. bindE (blob_join oid) (\<lambda>p. Inr (dict_set p x dst)))"

definition blob_walk :: "blobvfs \<Rightarrow> bytes list" where
  "blob_walk v = filter blobvfsre (map fst v)"

section \<open>The stores\<close>

record localblobstore =
  vfs :: blobvfs
  cachevfs :: "blobvfs option"

definition local_write :: "(bytes \<Rightarrow> bytes) \<Rightarrow> bytes \<Rightarrow> bytes \<Rightarrow> localblobstore \<Rightarrow> localblobstore res" where
  "local_write sha oid data st =
     (let contentsha256 = sha data in
      if contentsha256 \<noteq> oid then
        Inl (Abort (''blobstore: sha256 mismatch (oid: '' @ oid @ '', content: '' @ contentsha256 @ '')''))
      else
        bindE (blob_write oid data (vfs st)) (\<lambda>v.
          case cachevfs st of
            None \<Rightarrow> Inr (st\<lparr>vfs := v\<rparr>)
          | Some c \<Rightarrow>
              bindE (blob_exists c oid) (\<lambda>found.
                if \<not> found then bindE (linktovfs oid v c) (\<lambda>c'. Inr (st\<lparr>vfs := v, cachevfs := Some c'\<rparr>))
                else Inr (st\<lparr>vfs := v\<rparr>))))"

text \<open>Reading links a blob that only the cache has, so it may change the store.\<close>

definition local_read :: "bytes \<Rightarrow> localblobstore \<Rightarrow> (bytes \<times> localblobstore) res" where
  "local_read oid st =
     bindE
       (case cachevfs st of
          None \<Rightarrow> Inr st
        | Some c \<Rightarrow>
            bindE (blob_exists (vfs st) oid) (\<lambda>found.
              if \<not> found then bindE (linktovfs oid c (vfs st)) (\<lambda>v. Inr (st\<lparr>vfs := v\<rparr>)) else Inr st))
       (\<lambda>st. bindE (blob_read (vfs st) oid) (\<lambda>x. Inr (x, st)))"

definition local_has :: "bytes \<Rightarrow> localblobstore \<Rightarrow> bool res" where
  "local_has oid st =
     bindE (case cachevfs st of None \<Rightarrow> Inr False | Some c \<Rightarrow> blob_exists c oid) (\<lambda>found.
       if found then Inr True else blob_exists (vfs st) oid)"

definition local_remove :: "bytes \<Rightarrow> localblobstore \<Rightarrow> localblobstore res" where
  "local_remove oid st = bindE (blob_tryunlink oid (vfs st)) (\<lambda>v. Inr (st\<lparr>vfs := v\<rparr>))"

definition local_list :: "localblobstore \<Rightarrow> bytes list" where
  "local_list st = sort (blob_walk (vfs st))"

type_synonym memlocal = "(bytes, bytes) dict"

definition mem_write :: "bytes \<Rightarrow> bytes \<Rightarrow> memlocal \<Rightarrow> memlocal" where
  "mem_write oid data st = dict_set oid data st"

definition mem_read :: "bytes \<Rightarrow> memlocal \<Rightarrow> bytes res" where
  "mem_read oid st = dict_get st oid"

definition mem_has :: "bytes \<Rightarrow> memlocal \<Rightarrow> bool" where
  "mem_has oid st = dict_has st oid"

definition mem_remove :: "bytes \<Rightarrow> memlocal \<Rightarrow> memlocal" where
  "mem_remove oid st = (if dict_has st oid then dict_del oid st else st)"

definition mem_list :: "memlocal \<Rightarrow> bytes list" where
  "mem_list st = sort (map fst st)"

record unionstore =
  diskstore :: localblobstore
  memstore :: memlocal

definition union_write :: "(bytes \<Rightarrow> bytes) \<Rightarrow> bytes \<Rightarrow> bytes \<Rightarrow> unionstore \<Rightarrow> unionstore res" where
  "union_write sha oid data st = bindE (local_write sha oid data (diskstore st)) (\<lambda>d. Inr (st\<lparr>diskstore := d\<rparr>))"

definition union_read :: "bytes \<Rightarrow> unionstore \<Rightarrow> (bytes \<times> unionstore) res" where
  "union_read oid st =
     (if mem_has oid (memstore st) then bindE (mem_read oid (memstore st)) (\<lambda>x. Inr (x, st))
      else bindE (local_read oid (diskstore st)) (\<lambda>(x, d). Inr (x, st\<lparr>diskstore := d\<rparr>)))"

definition union_has :: "bytes \<Rightarrow> unionstore \<Rightarrow> bool res" where
  "union_has oid st = (if mem_has oid (memstore st) then Inr True else local_has oid (diskstore st))"

definition union_remove :: "bytes \<Rightarrow> unionstore \<Rightarrow> unionstore res" where
  "union_remove oid st =
     bindE (local_remove oid (diskstore st)) (\<lambda>d.
       Inr (st\<lparr>diskstore := d, memstore := mem_remove oid (memstore st)\<rparr>))"

definition union_list :: "unionstore \<Rightarrow> bytes list" where
  "union_list st = sort (remdups (local_list (diskstore st) @ mem_list (memstore st)))"

section \<open>The interface\<close>

text \<open>The operations that clients call on a store, whichever it is.\<close>

record 's store_ops =
  st_write :: "bytes \<Rightarrow> bytes \<Rightarrow> 's \<Rightarrow> 's res"
  st_read :: "bytes \<Rightarrow> 's \<Rightarrow> (bytes \<times> 's) res"
  st_has :: "bytes \<Rightarrow> 's \<Rightarrow> bool res"

definition local_ops :: "(bytes \<Rightarrow> bytes) \<Rightarrow> localblobstore store_ops" where
  "local_ops sha = \<lparr>st_write = local_write sha, st_read = local_read, st_has = local_has\<rparr>"

definition mem_ops :: "memlocal store_ops" where
  "mem_ops =
     \<lparr>st_write = (\<lambda>oid data st. Inr (mem_write oid data st)),
      st_read = (\<lambda>oid st. bindE (mem_read oid st) (\<lambda>x. Inr (x, st))),
      st_has = (\<lambda>oid st. Inr (mem_has oid st))\<rparr>"

definition union_ops :: "(bytes \<Rightarrow> bytes) \<Rightarrow> unionstore store_ops" where
  "union_ops sha = \<lparr>st_write = union_write sha, st_read = union_read, st_has = union_has\<rparr>"

text \<open>Clients write several blobs under their hashes.\<close>

fun write_blobs :: "'s store_ops \<Rightarrow> (bytes \<Rightarrow> bytes) \<Rightarrow> bytes list \<Rightarrow> 's \<Rightarrow> 's res" where
  "write_blobs ops sha [] st = Inr st"
| "write_blobs ops sha (x # xs) st =
     bindE (st_write ops (sha x) x st) (write_blobs ops sha xs)"

text \<open>
  What clients rely on: \<open>contents\<close> is what can be read; every blob has the name of its hash; a blob
  that was written is there, unless one with the same hash was there and is kept; reading gives the
  contents and does not change them.
\<close>

locale blob_store =
  fixes ops :: "'s store_ops" and sha :: "bytes \<Rightarrow> bytes" and contents :: "'s \<Rightarrow> bytes \<rightharpoonup> bytes" and ok :: "'s \<Rightarrow> bool"
  assumes named_law: "ok st \<Longrightarrow> contents st oid = Some x \<Longrightarrow> sha x = oid"
    and write_law: "ok st \<Longrightarrow> \<exists>st'. st_write ops (sha x) x st = Inr st' \<and> ok st' \<and>
          (contents st' = (contents st)(sha x \<mapsto> x) \<or> (contents st (sha x) \<noteq> None \<and> contents st' = contents st))"
    and read_law: "ok st \<Longrightarrow> contents st oid = Some x \<Longrightarrow>
          \<exists>st'. st_read ops oid st = Inr (x, st') \<and> ok st' \<and> contents st' = contents st"
    and has_law: "ok st \<Longrightarrow> contents st oid = Some x \<Longrightarrow> st_has ops oid st = Inr True"
begin

text \<open>Without a collision of the hash, a blob that was written is what is read.\<close>

lemma write_safe:
  assumes "ok st" "\<forall>y. contents st (sha x) = Some y \<longrightarrow> y = x"
  shows "\<exists>st'. st_write ops (sha x) x st = Inr st' \<and> ok st' \<and> contents st' = (contents st)(sha x \<mapsto> x)"
  using write_law [OF assms(1), of x] assms(2) by (auto simp: fun_eq_iff)

lemma write_blobs_safe:
  assumes "ok st" "inj_on sha (ran (contents st) \<union> set xs)"
  shows "\<exists>st'. write_blobs ops sha xs st = Inr st' \<and> ok st' \<and> (\<forall>x\<in>set xs. contents st' (sha x) = Some x) \<and>
           (\<forall>oid. oid \<notin> sha ` set xs \<longrightarrow> contents st' oid = contents st oid)"
  using assms
proof (induction xs arbitrary: st)
  case (Cons x xs)
  have "y = x" if "contents st (sha x) = Some y" for y
    using named_law [OF Cons.prems(1) that] ranI [of "contents st" "sha x" y, OF that] inj_onD [OF Cons.prems(2), of y x] by simp
  then obtain st1 where st1: "st_write ops (sha x) x st = Inr st1" "ok st1" "contents st1 = (contents st)(sha x \<mapsto> x)"
    using write_safe [OF Cons.prems(1)] by blast
  have "ran (contents st1) \<union> set xs \<subseteq> ran (contents st) \<union> set (x # xs)"
    by (auto simp: st1(3) ran_def split: if_splits)
  then obtain st2 where st2: "write_blobs ops sha xs st1 = Inr st2" "ok st2" "\<forall>x\<in>set xs. contents st2 (sha x) = Some x"
      "\<forall>oid. oid \<notin> sha ` set xs \<longrightarrow> contents st2 oid = contents st1 oid"
    using Cons.IH [OF st1(2) inj_on_subset [OF Cons.prems(2)]] by blast
  have "contents st2 (sha x) = Some x"
  proof (cases "sha x \<in> sha ` set xs")
    case True
    then have "x \<in> set xs" using Cons.prems(2) by (auto simp: inj_on_def)
    then show ?thesis using st2(3) by simp
  next
    case False
    then show ?thesis using st2(4) st1(3) by simp
  qed
  then show ?case using st1 st2 by (intro exI [of _ st2]) auto
qed simp

end

section \<open>The stores implement the interface\<close>

definition local_contents :: "localblobstore \<Rightarrow> bytes \<rightharpoonup> bytes" where
  "local_contents st oid =
     (case map_of (vfs st) oid of
        Some x \<Rightarrow> Some x
      | None \<Rightarrow> (case cachevfs st of None \<Rightarrow> None | Some c \<Rightarrow> map_of c oid))"

text \<open>Hashes have the form of blob names, and the blobs in the directories have the names of their hashes.\<close>

definition named_blobs :: "(bytes \<Rightarrow> bytes) \<Rightarrow> blobvfs \<Rightarrow> bool" where
  "named_blobs sha v \<longleftrightarrow> (\<forall>oid x. map_of v oid = Some x \<longrightarrow> sha x = oid)"

definition local_ok :: "(bytes \<Rightarrow> bytes) \<Rightarrow> localblobstore \<Rightarrow> bool" where
  "local_ok sha st \<longleftrightarrow>
     (\<forall>x. blobvfsre (sha x)) \<and> named_blobs sha (vfs st) \<and> pred_option (named_blobs sha) (cachevfs st)"

lemma named_blobs_set: "named_blobs sha v \<Longrightarrow> named_blobs sha (dict_set (sha x) x v)"
  by (auto simp: named_blobs_def dict_simps split: if_splits)

lemma blob_join_sha: "blobvfsre oid \<Longrightarrow> blob_join oid = Inr oid"
  by (simp add: blob_join_def)

lemma local_contents_named: "local_ok sha st \<Longrightarrow> local_contents st oid = Some x \<Longrightarrow> sha x = oid"
  by (auto simp: local_ok_def local_contents_def named_blobs_def split: option.splits)

lemmas blob_ops = blob_exists_def blob_read_def blob_write_def linktovfs_def blob_join_sha dict_has_def dict_simps

lemma local_write_ok:
  assumes "local_ok sha st"
  shows "\<exists>st'. local_write sha (sha x) x st = Inr st' \<and> local_ok sha st' \<and>
           local_contents st' = (local_contents st)(sha x \<mapsto> x)"
proof -
  define st' where "st' = \<lparr>vfs = dict_set (sha x) x (vfs st),
    cachevfs = map_option (\<lambda>c. if map_of c (sha x) = None then dict_set (sha x) x c else c) (cachevfs st)\<rparr>"
  have "local_write sha (sha x) x st = Inr st'"
    using assms by (cases st; cases "cachevfs st") (auto simp: local_write_def local_ok_def Let_def blob_ops st'_def)
  moreover have "local_ok sha st'"
    using assms by (cases "cachevfs st") (auto simp: local_ok_def st'_def named_blobs_set)
  moreover have "local_contents st' = (local_contents st)(sha x \<mapsto> x)"
    by (cases "cachevfs st") (auto simp: local_contents_def st'_def dict_simps fun_eq_iff split: option.splits)
  ultimately show ?thesis by blast
qed

lemma local_read_ok:
  assumes "local_ok sha st" "local_contents st oid = Some x"
  shows "\<exists>st'. local_read oid st = Inr (x, st') \<and> local_ok sha st' \<and> local_contents st' = local_contents st"
proof -
  have "sha x = oid" using assms by (rule local_contents_named)
  then have "blobvfsre oid" using assms(1) by (auto simp: local_ok_def)
  then show ?thesis
    using assms \<open>sha x = oid\<close> named_blobs_set [of sha "vfs st" x]
    by (cases st; cases "map_of (vfs st) oid"; cases "cachevfs st")
       (auto simp: local_read_def local_ok_def blob_ops local_contents_def fun_eq_iff split: option.splits)
qed

lemma local_has_ok:
  assumes "local_ok sha st" "local_contents st oid = Some x"
  shows "local_has oid st = Inr True"
proof -
  have "blobvfsre oid" using assms local_contents_named [OF assms] by (auto simp: local_ok_def)
  then show ?thesis
    using assms by (cases "cachevfs st") (auto simp: local_has_def blob_ops local_contents_def split: option.splits)
qed

interpretation loc: blob_store "local_ops sha" sha local_contents "local_ok sha" for sha
proof unfold_locales
  show "\<exists>st'. st_write (local_ops sha) (sha x) x st = Inr st' \<and> local_ok sha st' \<and>
      (local_contents st' = (local_contents st)(sha x \<mapsto> x) \<or> (local_contents st (sha x) \<noteq> None \<and> local_contents st' = local_contents st))"
    if "local_ok sha st" for st x
    using local_write_ok [OF that, of x] by (auto simp: local_ops_def)
qed (auto simp: local_ops_def local_contents_named local_read_ok local_has_ok)

interpretation mem: blob_store mem_ops sha map_of "named_blobs sha" for sha
  by unfold_locales (auto simp: mem_ops_def mem_write_def mem_read_def mem_has_def named_blobs_set dict_simps dict_has_def,
      auto simp: named_blobs_def)

definition union_contents :: "unionstore \<Rightarrow> bytes \<rightharpoonup> bytes" where
  "union_contents st oid =
     (case map_of (memstore st) oid of Some x \<Rightarrow> Some x | None \<Rightarrow> local_contents (diskstore st) oid)"

definition union_ok :: "(bytes \<Rightarrow> bytes) \<Rightarrow> unionstore \<Rightarrow> bool" where
  "union_ok sha st \<longleftrightarrow> local_ok sha (diskstore st) \<and> named_blobs sha (memstore st)"

lemma union_write_ok:
  assumes "union_ok sha st"
  shows "\<exists>st'. union_write sha (sha x) x st = Inr st' \<and> union_ok sha st' \<and>
    (union_contents st' = (union_contents st)(sha x \<mapsto> x) \<or> (union_contents st (sha x) \<noteq> None \<and> union_contents st' = union_contents st))"
proof -
  obtain d where "local_write sha (sha x) x (diskstore st) = Inr d" "local_ok sha d"
      "local_contents d = (local_contents (diskstore st))(sha x \<mapsto> x)"
    using assms local_write_ok [of sha "diskstore st" x] by (auto simp: union_ok_def)
  then show ?thesis
    using assms by (cases "map_of (memstore st) (sha x)")
      (auto simp: union_write_def union_ok_def union_contents_def fun_eq_iff split: option.splits)
qed

lemma union_read_ok:
  assumes "union_ok sha st" "union_contents st oid = Some x"
  shows "\<exists>st'. union_read oid st = Inr (x, st') \<and> union_ok sha st' \<and> union_contents st' = union_contents st"
  using assms local_read_ok [of sha "diskstore st" oid x]
  by (cases "map_of (memstore st) oid")
     (auto simp: union_read_def union_ok_def union_contents_def mem_has_def mem_read_def dict_has_def fun_eq_iff split: option.splits)

interpretation uni: blob_store "union_ops sha" sha union_contents "union_ok sha" for sha
proof unfold_locales
  show "sha x = oid" if "union_ok sha st" "union_contents st oid = Some x" for st oid x
    using that local_contents_named [of sha "diskstore st"]
    by (auto simp: union_ok_def union_contents_def named_blobs_def split: option.splits)
  show "st_has (union_ops sha) oid st = Inr True" if "union_ok sha st" "union_contents st oid = Some x" for st oid x
    using that local_has_ok [of sha "diskstore st"]
    by (auto simp: union_ok_def union_contents_def union_ops_def union_has_def mem_has_def dict_has_def split: option.splits)
qed (use union_write_ok union_read_ok in \<open>auto simp: union_ops_def\<close>)

end
