(* ===== verification/Spec2Isabelle.thy ===== *)
theory Spec2Isabelle
  imports Lazyancestors Deepest Simplemerge Base85 Genset Diffblocks Transaction Lru Dirstate Setdiscovery Storepath Cborround Blobstore
begin

text \<open>
  The version control core of Eden (\<open>src/eden/scm/edenscm/mercurial\<close>), a Python program derived from
  Mercurial: the pure algorithms on its commit graph and on texts, the binary formats it stores, the
  sets its queries evaluate to, and the stateful objects that keep its store consistent.

  \<^bold>\<open>How the code is modelled.\<close> Python functions are HOL functions on the same data. Revision
  numbers are integers with \<open>nullrev = -1\<close>; byte strings are lists of characters; a list is a list, a
  set of revisions a \<open>set\<close>, a dictionary an association list in order of insertion (\<open>Pydict\<close>).
  Objects are records, and a method that changes its object returns it; where the
  code shares mutable objects (the nodes of the cache, the buffer of \<open>mpatch\<close>, the cache of a \<open>generatorset\<close>
  that several iterators read), the store is explicit. Exceptions are values: \<open>'a res\<close>
  is \<open>pyerror + 'a\<close> (\<open>Prelude\<close>). Loops are structural recursion, \<open>function\<close> with a measure, or, where the code may run
  forever, \<open>partial_function (option)\<close>, with proofs that the loops end (and, for three malformed inputs, that
  they do not). No fuel is used. Fixed-width integers occur in packed records only; \<open>struct.pack\<close>
  raises where a value does not fit.

  \<^bold>\<open>Shared theories.\<close> \<open>Prelude\<close>: exceptions, results, \<open>range\<close>. \<open>Pydict\<close>, \<open>Pybytes\<close>, \<open>Pyfmt\<close>: Python dictionaries,
  slices, splitting, \<open>struct\<close>, number formatting. \<open>Dag\<close>: ancestors and heads of a
  numbered graph and the locale \<open>dag\<close>, in which the graph lemmas are proved; it is interpreted on every parent function that
  numbers parents below children. \<open>Difflib\<close>: the matching blocks of \<open>difflib.SequenceMatcher\<close>.

  \<^bold>\<open>The commit graph.\<close> \<open>Ancestor\<close>, \<open>Deepest\<close> and \<open>Lazyancestors\<close> model all of \<open>ancestor.py\<close>: the bit masks of
  \<open>commonancestorsheads\<close> find exactly the heads of the common ancestors, \<open>ancestors\<close> raises no \<open>KeyError\<close>,
  \<open>incrementalmissingancestors\<close> computes set differences while its bases grow, and the lazy iteration and
  membership tests of \<open>lazyancestors\<close> agree. \<open>Dagutil\<close> models \<open>dagutil.py\<close>, the graph of a revlog and its lazily
  collected inverse: walks end and give ancestors and descendants, \<open>linearize\<close> is a
  topological order. \<open>Setdiscovery\<close> models \<open>setdiscovery.py\<close> on top of both: whatever samples are chosen, discovery ends
  and finds what two repositories share. The remote repository, the order in which Python iterates sets
  and \<open>random.sample\<close> are arguments there, with what is assumed of them in \<open>environment_ok\<close> and \<open>remote_ok\<close>.

  \<^bold>\<open>Revision sets.\<close> \<open>Smartset\<close> models the classes of \<open>smartset.py\<close> (\<open>baseset\<close>, \<open>filteredset\<close>, \<open>addset\<close>,
  \<open>generatorset\<close>, \<open>_spanset\<close>, the native span set and \<open>fullreposet\<close>) with their fast paths and cached states as one datatype;
  \<open>Smartset_ops\<close> proves that every query agrees with iteration and that the set operations, sorting, reversing and
  slicing do what their specification, the locale \<open>smartset_spec\<close>, says. \<open>Genset\<close> models \<open>generatorset\<close> again as the object it is,
  with its generator, caches and interleaved iterators, and shows that it refines the set of all its values.

  \<^bold>\<open>Texts.\<close> \<open>Bdiff\<close> and \<open>Mpatch\<close> model \<open>pure/bdiff.py\<close> and \<open>pure/mpatch.py\<close>: the delta of two texts,
  applied by the fragment lists of \<open>patches\<close> on a shared buffer, gives the new text. \<open>Mdiff\<close>, \<open>Unidiff\<close> and \<open>Diffblocks\<close>
  model \<open>mdiff.py\<close>: the hunks of a unified diff, read back, turn the old text into the new one; line ranges are translated;
  blocks are split at blank lines. The block matcher is an argument with the locale \<open>block_matcher\<close> as its contract,
  interpreted on \<open>Bdiff\<close>. \<open>Simplemerge\<close> models \<open>simplemerge.py\<close> and shows that its groups are those of a chunk-wise three-way
  merge. \<open>Base85\<close> models \<open>pure/base85.py\<close>.

  \<^bold>\<open>Storage.\<close> \<open>Index\<close> and \<open>Dirstate\<close> model \<open>pure/parsers.py\<close> and \<open>revlogio.packentry\<close>: what is packed is parsed
  back. \<open>Transaction\<close> models \<open>transaction.py\<close> on a file system of named files: aborting, and recovering
  from the journals after an interruption at any point, restore every file. \<open>Storepath\<close> models the file name encodings of
  \<open>store.py\<close>: names are decoded again, different paths have different names unless they are hashed, and names are short
  and portable; SHA-1 is an argument. \<open>Lru\<close> models
  \<open>util.lrucachedict\<close> with its ring of nodes and proves, through the locale \<open>simulation\<close>, that it answers like a bounded list of entries.

  \<^bold>\<open>What the properties assume.\<close> Parent functions number parents below children; texts and offsets fit the 32 bits of the
  delta format; file names in journals hold neither NUL nor line breaks; clients of a transaction
  register a file before they change it; sample sizes are positive. Every property with hypotheses
  has a witness at a concrete input.

  \<^bold>\<open>Not modelled.\<close> Output to the user, progress, timing and logging. The objects that tie the modelled parts
  together (repository, contexts, dirstate object, manifests, exchange, commands, extensions) mostly drive files,
  processes, the network and native code that is not part of these sources. The query and template languages
  reach through all of them. Of \<open>revlog.py\<close> and \<open>changelog.py\<close> only the methods the graph needs are modelled, of \<open>util.py\<close>
  the cache and the helpers that modelled code calls, of \<open>posix.py\<close> and \<open>vfs.py\<close> single path functions.
  EdenFS itself is C++ and Rust; its Python command line manages processes and mounts.
\<close>

end
